(* ===== verification/Prelude.thy ===== *)
theory Prelude
  imports Main "HOL-Library.Word"
begin

unbundle bit_operations_syntax

text \<open>
  Shared vocabulary of the development.  Rust's \<open>Result\<close> is the datatype \<open>outcome\<close>, which also
  has a value for a panic (a failed assertion, an index out of range, an arithmetic overflow) and
  one for a loop that never returns, so that none of the four ways a Rust call can end is hidden.
  The theory also holds the byte-level vocabulary (\<open>to_be_bytes\<close>, \<open>to_le_bytes\<close>), the
  \<open>overflowing\<close> and \<open>wrapping\<close> primitives of Rust's integers, slice chunking, and the lemmas on
  lists and words that several components use.
\<close>

section \<open>Results\<close>

datatype ('a, 'e) outcome = Ok 'a | Err 'e | Panic | Diverge

text \<open>The operator \<open>?\<close> of Rust: go on with the value of an \<open>Ok\<close>, return anything else.\<close>

fun and_then :: "('a, 'e) outcome \<Rightarrow> ('a \<Rightarrow> ('b, 'e) outcome) \<Rightarrow> ('b, 'e) outcome" where
  "and_then (Ok x) f = f x"
| "and_then (Err e) f = Err e"
| "and_then Panic f = Panic"
| "and_then Diverge f = Diverge"

fun map_err :: "('e \<Rightarrow> 'd) \<Rightarrow> ('a, 'e) outcome \<Rightarrow> ('a, 'd) outcome" where
  "map_err f (Ok x) = Ok x"
| "map_err f (Err e) = Err (f e)"
| "map_err f Panic = Panic"
| "map_err f Diverge = Diverge"

fun is_Ok :: "('a, 'e) outcome \<Rightarrow> bool" where
  "is_Ok (Ok _) = True"
| "is_Ok _ = False"

lemma and_then_eq_Ok_iff [simp]:
  "and_then m f = Ok y \<longleftrightarrow> (\<exists>x. m = Ok x \<and> f x = Ok y)"
  by (cases m) auto

lemma map_err_eq_Ok_iff [simp]: "map_err f m = Ok x \<longleftrightarrow> m = Ok x"
  by (cases m) auto

lemma and_then_assoc: "and_then (and_then m f) g = and_then m (\<lambda>x. and_then (f x) g)"
  by (cases m) auto

lemma and_then_cong: "m = m' \<Longrightarrow> (\<And>x. m' = Ok x \<Longrightarrow> f x = g x) \<Longrightarrow> and_then m f = and_then m' g"
  by (cases m') simp_all

text \<open>A \<open>for\<close> loop over a slice whose body threads a state and may fail.\<close>

fun for_each :: "('x \<Rightarrow> 's \<Rightarrow> ('s, 'e) outcome) \<Rightarrow> 'x list \<Rightarrow> 's \<Rightarrow> ('s, 'e) outcome" where
  "for_each f [] s = Ok s"
| "for_each f (x # xs) s = and_then (f x s) (for_each f xs)"

lemma for_each_append: "for_each f (xs @ ys) s = and_then (for_each f xs s) (for_each f ys)"
proof (induction xs arbitrary: s)
  case Nil
  then show ?case by simp
next
  case (Cons x xs)
  then have "for_each f (xs @ ys) = (\<lambda>s. and_then (for_each f xs s) (for_each f ys))"
    by blast
  then show ?case by (simp add: and_then_assoc)
qed

lemma for_each_snoc: "for_each f (xs @ [x]) s = and_then (for_each f xs s) (f x)"
proof -
  have "and_then m (for_each f []) = m" for m :: "('a, 'b) outcome" by (cases m) simp_all
  then have "for_each f [x] = f x" by (intro ext) simp
  then show ?thesis by (simp add: for_each_append del: for_each.simps)
qed

lemma for_each_pure:
  assumes "\<And>x s. x \<in> set xs \<Longrightarrow> f x s = Ok (g x s)"
  shows "for_each f xs s = Ok (fold g xs s)"
  using assms by (induction xs arbitrary: s) auto

text \<open>A loop that may run forever is a partial function into \<open>option\<close>; not returning is \<open>Diverge\<close>.\<close>

fun returned :: "('a, 'e) outcome option \<Rightarrow> ('a, 'e) outcome" where
  "returned (Some r) = r"
| "returned None = Diverge"

section \<open>Bytes and machine integers\<close>

type_synonym byte = "8 word"
type_synonym bytes = "byte list"
type_synonym u16 = "16 word"
type_synonym u32 = "32 word"
type_synonym u64 = "64 word"
type_synonym u128 = "128 word"

text \<open>A \<open>usize\<close> is a natural number below \<open>usize_bound\<close>: the targets of the crate are 64-bit.\<close>

definition usize_bound :: nat where
  "usize_bound = 2 ^ 64"

text \<open>The little-endian and big-endian digits of a number, base 256.\<close>

fun le_bytes :: "nat \<Rightarrow> nat \<Rightarrow> bytes" where
  "le_bytes 0 n = []"
| "le_bytes (Suc k) n = of_nat (n mod 256) # le_bytes k (n div 256)"

definition be_bytes :: "nat \<Rightarrow> nat \<Rightarrow> bytes" where
  "be_bytes k n = rev (le_bytes k n)"

fun le_value :: "bytes \<Rightarrow> nat" where
  "le_value [] = 0"
| "le_value (b # bs) = unat b + 256 * le_value bs"

definition be_value :: "bytes \<Rightarrow> nat" where
  "be_value bs = le_value (rev bs)"

lemma length_le_bytes [simp]: "length (le_bytes k n) = k"
  by (induction k arbitrary: n) auto

lemma length_be_bytes [simp]: "length (be_bytes k n) = k"
  by (simp add: be_bytes_def)

lemma le_value_le_bytes: "le_value (le_bytes k n) = n mod 256 ^ k"
proof (induction k arbitrary: n)
  case 0
  then show ?case by simp
next
  case (Suc k)
  have "unat (of_nat (n mod 256) :: byte) = n mod 256"
    by (simp add: unat_of_nat)
  then show ?case
    using Suc by (simp add: mod_mult2_eq)
qed

lemma be_value_be_bytes: "be_value (be_bytes k n) = n mod 256 ^ k"
  by (simp add: be_value_def be_bytes_def le_value_le_bytes)

lemma le_value_bound: "le_value bs < 256 ^ length bs"
proof (induction bs)
  case Nil
  then show ?case by simp
next
  case (Cons b bs)
  have "unat b < 256"
    using unsigned_less [of b] by simp
  with Cons show ?case by simp
qed

lemma le_bytes_le_value: "le_bytes (length bs) (le_value bs) = bs"
proof (induction bs)
  case Nil
  then show ?case by simp
next
  case (Cons b bs)
  have "unat b < 256"
    using unsigned_less [of b] by simp
  with Cons show ?case by simp
qed

lemma be_value_bound: "be_value bs < 256 ^ length bs"
  using le_value_bound [of "rev bs"] by (simp add: be_value_def)

lemma be_bytes_be_value: "be_bytes (length bs) (be_value bs) = bs"
  using le_bytes_le_value [of "rev bs"] by (simp add: be_value_def be_bytes_def)

lemma le_bytes_Suc_last: "le_bytes (Suc k) n = le_bytes k n @ [of_nat (n div 256 ^ k mod 256)]"
proof (induction k arbitrary: n)
  case 0
  then show ?case by simp
next
  case (Suc k)
  have "le_bytes (Suc (Suc k)) n = of_nat (n mod 256) # le_bytes (Suc k) (n div 256)"
    by simp
  also have "\<dots> = of_nat (n mod 256) # le_bytes k (n div 256) @
      [of_nat (n div 256 div 256 ^ k mod 256)]"
    by (simp only: Suc)
  finally show ?case by (simp add: div_mult2_eq)
qed

lemma be_bytes_Suc: "be_bytes (Suc k) n = of_nat (n div 256 ^ k mod 256) # be_bytes k n"
  by (simp only: be_bytes_def le_bytes_Suc_last rev_append) simp

text \<open>Rust's \<open>overflowing_add\<close> and \<open>overflowing_sub\<close>: the wrapped result and the carry or borrow.\<close>

definition overflowing_add :: "'w::len word \<Rightarrow> 'w word \<Rightarrow> 'w word \<times> bool" where
  "overflowing_add x y = (x + y, 2 ^ LENGTH('w) \<le> uint x + uint y)"

definition overflowing_sub :: "'w::len word \<Rightarrow> 'w word \<Rightarrow> 'w word \<times> bool" where
  "overflowing_sub x y = (x - y, x < y)"

text \<open>A cast \<open>b as u64\<close> or \<open>b as u128\<close> of a \<open>bool\<close>.\<close>

definition of_flag :: "bool \<Rightarrow> 'w::len word" where
  "of_flag b = (if b then 1 else 0)"

section \<open>Slices\<close>

text \<open>\<open>slice xs i j\<close> is \<open>xs[i..j]\<close> for \<open>i \<le> j \<le> length xs\<close>.\<close>

definition slice :: "'a list \<Rightarrow> nat \<Rightarrow> nat \<Rightarrow> 'a list" where
  "slice xs i j = take (j - i) (drop i xs)"

text \<open>\<open>xs[off..off + len].copy_from_slice(new)\<close>.\<close>

definition copy_at :: "'a list \<Rightarrow> nat \<Rightarrow> 'a list \<Rightarrow> 'a list" where
  "copy_at xs off new = take off xs @ new @ drop (off + length new) xs"

lemma slice_append_middle [simp]:
  "slice (pre @ mid @ post) (length pre) (length pre + length mid) = mid"
  by (simp add: slice_def)

lemma length_slice [simp]: "j \<le> length xs \<Longrightarrow> length (slice xs i j) = j - i"
  by (simp add: slice_def)

text \<open>\<open>xs.chunks(n)\<close>: consecutive pieces of length \<open>n\<close>, the last one possibly shorter.  A chunk size
  of zero panics in Rust; callers pass a positive size.\<close>

function chunks :: "nat \<Rightarrow> 'a list \<Rightarrow> 'a list list" where
  "chunks n xs = (if xs = [] \<or> n = 0 then [] else take n xs # chunks n (drop n xs))"
  by pat_completeness auto
termination
  by (relation "measure (\<lambda>(n, xs). length xs)") auto

declare chunks.simps [simp del]

lemma chunks_Nil [simp]: "chunks n [] = []"
  by (simp add: chunks.simps)

lemma chunks_step:
  "xs \<noteq> [] \<Longrightarrow> 0 < n \<Longrightarrow> chunks n xs = take n xs # chunks n (drop n xs)"
  by (subst chunks.simps) simp

lemma concat_chunks: "0 < n \<Longrightarrow> concat (chunks n xs) = xs"
proof (induction n xs rule: chunks.induct)
  case (1 n xs)
  then show ?case
    by (cases "xs = []") (auto simp: chunks_step)
qed

lemma chunks_one: "chunks 1 xs = map (\<lambda>x. [x]) xs"
  by (induction xs) (auto simp: chunks_step)

section \<open>Powers of two\<close>

text \<open>Rust's \<open>usize::next_power_of_two\<close>: the least power of two at least as large as \<open>n\<close>.\<close>

function next_power_of_two_from :: "nat \<Rightarrow> nat \<Rightarrow> nat" where
  "next_power_of_two_from p n =
     (if p < n \<and> 0 < p then next_power_of_two_from (2 * p) n else p)"
  by pat_completeness auto
termination
  by (relation "measure (\<lambda>(p, n). n - p)") auto

declare next_power_of_two_from.simps [simp del]

definition next_power_of_two :: "nat \<Rightarrow> nat" where
  "next_power_of_two n = next_power_of_two_from 1 n"

lemma next_power_of_two_from_ge: "0 < p \<Longrightarrow> n \<le> next_power_of_two_from p n"
proof (induction p n rule: next_power_of_two_from.induct)
  case (1 p n)
  then show ?case by (subst next_power_of_two_from.simps) auto
qed

lemma next_power_of_two_from_power:
  "\<exists>e. next_power_of_two_from (2 ^ d) n = 2 ^ (d + e)"
proof (induction "2 ^ d :: nat" n arbitrary: d rule: next_power_of_two_from.induct)
  case (1 n d)
  show ?case
  proof (cases "2 ^ d < n")
    case True
    then obtain e where "next_power_of_two_from (2 ^ Suc d) n = 2 ^ (Suc d + e)"
      using 1 [of "Suc d"] by auto
    then have "next_power_of_two_from (2 ^ d) n = 2 ^ (d + Suc e)"
      using True by (subst next_power_of_two_from.simps) simp
    then show ?thesis by blast
  next
    case False
    then have "next_power_of_two_from (2 ^ d) n = 2 ^ (d + 0)"
      by (subst next_power_of_two_from.simps) simp
    then show ?thesis by blast
  qed
qed

lemma next_power_of_two_ge: "n \<le> next_power_of_two n"
  by (simp add: next_power_of_two_def next_power_of_two_from_ge)

lemma next_power_of_two_power: obtains d where "next_power_of_two n = 2 ^ d"
  using next_power_of_two_from_power [of 0 n] by (auto simp: next_power_of_two_def)

lemma next_power_of_two_pos [simp]: "0 < next_power_of_two n"
  by (metis next_power_of_two_power zero_less_numeral zero_less_power)

section \<open>Choice\<close>

text \<open>A \<open>subtle::Choice\<close> holds 0 or 1 and is used as a bit that is never branched on; \<open>choice\<close> is
  its value.  \<open>conditional_select\<close> on any type returns the second operand when the bit is set.\<close>

type_synonym choice = bool

definition xor_bool :: "bool \<Rightarrow> bool \<Rightarrow> bool" where
  "xor_bool a b = (a \<noteq> b)"

definition select :: "'a \<Rightarrow> 'a \<Rightarrow> choice \<Rightarrow> 'a" where
  "select a b c = (if c then b else a)"

lemma xor_bool_simps [simp]:
  "xor_bool a a = False" "xor_bool False a = a" "xor_bool a False = a"
  "xor_bool True a = (\<not> a)" "xor_bool a True = (\<not> a)"
  by (auto simp: xor_bool_def)

end
