(* ===== verification/Codec.thy ===== *)
theory Codec
  imports Prelude
begin

text \<open>
  The TLS wire encoding of \<^verbatim>\<open>src/codec.rs\<close>: the error type, the \<open>Cursor\<close> a decoder reads from,
  the encoders and decoders of the integers, and the four variable-length vector formats with their
  length prefixes.  A value of a type implementing \<open>Encode\<close> is encoded by a function that appends
  to a byte vector; one implementing \<open>Decode\<close> is decoded by a function on cursors.  A decoding
  parameter is an argument the caller has already applied.

  The crate reads multi-byte integers with the third-party package \<open>byteorder\<close>; its reader is the
  parameter \<open>rd\<close> of the decoders below, and \<open>byteorder\<close> is the locale that states the documented
  behaviour relied on.  The locale \<open>codec\<close> is the contract between an encoder and its decoder;
  every component with a wire format proves it for its own pair, and the vector formats are proved
  once against the contract.
\<close>

section \<open>Errors and cursors\<close>

text \<open>\<open>CodecError\<close> can box a \<open>FieldError\<close>, and \<open>FieldError\<close> can hold a \<open>CodecError\<close>.\<close>

datatype codec_error =
    Io
  | BytesLeftOver nat
  | LengthPrefixTooBig nat
  | LengthPrefixOverflow
  | Other boxed_error
  | UnexpectedValue
and boxed_error =
    BoxedField field_error
  | BoxedVdaf
  | TryFromIntError
and field_error =
    InputSizeMismatch
  | ShortRead
  | ModulusOverflow
  | FieldIo
  | FieldCodec codec_error
  | IntegerTryFrom
  | BitVectorTooLong

datatype cursor = Cursor (buffer: bytes) (position: nat)

type_synonym 'a encoder = "'a \<Rightarrow> bytes \<Rightarrow> (bytes, codec_error) outcome"
type_synonym 'a decoder = "cursor \<Rightarrow> ('a \<times> cursor, codec_error) outcome"

text \<open>\<open>Read::read_exact\<close> on a cursor: all the bytes asked for, or an I/O error.\<close>

definition read_exact :: "nat \<Rightarrow> bytes decoder" where
  "read_exact n c =
     (if n \<le> length (buffer c) - position c
      then Ok (take n (drop (position c) (buffer c)), Cursor (buffer c) (position c + n))
      else Err Io)"

definition get_decoded_with_param :: "'a decoder \<Rightarrow> bytes \<Rightarrow> ('a, codec_error) outcome" where
  "get_decoded_with_param dec bs =
     and_then (dec (Cursor bs 0)) (\<lambda>(decoded, c).
       if position c \<noteq> length bs
       then (if position c \<le> length bs then Err (BytesLeftOver (length bs - position c)) else Panic)
       else Ok decoded)"

definition get_encoded_with_param :: "'a encoder \<Rightarrow> 'a \<Rightarrow> (bytes, codec_error) outcome" where
  "get_encoded_with_param enc x = enc x []"

section \<open>Integers\<close>

definition unit_encode :: "unit encoder" where
  "unit_encode x bs = Ok bs"

definition unit_decode :: "unit decoder" where
  "unit_decode c = Ok ((), c)"

definition u8_encode :: "byte encoder" where
  "u8_encode x bs = Ok (bs @ [x])"

definition u8_decode :: "byte decoder" where
  "u8_decode c = and_then (read_exact 1 c) (\<lambda>(value, c'). Ok (value ! 0, c'))"

definition u16_encode :: "u16 encoder" where
  "u16_encode x bs = Ok (bs @ be_bytes 2 (unat x))"

definition u16_decode :: "(nat \<Rightarrow> nat decoder) \<Rightarrow> u16 decoder" where
  "u16_decode rd c = and_then (rd 2 c) (\<lambda>(n, c'). Ok (of_nat n, c'))"

text \<open>A 24-bit integer is kept in a \<open>u32\<close>; encoding writes its three lower bytes.\<close>

datatype U24 = U24 (u24_value: u32)

definition u24_encode :: "U24 encoder" where
  "u24_encode x bs = Ok (bs @ drop 1 (be_bytes 4 (unat (u24_value x))))"

definition u24_decode :: "(nat \<Rightarrow> nat decoder) \<Rightarrow> U24 decoder" where
  "u24_decode rd c = and_then (rd 3 c) (\<lambda>(n, c'). Ok (U24 (of_nat n), c'))"

definition u32_encode :: "u32 encoder" where
  "u32_encode x bs = Ok (bs @ be_bytes 4 (unat x))"

definition u32_decode :: "(nat \<Rightarrow> nat decoder) \<Rightarrow> u32 decoder" where
  "u32_decode rd c = and_then (rd 4 c) (\<lambda>(n, c'). Ok (of_nat n, c'))"

definition u64_encode :: "u64 encoder" where
  "u64_encode x bs = Ok (bs @ be_bytes 8 (unat x))"

definition u64_decode :: "(nat \<Rightarrow> nat decoder) \<Rightarrow> u64 decoder" where
  "u64_decode rd c = and_then (rd 8 c) (\<lambda>(n, c'). Ok (of_nat n, c'))"

section \<open>Vectors\<close>

text \<open>Encoding reserves the prefix, appends the items, then writes the length over the prefix.\<close>

definition encode_u8_items :: "'a encoder \<Rightarrow> bytes \<Rightarrow> 'a list \<Rightarrow> (bytes, codec_error) outcome" where
  "encode_u8_items enc bs items =
     (let len_offset = length bs in
      and_then (for_each enc items (bs @ [0])) (\<lambda>bs'.
        let len = length bs' - len_offset - 1 in
        if len < 2 ^ 8 then Ok (bs'[len_offset := of_nat len]) else Err LengthPrefixOverflow))"

definition encode_u16_items :: "'a encoder \<Rightarrow> bytes \<Rightarrow> 'a list \<Rightarrow> (bytes, codec_error) outcome" where
  "encode_u16_items enc bs items =
     (let len_offset = length bs in
      and_then (u16_encode 0 bs) (\<lambda>bs0.
      and_then (for_each enc items bs0) (\<lambda>bs'.
        let len = length bs' - len_offset - 2 in
        if len < 2 ^ 16 then Ok (copy_at bs' len_offset (be_bytes 2 len))
        else Err LengthPrefixOverflow)))"

definition encode_u24_items :: "'a encoder \<Rightarrow> bytes \<Rightarrow> 'a list \<Rightarrow> (bytes, codec_error) outcome" where
  "encode_u24_items enc bs items =
     (let len_offset = length bs in
      and_then (u24_encode (U24 0) bs) (\<lambda>bs0.
      and_then (for_each enc items bs0) (\<lambda>bs'.
        let len = length bs' - len_offset - 3 in
        if 2 ^ 32 \<le> len then Err LengthPrefixOverflow
        else if 0xffffff < len then Err LengthPrefixOverflow
        else Ok (copy_at bs' len_offset (drop 1 (be_bytes 4 len))))))"

definition encode_u32_items :: "'a encoder \<Rightarrow> bytes \<Rightarrow> 'a list \<Rightarrow> (bytes, codec_error) outcome" where
  "encode_u32_items enc bs items =
     (let len_offset = length bs in
      and_then (u32_encode 0 bs) (\<lambda>bs0.
      and_then (for_each enc items bs0) (\<lambda>bs'.
        let len = length bs' - len_offset - 4 in
        if len < 2 ^ 32 then Ok (copy_at bs' len_offset (be_bytes 4 len))
        else Err LengthPrefixOverflow)))"

text \<open>The loop of \<open>decode_items\<close> runs while the sub-cursor has not reached the end; an item decoder
  that consumes no input makes it run forever.\<close>

partial_function (option) decode_items_loop ::
  "'a decoder \<Rightarrow> nat \<Rightarrow> cursor \<Rightarrow> 'a list \<Rightarrow> (('a list \<times> cursor, codec_error) outcome) option" where
  "decode_items_loop dec len sub decoded =
     (if position sub < len
      then (case dec sub of
              Ok r \<Rightarrow> decode_items_loop dec len (snd r) (decoded @ [fst r])
            | Err e \<Rightarrow> Some (Err e)
            | Panic \<Rightarrow> Some Panic
            | Diverge \<Rightarrow> Some Diverge)
      else Some (Ok (decoded, sub)))"

definition decode_items :: "'a decoder \<Rightarrow> nat \<Rightarrow> 'a list decoder" where
  "decode_items dec len c =
     (let initial_position = position c;
          items_end = initial_position + len
      in if usize_bound \<le> items_end \<or> length (buffer c) < items_end
         then Err (LengthPrefixTooBig len)
         else
           let sub = Cursor (slice (buffer c) initial_position items_end) 0
           in and_then (returned (decode_items_loop dec len sub [])) (\<lambda>(decoded, sub').
                Ok (decoded, Cursor (buffer c) (initial_position + position sub'))))"

definition decode_u8_items :: "'a decoder \<Rightarrow> 'a list decoder" where
  "decode_u8_items dec c = and_then (u8_decode c) (\<lambda>(n, c'). decode_items dec (unat n) c')"

definition decode_u16_items :: "(nat \<Rightarrow> nat decoder) \<Rightarrow> 'a decoder \<Rightarrow> 'a list decoder" where
  "decode_u16_items rd dec c =
     and_then (u16_decode rd c) (\<lambda>(n, c'). decode_items dec (unat n) c')"

definition decode_u24_items :: "(nat \<Rightarrow> nat decoder) \<Rightarrow> 'a decoder \<Rightarrow> 'a list decoder" where
  "decode_u24_items rd dec c =
     and_then (u24_decode rd c) (\<lambda>(n, c'). decode_items dec (unat (u24_value n)) c')"

definition decode_u32_items :: "(nat \<Rightarrow> nat decoder) \<Rightarrow> 'a decoder \<Rightarrow> 'a list decoder" where
  "decode_u32_items rd dec c =
     and_then (u32_decode rd c) (\<lambda>(n, c').
       if unat n < usize_bound then decode_items dec (unat n) c'
       else Err (Other TryFromIntError))"

text \<open>The pattern \<open>for _ in 0..count \<close> that pushes one decoded item per iteration, used by every
  decoder of a vector whose length is known in advance.\<close>

fun decode_count :: "'a decoder \<Rightarrow> nat \<Rightarrow> 'a list decoder" where
  "decode_count dec 0 c = Ok ([], c)"
| "decode_count dec (Suc n) c =
     and_then (dec c) (\<lambda>(x, c'). and_then (decode_count dec n c') (\<lambda>(xs, c''). Ok (x # xs, c'')))"

section \<open>The contract of an encoder and its decoder\<close>

text \<open>\<open>valid\<close> delimits the values the pair is meant for and \<open>wire\<close> is their wire format.  A buffer
  always has fewer bytes than the address space.\<close>

locale codec =
  fixes enc :: "'a encoder"
    and dec :: "'a decoder"
    and valid :: "'a \<Rightarrow> bool"
    and wire :: "'a \<Rightarrow> bytes"
  assumes enc_wire: "valid x \<Longrightarrow> enc x bs = Ok (bs @ wire x)"
    and dec_wire: "valid x \<Longrightarrow> length (pre @ wire x @ post) < usize_bound \<Longrightarrow>
      dec (Cursor (pre @ wire x @ post) (length pre)) =
      Ok (x, Cursor (pre @ wire x @ post) (length pre + length (wire x)))"
begin

lemma get_roundtrip:
  assumes "valid x" and "length (wire x) < usize_bound"
  shows "and_then (get_encoded_with_param enc x) (get_decoded_with_param dec) = Ok x"
  using assms dec_wire [of x "[]" "[]"]
  by (simp add: get_encoded_with_param_def get_decoded_with_param_def enc_wire)

lemma get_decoded_left_over:
  assumes "valid x" and "post \<noteq> []" and "length (wire x @ post) < usize_bound"
  shows "get_decoded_with_param dec (wire x @ post) = Err (BytesLeftOver (length post))"
  using assms dec_wire [of x "[]" post] by (simp add: get_decoded_with_param_def)

lemma for_each_enc:
  assumes "\<forall>x \<in> set xs. valid x"
  shows "for_each enc xs bs = Ok (bs @ concat (map wire xs))"
  using assms by (induction xs arbitrary: bs) (auto simp: enc_wire)

lemma decode_count_wire:
  assumes "\<forall>x \<in> set xs. valid x" and "length (pre @ concat (map wire xs) @ post) < usize_bound"
  shows "decode_count dec (length xs) (Cursor (pre @ concat (map wire xs) @ post) (length pre)) =
    Ok (xs, Cursor (pre @ concat (map wire xs) @ post) (length pre + length (concat (map wire xs))))"
  using assms
proof (induction xs arbitrary: pre)
  case Nil
  then show ?case by simp
next
  case (Cons x xs)
  then have hd: "dec (Cursor (pre @ wire x @ (concat (map wire xs) @ post)) (length pre)) =
      Ok (x, Cursor (pre @ wire x @ (concat (map wire xs) @ post)) (length pre + length (wire x)))"
    by (intro dec_wire) simp_all
  from Cons.IH [of "pre @ wire x"] Cons.prems hd show ?case
    by (simp add: algebra_simps)
qed

lemma decode_items_loop_wire:
  assumes "\<forall>x \<in> set xs. valid x \<and> wire x \<noteq> []"
    and "length (pre @ concat (map wire xs)) < usize_bound"
  shows "decode_items_loop dec (length pre + length (concat (map wire xs)))
      (Cursor (pre @ concat (map wire xs)) (length pre)) acc =
    Some (Ok (acc @ xs, Cursor (pre @ concat (map wire xs))
      (length pre + length (concat (map wire xs)))))"
  using assms
proof (induction xs arbitrary: pre acc)
  case Nil
  then show ?case by (simp add: decode_items_loop.simps)
next
  case (Cons x xs)
  then have hd: "dec (Cursor (pre @ wire x @ concat (map wire xs)) (length pre)) =
      Ok (x, Cursor (pre @ wire x @ concat (map wire xs)) (length pre + length (wire x)))"
    by (intro dec_wire) simp_all
  from Cons.prems have "0 < length (wire x)" by simp
  with Cons.IH [of "pre @ wire x" "acc @ [x]"] Cons.prems hd show ?case
    by (subst decode_items_loop.simps) (simp add: algebra_simps)
qed

lemma decode_items_wire:
  assumes "\<forall>x \<in> set xs. valid x \<and> wire x \<noteq> []"
    and "length (pre @ concat (map wire xs) @ post) < usize_bound"
  shows "decode_items dec (length (concat (map wire xs)))
      (Cursor (pre @ concat (map wire xs) @ post) (length pre)) =
    Ok (xs, Cursor (pre @ concat (map wire xs) @ post)
      (length pre + length (concat (map wire xs))))"
  using decode_items_loop_wire [OF assms(1), of "[]" "[]"] assms(2)
  by (simp add: decode_items_def Let_def)

end

text \<open>A decoder that advances whenever it succeeds makes the loop of \<open>decode_items\<close> return.\<close>

definition advancing :: "'a decoder \<Rightarrow> bool" where
  "advancing dec \<longleftrightarrow> (\<forall>c x c'. dec c = Ok (x, c') \<longrightarrow> position c < position c')"

lemma decode_items_loop_returns:
  assumes "advancing dec"
  shows "\<exists>r. decode_items_loop dec len sub acc = Some r"
proof (induction "len - position sub" arbitrary: sub acc rule: less_induct)
  case less
  show ?case
  proof (cases "position sub < len \<and> is_Ok (dec sub)")
    case True
    then obtain x sub' where d: "dec sub = Ok (x, sub')"
      by (cases "dec sub") auto
    with assms have "position sub < position sub'"
      by (auto simp: advancing_def)
    with less [of sub' "acc @ [x]"] True d show ?thesis
      by (subst decode_items_loop.simps) simp
  next
    case False
    then show ?thesis
      by (subst decode_items_loop.simps) (cases "dec sub"; auto)
  qed
qed

lemma unit_loop_never_returns:
  assumes "decode_items_loop unit_decode len sub acc = Some r"
  shows "len \<le> position sub"
proof -
  have "dec = unit_decode \<longrightarrow> len \<le> position sub"
    if "decode_items_loop dec len sub acc = Some r" for dec len sub acc r
  proof (rule decode_items_loop.raw_induct
      [where P = "\<lambda>dec len sub acc r. dec = unit_decode \<longrightarrow> len \<le> position sub", OF _ that])
    fix f :: "unit decoder \<Rightarrow> nat \<Rightarrow> cursor \<Rightarrow> unit list \<Rightarrow> ((unit list \<times> cursor, codec_error) outcome) option"
      and dec len sub decoded y
    assume IH: "\<And>dec len sub decoded y. f dec len sub decoded = Some y \<Longrightarrow>
        dec = unit_decode \<longrightarrow> len \<le> position sub"
      and eq: "(if position sub < len
        then (case dec sub of Ok r \<Rightarrow> f dec len (snd r) (decoded @ [fst r])
              | Err e \<Rightarrow> Some (Err e) | Panic \<Rightarrow> Some Panic | Diverge \<Rightarrow> Some Diverge)
        else Some (Ok (decoded, sub))) = Some y"
    show "dec = unit_decode \<longrightarrow> len \<le> position sub"
      using eq IH by (fastforce simp: unit_decode_def split: if_splits)
  qed
  with assms show ?thesis by blast
qed

section \<open>Integers satisfy the contract\<close>

text \<open>
  The documented behaviour of \<open>ReadBytesExt::read_u16::<BigEndian>\<close> and its siblings for three, four
  and eight bytes: they read exactly that many bytes and return the big-endian number they hold.
\<close>

locale byteorder =
  fixes rd :: "nat \<Rightarrow> nat decoder"
  assumes rd_be: "n \<in> {2, 3, 4, 8} \<Longrightarrow>
    rd n c = and_then (read_exact n c) (\<lambda>(bs, c'). Ok (be_value bs, c'))"
begin

lemma rd_wire:
  assumes "length bs \<in> {2, 3, 4, 8}"
  shows "rd (length bs) (Cursor (pre @ bs @ post) (length pre)) =
    Ok (be_value bs, Cursor (pre @ bs @ post) (length pre + length bs))"
  using assms by (simp add: rd_be read_exact_def)

lemmas rd_wire_be = rd_wire [of "be_bytes k m" for k m, simplified]

lemma rd_wire_value:
  assumes "k \<in> {2, 3, 4, 8}" and "m < 256 ^ k"
  shows "rd k (Cursor (pre @ be_bytes k m @ post) (length pre)) =
    Ok (m, Cursor (pre @ be_bytes k m @ post) (length pre + k))"
  using rd_wire_be [of k pre m post] assms by (simp add: be_value_be_bytes)

lemma rd_wire_word:
  assumes "k \<in> {2, 3, 4, 8}" and "LENGTH('w::len) = 8 * k"
  shows "rd k (Cursor (pre @ be_bytes k (unat (x::'w word)) @ post) (length pre)) =
    Ok (unat x, Cursor (pre @ be_bytes k (unat x) @ post) (length pre + k))"
proof (rule rd_wire_value)
  show "unat x < 256 ^ k"
    using unsigned_less [of x, where 'a = nat] assms(2) by (simp add: power_mult)
qed (rule assms(1))

end

interpretation u8: codec u8_encode u8_decode "\<lambda>_. True" "\<lambda>x. [x]"
  by unfold_locales (simp_all add: u8_encode_def u8_decode_def read_exact_def)

lemma drop_be_bytes_4: "drop 1 (be_bytes 4 m) = be_bytes 3 m"
  using be_bytes_Suc [of 3 m] by simp

sublocale byteorder \<subseteq> u16: codec u16_encode "u16_decode rd" "\<lambda>_. True" "\<lambda>x. be_bytes 2 (unat x)"
  by unfold_locales (simp_all add: u16_encode_def u16_decode_def rd_wire_word)

sublocale byteorder \<subseteq> u24: codec u24_encode "u24_decode rd" "\<lambda>x. unat (u24_value x) < 2 ^ 24"
    "\<lambda>x. be_bytes 3 (unat (u24_value x))"
  by unfold_locales
    (simp_all add: u24_encode_def u24_decode_def drop_be_bytes_4 [simplified] rd_wire_value)

sublocale byteorder \<subseteq> u32: codec u32_encode "u32_decode rd" "\<lambda>_. True" "\<lambda>x. be_bytes 4 (unat x)"
  by unfold_locales (simp_all add: u32_encode_def u32_decode_def rd_wire_word)

sublocale byteorder \<subseteq> u64: codec u64_encode "u64_decode rd" "\<lambda>_. True" "\<lambda>x. be_bytes 8 (unat x)"
  by unfold_locales (simp_all add: u64_encode_def u64_decode_def rd_wire_word)

section \<open>Vector formats\<close>

lemma copy_at_prefix [simp]:
  "length old = length new \<Longrightarrow> copy_at (bs @ old @ items) (length bs) new = bs @ new @ items"
  by (simp add: copy_at_def)

text \<open>What each vector encoder writes, and when it refuses, for items that satisfy the contract.\<close>

context codec
begin

abbreviation body :: "'a list \<Rightarrow> bytes" where
  "body xs \<equiv> concat (map wire xs)"

lemma encode_u8_items_wire:
  assumes "\<forall>x \<in> set xs. valid x"
  shows "encode_u8_items enc bs xs =
    (if length (body xs) < 2 ^ 8 then Ok (bs @ be_bytes 1 (length (body xs)) @ body xs)
     else Err LengthPrefixOverflow)"
  using for_each_enc [OF assms, of "bs @ [0]"] be_bytes_Suc [of 0 "length (body xs)"]
  by (simp add: encode_u8_items_def list_update_append be_bytes_def)

lemma encode_u16_items_wire:
  assumes "\<forall>x \<in> set xs. valid x"
  shows "encode_u16_items enc bs xs =
    (if length (body xs) < 2 ^ 16 then Ok (bs @ be_bytes 2 (length (body xs)) @ body xs)
     else Err LengthPrefixOverflow)"
  using for_each_enc [OF assms] by (simp add: encode_u16_items_def u16_encode_def)

lemma encode_u24_items_wire:
  assumes "\<forall>x \<in> set xs. valid x"
  shows "encode_u24_items enc bs xs =
    (if length (body xs) < 2 ^ 24 then Ok (bs @ be_bytes 3 (length (body xs)) @ body xs)
     else Err LengthPrefixOverflow)"
  using for_each_enc [OF assms] drop_be_bytes_4
  by (auto simp: encode_u24_items_def u24_encode_def Let_def)

lemma encode_u32_items_wire:
  assumes "\<forall>x \<in> set xs. valid x"
  shows "encode_u32_items enc bs xs =
    (if length (body xs) < 2 ^ 32 then Ok (bs @ be_bytes 4 (length (body xs)) @ body xs)
     else Err LengthPrefixOverflow)"
  using for_each_enc [OF assms] by (simp add: encode_u32_items_def u32_encode_def)

end

text \<open>
  A vector of items that satisfy the contract and occupy at least one byte each satisfies it again,
  in each of the four formats, as long as its body fits the length prefix.
\<close>

locale vector_codec = byteorder rd + codec enc dec valid wire
  for rd :: "nat \<Rightarrow> nat decoder"
    and enc :: "'a encoder" and dec :: "'a decoder" and valid :: "'a \<Rightarrow> bool" and wire :: "'a \<Rightarrow> bytes"
begin

definition fits :: "nat \<Rightarrow> 'a list \<Rightarrow> bool" where
  "fits k xs \<longleftrightarrow> (\<forall>x \<in> set xs. valid x \<and> wire x \<noteq> []) \<and> length (body xs) < 256 ^ k"

lemma decode_prefixed:
  assumes "fits k xs" and "length (pre @ be_bytes k (length (body xs)) @ body xs @ post) < usize_bound"
  shows "decode_items dec (length (body xs))
      (Cursor (pre @ be_bytes k (length (body xs)) @ body xs @ post) (length pre + k)) =
    Ok (xs, Cursor (pre @ be_bytes k (length (body xs)) @ body xs @ post)
      (length pre + k + length (body xs)))"
  using decode_items_wire [of xs "pre @ be_bytes k (length (body xs))" post] assms
  by (simp add: fits_def)

lemma prefix_word:
  assumes "n < 2 ^ LENGTH('w::len)"
  shows "unat (of_nat n :: 'w word) = n"
  using assms by (simp add: unat_of_nat take_bit_nat_eq_self)

sublocale u8_items: codec "\<lambda>xs bs. encode_u8_items enc bs xs" "decode_u8_items dec" "fits 1"
    "\<lambda>xs. be_bytes 1 (length (body xs)) @ body xs"
proof (unfold_locales, goal_cases)
  case (1 xs bs)
  then show ?case using encode_u8_items_wire [of xs bs] by (simp add: fits_def)
next
  case (2 xs pre post)
  moreover have "be_bytes 1 (length (body xs)) = [of_nat (length (body xs))]"
    using be_bytes_Suc [of 0 "length (body xs)"] 2(1)
    by (simp add: be_bytes_def fits_def)
  ultimately show ?case
    using decode_prefixed [of 1 xs pre post] prefix_word [of "length (body xs)", where 'w = 8]
      u8.dec_wire [of pre "of_nat (length (body xs))" "body xs @ post"]
    by (simp add: decode_u8_items_def fits_def)
qed

sublocale u16_items: codec "\<lambda>xs bs. encode_u16_items enc bs xs" "decode_u16_items rd dec" "fits 2"
    "\<lambda>xs. be_bytes 2 (length (body xs)) @ body xs"
proof (unfold_locales, goal_cases)
  case (1 xs bs)
  then show ?case using encode_u16_items_wire [of xs bs] by (simp add: fits_def)
next
  case (2 xs pre post)
  then show ?case
    using decode_prefixed [of 2 xs pre post] prefix_word [of "length (body xs)", where 'w = 16]
      u16.dec_wire [of pre "of_nat (length (body xs))" "body xs @ post"]
    by (simp add: decode_u16_items_def fits_def)
qed

sublocale u24_items: codec "\<lambda>xs bs. encode_u24_items enc bs xs" "decode_u24_items rd dec" "fits 3"
    "\<lambda>xs. be_bytes 3 (length (body xs)) @ body xs"
proof (unfold_locales, goal_cases)
  case (1 xs bs)
  then show ?case using encode_u24_items_wire [of xs bs] by (simp add: fits_def)
next
  case (2 xs pre post)
  then show ?case
    using decode_prefixed [of 3 xs pre post] prefix_word [of "length (body xs)", where 'w = 32]
      u24.dec_wire [of "U24 (of_nat (length (body xs)))" pre "body xs @ post"]
    by (simp add: decode_u24_items_def fits_def)
qed

sublocale u32_items: codec "\<lambda>xs bs. encode_u32_items enc bs xs" "decode_u32_items rd dec" "fits 4"
    "\<lambda>xs. be_bytes 4 (length (body xs)) @ body xs"
proof (unfold_locales, goal_cases)
  case (1 xs bs)
  then show ?case using encode_u32_items_wire [of xs bs] by (simp add: fits_def)
next
  case (2 xs pre post)
  then show ?case
    using decode_prefixed [of 4 xs pre post] prefix_word [of "length (body xs)", where 'w = 32]
      u32.dec_wire [of pre "of_nat (length (body xs))" "body xs @ post"]
    by (simp add: decode_u32_items_def fits_def usize_bound_def)
qed

end

section \<open>A reader\<close>

text \<open>The contract of the readers is met by reading the bytes and taking their value.\<close>

definition read_be :: "nat \<Rightarrow> nat decoder" where
  "read_be n c = and_then (read_exact n c) (\<lambda>(bs, c'). Ok (be_value bs, c'))"

interpretation be: byteorder read_be
  by unfold_locales (rule read_be_def)

interpretation be_vector: vector_codec read_be u8_encode u8_decode "\<lambda>_. True" "\<lambda>x. [x]"
  by unfold_locales

section \<open>Properties\<close>

context vector_codec
begin

lemma items_get_roundtrip:
  assumes "\<forall>x \<in> set xs. valid x \<and> wire x \<noteq> []" and "length (body xs) < 2 ^ 32"
  shows "length (body xs) < 2 ^ 8 \<Longrightarrow> and_then (get_encoded_with_param (\<lambda>xs bs. encode_u8_items enc bs xs) xs)
      (get_decoded_with_param (decode_u8_items dec)) = Ok xs"
    and "length (body xs) < 2 ^ 16 \<Longrightarrow> and_then (get_encoded_with_param (\<lambda>xs bs. encode_u16_items enc bs xs) xs)
      (get_decoded_with_param (decode_u16_items rd dec)) = Ok xs"
    and "length (body xs) < 2 ^ 24 \<Longrightarrow> and_then (get_encoded_with_param (\<lambda>xs bs. encode_u24_items enc bs xs) xs)
      (get_decoded_with_param (decode_u24_items rd dec)) = Ok xs"
    and "and_then (get_encoded_with_param (\<lambda>xs bs. encode_u32_items enc bs xs) xs)
      (get_decoded_with_param (decode_u32_items rd dec)) = Ok xs"
  using assms u8_items.get_roundtrip [of xs] u16_items.get_roundtrip [of xs] u24_items.get_roundtrip [of xs]
    u32_items.get_roundtrip [of xs]
  by (simp_all add: fits_def usize_bound_def)

end

text \<open>
  C39. Length-prefixed vectors survive a round trip in each of the four formats: for items whose own encoder and decoder
  agree and that occupy at least one byte each, decoding the encoded vector gives the vector back, as long as its body fits
  the length prefix.  The integer readers \<open>rd\<close> are those of the byteorder crate.
\<close>

theorem vector_roundtrip:
  assumes "byteorder rd" and "codec enc dec valid wire" and "\<forall>x \<in> set xs. valid x \<and> wire x \<noteq> []"
    and "length (concat (map wire xs)) < 2 ^ 32"
  shows "(length (concat (map wire xs)) < 2 ^ 8 \<longrightarrow>
      and_then (get_encoded_with_param (\<lambda>xs bs. encode_u8_items enc bs xs) xs)
        (get_decoded_with_param (decode_u8_items dec)) = Ok xs) \<and>
    (length (concat (map wire xs)) < 2 ^ 16 \<longrightarrow>
      and_then (get_encoded_with_param (\<lambda>xs bs. encode_u16_items enc bs xs) xs)
        (get_decoded_with_param (decode_u16_items rd dec)) = Ok xs) \<and>
    (length (concat (map wire xs)) < 2 ^ 24 \<longrightarrow>
      and_then (get_encoded_with_param (\<lambda>xs bs. encode_u24_items enc bs xs) xs)
        (get_decoded_with_param (decode_u24_items rd dec)) = Ok xs) \<and>
    and_then (get_encoded_with_param (\<lambda>xs bs. encode_u32_items enc bs xs) xs)
      (get_decoded_with_param (decode_u32_items rd dec)) = Ok xs"
  using vector_codec.items_get_roundtrip [OF vector_codec.intro [OF assms(1,2)] assms(3,4)] by blast


theorem vector_roundtrip_witness:
  "and_then (get_encoded_with_param (\<lambda>xs bs. encode_u8_items (u16_encode :: u16 encoder) bs xs) [1, 513])
    (get_decoded_with_param (decode_u8_items (u16_decode read_be))) = Ok [1, 513 :: u16]"
proof -
  have "be_bytes 2 n \<noteq> []" for n using length_be_bytes [of 2 n] by force
  then show ?thesis
    using vector_roundtrip [OF be.byteorder_axioms be.u16.codec_axioms, of "[1, 513]"] by simp
qed

text \<open>
  C40. The failures of the codec: a vector whose body does not fit its length prefix is refused with
  \<open>LengthPrefixOverflow\<close> (never written with a wrapped length), and a buffer with bytes after the value is refused with
  \<open>BytesLeftOver\<close> and their number.
\<close>

theorem codec_refuses:
  assumes "codec enc dec valid wire" and "\<forall>x \<in> set xs. valid x"
  shows "(2 ^ 8 \<le> length (concat (map wire xs)) \<longrightarrow> encode_u8_items enc bs xs = Err LengthPrefixOverflow) \<and>
    (2 ^ 16 \<le> length (concat (map wire xs)) \<longrightarrow> encode_u16_items enc bs xs = Err LengthPrefixOverflow) \<and>
    (2 ^ 24 \<le> length (concat (map wire xs)) \<longrightarrow> encode_u24_items enc bs xs = Err LengthPrefixOverflow) \<and>
    (2 ^ 32 \<le> length (concat (map wire xs)) \<longrightarrow> encode_u32_items enc bs xs = Err LengthPrefixOverflow) \<and>
    (\<forall>x post. valid x \<and> post \<noteq> [] \<and> length (wire x @ post) < usize_bound \<longrightarrow>
      get_decoded_with_param dec (wire x @ post) = Err (BytesLeftOver (length post)))"
  using codec.encode_u8_items_wire [OF assms, of bs] codec.encode_u16_items_wire [OF assms, of bs]
    codec.encode_u24_items_wire [OF assms, of bs] codec.encode_u32_items_wire [OF assms, of bs]
    codec.get_decoded_left_over [OF assms(1)]
  by simp


theorem codec_refuses_witness:
  "encode_u8_items u8_encode [] (replicate 256 7) = Err LengthPrefixOverflow \<and>
   get_decoded_with_param u8_decode [5, 6] = Err (BytesLeftOver 1)"
proof -
  have body: "length (concat (map (\<lambda>x. [x]) (replicate 256 (7 :: byte)))) = 256"
    by (simp add: length_concat sum_list_replicate)
  show ?thesis
    using codec_refuses [OF u8.codec_axioms, of "replicate 256 7" "[]"] unfolding body
    by (auto simp: usize_bound_def dest!: spec [of _ 5])
qed

end
