(* ===== verification/Modular.thy ===== *)
theory Modular
  imports Main
begin

text \<open>
  The number theory behind \<^verbatim>\<open>src/fp.rs\<close> and \<^verbatim>\<open>src/fp64.rs\<close>: primality by Proth's criterion
  (all three moduli of the crate have the form \<open>c * 2 ^ n + 1\<close> with \<open>c < 2 ^ n\<close>, and the generator
  of the crate's parameter tables is the witness the criterion asks for) and Fermat's little theorem,
  on which modular inversion by exponentiation rests.
\<close>

definition is_prime :: "nat \<Rightarrow> bool" where
  "is_prime p \<longleftrightarrow> 1 < p \<and> (\<forall>d. d dvd p \<longrightarrow> d = 1 \<or> d = p)"

lemma is_prime_coprime:
  assumes "is_prime p" and "0 < a" and "a < p"
  shows "coprime a p"
proof -
  have "gcd a p \<noteq> p"
    using assms(2,3) by (metis gcd_le1_nat leD less_not_refl2)
  moreover have "gcd a p dvd p" by simp
  ultimately have "gcd a p = 1"
    using assms(1) by (auto simp: is_prime_def)
  then show ?thesis by (simp add: coprime_iff_gcd_eq_1)
qed

section \<open>Proth's criterion\<close>

text \<open>Modulo a divisor \<open>d\<close> of the modulus, an element whose \<open>2 ^ (n - 1)\<close>-th power is \<open>-1\<close> has
  \<open>2 ^ n\<close> different powers, so \<open>d\<close> exceeds \<open>2 ^ n\<close>.\<close>

lemma odd_part:
  fixes e :: nat
  assumes "0 < e"
  shows "\<exists>k u. e = 2 ^ k * u \<and> odd u"
  using assms
proof (induction e rule: less_induct)
  case (less e)
  show ?case
  proof (cases "odd e")
    case True
    then show ?thesis by (intro exI [of _ 0] exI [of _ e]) simp
  next
    case False
    then obtain f where f: "e = 2 * f" by blast
    with less.prems obtain k u where "f = 2 ^ k * u \<and> odd u"
      using less.IH [of f] by auto
    with f show ?thesis by (intro exI [of _ "Suc k"] exI [of _ u]) simp
  qed
qed

lemma power_mod_eq:
  fixes a b d :: int
  assumes "a mod d = b mod d"
  shows "a ^ n mod d = b ^ n mod d"
  by (metis assms power_mod)

lemma neg_one_power_order:
  fixes b d :: int
  assumes neg: "b ^ (2 ^ m) mod d = (- 1) mod d" and "odd d" and "1 < d"
    and e: "0 < e" "e < 2 ^ Suc m"
  shows "b ^ e mod d \<noteq> 1 mod d"
proof
  assume one: "b ^ e mod d = 1 mod d"
  obtain k u where ku: "e = 2 ^ k * u" "odd u"
    using odd_part [OF e(1)] by blast
  then have "2 ^ k \<le> e" using e(1) by (cases u) auto
  with e(2) have "(2::nat) ^ k < 2 ^ Suc m" by linarith
  then have "k < Suc m" by (rule power_less_imp_less_exp [rotated]) simp
  then have "k \<le> m" by simp
  then have exp: "2 ^ m * u = e * 2 ^ (m - k)"
    by (simp add: ku mult.commute mult.left_commute flip: power_add)
  have "(- 1) mod d = ((- 1) ^ u) mod d"
    using ku(2) by simp
  also have "\<dots> = (b ^ (2 ^ m)) ^ u mod d"
    by (rule power_mod_eq) (simp add: neg)
  also have "\<dots> = (b ^ e) ^ (2 ^ (m - k)) mod d"
    by (simp add: exp flip: power_mult)
  also have "\<dots> = 1 ^ (2 ^ (m - k)) mod d"
    by (rule power_mod_eq) (rule one)
  finally have "(- 1) mod d = 1 mod d" by simp
  then have "d dvd 2" by (simp add: mod_eq_dvd_iff)
  with \<open>1 < d\<close> have "d = 2" using zdvd_imp_le [of d 2] by simp
  with \<open>odd d\<close> show False by simp
qed

lemma neg_one_powers_distinct:
  fixes b d :: int
  assumes neg: "b ^ (2 ^ m) mod d = (- 1) mod d" and "odd d" and "1 < d"
  shows "inj_on (\<lambda>i. b ^ i mod d) {..< 2 ^ Suc m}"
proof -
  have pow: "b ^ (2 ^ Suc m) mod d = 1 mod d"
    using power_mod_eq [OF neg, of 2] by (simp add: mult.commute flip: power_mult)
  have "\<not> b ^ i mod d = b ^ j mod d" if "i < j" "j < 2 ^ Suc m" for i j
  proof
    assume eq: "b ^ i mod d = b ^ j mod d"
    have "1 mod d = b ^ (2 ^ Suc m - i) * b ^ i mod d"
      using that pow by (simp flip: power_add)
    also have "\<dots> = b ^ (2 ^ Suc m - i) * b ^ j mod d"
      using eq by (metis mod_mult_right_eq)
    also have "\<dots> = b ^ (2 ^ Suc m) * b ^ (j - i) mod d"
      using that by (simp flip: power_add)
    also have "\<dots> = b ^ (j - i) mod d"
      using pow by (metis mod_mult_left_eq mult_1)
    finally show False
      using neg_one_power_order [OF assms, of "j - i"] that by (simp add: less_imp_diff_less)
  qed
  then show ?thesis
    by (auto simp: inj_on_def) (metis linorder_neqE_nat)
qed

lemma neg_one_divisor_large:
  fixes b d :: int
  assumes "b ^ (2 ^ m) mod d = (- 1) mod d" and "odd d" and "1 < d"
  shows "2 ^ Suc m \<le> d"
proof -
  let ?P = "(\<lambda>i. b ^ i mod d) ` {..< 2 ^ Suc m}"
  have "?P \<subseteq> {0..<d}" using assms(3) by auto
  then have "card ?P \<le> card {0..<d}" by (intro card_mono) auto
  moreover have "card ?P = 2 ^ Suc m"
    using neg_one_powers_distinct [OF assms] by (simp add: card_image)
  ultimately have "2 ^ Suc m \<le> nat d" by simp
  with assms(3) show ?thesis by (simp add: le_nat_iff)
qed

theorem proth:
  fixes p :: nat and b :: int
  assumes neg: "b ^ (2 ^ m) mod int p = int p - 1" and "odd p" and "1 < p"
    and small: "p < 2 ^ (2 * Suc m)"
  shows "is_prime p"
proof -
  have large: "2 ^ Suc m \<le> d" if "d dvd p" "1 < d" for d
  proof -
    have "odd d" using that(1) \<open>odd p\<close> by (metis dvd_trans)
    have "int d dvd int p" using that(1) by simp
    then have "b ^ (2 ^ m) mod int d = (int p - 1) mod int d"
      by (metis neg mod_mod_cancel)
    also have "\<dots> = (- 1) mod int d"
      using \<open>int d dvd int p\<close> by (simp add: mod_eq_dvd_iff)
    finally have "2 ^ Suc m \<le> int d"
      using neg_one_divisor_large [of b m "int d"] that(2) \<open>odd d\<close> by simp
    then show ?thesis by (metis of_nat_le_iff of_nat_numeral of_nat_power)
  qed
  have "d = 1 \<or> d = p" if "d dvd p" for d
  proof (rule ccontr)
    assume no: "\<not> (d = 1 \<or> d = p)"
    obtain k where k: "p = d * k" using \<open>d dvd p\<close> by blast
    with no \<open>1 < p\<close> have "1 < d" "1 < k"
      by (metis One_nat_def gr0I less_one mult_0 nat_neq_iff not_less_zero)
        (metis One_nat_def \<open>1 < p\<close> k less_one mult.right_neutral mult_0_right nat_neq_iff no not_less_zero)
    with large k have "2 ^ Suc m * 2 ^ Suc m \<le> d * k"
      by (intro mult_mono) auto
    then show False
      using small k by (simp only: mult_2 power_add)
  qed
  with \<open>1 < p\<close> show ?thesis by (simp add: is_prime_def)
qed

section \<open>Fermat's little theorem\<close>

lemma mod_mult_cancel:
  fixes a p :: nat
  assumes "coprime a p" and "a * x mod p = a * y mod p"
  shows "x mod p = y mod p"
proof -
  have "int (a * x) mod int p = int (a * y) mod int p"
    using assms(2) by (simp only: flip: of_nat_mod)
  then have "int p dvd int a * (int x - int y)"
    by (simp add: mod_eq_dvd_iff right_diff_distrib)
  moreover have "coprime (int p) (int a)"
    using assms(1) by (simp add: coprime_commute)
  ultimately have "int p dvd int x - int y"
    by (simp add: coprime_dvd_mult_right_iff)
  then have "int x mod int p = int y mod int p" by (simp add: mod_eq_dvd_iff)
  then show ?thesis by (simp flip: of_nat_mod)
qed

lemma prod_mod_nat: "finite A \<Longrightarrow> (\<Prod>x\<in>A. f x mod p) mod p = (\<Prod>x\<in>A. f x) mod (p::nat)"
proof (induction A rule: finite_induct)
  case empty
  then show ?case by simp
next
  case (insert x A)
  then show ?case by simp (metis mod_mult_eq mod_mod_trivial)
qed

theorem fermat:
  assumes "is_prime p" and "0 < a" and "a < p"
  shows "a ^ (p - 1) mod p = 1"
proof -
  let ?S = "{0<..<p}" and ?f = "\<lambda>x. a * x mod p"
  have p: "1 < p" using assms(1) by (simp add: is_prime_def)
  have cop: "coprime x p" if "x \<in> ?S" for x
    using that assms(1) is_prime_coprime by auto
  have inj: "inj_on ?f ?S"
  proof (rule inj_onI)
    fix x y assume "x \<in> ?S" and "y \<in> ?S" and eq: "?f x = ?f y"
    moreover have "coprime a p" using cop assms(2,3) by simp
    then have "x mod p = y mod p" using eq by (rule mod_mult_cancel)
    ultimately show "x = y" by simp
  qed
  have "?f x \<in> ?S" if "x \<in> ?S" for x
  proof -
    have "coprime (a * x) p" using cop that assms(2,3) by simp
    then have "\<not> p dvd a * x" using p coprime_common_divisor [of "a * x" p p] by auto
    then have "?f x \<noteq> 0" by (simp add: dvd_eq_mod_eq_0)
    then show ?thesis using p by simp
  qed
  then have "?f ` ?S = ?S"
    using inj by (intro endo_inj_surj) auto
  then have "(\<Prod>x\<in>?S. x) = (\<Prod>x\<in>?S. ?f x)"
    using prod.reindex [OF inj, of id] by simp
  then have "(\<Prod>x\<in>?S. x) mod p = (\<Prod>x\<in>?S. a * x) mod p"
    by (metis prod_mod_nat finite_greaterThanLessThan)
  also have "(\<Prod>x\<in>?S. a * x) = a ^ (p - 1) * (\<Prod>x\<in>?S. x)"
    by (simp add: prod.distrib)
  finally have eq: "(\<Prod>x\<in>?S. x) * 1 mod p = (\<Prod>x\<in>?S. x) * a ^ (p - 1) mod p"
    by (simp add: mult.commute)
  have "coprime (\<Prod>x\<in>?S. x) p"
    by (rule prod_coprime_left) (rule cop)
  then have "1 mod p = a ^ (p - 1) mod p"
    using eq by (rule mod_mult_cancel)
  then show ?thesis using p by simp
qed

section \<open>The three moduli\<close>

text \<open>Repeated squaring, the only evaluation the criterion needs.\<close>

primrec square_mod :: "nat \<Rightarrow> int \<Rightarrow> int \<Rightarrow> int" where
  "square_mod 0 p b = b"
| "square_mod (Suc k) p b = square_mod k p (b * b mod p)"

lemma square_mod_power: "square_mod k p b mod p = b ^ (2 ^ k) mod p"
proof (induction k arbitrary: b)
  case 0
  then show ?case by simp
next
  case (Suc k)
  have "(b * b mod p) ^ (2 ^ k) mod p = (b * b) ^ (2 ^ k) mod p"
    by (rule power_mod)
  also have "(b * b) ^ (2 ^ k) = b ^ (2 ^ Suc k)"
    by (simp flip: power2_eq_square power_mult)
  finally show ?case using Suc by simp
qed

lemma square_mod_add: "square_mod (j + k) p b = square_mod k p (square_mod j p b)"
  by (induction j arbitrary: b) auto

lemma proth_square:
  fixes p :: nat
  assumes "square_mod m (int p) b = int p - 1" and "odd p" and "1 < p" and "p < 2 ^ (2 * Suc m)"
  shows "is_prime p"
proof (rule proth)
  have "b ^ (2 ^ m) mod int p = (int p - 1) mod int p"
    using square_mod_power [of m "int p" b] assms(1) by simp
  also have "\<dots> = int p - 1"
    using assms(3) by (intro mod_pos_pos_trivial) auto
  finally show "b ^ (2 ^ m) mod int p = int p - 1" .
qed (use assms in auto)

text \<open>The bases are powers of the generators \<open>g\<close> of the parameter tables, out of the Montgomery
  domain.\<close>

lemma squares_32: "square_mod 15 4293918721 304234768 = 4293918720"
  by code_simp

lemma squares_64: "square_mod 31 18446744069414584321 1753635133440165772 = 18446744069414584320"
  by code_simp

lemma squares_128_first:
  "square_mod 32 340282366920938462946865773367900766209 311886411077723284703901582682233664808 =
     64696717124614176587478565245026814591"
  by code_simp

lemma squares_128_second:
  "square_mod 31 340282366920938462946865773367900766209 64696717124614176587478565245026814591 =
     340282366920938462946865773367900766208"
  by code_simp

theorem prime_32: "is_prime 4293918721"
  by (rule proth_square [of 15 _ 304234768]) (simp_all add: squares_32)

theorem prime_64: "is_prime 18446744069414584321"
  by (rule proth_square [of 31 _ 1753635133440165772]) (simp_all add: squares_64)

theorem prime_128: "is_prime 340282366920938462946865773367900766209"
proof (rule proth_square [of 63 _ 311886411077723284703901582682233664808])
  show "square_mod 63 (int 340282366920938462946865773367900766209)
      311886411077723284703901582682233664808 = int 340282366920938462946865773367900766209 - 1"
    using squares_128_first squares_128_second square_mod_add [of 32 31] by simp
qed simp_all

end
