(* ===== verification/Montgomery.thy ===== *)
theory Montgomery
  imports Modular
begin

text \<open>
  The contract of a modulus in Montgomery form, shared by the two implementations of field
  arithmetic (\<^verbatim>\<open>src/fp.rs\<close> on 128-bit words and \<^verbatim>\<open>src/fp64.rs\<close> on 64-bit words).  A representation
  \<open>x\<close> is canonical when its value is below the prime \<open>p\<close>; it stands for the residue
  \<open>elem x = val x * R\<^sup>-\<^sup>1 mod p\<close>.  From what \<open>add\<close>, \<open>sub\<close> and \<open>mul\<close> do to values the locale derives the
  laws of a field, exponentiation by squaring, and inversion by exponentiation.
\<close>

lemma fermat_int:
  fixes a p :: int
  assumes "is_prime (nat p)" and "0 < a" and "a < p"
  shows "a ^ (nat p - 1) mod p = 1"
proof -
  have "nat a ^ (nat p - 1) mod nat p = 1"
    using assms by (intro fermat) auto
  then have "int (nat a ^ (nat p - 1) mod nat p) = 1" by simp
  then show ?thesis using assms by (simp add: of_nat_mod)
qed

lemma mod_mult_cancel_int:
  fixes R p :: int
  assumes "coprime R p" and "x * R mod p = y * R mod p"
  shows "x mod p = y mod p"
proof -
  have "p dvd (x - y) * R" using assms(2) by (simp add: mod_eq_dvd_iff left_diff_distrib)
  with assms(1) have "p dvd x - y"
    by (simp add: coprime_dvd_mult_left_iff coprime_commute)
  then show ?thesis by (simp add: mod_eq_dvd_iff)
qed

locale montgomery =
  fixes p R :: int
    and val :: "'w \<Rightarrow> int"
    and add sub mul :: "'w \<Rightarrow> 'w \<Rightarrow> 'w"
    and zero one :: 'w
  assumes prime: "is_prime (nat p)"
    and R: "coprime R p" "p \<le> R"
    and val_inj: "val x = val y \<Longrightarrow> x = y"
    and val_ge_0: "0 \<le> val x"
    and val_zero: "val zero = 0"
    and val_one: "val one = R mod p"
    and val_add: "val x < p \<Longrightarrow> val y < p \<Longrightarrow> val (add x y) = (val x + val y) mod p"
    and val_sub: "val x < p \<Longrightarrow> val y < p \<Longrightarrow> val (sub x y) = (val x - val y) mod p"
    and val_mul_less: "val x * val y < R * p \<Longrightarrow> val (mul x y) < p"
    and val_mul: "val x * val y < R * p \<Longrightarrow> val (mul x y) * R mod p = val x * val y mod p"
begin

definition canon :: "'w \<Rightarrow> bool" where
  "canon x \<longleftrightarrow> val x < p"

lemma p_gt_1: "1 < p"
  using prime by (simp add: is_prime_def)

definition Rinv :: int where
  "Rinv = (R mod p) ^ (nat p - 2)"

lemma R_Rinv: "R * Rinv mod p = 1"
proof -
  have "\<not> p dvd R" using R(1) p_gt_1 coprime_common_divisor [of R p p] by auto
  then have "0 < R mod p" using p_gt_1 by (simp add: dvd_eq_mod_eq_0 order_less_le)
  then have "(R mod p) ^ (nat p - 1) mod p = 1"
    using p_gt_1 by (intro fermat_int prime) auto
  moreover have "(R mod p) ^ (nat p - 1) = (R mod p) * Rinv"
    using p_gt_1 by (simp add: Rinv_def flip: power_Suc) (simp add: Suc_diff_Suc numeral_2_eq_2)
  ultimately show ?thesis by (simp add: mod_mult_left_eq)
qed

definition elem :: "'w \<Rightarrow> int" where
  "elem x = val x * Rinv mod p"

lemma elem_bounds: "0 \<le> elem x" "elem x < p"
  using p_gt_1 by (simp_all add: elem_def)

lemma val_elem: "val x mod p = elem x * R mod p"
proof -
  have "elem x * R mod p = val x * (R * Rinv mod p) mod p"
    by (simp add: elem_def mod_mult_left_eq mod_mult_right_eq ac_simps)
  then show ?thesis by (simp add: R_Rinv)
qed

lemma elem_eqI:
  assumes "canon x" and "canon y" and "elem x = elem y"
  shows "x = y"
proof -
  have "val x mod p = val y mod p"
    using assms(3) by (simp add: val_elem)
  with assms(1,2) have "val x = val y"
    by (simp add: canon_def val_ge_0)
  then show ?thesis by (rule val_inj)
qed

lemma elem_times_R:
  assumes "v * R mod p = u mod p"
  shows "v mod p = u * Rinv mod p"
proof -
  have "u * Rinv mod p = v * R * Rinv mod p"
    using assms by (metis mod_mult_left_eq)
  also have "\<dots> = v * (R * Rinv mod p) mod p"
    by (simp add: mod_mult_right_eq ac_simps)
  finally show ?thesis by (simp add: R_Rinv)
qed

lemma canon_zero [simp]: "canon zero" and elem_zero [simp]: "elem zero = 0"
  using p_gt_1 by (simp_all add: canon_def val_zero elem_def)

lemma canon_one [simp]: "canon one" and elem_one [simp]: "elem one = 1"
  using p_gt_1 R_Rinv by (simp_all add: canon_def val_one elem_def mod_mult_left_eq)

lemma canon_add [simp]: "canon x \<Longrightarrow> canon y \<Longrightarrow> canon (add x y)"
  using p_gt_1 by (simp add: canon_def val_add)

lemma elem_add [simp]: "canon x \<Longrightarrow> canon y \<Longrightarrow> elem (add x y) = (elem x + elem y) mod p"
  by (simp add: canon_def val_add elem_def mod_mult_left_eq mod_add_eq distrib_right)

lemma canon_sub [simp]: "canon x \<Longrightarrow> canon y \<Longrightarrow> canon (sub x y)"
  using p_gt_1 by (simp add: canon_def val_sub)

lemma elem_sub [simp]: "canon x \<Longrightarrow> canon y \<Longrightarrow> elem (sub x y) = (elem x - elem y) mod p"
  by (simp add: canon_def val_sub elem_def mod_mult_left_eq mod_diff_eq left_diff_distrib)

lemma val_product:
  assumes "canon y" and "val x \<le> R"
  shows "val x * val y < R * p"
proof (cases "val x = 0")
  case True
  then show ?thesis using p_gt_1 R(2) by simp
next
  case False
  then have "val x * val y < val x * p"
    using assms(1) val_ge_0 [of x] by (simp add: canon_def)
  also have "\<dots> \<le> R * p" using assms(2) p_gt_1 by simp
  finally show ?thesis .
qed

lemma canon_le_R: "canon x \<Longrightarrow> val x \<le> R"
  using R(2) by (simp add: canon_def)

lemma canon_mul_any: "val x \<le> R \<Longrightarrow> canon y \<Longrightarrow> canon (mul x y)"
  by (simp add: canon_def val_mul_less val_product)

lemma elem_mul_any:
  assumes "val x \<le> R" and "canon y"
  shows "elem (mul x y) = elem x * elem y mod p"
proof -
  have "val (mul x y) mod p = val x * val y * Rinv mod p"
    using assms by (intro elem_times_R val_mul val_product)
  then have "elem (mul x y) = val x * val y * Rinv * Rinv mod p"
    by (simp add: elem_def) (metis mod_mult_left_eq)
  also have "\<dots> = elem x * elem y mod p"
    by (simp add: elem_def mod_mult_eq ac_simps)
  finally show ?thesis .
qed

lemma canon_mul [simp]: "canon x \<Longrightarrow> canon y \<Longrightarrow> canon (mul x y)"
  by (simp add: canon_mul_any canon_le_R)

lemma elem_mul [simp]: "canon x \<Longrightarrow> canon y \<Longrightarrow> elem (mul x y) = elem x * elem y mod p"
  by (simp add: elem_mul_any canon_le_R)

lemma elem_mod [simp]: "elem x mod p = elem x"
  by (simp add: elem_def)

section \<open>Ring laws\<close>

lemmas mod_ring = mod_add_left_eq mod_add_right_eq mod_mult_left_eq mod_mult_right_eq
  mod_diff_left_eq mod_diff_right_eq

lemma add_assoc: "canon x \<Longrightarrow> canon y \<Longrightarrow> canon z \<Longrightarrow> add (add x y) z = add x (add y z)"
  by (rule elem_eqI) (simp_all add: mod_ring add.assoc)

lemma add_commute: "canon x \<Longrightarrow> canon y \<Longrightarrow> add x y = add y x"
  by (rule elem_eqI) (simp_all add: add.commute)

lemma add_zero: "canon x \<Longrightarrow> add zero x = x"
  by (rule elem_eqI) simp_all

lemma sub_self: "canon x \<Longrightarrow> add (sub zero x) x = zero"
  by (rule elem_eqI) (simp_all add: mod_ring)

lemma sub_add: "canon x \<Longrightarrow> canon y \<Longrightarrow> sub x y = add x (sub zero y)"
  by (rule elem_eqI) (simp_all add: mod_ring)

lemma mul_assoc: "canon x \<Longrightarrow> canon y \<Longrightarrow> canon z \<Longrightarrow> mul (mul x y) z = mul x (mul y z)"
  by (rule elem_eqI) (simp_all add: mod_ring mult.assoc)

lemma mul_commute: "canon x \<Longrightarrow> canon y \<Longrightarrow> mul x y = mul y x"
  by (rule elem_eqI) (simp_all add: mult.commute)

lemma mul_one: "canon x \<Longrightarrow> mul one x = x"
  by (rule elem_eqI) simp_all

lemma distrib: "canon x \<Longrightarrow> canon y \<Longrightarrow> canon z \<Longrightarrow> mul (add x y) z = add (mul x z) (mul y z)"
  by (rule elem_eqI) (simp_all add: mod_ring mod_add_eq distrib_right)

lemma zero_neq_one: "zero \<noteq> one"
  using elem_one by (metis elem_zero zero_neq_one)

section \<open>Exponentiation by squaring\<close>

definition pow_bits :: "'w \<Rightarrow> (nat \<Rightarrow> bool) \<Rightarrow> nat \<Rightarrow> 'w \<Rightarrow> 'w" where
  "pow_bits x b n t =
     fold (\<lambda>i t. let t = mul t t in if b i then mul t x else t) (rev [0..<n]) t"

lemma pow_bits_simps:
  "pow_bits x b 0 t = t"
  "pow_bits x b (Suc n) t =
     pow_bits x b n (let t = mul t t in if b n then mul t x else t)"
  by (simp_all add: pow_bits_def)

lemma canon_pow_bits: "canon x \<Longrightarrow> canon t \<Longrightarrow> canon (pow_bits x b n t)"
  by (induction n arbitrary: t) (simp_all add: pow_bits_simps Let_def)

lemma power_square_step:
  "((a :: int) ^ 2 * y ^ (if c then 1 else 0)) ^ (2 ^ n) * y ^ e =
     a ^ (2 ^ Suc n) * y ^ (e + (if c then 2 ^ n else 0))"
proof -
  have "(a ^ 2 * y ^ (if c then 1 else 0)) ^ (2 ^ n) =
      a ^ (2 ^ Suc n) * y ^ (if c then 2 ^ n else 0)"
    by (simp only: power_mult_distrib power_mult [symmetric] power_Suc) simp
  then show ?thesis by (simp only: power_add ac_simps)
qed

lemma mod_power_mult: "((a :: int) mod m) ^ k * c mod m = a ^ k * c mod m"
  by (rule mod_mult_cong [OF power_mod refl])

lemma elem_pow_bits:
  assumes "canon x" and "canon t"
  shows "elem (pow_bits x b n t) =
    elem t ^ (2 ^ n) * elem x ^ (\<Sum>i<n. if b i then 2 ^ i else 0) mod p"
  using assms(2)
proof (induction n arbitrary: t)
  case 0
  then show ?case by (simp add: pow_bits_simps)
next
  case (Suc n)
  let ?s = "let t = mul t t in if b n then mul t x else t"
    and ?e = "\<Sum>i<n. if b i then 2 ^ i else 0 :: nat"
  have s: "canon ?s" and e: "elem ?s = elem t ^ 2 * elem x ^ (if b n then 1 else 0) mod p"
    using Suc.prems assms(1) by (simp_all add: Let_def power2_eq_square mod_mult_left_eq)
  have "elem (pow_bits x b (Suc n) t) = elem ?s ^ (2 ^ n) * elem x ^ ?e mod p"
    using Suc.IH [OF s] by (simp add: pow_bits_simps)
  also have "\<dots> = (elem t ^ 2 * elem x ^ (if b n then 1 else 0)) ^ (2 ^ n) * elem x ^ ?e mod p"
    unfolding e by (rule mod_power_mult)
  also have "\<dots> = elem t ^ (2 ^ Suc n) * elem x ^ (?e + (if b n then 2 ^ n else 0)) mod p"
    by (simp only: power_square_step)
  finally show ?case by (simp add: lessThan_Suc add.commute)
qed

lemma elem_inverse:
  assumes "canon x" and "x \<noteq> zero"
  shows "elem x ^ (nat p - 2) * elem x mod p = 1"
proof -
  have "elem x \<noteq> 0" using assms elem_eqI [of x zero] by auto
  then have "elem x ^ (nat p - 1) mod p = 1"
    using elem_bounds [of x] by (intro fermat_int prime) auto
  moreover have "nat p - 1 = Suc (nat p - 2)" using p_gt_1 by simp
  ultimately show ?thesis by (simp add: mult.commute)
qed

end

text \<open>
  Conversions in and out of the Montgomery domain multiply by \<open>r2 = R\<^sup>2 mod p\<close> and by the integer one.
\<close>

locale montgomery_domain = montgomery p R val add sub mul zero one
  for p R :: int and val :: "'w \<Rightarrow> int" and add sub mul :: "'w \<Rightarrow> 'w \<Rightarrow> 'w" and zero one :: 'w +
  fixes r2 unit :: "'w"
  assumes val_r2: "val r2 = R * R mod p"
    and val_unit: "val unit = 1"
    and R_gt_1: "1 < R"
begin

lemma canon_r2: "canon r2"
  using p_gt_1 by (simp add: canon_def val_r2)

lemma elem_mul_r2: "val x \<le> R \<Longrightarrow> elem (mul x r2) = val x mod p"
proof -
  assume x: "val x \<le> R"
  have "elem r2 = R * (R * Rinv mod p) mod p"
    by (simp add: elem_def val_r2 mod_mult_left_eq mod_mult_right_eq ac_simps)
  then have "elem r2 = R mod p" by (simp add: R_Rinv)
  with elem_mul_any [OF x canon_r2] show ?thesis
    by (simp add: mod_mult_right_eq flip: val_elem)
qed

lemma val_mul_unit:
  assumes "val x < p"
  shows "val (mul x unit) = elem x"
proof -
  have "val x * val unit < R * p"
    using assms mult_strict_right_mono [OF R_gt_1, of p] p_gt_1 unfolding val_unit by linarith
  from val_mul_less [OF this] elem_times_R [OF val_mul [OF this]]
  show ?thesis by (simp add: elem_def val_unit val_ge_0)
qed

end

text \<open>
  A table of roots of unity: \<open>root l\<close> squares to \<open>root (l - 1)\<close>, starting at one, and \<open>root 1\<close> is not one.
\<close>

fun square_chain :: "int \<Rightarrow> int \<Rightarrow> int list \<Rightarrow> bool" where
  "square_chain p R (r # s # rs) \<longleftrightarrow> s < p \<and> s * s mod p = r * R mod p \<and> square_chain p R (s # rs)"
| "square_chain p R _ \<longleftrightarrow> True"

text \<open>The same with the quotients as a certificate, so that only multiplications are evaluated.\<close>

fun square_chain_cert :: "int \<Rightarrow> int \<Rightarrow> int list \<Rightarrow> int list \<Rightarrow> bool" where
  "square_chain_cert p R (r # s # rs) (q # qs) \<longleftrightarrow>
     s < p \<and> s * s = r * R + q * p \<and> square_chain_cert p R (s # rs) qs"
| "square_chain_cert p R [r] [] \<longleftrightarrow> True"
| "square_chain_cert p R _ _ \<longleftrightarrow> False"

lemma square_chain_certI: "square_chain_cert p R rs qs \<Longrightarrow> square_chain p R rs"
  by (induction p R rs qs rule: square_chain_cert.induct) simp_all

lemma square_chain_nth:
  "square_chain p R rs \<Longrightarrow> Suc l < length rs \<Longrightarrow>
     rs ! Suc l < p \<and> rs ! Suc l * rs ! Suc l mod p = rs ! l * R mod p"
proof (induction p R rs arbitrary: l rule: square_chain.induct)
  case (1 p R r s rs)
  then show ?case by (cases l) simp_all
qed simp_all

locale montgomery_roots = montgomery p R val add sub mul zero one
  for p R :: int and val :: "'w \<Rightarrow> int" and add sub mul :: "'w \<Rightarrow> 'w \<Rightarrow> 'w" and zero one :: 'w +
  fixes root :: "nat \<Rightarrow> 'w option"
  assumes root_0: "root 0 = Some one"
    and root_Suc: "root (Suc l) = Some w \<Longrightarrow>
      val w < p \<and> (\<exists>v. root l = Some v \<and> val w * val w mod p = val v * R mod p)"
    and root_1: "root 1 = Some w \<Longrightarrow> w \<noteq> one"
begin

lemma root_canon: "root l = Some w \<Longrightarrow> canon w"
  using root_Suc [of "l - 1" w] root_0 canon_one by (cases l) (auto simp: canon_def)

lemma root_square:
  assumes "root (Suc l) = Some w" and "root l = Some v"
  shows "mul w w = v"
proof -
  have w: "canon w" and v: "canon v" using assms root_canon by blast+
  have "val w * val w mod p = val v * R mod p" using root_Suc [OF assms(1)] assms(2) by auto
  then have "elem v = val w * val w * Rinv * Rinv mod p"
    by (metis elem_def elem_times_R mod_mult_left_eq)
  also have "\<dots> = elem (mul w w)"
    using w by (subst elem_mul) (simp_all only: elem_def mod_mult_eq ac_simps)
  finally show ?thesis by (intro elem_eqI w v canon_mul) simp
qed

end

text \<open>
  The whole method set of a parameter table, as the field types use it: what the conversions,
  exponentiation, inversion and negation compute, in terms of the residue an element stands for.
\<close>

locale field_methods = montgomery_roots p R val add sub mul zero one root
  for p R :: int and val :: "'w \<Rightarrow> int" and add sub mul :: "'w \<Rightarrow> 'w \<Rightarrow> 'w" and zero one :: 'w
    and root :: "nat \<Rightarrow> 'w option" +
  fixes pow :: "'w \<Rightarrow> 'w \<Rightarrow> 'w" and inv neg mont resid :: "'w \<Rightarrow> 'w"
  assumes canon_pow: "canon x \<Longrightarrow> canon (pow x e)"
    and elem_pow: "canon x \<Longrightarrow> elem (pow x e) = elem x ^ nat (val e) mod p"
    and inv_pow: "\<exists>e. val e = p - 2 \<and> inv x = pow x e"
    and neg_sub: "neg x = sub zero x"
    and canon_mont: "canon (mont x)"
    and elem_mont: "elem (mont x) = val x mod p"
    and val_resid: "canon x \<Longrightarrow> val (resid x) = elem x"
begin

lemma canon_inv: "canon x \<Longrightarrow> canon (inv x)"
  using inv_pow canon_pow by metis

lemma inv_mul:
  assumes "canon x" and "x \<noteq> zero"
  shows "mul (inv x) x = one"
proof (rule elem_eqI)
  obtain e where e: "val e = p - 2" "inv x = pow x e" using inv_pow by blast
  have "elem (mul (inv x) x) = elem x ^ (nat p - 2) * elem x mod p"
    using assms(1) p_gt_1 nat_diff_distrib' [of p 2]
    by (simp add: canon_inv) (simp add: e elem_pow mod_mult_left_eq)
  then show "elem (mul (inv x) x) = elem one" by (simp add: elem_inverse assms)
qed (simp_all add: canon_inv assms)

lemma inv_zero: "2 < p \<Longrightarrow> inv zero = zero"
proof (rule elem_eqI)
  assume p: "2 < p"
  obtain e where e: "val e = p - 2" "inv zero = pow zero e" using inv_pow by blast
  show "elem (inv zero) = elem zero" using p by (simp add: e elem_pow zero_power)
qed (simp_all add: canon_inv)

lemma mont_resid: "canon x \<Longrightarrow> mont (resid x) = x"
  by (rule elem_eqI) (simp_all add: canon_mont elem_mont val_resid)

lemma val_resid_mont: "val (resid (mont x)) = val x mod p"
  by (simp add: val_resid canon_mont elem_mont)

end

end
