(* ===== verification/Fp.thy ===== *)
theory Fp
  imports Prelude Montgomery
begin

unbundle bit_operations_syntax

text \<open>
  Field arithmetic for moduli below \<open>2\<^sup>1\<^sup>2\<^sup>8\<close>, from \<^verbatim>\<open>src/fp.rs\<close>: the branch-free addition and subtraction,
  Montgomery multiplication on four 64-bit limbs, exponentiation, the conversions, and the two
  parameter tables.  The limb code is shown to compute \<open>x * y * R\<^sup>-\<^sup>1 mod p\<close> for every table that satisfies
  the contract \<open>fp_field\<close>, and both tables are shown to satisfy it.
\<close>

section \<open>Words\<close>

lemma mask_select:
  fixes z s :: "'w::len word"
  shows "(z AND (0 - of_flag b)) OR (s AND NOT (0 - of_flag b)) = (if b then z else s)"
  by (simp add: of_flag_def)

lemma mask_and:
  fixes z :: "'w::len word"
  shows "- of_flag b AND z = (if b then z else 0)"
  by (simp add: of_flag_def)

lemma uint_of_flag [simp]: "uint (of_flag b :: 'w::len word) = of_bool b"
  by (simp add: of_flag_def)

lemma of_flag_less [simp]: "(of_flag a :: 'w::len word) < of_flag b \<longleftrightarrow> \<not> a \<and> b"
  by (simp add: of_flag_def)

lemma uint_bound: "uint (x :: 'w::len word) < 2 ^ LENGTH('w)"
  by (rule unsigned_less)

lemma uint_sub_wrap:
  fixes x y :: "'w::len word"
  shows "uint (x - y) = (if uint y \<le> uint x then uint x - uint y else uint x - uint y + 2 ^ LENGTH('w))"
  by (simp add: uint_sub_if')

lemma uint_add_exact:
  fixes x y :: "'w::len word"
  assumes "uint x + uint y < 2 ^ LENGTH('w)"
  shows "uint (x + y) = uint x + uint y"
  using assms by (simp add: uint_word_arith_bintrs(1) take_bit_int_eq_self)

lemma uint_add_mod:
  fixes x y :: "'w::len word"
  shows "uint (x + y) = (uint x + uint y) mod 2 ^ LENGTH('w)"
  by (simp add: uint_word_arith_bintrs(1) take_bit_eq_mod)

lemma uint_mult_exact:
  fixes x y :: "'w::len word"
  assumes "uint x * uint y < 2 ^ LENGTH('w)"
  shows "uint (x * y) = uint x * uint y"
  using assms by (simp add: uint_word_arith_bintrs(3) take_bit_eq_mod)

lemma uint_mult_mod:
  fixes x y :: "'w::len word"
  shows "uint (x * y) = uint x * uint y mod 2 ^ LENGTH('w)"
  by (simp add: uint_word_arith_bintrs(3) take_bit_eq_mod)

text \<open>The conditional subtraction that ends \<open>add\<close> and \<open>mul\<close>: from \<open>(cc, z)\<close> below \<open>2 * p\<close>.\<close>

definition final_sub :: "'w::len word \<Rightarrow> 'w word \<Rightarrow> 'w word \<Rightarrow> 'w word" where
  "final_sub p cc z =
     (let (s0, b0) = overflowing_sub z p;
          (s1, b1) = overflowing_sub cc (of_flag b0);
          m = 0 - of_flag b1
      in (z AND m) OR (s0 AND NOT m))"

lemma uint_final_sub:
  fixes p cc z :: "'w::len word"
  assumes t: "t = uint cc * 2 ^ LENGTH('w) + uint z" and small: "t < 2 * uint p"
  shows "uint (final_sub p cc z) = (if t < uint p then t else t - uint p)"
proof -
  have p: "uint p < 2 ^ LENGTH('w)" and z: "0 \<le> uint z" by (rule uint_bound) simp
  have "\<not> 2 \<le> uint cc"
  proof
    assume "2 \<le> uint cc"
    then have "2 * 2 ^ LENGTH('w) \<le> uint cc * 2 ^ LENGTH('w)" by (intro mult_right_mono) auto
    with small t p z show False by linarith
  qed
  moreover have "0 \<le> uint cc" by simp
  ultimately consider "uint cc = 0" | "uint cc = 1" by linarith
  then show ?thesis
  proof cases
    case 1
    then have "cc = 0" by (simp add: uint_0_iff)
    with t show ?thesis
      by (auto simp: final_sub_def overflowing_sub_def mask_select of_flag_def uint_sub_wrap
          word_less_def Let_def)
  next
    case 2
    then have cc: "cc = 1" by (simp add: word_uint_eq_iff)
    have "uint z < uint p" and "\<not> t < uint p"
      using small t p z unfolding 2 by linarith+
    with cc t show ?thesis
      by (simp add: final_sub_def overflowing_sub_def mask_select of_flag_def uint_sub_wrap
          word_less_def Let_def)
  qed
qed

lemma mod_below_double:
  fixes t p :: int
  assumes "0 \<le> t" and "t < 2 * p"
  shows "t mod p = (if t < p then t else t - p)"
proof (cases "t < p")
  case False
  then have "t mod p = (t - p) mod p" by simp
  also have "\<dots> = t - p" using False assms by (intro mod_pos_pos_trivial) auto
  finally show ?thesis using False by simp
qed (use assms in simp)

lemma uint_add_final_sub:
  fixes x y p :: "'w::len word"
  assumes "uint x < uint p" and "uint y < uint p"
  shows "uint (final_sub p (of_flag (2 ^ LENGTH('w) \<le> uint x + uint y)) (x + y)) =
    (uint x + uint y) mod uint p"
proof -
  let ?cc = "of_flag (2 ^ LENGTH('w) \<le> uint x + uint y) :: 'w word"
  have "uint x + uint y < 2 * 2 ^ LENGTH('w)"
    using uint_bound [of x] uint_bound [of y] by linarith
  then have "uint x + uint y = uint ?cc * 2 ^ LENGTH('w) + uint (x + y)"
    by (auto simp: uint_add_mod mod_below_double)
  then have "uint (final_sub p ?cc (x + y)) =
      (if uint x + uint y < uint p then uint x + uint y else uint x + uint y - uint p)"
    by (rule uint_final_sub) (use assms in simp)
  then show ?thesis using assms by (simp add: mod_below_double)
qed

lemma uint_sub_add_back:
  fixes x y p :: "'w::len word"
  assumes "uint x < uint p" and "uint y < uint p"
  shows "uint (x - y + (- of_flag (x < y) AND p)) = (uint x - uint y) mod uint p"
proof (cases "x < y")
  case True
  then have "(uint x - uint y) mod uint p = (uint x - uint y + uint p) mod uint p"
    by simp
  also have "\<dots> = uint x - uint y + uint p"
    using True assms uint_ge_0 [of x] by (intro mod_pos_pos_trivial) (unfold word_less_def, linarith+)
  finally have r: "(uint x - uint y) mod uint p = uint x - uint y + uint p" .
  have "uint (x - y + p) = ((uint x - uint y) mod 2 ^ LENGTH('w) + uint p) mod 2 ^ LENGTH('w)"
    by (simp add: uint_add_mod uint_word_arith_bintrs(2) take_bit_eq_mod)
  also have "\<dots> = (uint x - uint y + uint p) mod 2 ^ LENGTH('w)"
    by (rule mod_add_left_eq)
  also have "\<dots> = uint x - uint y + uint p"
    using True assms uint_ge_0 [of x] uint_bound [of p]
    by (intro mod_pos_pos_trivial) (unfold word_less_def, linarith+)
  finally show ?thesis using True r by (simp add: mask_and)
next
  case False
  have "(uint x - uint y) mod uint p = uint x - uint y"
    using False assms uint_ge_0 [of y] by (intro mod_pos_pos_trivial) (unfold word_less_def, linarith+)
  with False show ?thesis by (simp add: mask_and uint_sub_wrap word_less_def)
qed

section \<open>Limbs\<close>

definition lo64 :: "u128 \<Rightarrow> u128" where
  "lo64 x = x AND (push_bit 64 1 - 1)"

definition hi64 :: "u128 \<Rightarrow> u128" where
  "hi64 x = drop_bit 64 x"

text \<open>The bases of one, two and three limbs.\<close>

abbreviation (input) B64 :: int where "B64 \<equiv> 18446744073709551616"
abbreviation (input) B128 :: int where "B128 \<equiv> 340282366920938463463374607431768211456"

lemma u128_bound: "uint (x::u128) < B128"
  using uint_bound [of x] by simp

lemma u64_bound: "uint (x::u64) < B64"
  using uint_bound [of x] by simp

lemma uint_lo64: "uint (lo64 x) = uint x mod B64"
proof -
  have "lo64 x = take_bit 64 x"
    by (simp add: lo64_def take_bit_eq_mask mask_eq_exp_minus_1 push_bit_of_1)
  then have "uint (lo64 x) = take_bit 64 (uint x)"
    by (simp only: unsigned_take_bit_eq)
  then show ?thesis by (simp add: take_bit_eq_mod)
qed

lemma uint_hi64: "uint (hi64 x) = uint x div B64"
proof -
  have "uint (hi64 x) = drop_bit 64 (uint x)"
    unfolding hi64_def using u128_bound [of x]
    by (simp only: unsigned_drop_bit_eq) (simp add: take_bit_int_eq_self)
  then show ?thesis by (simp add: drop_bit_eq_div)
qed

lemma lo64_bound: "uint (lo64 x) < B64"
  by (simp add: uint_lo64)

lemma hi64_bound: "uint (hi64 x) < B64"
  using u128_bound [of x] unfolding uint_hi64 by simp

lemma limb_split: "uint (lo64 x) + B64 * uint (hi64 x) = uint x"
  by (simp add: uint_lo64 uint_hi64)

lemma limb_hi_bound:
  fixes b :: int
  assumes "lo + b * hi \<le> (b - 1) * (b - 1)" and "0 \<le> lo" and "1 < b"
  shows "hi \<le> b - 2"
proof (rule ccontr)
  assume "\<not> hi \<le> b - 2"
  then have "b * (b - 1) \<le> b * hi" using assms(3) by (intro mult_left_mono) auto
  with assms show False by (simp add: algebra_simps)
qed

lemma limb_top_bound:
  fixes b :: int
  assumes "a0 + b * a1 + b * b * a2 + b * b * b * s < b * b * (b * b)"
    and "0 \<le> a0" "0 \<le> a1" "0 \<le> a2" "0 < b"
  shows "s < b"
proof -
  have "0 \<le> b * a1" "0 \<le> b * b * a2" using assms by simp_all
  then have "b * b * b * s < b * b * (b * b)" using assms(1,2) by linarith
  also have "b * b * (b * b) = b * b * b * b" by simp
  finally show ?thesis using assms(5) by (simp only: mult_less_cancel_left_pos mult_pos_pos)
qed

lemma limb_mult:
  assumes "uint a < B64" and "uint b < B64"
  shows "uint (lo64 (a * b)) + B64 * uint (hi64 (a * b)) = uint a * uint b"
    and "uint (hi64 (a * b)) \<le> B64 - 2"
proof -
  have le: "uint a * uint b \<le> (B64 - 1) * (B64 - 1)"
    using assms by (intro mult_mono) auto
  then have "uint (a * b) = uint a * uint b"
    by (intro uint_mult_exact) (simp add: le_less_trans [OF le])
  then show eq: "uint (lo64 (a * b)) + B64 * uint (hi64 (a * b)) = uint a * uint b"
    using limb_split [of "a * b"] by simp
  show "uint (hi64 (a * b)) \<le> B64 - 2"
    by (rule limb_hi_bound [of "uint (lo64 (a * b))"]) (use eq le in simp_all)
qed

lemma limb_add:
  assumes "uint a < B64" and "uint b < B64"
  shows "uint (lo64 (a + b)) + B64 * uint (hi64 (a + b)) = uint a + uint b"
    and "uint (hi64 (a + b)) \<le> 1"
proof -
  have "uint (a + b) = uint a + uint b"
    using assms by (intro uint_add_exact) simp
  then show eq: "uint (lo64 (a + b)) + B64 * uint (hi64 (a + b)) = uint a + uint b"
    using limb_split [of "a + b"] by simp
  have "0 \<le> uint (lo64 (a + b))" by simp
  with eq assms show "uint (hi64 (a + b)) \<le> 1" by linarith
qed

lemma limb_add_fits:
  assumes "uint a + uint b < B64"
  shows "uint (lo64 (a + b)) = uint a + uint b"
  using assms by (simp add: uint_lo64 uint_add_exact)

section \<open>Integer multiplication\<close>

definition mul_wide :: "u128 \<Rightarrow> u128 \<Rightarrow> u128 \<Rightarrow> u128 \<Rightarrow> u128 \<times> u128 \<times> u128 \<times> u128" where
  "mul_wide x0 x1 y0 y1 =
     (let result = x0 * y0;
          carry = hi64 result;
          zz0 = lo64 result;
          result = x0 * y1;
          hi = hi64 result;
          lo = lo64 result;
          result = lo + carry;
          zz1 = lo64 result;
          cc = hi64 result;
          result = hi + cc;
          zz2 = lo64 result;
          result = x1 * y0;
          hi = hi64 result;
          lo = lo64 result;
          result = zz1 + lo;
          zz1 = lo64 result;
          cc = hi64 result;
          result = hi + cc;
          carry = lo64 result;
          result = x1 * y1;
          hi = hi64 result;
          lo = lo64 result;
          result = lo + carry;
          lo = lo64 result;
          cc = hi64 result;
          result = hi + cc;
          hi = lo64 result;
          result = zz2 + lo;
          zz2 = lo64 result;
          cc = hi64 result;
          result = hi + cc;
          zz3 = lo64 result
      in (zz0, zz1, zz2, zz3))"

lemma mul_wide_sum:
  fixes b :: int
  assumes "lo0 + b * c1 = p00" "l2 + b * h2 = p01" "l5 + b * h5 = p10" "l8 + b * h8 = p11"
    and "lr3 + b * hr3 = l2 + c1" "lr4 = h2 + hr3" "lr6 + b * hr6 = lr3 + l5"
    and "lr7 = h5 + hr6" "lr9 + b * hr9 = l8 + lr7" "lr10 = h8 + hr9"
    and "lr11 + b * hr11 = lr4 + lr9"
  shows "lo0 + b * lr6 + b * b * lr11 + b * b * b * (lr10 + hr11) =
    p00 + b * p01 + b * p10 + b * b * p11"
proof -
  have "p00 + b * p01 + b * p10 + b * b * p11 =
      lo0 + b * (l2 + c1) + b * l5 + b * b * (h2 + h5 + l8) + b * b * b * h8"
    unfolding assms(1-4) [symmetric] by (simp add: algebra_simps)
  also have "\<dots> = lo0 + b * (lr3 + l5) + b * b * (hr3 + h2 + h5 + l8) + b * b * b * h8"
    unfolding assms(5) [symmetric] by (simp add: algebra_simps)
  also have "\<dots> = lo0 + b * lr6 + b * b * (lr4 + (l8 + lr7)) + b * b * b * h8"
    unfolding assms(7) [symmetric] assms(6,8) by (simp add: algebra_simps)
  also have "\<dots> = lo0 + b * lr6 + b * b * (lr4 + lr9) + b * b * b * lr10"
    unfolding assms(9) [symmetric] assms(10) by (simp add: algebra_simps)
  also have "\<dots> = lo0 + b * lr6 + b * b * lr11 + b * b * b * (lr10 + hr11)"
    unfolding assms(11) [symmetric] by (simp add: algebra_simps)
  finally show ?thesis by simp
qed

lemma mul_wide_correct:
  assumes "uint x0 < B64" "uint x1 < B64" "uint y0 < B64" "uint y1 < B64"
    and "mul_wide x0 x1 y0 y1 = (z0, z1, z2, z3)"
  shows "uint z0 + B64 * uint z1 + B64 * B64 * uint z2 + B64 * B64 * B64 * uint z3 =
    (uint x0 + B64 * uint x1) * (uint y0 + B64 * uint y1)"
    and "uint z0 < B64" "uint z1 < B64" "uint z2 < B64" "uint z3 < B64"
proof -
  define c1 where "c1 = hi64 (x0 * y0)"
  define l2 h2 where "l2 = lo64 (x0 * y1)" and "h2 = hi64 (x0 * y1)"
  define r3 where "r3 = l2 + c1"
  define r4 where "r4 = h2 + hi64 r3"
  define l5 h5 where "l5 = lo64 (x1 * y0)" and "h5 = hi64 (x1 * y0)"
  define r6 where "r6 = lo64 r3 + l5"
  define r7 where "r7 = h5 + hi64 r6"
  define l8 h8 where "l8 = lo64 (x1 * y1)" and "h8 = hi64 (x1 * y1)"
  define r9 where "r9 = l8 + lo64 r7"
  define r10 where "r10 = h8 + hi64 r9"
  define r11 where "r11 = lo64 r4 + lo64 r9"
  define r12 where "r12 = lo64 r10 + hi64 r11"
  note mults = c1_def l2_def h2_def l5_def h5_def l8_def h8_def
  note defs = mults r3_def r4_def r6_def r7_def r9_def r10_def r11_def r12_def
  have z: "z0 = lo64 (x0 * y0)" "z1 = lo64 r6" "z2 = lo64 r11" "z3 = lo64 r12"
    using assms(5) by (simp_all add: mul_wide_def Let_def defs)
  then show "uint z0 < B64" "uint z1 < B64" "uint z2 < B64" "uint z3 < B64"
    by (simp_all only: lo64_bound)
  note m1 = limb_mult [OF assms(1,3), folded mults] and m2 = limb_mult [OF assms(1,4), folded mults]
    and m5 = limb_mult [OF assms(2,3), folded mults] and m8 = limb_mult [OF assms(2,4), folded mults]
  have a3: "uint (lo64 r3) + B64 * uint (hi64 r3) = uint l2 + uint c1" "uint (hi64 r3) \<le> 1"
    unfolding r3_def l2_def c1_def by (rule limb_add; rule lo64_bound hi64_bound)+
  have a4: "uint (lo64 r4) = uint h2 + uint (hi64 r3)"
    unfolding r4_def by (rule limb_add_fits) (use m2(2) a3(2) in linarith)
  have a6: "uint (lo64 r6) + B64 * uint (hi64 r6) = uint (lo64 r3) + uint l5" "uint (hi64 r6) \<le> 1"
    unfolding r6_def l5_def by (rule limb_add; rule lo64_bound hi64_bound)+
  have a7: "uint (lo64 r7) = uint h5 + uint (hi64 r6)"
    unfolding r7_def by (rule limb_add_fits) (use m5(2) a6(2) in linarith)
  have a9: "uint (lo64 r9) + B64 * uint (hi64 r9) = uint l8 + uint (lo64 r7)" "uint (hi64 r9) \<le> 1"
    unfolding r9_def l8_def by (rule limb_add; rule lo64_bound hi64_bound)+
  have a10: "uint (lo64 r10) = uint h8 + uint (hi64 r9)"
    unfolding r10_def by (rule limb_add_fits) (use m8(2) a9(2) in linarith)
  have a11: "uint (lo64 r11) + B64 * uint (hi64 r11) = uint (lo64 r4) + uint (lo64 r9)"
    unfolding r11_def by (rule limb_add; rule lo64_bound)
  have total: "uint (lo64 (x0 * y0)) + B64 * uint (lo64 r6) + B64 * B64 * uint (lo64 r11)
        + B64 * B64 * B64 * (uint (lo64 r10) + uint (hi64 r11)) =
      (uint x0 + B64 * uint x1) * (uint y0 + B64 * uint y1)"
    using mul_wide_sum [OF m1(1) m2(1) m5(1) m8(1) a3(1) a4 a6(1) a7 a9(1) a10 a11]
    by (simp add: algebra_simps)
  have "(uint x0 + B64 * uint x1) * (uint y0 + B64 * uint y1) < B64 * B64 * (B64 * B64)"
    using assms(1-4) by (intro mult_strict_mono) auto
  then have "uint (lo64 r10) + uint (hi64 r11) < B64"
    unfolding total [symmetric] by (rule limb_top_bound) simp_all
  then have "uint (lo64 r12) = uint (lo64 r10) + uint (hi64 r11)"
    unfolding r12_def by (rule limb_add_fits)
  with total show "uint z0 + B64 * uint z1 + B64 * B64 * uint z2 + B64 * B64 * B64 * uint z3 =
      (uint x0 + B64 * uint x1) * (uint y0 + B64 * uint y1)"
    unfolding z by simp
qed

section \<open>Montgomery reduction\<close>

text \<open>
  One step of the reduction adds \<open>p * w\<close> to the number, where \<open>w\<close> is chosen so that the lowest limb
  becomes zero.  The same statements occur twice in the source, first on \<open>zz[0..3]\<close> and then on
  \<open>zz[1..4]\<close>; the limbs and the carry out of the third one are returned.
\<close>

definition redc_row :: "u128 \<Rightarrow> u128 \<Rightarrow> u64 \<Rightarrow> u128 \<Rightarrow> u128 \<Rightarrow> u128 \<Rightarrow> u128 \<times> u128 \<times> u128 \<times> u128" where
  "redc_row p0 p1 mu za zb zc =
     (let w = mu * ucast za;
          result = p0 * ucast w;
          hi = hi64 result;
          lo = lo64 result;
          result = za + lo;
          za = lo64 result;
          cc = hi64 result;
          result = hi + cc;
          carry = lo64 result;
          result = p1 * ucast w;
          hi = hi64 result;
          lo = lo64 result;
          result = lo + carry;
          lo = lo64 result;
          cc = hi64 result;
          result = hi + cc;
          hi = lo64 result;
          result = zb + lo;
          zb = lo64 result;
          cc = hi64 result;
          result = zc + hi + cc;
          zc = lo64 result;
          cc = hi64 result
      in (za, zb, zc, cc))"

lemma redc_row_sum:
  fixes b :: int
  assumes "l1 + b * h1 = q0" "l4 + b * h4 = q1"
    and "lr2 + b * hr2 = za + l1" "lr3 = h1 + hr2" "lr5 + b * hr5 = l4 + lr3"
    and "lr6 = h4 + hr5" "lr7 + b * hr7 = zb + lr5" "lr8 + b * hr8 = zc + lr6 + hr7"
  shows "lr2 + b * lr7 + b * b * lr8 + b * b * b * hr8 = za + b * zb + b * b * zc + (q0 + b * q1)"
proof -
  have "za + b * zb + b * b * zc + (q0 + b * q1) =
      (za + l1) + b * (h1 + l4 + zb) + b * b * (zc + h4)"
    unfolding assms(1,2) [symmetric] by (simp add: algebra_simps)
  also have "\<dots> = lr2 + b * ((l4 + lr3) + zb) + b * b * (zc + h4)"
    unfolding assms(3) [symmetric] assms(4) by (simp add: algebra_simps)
  also have "\<dots> = lr2 + b * (zb + lr5) + b * b * (zc + lr6)"
    unfolding assms(5) [symmetric] assms(6) by (simp add: algebra_simps)
  also have "\<dots> = lr2 + b * lr7 + b * b * (zc + lr6 + hr7)"
    unfolding assms(7) [symmetric] by (simp add: algebra_simps)
  also have "\<dots> = lr2 + b * lr7 + b * b * lr8 + b * b * b * hr8"
    unfolding assms(8) [symmetric] by (simp add: algebra_simps)
  finally show ?thesis by simp
qed

lemma uint_ucast_u128 [simp]: "uint (ucast (w::u64) :: u128) = uint w"
  by (simp add: unsigned_ucast_eq take_bit_int_eq_self less_trans [OF u64_bound])

lemma uint_ucast_u64: "uint (ucast (x::u128) :: u64) = uint x mod B64"
  by (simp add: unsigned_ucast_eq take_bit_eq_mod)

lemma redc_low_limb:
  fixes mu :: u64
  assumes "uint p0 < B64" and "uint za < B64" and mu: "(uint p0 * uint mu + 1) mod B64 = 0"
  shows "uint (lo64 (za + lo64 (p0 * ucast (mu * (ucast za :: u64))))) = 0"
proof -
  let ?w = "mu * (ucast za :: u64)"
  have w: "uint ?w = uint mu * uint za mod B64"
    using assms(2) by (simp add: uint_mult_mod uint_ucast_u64)
  have "uint (p0 * ucast ?w) = uint p0 * uint (ucast ?w :: u128)"
  proof (rule uint_mult_exact)
    have "uint p0 * uint ?w < B64 * B64"
      using assms(1) u64_bound [of ?w] by (intro mult_strict_mono) auto
    then show "uint p0 * uint (ucast ?w :: u128) < 2 ^ LENGTH(128)" by simp
  qed
  then have "uint (lo64 (p0 * ucast ?w)) = uint p0 * (uint mu * uint za) mod B64"
    by (simp add: uint_lo64 w mod_mult_right_eq)
  moreover have "uint (lo64 (za + lo64 (p0 * ucast ?w))) = (uint za + uint (lo64 (p0 * ucast ?w))) mod B64"
    using assms(2) lo64_bound [of "p0 * ucast ?w"]
    by (subst uint_lo64, subst uint_add_exact) simp_all
  ultimately have "uint (lo64 (za + lo64 (p0 * ucast ?w))) =
      (uint za + uint p0 * (uint mu * uint za)) mod B64"
    by (simp add: mod_add_right_eq)
  also have "uint za + uint p0 * (uint mu * uint za) = uint za * (uint p0 * uint mu + 1)"
    by (simp add: algebra_simps)
  also have "\<dots> mod B64 = 0"
    using mu by (metis mod_mult_right_eq mult_zero_right mod_0)
  finally show ?thesis .
qed

lemma redc_row_correct:
  assumes "uint p0 < B64" "uint p1 < B64" "uint za < B64" "uint zb < B64" "uint zc < B64"
    and mu: "(uint p0 * uint mu + 1) mod B64 = 0"
    and row: "redc_row p0 p1 mu za zb zc = (za', zb', zc', cc)"
  shows "\<exists>w. 0 \<le> w \<and> w < B64 \<and>
      B64 * uint zb' + B64 * B64 * uint zc' + B64 * B64 * B64 * uint cc =
      uint za + B64 * uint zb + B64 * B64 * uint zc + (uint p0 + B64 * uint p1) * w"
    and "uint zb' < B64" "uint zc' < B64" "uint cc \<le> 1"
proof -
  define w where "w = mu * (ucast za :: u64)"
  define l1 h1 where "l1 = lo64 (p0 * ucast w)" and "h1 = hi64 (p0 * ucast w)"
  define r2 where "r2 = za + l1"
  define r3 where "r3 = h1 + hi64 r2"
  define l4 h4 where "l4 = lo64 (p1 * ucast w)" and "h4 = hi64 (p1 * ucast w)"
  define r5 where "r5 = l4 + lo64 r3"
  define r6 where "r6 = h4 + hi64 r5"
  define r7 where "r7 = zb + lo64 r5"
  define r8 where "r8 = zc + lo64 r6 + hi64 r7"
  note mults = l1_def h1_def l4_def h4_def
  note defs = w_def mults r2_def r3_def r5_def r6_def r7_def r8_def
  have z: "za' = lo64 r2" "zb' = lo64 r7" "zc' = lo64 r8" "cc = hi64 r8"
    using row by (simp_all add: redc_row_def Let_def defs)
  show "uint zb' < B64" "uint zc' < B64" unfolding z by (rule lo64_bound)+
  have w: "uint (ucast w :: u128) < B64" by (simp add: u64_bound)
  note m1 = limb_mult [OF assms(1) w, folded mults] and m4 = limb_mult [OF assms(2) w, folded mults]
  have a2: "uint (lo64 r2) + B64 * uint (hi64 r2) = uint za + uint l1" "uint (hi64 r2) \<le> 1"
    unfolding r2_def l1_def by (rule limb_add; rule assms lo64_bound)+
  have a3: "uint (lo64 r3) = uint h1 + uint (hi64 r2)"
    unfolding r3_def by (rule limb_add_fits) (use m1(2) a2(2) in linarith)
  have a5: "uint (lo64 r5) + B64 * uint (hi64 r5) = uint l4 + uint (lo64 r3)" "uint (hi64 r5) \<le> 1"
    unfolding r5_def l4_def by (rule limb_add; rule lo64_bound)+
  have a6: "uint (lo64 r6) = uint h4 + uint (hi64 r5)"
    unfolding r6_def by (rule limb_add_fits) (use m4(2) a5(2) in linarith)
  have a7: "uint (lo64 r7) + B64 * uint (hi64 r7) = uint zb + uint (lo64 r5)" "uint (hi64 r7) \<le> 1"
    unfolding r7_def by (rule limb_add; rule assms lo64_bound)+
  have r8: "uint r8 = uint zc + uint (lo64 r6) + uint (hi64 r7)"
    unfolding r8_def using assms(5) lo64_bound [of r6] a7(2)
    by (subst uint_add_exact; (subst uint_add_exact)?) simp_all
  then have a8: "uint (lo64 r8) + B64 * uint (hi64 r8) = uint zc + uint (lo64 r6) + uint (hi64 r7)"
    using limb_split [of r8] by simp
  show "uint cc \<le> 1"
    unfolding z using a8 assms(5) lo64_bound [of r6] a7(2) uint_ge_0 [of "lo64 r8"] by linarith
  have "uint (lo64 r2) = 0"
    using redc_low_limb [OF assms(1,3) mu] by (simp add: r2_def l1_def w_def)
  with redc_row_sum [OF m1(1) m4(1) a2(1) a3 a5(1) a6 a7(1) a8]
  have "B64 * uint zb' + B64 * B64 * uint zc' + B64 * B64 * B64 * uint cc =
      uint za + B64 * uint zb + B64 * B64 * uint zc + (uint p0 + B64 * uint p1) * uint w"
    unfolding z by (simp add: algebra_simps)
  then show "\<exists>w. 0 \<le> w \<and> w < B64 \<and>
      B64 * uint zb' + B64 * B64 * uint zc' + B64 * B64 * B64 * uint cc =
      uint za + B64 * uint zb + B64 * B64 * uint zc + (uint p0 + B64 * uint p1) * w"
    using u64_bound [of w] by (intro exI [of _ "uint w"]) simp
qed

section \<open>Field parameters\<close>

record field_parameters =
  fp_p :: u128
  fp_mu :: u64
  fp_r2 :: u128
  fp_g :: u128
  fp_num_roots :: nat
  fp_bit_mask :: u128
  fp_roots :: "u128 list"

definition fp_add :: "field_parameters \<Rightarrow> u128 \<Rightarrow> u128 \<Rightarrow> u128" where
  "fp_add F x y =
     (let (z, carry) = overflowing_add x y;
          (s0, b0) = overflowing_sub z (fp_p F);
          (s1, b1) = overflowing_sub (of_flag carry :: u128) (of_flag b0);
          m = 0 - of_flag b1
      in (z AND m) OR (s0 AND NOT m))"

definition fp_sub :: "field_parameters \<Rightarrow> u128 \<Rightarrow> u128 \<Rightarrow> u128" where
  "fp_sub F x y =
     (let (z0, b0) = overflowing_sub x y;
          m = 0 - of_flag b0
      in z0 + (m AND fp_p F))"

definition fp_mul :: "field_parameters \<Rightarrow> u128 \<Rightarrow> u128 \<Rightarrow> u128" where
  "fp_mul F x y =
     (let p0 = lo64 (fp_p F);
          p1 = hi64 (fp_p F);
          (zz0, zz1, zz2, zz3) = mul_wide (lo64 x) (hi64 x) (lo64 y) (hi64 y);
          (zz0, zz1, zz2, cc) = redc_row p0 p1 (fp_mu F) zz0 zz1 zz2;
          result = zz3 + cc;
          zz3 = lo64 result;
          (zz1, zz2, zz3, cc) = redc_row p0 p1 (fp_mu F) zz1 zz2 zz3;
          prod = zz2 OR push_bit 64 zz3;
          (s0, b0) = overflowing_sub prod (fp_p F);
          (s1, b1) = overflowing_sub cc (of_flag b0);
          mask = 0 - of_flag b1
      in (prod AND mask) OR (s0 AND NOT mask))"

definition modp :: "'w::len word \<Rightarrow> 'w word \<Rightarrow> 'w word" where
  "modp x p =
     (let (z, carry) = overflowing_sub x p;
          m = 0 - of_flag carry
      in z + (m AND p))"

definition fp_montgomery :: "field_parameters \<Rightarrow> u128 \<Rightarrow> u128" where
  "fp_montgomery F x = modp (fp_mul F x (fp_r2 F)) (fp_p F)"

definition fp_residue :: "field_parameters \<Rightarrow> u128 \<Rightarrow> u128" where
  "fp_residue F x = modp (fp_mul F x 1) (fp_p F)"

text \<open>\<open>leading_zeros\<close> of Rust's integers; \<open>LENGTH('w) - leading_zeros x\<close> is the bit length of \<open>x\<close>.\<close>

definition leading_zeros :: "'w::len word \<Rightarrow> nat" where
  "leading_zeros x = length (takeWhile (\<lambda>i. \<not> bit x i) (rev [0..<LENGTH('w)]))"

definition fp_pow :: "field_parameters \<Rightarrow> u128 \<Rightarrow> u128 \<Rightarrow> u128" where
  "fp_pow F x exp =
     fold (\<lambda>i t.
         let t = fp_mul F t t
         in if drop_bit i exp AND 1 \<noteq> 0 then fp_mul F t x else t)
       (rev [0..<128 - leading_zeros exp]) (fp_montgomery F 1)"

definition fp_inv :: "field_parameters \<Rightarrow> u128 \<Rightarrow> u128" where
  "fp_inv F x = fp_pow F x (fp_p F - 2)"

definition fp_neg :: "field_parameters \<Rightarrow> u128 \<Rightarrow> u128" where
  "fp_neg F x = fp_sub F 0 x"

text \<open>The ceiling of the base-2 logarithm; \<open>127 - x.leading_zeros()\<close> underflows at zero.\<close>

definition log2 :: "u128 \<Rightarrow> (nat, 'e) outcome" where
  "log2 x =
     (if leading_zeros x = 128 then Panic
      else let y = 127 - leading_zeros x in Ok (y + (if x > push_bit y 1 then 1 else 0)))"

definition FP32 :: field_parameters where
  "FP32 = \<lparr>
     fp_p = 4293918721,
     fp_mu = 17302828673139736575,
     fp_r2 = 1676699750,
     fp_g = 1074114499,
     fp_num_roots = 20,
     fp_bit_mask = 4294967295,
     fp_roots = [
       2564090464, 1729828257, 306605458, 2294308040, 1648889905, 57098624, 2788941825,
       2779858277, 368200145, 2760217336, 594450960, 4255832533, 1372848488, 721329415,
       3873251478, 1134002069, 7138597, 2004587313, 2989350643, 725214187, 1074114499] \<rparr>"

definition FP128 :: field_parameters where
  "FP128 = \<lparr>
     fp_p = 340282366920938462946865773367900766209,
     fp_mu = 18446744073709551615,
     fp_r2 = 403909908237944342183153,
     fp_g = 107630958476043550189608038630704257141,
     fp_num_roots = 66,
     fp_bit_mask = 340282366920938463463374607431768211455,
     fp_roots = [
       516508834063867445247,
       340282366920938462430356939304033320962,
       129526470195413442198896969089616959958,
       169031622068548287099117778531474117974,
       81612939378432101163303892927894236156,
       122401220764524715189382260548353967708,
       199453575871863981432000940507837456190,
       272368408887745135168960576051472383806,
       24863773656265022616993900367764287617,
       257882853788779266319541142124730662203,
       323732363244658673145040701829006542956,
       57532865270871759635014308631881743007,
       149571414409418047452773959687184934208,
       177018931070866797456844925926211239962,
       268896136799800963964749917185333891349,
       244556960591856046954834420512544511831,
       118945432085812380213390062516065622346,
       202007153998709986841225284843501908420,
       332677126194796691532164818746739771387,
       258279638927684931537542082169183965856,
       148221243758794364405224645520862378432] \<rparr>"

section \<open>Correctness of the arithmetic\<close>

lemma uint_modp:
  fixes x p :: "'w::len word"
  assumes "uint x < 2 * uint p"
  shows "uint (modp x p) = uint x mod uint p"
proof (cases "x < p")
  case True
  then show ?thesis
    by (simp add: modp_def overflowing_sub_def mask_and word_less_def)
next
  case False
  with assms show ?thesis
    by (simp add: modp_def overflowing_sub_def mask_and word_less_def uint_sub_wrap mod_below_double)
qed

lemma uint_fp_add:
  assumes "uint x < uint (fp_p F)" and "uint y < uint (fp_p F)"
  shows "uint (fp_add F x y) = (uint x + uint y) mod uint (fp_p F)"
  using uint_add_final_sub [OF assms]
  by (simp add: fp_add_def final_sub_def overflowing_add_def)

lemma uint_fp_sub:
  assumes "uint x < uint (fp_p F)" and "uint y < uint (fp_p F)"
  shows "uint (fp_sub F x y) = (uint x - uint y) mod uint (fp_p F)"
  using uint_sub_add_back [OF assms] by (simp add: fp_sub_def overflowing_sub_def)

text \<open>What the constants of a table must satisfy for \<open>mul\<close> to be Montgomery multiplication.\<close>

definition redc_params :: "field_parameters \<Rightarrow> bool" where
  "redc_params F \<longleftrightarrow>
     (uint (fp_p F) * uint (fp_mu F) + 1) mod 2 ^ 64 = 0 \<and>
     uint (fp_p F) * (2 ^ 128 + 2 ^ 64) \<le> 2 ^ 256"

lemma redc_total:
  fixes b :: int
  assumes "z = z0 + b * z1 + b * b * z2 + b * b * b * z3"
    and "b * a1 + b * b * a2 + b * b * b * c = z0 + b * z1 + b * b * z2 + p * w1"
    and "a3 = z3 + c"
    and "b * b2 + b * b * b3 + b * b * b * cc = a1 + b * a2 + b * b * a3 + p * w2"
  shows "b * b * (b2 + b * b3 + b * b * cc) = z + p * (w1 + b * w2)"
proof -
  have "b * b * (b2 + b * b3 + b * b * cc) = b * (a1 + b * a2 + b * b * a3 + p * w2)"
    unfolding assms(4) [symmetric] by (simp add: algebra_simps)
  also have "\<dots> = (b * a1 + b * b * a2 + b * b * b * c) + b * b * b * z3 + b * (p * w2)"
    unfolding assms(3) by (simp add: algebra_simps)
  also have "\<dots> = z + p * (w1 + b * w2)"
    unfolding assms(1,2) by (simp add: algebra_simps)
  finally show ?thesis .
qed

lemma uint_join_limbs:
  assumes "uint lo < B64" and "uint hi < B64"
  shows "uint (lo OR push_bit 64 hi :: u128) = uint lo + B64 * uint hi"
proof -
  have lo: "take_bit 64 lo = lo"
    using assms(1) by (simp add: word_uint_eq_iff unsigned_take_bit_eq take_bit_int_eq_self)
  have "bit lo n \<Longrightarrow> n < 64" for n
    using lo by (metis bit_take_bit_iff)
  then have "lo AND push_bit 64 hi = 0"
    by (intro bit_eqI) (fastforce simp: bit_simps)
  then have "lo OR push_bit 64 hi = lo + push_bit 64 hi"
    by (simp add: disjunctive_add_eq_or)
  moreover have "uint (push_bit 64 hi) = uint hi * B64"
    unfolding push_bit_eq_mult using assms(2) by (subst uint_mult_exact) simp_all
  ultimately show ?thesis
    using assms by (simp add: uint_add_exact)
qed

lemma fp_mul_correct:
  assumes F: "redc_params F" and xy: "uint x * uint y < B64 * B64 * uint (fp_p F)"
  shows "uint (fp_mul F x y) < uint (fp_p F)"
    and "uint (fp_mul F x y) * (B64 * B64) mod uint (fp_p F) = uint x * uint y mod uint (fp_p F)"
proof -
  let ?p = "uint (fp_p F)" and ?lo = "lo64 (fp_p F)" and ?hi = "hi64 (fp_p F)"
  obtain z0 z1 z2 z3 where z: "mul_wide (lo64 x) (hi64 x) (lo64 y) (hi64 y) = (z0, z1, z2, z3)"
    by (metis prod_cases4)
  obtain a0 a1 a2 c where a: "redc_row ?lo ?hi (fp_mu F) z0 z1 z2 = (a0, a1, a2, c)"
    by (metis prod_cases4)
  define a3 where "a3 = lo64 (z3 + c)"
  obtain b1 b2 b3 cc where b: "redc_row ?lo ?hi (fp_mu F) a1 a2 a3 = (b1, b2, b3, cc)"
    by (metis prod_cases4)
  have eq: "fp_mul F x y = final_sub (fp_p F) cc (b2 OR push_bit 64 b3)"
    by (simp add: fp_mul_def final_sub_def z a b a3_def [symmetric] Let_def)
  have mu: "(uint ?lo * uint (fp_mu F) + 1) mod B64 = 0"
    using F by (simp add: redc_params_def uint_lo64) (metis mod_add_left_eq mod_mult_left_eq)
  note zz = mul_wide_correct [OF lo64_bound hi64_bound lo64_bound hi64_bound z, unfolded limb_split]
  obtain w1 where w1: "0 \<le> w1" "w1 < B64" and row1:
      "B64 * uint a1 + B64 * B64 * uint a2 + B64 * B64 * B64 * uint c =
       uint z0 + B64 * uint z1 + B64 * B64 * uint z2 + ?p * w1"
    using redc_row_correct(1) [OF lo64_bound hi64_bound zz(2-4) mu a, unfolded limb_split] by blast
  note aa = redc_row_correct(2-4) [OF lo64_bound hi64_bound zz(2-4) mu a]
  have "?p * w1 \<le> ?p * B64" using w1 by (intro mult_left_mono) auto
  moreover have "?p * (B64 * B64 + B64) \<le> B64 * B64 * (B64 * B64)"
    using F by (simp add: redc_params_def)
  ultimately have top: "0 + B64 * uint a1 + B64 * B64 * uint a2 + B64 * B64 * B64 * (uint z3 + uint c)
      < B64 * B64 * (B64 * B64)"
    using xy zz(1) row1 by (simp add: algebra_simps)
  then have "uint z3 + uint c < B64" by (rule limb_top_bound) simp_all
  then have a3: "uint a3 = uint z3 + uint c"
    unfolding a3_def by (rule limb_add_fits)
  have a3_bound: "uint a3 < B64" unfolding a3_def by (rule lo64_bound)
  obtain w2 where w2: "0 \<le> w2" "w2 < B64" and row2:
      "B64 * uint b2 + B64 * B64 * uint b3 + B64 * B64 * B64 * uint cc =
       uint a1 + B64 * uint a2 + B64 * B64 * uint a3 + ?p * w2"
    using redc_row_correct(1) [OF lo64_bound hi64_bound aa(1,2) a3_bound mu b, unfolded limb_split]
    by blast
  note bb = redc_row_correct(2-4) [OF lo64_bound hi64_bound aa(1,2) a3_bound mu b]
  let ?t = "uint b2 + B64 * uint b3 + B64 * B64 * uint cc" and ?w = "w1 + B64 * w2"
  have total: "B64 * B64 * ?t = uint x * uint y + ?p * ?w"
    by (rule redc_total [OF zz(1) [symmetric] row1 a3 row2])
  have "?p * ?w \<le> ?p * (B64 * B64)" using w1 w2 by (intro mult_left_mono) auto
  with total xy have "B64 * B64 * ?t < B64 * B64 * (2 * ?p)" by (simp add: algebra_simps)
  then have t: "?t < 2 * ?p" by (simp only: mult_less_cancel_left_pos)
  have "?t = uint cc * 2 ^ LENGTH(128) + uint (b2 OR push_bit 64 b3)"
    by (simp add: uint_join_limbs [OF bb(1,2)])
  then have res: "uint (fp_mul F x y) = ?t mod ?p"
    unfolding eq using t uint_final_sub [of ?t cc _ "fp_p F"] by (simp add: mod_below_double)
  have "?p \<noteq> 0"
  proof
    assume "?p = 0"
    with xy have "uint x * uint y < 0" by simp
    with mult_nonneg_nonneg [OF uint_ge_0 [of x] uint_ge_0 [of y]] show False by linarith
  qed
  then have "0 < ?p" by (simp add: order_less_le)
  then show "uint (fp_mul F x y) < ?p" unfolding res by simp
  have "uint (fp_mul F x y) * (B64 * B64) mod ?p = (uint x * uint y + ?p * ?w) mod ?p"
    unfolding res total [symmetric] mod_mult_left_eq by (simp only: mult.commute)
  then show "uint (fp_mul F x y) * (B64 * B64) mod ?p = uint x * uint y mod ?p" by simp
qed

section \<open>Exponents\<close>

lemma bit_below_leading_zeros:
  fixes x :: "'w::len word"
  assumes "bit x i"
  shows "i < LENGTH('w) - leading_zeros x"
proof (rule ccontr)
  let ?xs = "rev [0..<LENGTH('w)]" and ?k = "LENGTH('w) - Suc i"
  assume "\<not> ?thesis"
  moreover have i: "i < LENGTH('w)" using assms by (rule bit_imp_le_length)
  ultimately have k: "?k < length (takeWhile (\<lambda>i. \<not> bit x i) ?xs)"
    unfolding leading_zeros_def by linarith
  then have "\<not> bit x (takeWhile (\<lambda>i. \<not> bit x i) ?xs ! ?k)"
    by (metis (no_types, lifting) nth_mem set_takeWhileD)
  moreover have "takeWhile (\<lambda>i. \<not> bit x i) ?xs ! ?k = ?xs ! ?k"
    using k by (rule takeWhile_nth)
  moreover have "?xs ! ?k = i" using i by (simp add: rev_nth)
  ultimately show False using assms by simp
qed

lemma bit_length_sum:
  fixes x :: "'w::len word"
  shows "(\<Sum>i<LENGTH('w) - leading_zeros x. if bit x i then 2 ^ i else 0) = unat x"
proof -
  let ?n = "LENGTH('w) - leading_zeros x"
  have "(\<Sum>i<?n. if bit x i then 2 ^ i else 0) =
      (horner_sum of_bool 2 (map (bit (unat x)) [0..<?n]) :: nat)"
    unfolding horner_sum_eq_sum by (rule sum.cong) (simp_all add: bit_unsigned_iff lessThan_atLeast0)
  also have "\<dots> = take_bit ?n (unat x)" by (rule horner_sum_bit_eq_take_bit)
  also have "\<dots> = unat x"
    by (rule bit_eqI) (auto simp: bit_simps dest: bit_below_leading_zeros)
  finally show ?thesis .
qed

lemma drop_bit_and_one: "drop_bit i (x :: 'w::len word) AND 1 \<noteq> 0 \<longleftrightarrow> bit x i"
  by (simp add: and_one_eq bit_iff_odd_drop_bit mod_2_eq_odd)

section \<open>The tables\<close>

text \<open>The parameters of a field: a Montgomery modulus with its conversion constants and its roots.\<close>

lemma modp_id: "uint (x :: 'w::len word) < uint p \<Longrightarrow> modp x p = x"
proof (rule word_uint_eqI)
  assume "uint x < uint p"
  then have "uint x < 2 * uint p" using uint_ge_0 [of p] by linarith
  with \<open>uint x < uint p\<close> show "uint (modp x p) = uint x" by (simp add: uint_modp)
qed

definition fp_root :: "field_parameters \<Rightarrow> nat \<Rightarrow> u128 option" where
  "fp_root F l =
     (if l < min (length (fp_roots F)) (fp_num_roots F + 1) then Some (fp_roots F ! l) else None)"

locale fp_field =
  fixes F :: field_parameters
  assumes redc: "redc_params F"
    and prime: "is_prime (unat (fp_p F))"
    and p_ge: "2 < uint (fp_p F)"
    and r2: "uint (fp_r2 F) = B128 * B128 mod uint (fp_p F)"
    and roots_0: "fp_roots F \<noteq> []" "uint (fp_roots F ! 0) = B128 mod uint (fp_p F)"
    and roots_1: "1 < length (fp_roots F) \<Longrightarrow> fp_roots F ! 1 \<noteq> fp_roots F ! 0"
    and roots: "square_chain (uint (fp_p F)) B128 (map uint (fp_roots F))"
begin

lemma p_odd: "odd (uint (fp_p F))"
proof
  assume "even (uint (fp_p F))"
  then have "odd (uint (fp_p F) * uint (fp_mu F) + 1)" by simp
  moreover have "even (uint (fp_p F) * uint (fp_mu F) + 1)"
    using redc dvd_trans [of 2 B64 "uint (fp_p F) * uint (fp_mu F) + 1"]
    unfolding redc_params_def mod_eq_0_iff_dvd by simp
  ultimately show False by simp
qed

lemma coprime_R: "coprime B128 (uint (fp_p F))"
proof -
  have "coprime (2 ^ 128) (uint (fp_p F))" using p_odd by (simp only: coprime_power_left_iff) simp
  then show ?thesis by simp
qed

lemma r2_less: "uint (fp_r2 F) < uint (fp_p F)"
  unfolding r2 using p_ge by simp

lemma mul_bound: "uint (y :: u128) < uint (fp_p F) \<Longrightarrow> uint (x :: u128) * uint y < B64 * B64 * uint (fp_p F)"
  using u128_bound [of x] by (intro mult_strict_mono') simp_all

lemma mont_mul: "fp_montgomery F x = fp_mul F x (fp_r2 F)"
  unfolding fp_montgomery_def by (rule modp_id fp_mul_correct redc mul_bound r2_less)+

lemma uint_one: "uint (fp_montgomery F 1) = B128 mod uint (fp_p F)"
proof -
  note m = fp_mul_correct [OF redc mul_bound [OF r2_less], of 1]
  have "uint (fp_mul F 1 (fp_r2 F)) mod uint (fp_p F) = B128 mod uint (fp_p F)"
  proof (rule mod_mult_cancel_int)
    show "coprime B128 (uint (fp_p F))" by (rule coprime_R)
    show "uint (fp_mul F 1 (fp_r2 F)) * B128 mod uint (fp_p F) = B128 * B128 mod uint (fp_p F)"
      using m(2) unfolding r2 by simp
  qed
  with m(1) show ?thesis by (simp add: mont_mul)
qed

end

sublocale fp_field \<subseteq> dom: montgomery_domain "uint (fp_p F)" "B128" uint "fp_add F" "fp_sub F" "fp_mul F"
    0 "fp_roots F ! 0" "fp_r2 F" 1
proof unfold_locales
  show "is_prime (nat (uint (fp_p F)))" using prime by simp
  show "coprime B128 (uint (fp_p F))" by (rule coprime_R)
  show "uint (fp_p F) \<le> B128" using u128_bound [of "fp_p F"] by simp
  show "uint x = uint y \<Longrightarrow> x = y" for x y :: u128 by (rule word_uint_eqI)
next
  fix x y :: u128
  assume "uint x * uint y < B128 * uint (fp_p F)"
  then have "uint x * uint y < B64 * B64 * uint (fp_p F)" by simp
  from fp_mul_correct [OF redc this]
  show "uint (fp_mul F x y) < uint (fp_p F)"
    and "uint (fp_mul F x y) * B128 mod uint (fp_p F) = uint x * uint y mod uint (fp_p F)"
    by simp_all
qed (simp_all add: roots_0 r2 uint_fp_add uint_fp_sub)

context fp_field
begin

lemma one_root: "fp_montgomery F 1 = fp_roots F ! 0"
  by (rule word_uint_eqI) (simp only: uint_one roots_0)

lemma fp_pow_bits: "fp_pow F x e = dom.pow_bits x (bit e) (LENGTH(128) - leading_zeros e) (fp_roots F ! 0)"
  by (simp add: fp_pow_def dom.pow_bits_def one_root drop_bit_and_one)

lemma val_le_R: "uint (x :: u128) \<le> B128"
  using u128_bound [of x] by simp

lemma fp_root_Suc:
  assumes "fp_root F (Suc l) = Some w"
  shows "uint w < uint (fp_p F) \<and>
    (\<exists>v. fp_root F l = Some v \<and> uint w * uint w mod uint (fp_p F) = uint v * B128 mod uint (fp_p F))"
  using assms square_chain_nth [OF roots, of l] by (auto simp: fp_root_def split: if_splits)

end

sublocale fp_field \<subseteq> field_methods "uint (fp_p F)" "B128" uint "fp_add F" "fp_sub F" "fp_mul F"
    0 "fp_roots F ! 0" "fp_root F" "fp_pow F" "fp_inv F" "fp_neg F" "fp_montgomery F" "fp_residue F"
proof unfold_locales
  show "fp_root F 0 = Some (fp_roots F ! 0)" using roots_0(1) by (simp add: fp_root_def)
  show "fp_root F 1 = Some w \<Longrightarrow> w \<noteq> fp_roots F ! 0" for w
    using roots_1 by (auto simp: fp_root_def split: if_splits)
  show "\<exists>e. uint e = uint (fp_p F) - 2 \<and> fp_inv F x = fp_pow F x e" for x
    using p_ge by (intro exI [of _ "fp_p F - 2"]) (simp add: fp_inv_def uint_sub_if')
  show "fp_neg F x = fp_sub F 0 x" for x by (simp add: fp_neg_def)
  show "dom.canon (fp_montgomery F x)" and "dom.elem (fp_montgomery F x) = uint x mod uint (fp_p F)" for x
    using dom.canon_mul_any [OF val_le_R dom.canon_r2] dom.elem_mul_r2 [OF val_le_R, of x]
    by (simp_all add: mont_mul)
  fix x :: u128
  assume x: "dom.canon x"
  then show "dom.canon (fp_pow F x e)" for e by (simp add: fp_pow_bits dom.canon_pow_bits)
  show "dom.elem (fp_pow F x e) = dom.elem x ^ nat (uint e) mod uint (fp_p F)" for e
    by (simp only: fp_pow_bits dom.elem_pow_bits [OF x dom.canon_one] bit_length_sum dom.elem_one
        power_one mult_1 unat_eq_nat_uint)
  have "uint (fp_mul F x 1) = dom.elem x"
    using x by (intro dom.val_mul_unit) (simp add: dom.canon_def)
  moreover from this have "modp (fp_mul F x 1) (fp_p F) = fp_mul F x 1"
    using dom.elem_bounds [of x] by (intro modp_id) simp
  ultimately show "uint (fp_residue F x) = dom.elem x" by (simp add: fp_residue_def)
qed (rule fp_root_Suc)

lemma mod_by_quotient: "a = r + q * p \<Longrightarrow> 0 \<le> r \<Longrightarrow> r < p \<Longrightarrow> a mod p = (r :: int)"
  by simp

lemma FP32_chain:
  "square_chain 4293918721 B128 (map uint (fp_roots FP32))"
  by (rule square_chain_certI [of _ _ _ "[-203197784769929126960121433600966406335,
     -137084582151009336503253173830083041468,
     -24297719108856505851873165377487741888,
     -181818199417412577770418073863636768415,
     -130670419288880006150207175155232129024,
     -4524923778278639441538922523334819839,
     -221016695256584887975628684076734899751,
     -220296846695324718575716139835309892447,
     -29178944684834137032397668581318340544,
     -218740351026380615144580234939898314496,
     -47108758416394839278730716386404938951,
     -337264131355310987429019271432161330624,
     -108794824325802972064858764053390715343,
     -57163560051908093185594064133569783836,
     -306945535360976203433023644580877488967,
     -89866840339887601936084181074951436455,
     -565716037375061099221085041695699103,
     -158858553197873658100943540942060102999,
     -236898595071629751493302867684975666759,
     -57471418559951843358988541088391090551]"]) (simp add: FP32_def)

lemma FP32_reductions:
  shows FP32_r2: "B128 * B128 mod 4293918721 = 1676699750" and FP32_r: "B128 mod 4293918721 = 2564090464"
proof -
  show "B128 * B128 mod 4293918721 = 1676699750" by (rule mod_by_quotient [of _ _ "26966530286430215692844034391932754950083738360924732566557024032666"]) simp_all
  show "B128 mod 4293918721 = 2564090464" by (rule mod_by_quotient [of _ _ "79247510032442103010029147552"]) simp_all
qed

lemma FP32_modulus: "uint (fp_p FP32) = 4293918721"
  by (simp add: FP32_def)

interpretation fp32: fp_field FP32
proof (unfold_locales, unfold FP32_modulus)
  show "redc_params FP32" by (simp add: redc_params_def FP32_def)
  show "is_prime (unat (fp_p FP32))" using prime_32 by (simp add: FP32_def)
  show "square_chain 4293918721 B128 (map uint (fp_roots FP32))" by (rule FP32_chain)
  show "uint (fp_r2 FP32) = B128 * B128 mod 4293918721"
    unfolding FP32_reductions by (simp add: FP32_def)
  show "uint (fp_roots FP32 ! 0) = B128 mod 4293918721"
    unfolding FP32_reductions by (simp add: FP32_def)
qed (simp_all add: FP32_def)

lemma FP128_chain:
  "square_chain 340282366920938462946865773367900766209 B128 (map uint (fp_roots FP128))"
  by (rule square_chain_certI [of _ _ _ "[340282366920938461397339271176298430468,
     -290978882191207121798239550395143651612,
     -45561821901536626661734173086818420508,
     -149457666667164882381257392465782857712,
     -37584625539511195728985743088837037808,
     -5493226712290067893696058801649413372,
     18555223206690781832472148046020842244,
     -270551661090837947017062970398833827583,
     170572642517766140859853129726834584473,
     50104433240764577200910793207550897552,
     -314005057606616789534663824693890126143,
     8211381810939887437068525593950916608,
     -57484062834269112554072032643431595356,
     35466755566715334719873458375838845881,
     -93135907096736434246330226664750104687,
     -202979678929865700723947151763480999580,
     975240371892855079814749949880081936,
     123234707031787677374089616640679489561,
     -136638840437502692595263754940245679104,
     -193716972045482478568839508033762029568]"]) (simp add: FP128_def)

lemma FP128_reductions:
  shows FP128_r2: "B128 * B128 mod 340282366920938462946865773367900766209 = 403909908237944342183153" and FP128_r: "B128 mod 340282366920938462946865773367900766209 = 516508834063867445247"
proof -
  show "B128 * B128 mod 340282366920938462946865773367900766209 = 403909908237944342183153" by (rule mod_by_quotient [of _ _ "340282366920938463979883441495635657487"]) simp_all
  show "B128 mod 340282366920938462946865773367900766209 = 516508834063867445247" by (rule mod_by_quotient [of _ _ "1"]) simp_all
qed

lemma FP128_modulus: "uint (fp_p FP128) = 340282366920938462946865773367900766209"
  by (simp add: FP128_def)

interpretation fp128: fp_field FP128
proof (unfold_locales, unfold FP128_modulus)
  show "redc_params FP128" by (simp add: redc_params_def FP128_def)
  show "is_prime (unat (fp_p FP128))" using prime_128 by (simp add: FP128_def)
  show "square_chain 340282366920938462946865773367900766209 B128 (map uint (fp_roots FP128))" by (rule FP128_chain)
  show "uint (fp_r2 FP128) = B128 * B128 mod 340282366920938462946865773367900766209"
    unfolding FP128_reductions by (simp add: FP128_def)
  show "uint (fp_roots FP128 ! 0) = B128 mod 340282366920938462946865773367900766209"
    unfolding FP128_reductions by (simp add: FP128_def)
qed (simp_all add: FP128_def)

section \<open>Properties\<close>

text \<open>
  C31. The 128-bit words of \<open>FP128\<close>: for arguments below the modulus \<open>p\<close>, addition and subtraction are those of the
  integers modulo \<open>p\<close>, and multiplication is the product times \<open>2\<^sup>-\<^sup>1\<^sup>2\<^sup>8\<close> modulo \<open>p\<close>, with every result below \<open>p\<close>: no carry of
  the limb arithmetic is lost.
\<close>

theorem fp128_words:
  assumes "uint x < uint (fp_p FP128)" and "uint y < uint (fp_p FP128)"
  shows "uint (fp_add FP128 x y) = (uint x + uint y) mod uint (fp_p FP128) \<and>
    uint (fp_sub FP128 x y) = (uint x - uint y) mod uint (fp_p FP128) \<and>
    uint (fp_mul FP128 x y) * 2 ^ 128 mod uint (fp_p FP128) = uint x * uint y mod uint (fp_p FP128) \<and>
    uint (fp_mul FP128 x y) < uint (fp_p FP128)"
proof -
  have "uint x * uint y < B64 * B64 * uint (fp_p FP128)"
    using assms fp128.dom.val_product [of y x] fp128.dom.canon_le_R [of x] by (simp add: fp128.dom.canon_def)
  then show ?thesis
    using assms fp_mul_correct [OF fp128.redc, of x y] by (simp add: uint_fp_add uint_fp_sub)
qed


theorem fp128_words_witness: "uint (fp_sub FP128 1 3) = uint (fp_p FP128) - 2"
  using fp128_words [of 1 3] by (simp add: FP128_def)

end
