(* ===== verification/Fp64.thy ===== *)
theory Fp64
  imports Fp
begin

unbundle bit_operations_syntax

text \<open>
  Field arithmetic for moduli below \<open>2\<^sup>6\<^sup>4\<close>, from \<^verbatim>\<open>src/fp64.rs\<close>.  The operations have the shape of those
  of \<^verbatim>\<open>src/fp.rs\<close>, with one limb; the table \<open>FP64\<close> satisfies the same contract.
\<close>

record field_parameters64 =
  fp64_p :: u64
  fp64_mu :: u64
  fp64_r2 :: u64
  fp64_g :: u64
  fp64_num_roots :: nat
  fp64_bit_mask :: u64
  fp64_roots :: "u64 list"

definition fp64_add :: "field_parameters64 \<Rightarrow> u64 \<Rightarrow> u64 \<Rightarrow> u64" where
  "fp64_add F x y =
     (let (z, carry) = overflowing_add x y;
          (s0, b0) = overflowing_sub z (fp64_p F);
          (s1, b1) = overflowing_sub (of_flag carry :: u64) (of_flag b0);
          m = 0 - of_flag b1
      in (z AND m) OR (s0 AND NOT m))"

definition fp64_sub :: "field_parameters64 \<Rightarrow> u64 \<Rightarrow> u64 \<Rightarrow> u64" where
  "fp64_sub F x y =
     (let (z0, b0) = overflowing_sub x y;
          m = 0 - of_flag b0
      in z0 + (m AND fp64_p F))"

definition fp64_mul :: "field_parameters64 \<Rightarrow> u64 \<Rightarrow> u64 \<Rightarrow> u64" where
  "fp64_mul F x y =
     (let result = (ucast x :: u128) * ucast y;
          zz0 = ucast (lo64 result);
          zz1 = (ucast (hi64 result) :: u64);
          w = fp64_mu F * zz0;
          result = (ucast (fp64_p F) :: u128) * ucast w;
          hi = hi64 result;
          lo = (ucast (lo64 result) :: u64);
          (result, carry) = overflowing_add zz0 lo;
          zz0 = result;
          result = (ucast zz1 :: u128) + hi + of_flag carry;
          zz1 = ucast (lo64 result);
          cc = (ucast (hi64 result) :: u64);
          prod = zz1;
          (s0, b0) = overflowing_sub prod (fp64_p F);
          (s1, b1) = overflowing_sub cc (of_flag b0);
          mask = 0 - of_flag b1
      in (prod AND mask) OR (s0 AND NOT mask))"

definition fp64_modp :: "u64 \<Rightarrow> u64 \<Rightarrow> u64" where
  "fp64_modp x p =
     (let (z, carry) = overflowing_sub x p;
          m = 0 - of_flag carry
      in z + (m AND p))"

definition fp64_montgomery :: "field_parameters64 \<Rightarrow> u64 \<Rightarrow> u64" where
  "fp64_montgomery F x = fp64_modp (fp64_mul F x (fp64_r2 F)) (fp64_p F)"

definition fp64_residue :: "field_parameters64 \<Rightarrow> u64 \<Rightarrow> u64" where
  "fp64_residue F x = fp64_modp (fp64_mul F x 1) (fp64_p F)"

definition fp64_pow :: "field_parameters64 \<Rightarrow> u64 \<Rightarrow> u64 \<Rightarrow> u64" where
  "fp64_pow F x exp =
     fold (\<lambda>i t.
         let t = fp64_mul F t t
         in if drop_bit i exp AND 1 \<noteq> 0 then fp64_mul F t x else t)
       (rev [0..<64 - leading_zeros exp]) (fp64_montgomery F 1)"

definition fp64_inv :: "field_parameters64 \<Rightarrow> u64 \<Rightarrow> u64" where
  "fp64_inv F x = fp64_pow F x (fp64_p F - 2)"

definition fp64_neg :: "field_parameters64 \<Rightarrow> u64 \<Rightarrow> u64" where
  "fp64_neg F x = fp64_sub F 0 x"

definition FP64 :: field_parameters64 where
  "FP64 = \<lparr>
     fp64_p = 18446744069414584321,
     fp64_mu = 18446744069414584319,
     fp64_r2 = 18446744065119617025,
     fp64_g = 15733474329512464024,
     fp64_num_roots = 32,
     fp64_bit_mask = 18446744073709551615,
     fp64_roots = [
       4294967295,
       18446744065119617026,
       18446744069414518785,
       18374686475393433601,
       268435456,
       18446673700670406657,
       18446744069414584193,
       576460752303421440,
       16576810576923738718,
       6647628942875889800,
       10087739294013848503,
       2135208489130820273,
       10781050935026037169,
       3878014442329970502,
       1205735313231991947,
       2523909884358325590,
       13797134855221748930,
       12267112747022536458,
       430584883067102937,
       10135969988448727187,
       6815045114074884550] \<rparr>"

text \<open>The entry of the table a field type's \<open>root\<close> returns.\<close>

definition fp64_root :: "field_parameters64 \<Rightarrow> nat \<Rightarrow> u64 option" where
  "fp64_root F l =
     (if l < min (length (fp64_roots F)) (fp64_num_roots F + 1) then Some (fp64_roots F ! l) else None)"

section \<open>Correctness of the arithmetic\<close>

lemma uint_fp64_add:
  assumes "uint x < uint (fp64_p F)" and "uint y < uint (fp64_p F)"
  shows "uint (fp64_add F x y) = (uint x + uint y) mod uint (fp64_p F)"
  using uint_add_final_sub [OF assms]
  by (simp add: fp64_add_def final_sub_def overflowing_add_def)

lemma uint_fp64_sub:
  assumes "uint x < uint (fp64_p F)" and "uint y < uint (fp64_p F)"
  shows "uint (fp64_sub F x y) = (uint x - uint y) mod uint (fp64_p F)"
  using uint_sub_add_back [OF assms] by (simp add: fp64_sub_def overflowing_sub_def)

lemma fp64_modp_eq: "fp64_modp = modp"
  by (simp add: fp64_modp_def modp_def fun_eq_iff)

lemma uint_limb_u64: "uint (ucast (lo64 x) :: u64) = uint (lo64 x)" "uint (ucast (hi64 x) :: u64) = uint (hi64 x)"
  using lo64_bound [of x] hi64_bound [of x] by (simp_all add: uint_ucast_u64)

lemma fp64_mul_correct:
  assumes mu: "(uint (fp64_p F) * uint (fp64_mu F) + 1) mod B64 = 0"
    and xy: "uint x * uint y < B64 * uint (fp64_p F)"
  shows "uint (fp64_mul F x y) < uint (fp64_p F)"
    and "uint (fp64_mul F x y) * B64 mod uint (fp64_p F) = uint x * uint y mod uint (fp64_p F)"
proof -
  let ?p = "uint (fp64_p F)"
  define z where "z = (ucast x :: u128) * ucast y"
  define w where "w = fp64_mu F * (ucast (lo64 z) :: u64)"
  define q where "q = (ucast (fp64_p F) :: u128) * ucast w"
  define c where "c \<longleftrightarrow> B64 \<le> uint (lo64 z) + uint (lo64 q)"
  define r where "r = (ucast (ucast (hi64 z) :: u64) :: u128) + hi64 q + of_flag c"
  have eq: "fp64_mul F x y = final_sub (fp64_p F) (ucast (hi64 r)) (ucast (lo64 r))"
    by (simp add: fp64_mul_def final_sub_def overflowing_add_def z_def [symmetric] w_def [symmetric]
        q_def [symmetric] uint_limb_u64 c_def [symmetric] r_def [symmetric] Let_def)
  have cast: "uint (ucast a :: u128) < B64" for a :: u64 by (simp add: u64_bound)
  note lz = limb_mult [OF cast [of x] cast [of y], folded z_def, unfolded uint_ucast_u128]
    and lq = limb_mult [OF cast [of "fp64_p F"] cast [of w], folded q_def, unfolded uint_ucast_u128]
  have low: "uint (lo64 (lo64 z + lo64 q)) = 0"
    using redc_low_limb [OF cast [of "fp64_p F"] lo64_bound [of z], of "fp64_mu F"] mu
    by (simp add: w_def q_def)
  have carry: "uint (lo64 z) + uint (lo64 q) = B64 * of_bool c"
  proof -
    let ?h = "uint (hi64 (lo64 z + lo64 q))"
    have sum: "B64 * ?h = uint (lo64 z) + uint (lo64 q)" and h: "?h \<le> 1"
      using limb_add [OF lo64_bound [of z] lo64_bound [of q]] low by simp_all
    consider "?h = 0" | "?h = 1" using h uint_ge_0 [of "hi64 (lo64 z + lo64 q)"] by linarith
    then show ?thesis by cases (use sum in \<open>simp_all add: c_def\<close>)
  qed
  have r: "uint r = uint (hi64 z) + uint (hi64 q) + of_bool c"
    unfolding r_def using lz(2) lq(2)
    by (subst uint_add_exact; (subst uint_add_exact)?) (simp_all add: uint_limb_u64 of_bool_def)
  have total: "B64 * uint r = uint x * uint y + ?p * uint w"
    using lz(1) lq(1) carry r by (simp add: algebra_simps)
  have "?p * uint w \<le> ?p * B64"
    using u64_bound [of w] by (intro mult_left_mono) auto
  with total xy have "B64 * uint r < B64 * (2 * ?p)" by (simp add: algebra_simps)
  then have t: "uint r < 2 * ?p" by simp
  have "uint r = uint (ucast (hi64 r) :: u64) * 2 ^ LENGTH(64) + uint (ucast (lo64 r) :: u64)"
    using limb_split [of r] by (simp add: uint_limb_u64)
  then have res: "uint (fp64_mul F x y) = uint r mod ?p"
    unfolding eq using t uint_final_sub [of "uint r" _ _ "fp64_p F"] by (simp add: mod_below_double)
  have "0 < ?p" using t uint_ge_0 [of r] by linarith
  then show "uint (fp64_mul F x y) < ?p" unfolding res by simp
  have "uint (fp64_mul F x y) * B64 mod ?p = (uint x * uint y + ?p * uint w) mod ?p"
    unfolding res total [symmetric] mod_mult_left_eq by (simp only: mult.commute)
  then show "uint (fp64_mul F x y) * B64 mod ?p = uint x * uint y mod ?p" by simp
qed

section \<open>The table\<close>

locale fp64_field =
  fixes F :: field_parameters64
  assumes mu: "(uint (fp64_p F) * uint (fp64_mu F) + 1) mod B64 = 0"
    and prime: "is_prime (unat (fp64_p F))"
    and p_ge: "2 < uint (fp64_p F)"
    and r2: "uint (fp64_r2 F) = B64 * B64 mod uint (fp64_p F)"
    and roots_0: "fp64_roots F \<noteq> []" "uint (fp64_roots F ! 0) = B64 mod uint (fp64_p F)"
    and roots_1: "1 < length (fp64_roots F) \<Longrightarrow> fp64_roots F ! 1 \<noteq> fp64_roots F ! 0"
    and roots: "square_chain (uint (fp64_p F)) B64 (map uint (fp64_roots F))"
begin

lemma p_odd: "odd (uint (fp64_p F))"
proof
  assume "even (uint (fp64_p F))"
  then have "odd (uint (fp64_p F) * uint (fp64_mu F) + 1)" by simp
  moreover have "even (uint (fp64_p F) * uint (fp64_mu F) + 1)"
    using mu dvd_trans [of 2 B64 "uint (fp64_p F) * uint (fp64_mu F) + 1"]
    unfolding mod_eq_0_iff_dvd by simp
  ultimately show False by simp
qed

lemma coprime_R: "coprime B64 (uint (fp64_p F))"
proof -
  have "coprime (2 ^ 64) (uint (fp64_p F))" using p_odd by (simp only: coprime_power_left_iff) simp
  then show ?thesis by simp
qed

lemma r2_less: "uint (fp64_r2 F) < uint (fp64_p F)"
  unfolding r2 using p_ge by simp

lemma mul_bound: "uint (y :: u64) < uint (fp64_p F) \<Longrightarrow> uint (x :: u64) * uint y < B64 * uint (fp64_p F)"
  using u64_bound [of x] by (intro mult_strict_mono') simp_all

lemma mont_mul: "fp64_montgomery F x = fp64_mul F x (fp64_r2 F)"
  unfolding fp64_montgomery_def fp64_modp_eq by (rule modp_id fp64_mul_correct mu mul_bound r2_less)+

lemma uint_one: "uint (fp64_montgomery F 1) = B64 mod uint (fp64_p F)"
proof -
  note m = fp64_mul_correct [OF mu mul_bound [OF r2_less], of 1]
  have "uint (fp64_mul F 1 (fp64_r2 F)) mod uint (fp64_p F) = B64 mod uint (fp64_p F)"
  proof (rule mod_mult_cancel_int)
    show "coprime B64 (uint (fp64_p F))" by (rule coprime_R)
    show "uint (fp64_mul F 1 (fp64_r2 F)) * B64 mod uint (fp64_p F) = B64 * B64 mod uint (fp64_p F)"
      using m(2) unfolding r2 by simp
  qed
  with m(1) show ?thesis by (simp add: mont_mul)
qed

end

sublocale fp64_field \<subseteq> dom: montgomery_domain "uint (fp64_p F)" "B64" uint "fp64_add F" "fp64_sub F" "fp64_mul F"
    0 "fp64_roots F ! 0" "fp64_r2 F" 1
proof unfold_locales
  show "is_prime (nat (uint (fp64_p F)))" using prime by simp
  show "coprime B64 (uint (fp64_p F))" by (rule coprime_R)
  show "uint (fp64_p F) \<le> B64" using u64_bound [of "fp64_p F"] by simp
  show "uint x = uint y \<Longrightarrow> x = y" for x y :: u64 by (rule word_uint_eqI)
next
  fix x y :: u64
  assume "uint x * uint y < B64 * uint (fp64_p F)"
  then have "uint x * uint y < B64 * uint (fp64_p F)" by simp
  from fp64_mul_correct [OF mu this]
  show "uint (fp64_mul F x y) < uint (fp64_p F)"
    and "uint (fp64_mul F x y) * B64 mod uint (fp64_p F) = uint x * uint y mod uint (fp64_p F)"
    by simp_all
qed (simp_all add: roots_0 r2 uint_fp64_add uint_fp64_sub)

context fp64_field
begin

lemma one_root: "fp64_montgomery F 1 = fp64_roots F ! 0"
  by (rule word_uint_eqI) (simp only: uint_one roots_0)

lemma fp64_pow_bits: "fp64_pow F x e = dom.pow_bits x (bit e) (LENGTH(64) - leading_zeros e) (fp64_roots F ! 0)"
  by (simp add: fp64_pow_def dom.pow_bits_def one_root drop_bit_and_one)

lemma val_le_R: "uint (x :: u64) \<le> B64"
  using u64_bound [of x] by simp

lemma fp64_root_Suc:
  assumes "fp64_root F (Suc l) = Some w"
  shows "uint w < uint (fp64_p F) \<and>
    (\<exists>v. fp64_root F l = Some v \<and> uint w * uint w mod uint (fp64_p F) = uint v * B64 mod uint (fp64_p F))"
  using assms square_chain_nth [OF roots, of l] by (auto simp: fp64_root_def split: if_splits)

end

sublocale fp64_field \<subseteq> field_methods "uint (fp64_p F)" "B64" uint "fp64_add F" "fp64_sub F" "fp64_mul F"
    0 "fp64_roots F ! 0" "fp64_root F" "fp64_pow F" "fp64_inv F" "fp64_neg F" "fp64_montgomery F" "fp64_residue F"
proof unfold_locales
  show "fp64_root F 0 = Some (fp64_roots F ! 0)" using roots_0(1) by (simp add: fp64_root_def)
  show "fp64_root F 1 = Some w \<Longrightarrow> w \<noteq> fp64_roots F ! 0" for w
    using roots_1 by (auto simp: fp64_root_def split: if_splits)
  show "\<exists>e. uint e = uint (fp64_p F) - 2 \<and> fp64_inv F x = fp64_pow F x e" for x
    using p_ge by (intro exI [of _ "fp64_p F - 2"]) (simp add: fp64_inv_def uint_sub_if')
  show "fp64_neg F x = fp64_sub F 0 x" for x by (simp add: fp64_neg_def)
  show "dom.canon (fp64_montgomery F x)" and "dom.elem (fp64_montgomery F x) = uint x mod uint (fp64_p F)" for x
    using dom.canon_mul_any [OF val_le_R dom.canon_r2] dom.elem_mul_r2 [OF val_le_R, of x]
    by (simp_all add: mont_mul)
  fix x :: u64
  assume x: "dom.canon x"
  then show "dom.canon (fp64_pow F x e)" for e by (simp add: fp64_pow_bits dom.canon_pow_bits)
  show "dom.elem (fp64_pow F x e) = dom.elem x ^ nat (uint e) mod uint (fp64_p F)" for e
    by (simp only: fp64_pow_bits dom.elem_pow_bits [OF x dom.canon_one] bit_length_sum dom.elem_one
        power_one mult_1 unat_eq_nat_uint)
  have "uint (fp64_mul F x 1) = dom.elem x"
    using x by (intro dom.val_mul_unit) (simp add: dom.canon_def)
  moreover from this have "modp (fp64_mul F x 1) (fp64_p F) = fp64_mul F x 1"
    using dom.elem_bounds [of x] by (intro modp_id) simp
  ultimately show "uint (fp64_residue F x) = dom.elem x" by (simp add: fp64_residue_def fp64_modp_eq)
qed (rule fp64_root_Suc)

lemma FP64_chain:
  "square_chain 18446744069414584321 B64 (map uint (fp64_roots FP64))"
  by (rule square_chain_certI [of _ _ _ "[18446744056529682436,
     -131071,
     -143833717360558079,
     -18374686479671623680,
     18446603331926228993,
     70364449226497,
     -18428729675195875328,
     14319970177008835204,
     -14181213265838651328,
     -1131073628154209071,
     -9840589161092071839,
     4165689860034804833,
     -9965785329777531100,
     -3799203914930224263,
     -860410356415088412,
     7795576822131008260,
     -5639486300948714396,
     -12257062014592932879,
     5138847165118968937,
     -7618190173833657052]"]) (simp add: FP64_def)

lemma FP64_r2: "B64 * B64 mod 18446744069414584321 = 18446744065119617025"
  by (rule mod_by_quotient [of _ _ "18446744078004518911"]) simp_all

lemma FP64_r: "B64 mod 18446744069414584321 = 4294967295"
  by (rule mod_by_quotient [of _ _ "1"]) simp_all

lemma FP64_modulus: "uint (fp64_p FP64) = 18446744069414584321"
  by (simp add: FP64_def)

interpretation fp64: fp64_field FP64
proof (unfold_locales, unfold FP64_modulus)
  show "(18446744069414584321 * uint (fp64_mu FP64) + 1) mod B64 = 0" by (simp add: FP64_def)
  show "is_prime (unat (fp64_p FP64))" using prime_64 by (simp add: FP64_def)
  show "square_chain 18446744069414584321 B64 (map uint (fp64_roots FP64))" by (rule FP64_chain)
  show "uint (fp64_r2 FP64) = B64 * B64 mod 18446744069414584321" unfolding FP64_r2 by (simp add: FP64_def)
  show "uint (fp64_roots FP64 ! 0) = B64 mod 18446744069414584321" unfolding FP64_r by (simp add: FP64_def)
qed (simp_all add: FP64_def)

section \<open>Properties\<close>

text \<open>
  C32. The 64-bit field: conversion into and out of Montgomery form is the identity on residues, and \<open>inv\<close>, computed by
  exponentiation, gives the multiplicative inverse of every element but zero, the product being \<open>one\<close>, the root of unity of order 1.
\<close>

theorem fp64_inverse:
  assumes "uint x < uint (fp64_p FP64)"
  shows "uint (fp64_residue FP64 (fp64_montgomery FP64 x)) = uint x \<and>
    fp64_montgomery FP64 (fp64_residue FP64 x) = x \<and>
    (x \<noteq> 0 \<longrightarrow> fp64_mul FP64 (fp64_inv FP64 x) x = fp64_roots FP64 ! 0)"
proof -
  have canon: "fp64.dom.canon x" using assms by (simp add: fp64.dom.canon_def)
  with canon assms show ?thesis
    using fp64.mont_resid [of x] fp64.val_resid_mont [of x] fp64.inv_mul [of x] by simp
qed


theorem fp64_inverse_witness: "fp64_mul FP64 (fp64_inv FP64 7) 7 = 4294967295"
  using fp64_inverse [of 7] by (simp add: FP64_def)

end
