(* ===== verification/MakeField.thy ===== *)
theory MakeField
  imports Codec Fp64
begin

unbundle bit_operations_syntax

text \<open>
  The body of the macro \<open>make_field!\<close> of \<^verbatim>\<open>src/field.rs\<close> at the level of representations, and the three
  field types it is expanded to.  An element is an integer in the Montgomery domain below the modulus;
  the type definitions make that invariant part of the type, so that each operation carries the
  obligation to keep it.  The arithmetic of each type is an instance of the library's class of
  fields, every operation being the code's.
\<close>

section \<open>The macro on representations\<close>

text \<open>The parameters are the encoded size, the modulus and the table's \<open>montgomery\<close> and \<open>residue\<close>.\<close>

definition int_of_bytes :: "nat \<Rightarrow> bytes \<Rightarrow> 'w::len word" where
  "int_of_bytes sz bs = fold (\<lambda>i int. int OR push_bit (8 * i) (ucast (bs ! i))) [0..<sz] 0"

definition repr_try_from_bytes ::
  "nat \<Rightarrow> 'w::len word \<Rightarrow> ('w word \<Rightarrow> 'w word) \<Rightarrow> bytes \<Rightarrow> 'w word \<Rightarrow> ('w word, field_error) outcome" where
  "repr_try_from_bytes sz p mont bs msk =
     (if sz > length bs then Err ShortRead
      else let int = int_of_bytes sz bs;
               int = int AND msk
           in if int \<ge> p then Err ModulusOverflow else Ok (mont int))"

definition repr_to_bytes :: "nat \<Rightarrow> ('w::len word \<Rightarrow> 'w word) \<Rightarrow> 'w word \<Rightarrow> bytes" where
  "repr_to_bytes sz residue x =
     (let int = residue x in map (\<lambda>i. ucast (drop_bit (8 * i) int AND 0xff)) [0..<sz])"

lemma byte_less: "unat (b :: byte) < 256"
  using unsigned_less [of b] by simp

lemma le_value_snoc: "le_value (bs @ [b]) = le_value bs + 256 ^ length bs * unat b"
  by (induction bs) (simp_all add: algebra_simps)

lemma unat_or_push_bit:
  fixes x y :: "'w::len word"
  assumes "unat x < 2 ^ n" and "2 ^ n * unat y < 2 ^ LENGTH('w)"
  shows "unat (x OR push_bit n y) = unat x + 2 ^ n * unat y"
proof -
  have "unat x AND push_bit n (unat y) = take_bit n (unat x) AND push_bit n (unat y)"
    using assms(1) by (simp add: take_bit_nat_eq_self)
  also have "\<dots> = 0" by (rule bit_eqI) (auto simp: bit_simps)
  finally have "unat x OR push_bit n (unat y) = unat x + push_bit n (unat y)"
    by (simp add: disjunctive_add_eq_or)
  moreover have "unat (push_bit n y) = push_bit n (unat y)"
    using assms(2) by (simp only: unsigned_push_bit_eq) (simp add: push_bit_eq_mult take_bit_nat_eq_self mult.commute)
  ultimately show ?thesis by (simp add: unsigned_or_eq push_bit_eq_mult mult.commute)
qed

lemma unat_int_of_bytes:
  assumes "sz \<le> length bs" and "8 * sz \<le> LENGTH('w)"
  shows "unat (int_of_bytes sz bs :: 'w::len word) = le_value (take sz bs)"
  using assms
proof (induction sz)
  case (Suc k)
  let ?v = "int_of_bytes k bs :: 'w word" and ?b = "ucast (bs ! k) :: 'w word"
  have IH: "unat ?v = le_value (take k bs)" using Suc by simp
  have "(256 :: nat) \<le> 2 ^ LENGTH('w)"
    using Suc.prems power_increasing [of 8 "LENGTH('w)" "2 :: nat"] by simp
  then have b: "unat ?b = unat (bs ! k)"
    using byte_less [of "bs ! k"] by (simp add: unsigned_ucast_eq take_bit_nat_eq_self_iff)
  have "le_value (take k bs) < 2 ^ (8 * k)"
    using le_value_bound [of "take k bs"] Suc.prems by (simp add: power_mult min_def)
  moreover have "2 ^ (8 * k) * unat (bs ! k) < 2 ^ LENGTH('w)"
  proof -
    have "2 ^ (8 * k) * unat (bs ! k) < 2 ^ (8 * k) * 2 ^ 8"
      using byte_less [of "bs ! k"] by simp
    also have "\<dots> = 2 ^ (8 * Suc k)" by (simp add: power_add)
    also have "\<dots> \<le> 2 ^ LENGTH('w)" using Suc.prems by (intro power_increasing) simp_all
    finally show ?thesis .
  qed
  ultimately have "unat (?v OR push_bit (8 * k) ?b) = le_value (take k bs) + 2 ^ (8 * k) * unat (bs ! k)"
    by (subst unat_or_push_bit) (simp_all add: IH b)
  then show ?case
    using Suc.prems by (simp add: int_of_bytes_def take_Suc_conv_app_nth le_value_snoc power_mult min_def)
qed (simp add: int_of_bytes_def)

lemma nth_le_bytes: "i < k \<Longrightarrow> le_bytes k n ! i = of_nat (n div 256 ^ i mod 256)"
  by (induction k arbitrary: i n) (auto simp: nth_Cons div_mult2_eq split: nat.split)

lemma ucast_low_byte:
  "(ucast (drop_bit k (w :: 'w::len word) AND 0xff) :: byte) = of_nat (unat w div 2 ^ k mod 256)"
proof -
  have "unat w div 2 ^ k mod 256 = take_bit 8 (drop_bit k (unat w))"
    by (simp add: take_bit_eq_mod drop_bit_eq_div)
  moreover have "drop_bit k w AND 0xff = take_bit 8 (drop_bit k w)"
    by (simp add: take_bit_eq_mask mask_eq_exp_minus_1)
  ultimately show ?thesis
    by (intro bit_eqI) (auto simp: bit_simps dest: bit_imp_le_length)
qed

lemma repr_to_bytes_le: "repr_to_bytes sz residue x = le_bytes sz (unat (residue x))"
  by (rule nth_equalityI)
     (simp_all add: repr_to_bytes_def nth_le_bytes ucast_low_byte power_mult)

section \<open>The field types\<close>

definition field64_repr :: "u64 \<Rightarrow> bool" where
  "field64_repr x \<longleftrightarrow> x < fp64_p FP64"

lemma field64_repr_canon: "field64_repr = fp64.dom.canon"
  by (simp add: fun_eq_iff field64_repr_def fp64.dom.canon_def word_less_def)

typedef field64 = "{x. field64_repr x}"
  by (rule exI [of _ 0]) (simp add: field64_repr_canon)

setup_lifting type_definition_field64

instantiation field64 :: field
begin

lift_definition plus_field64 :: "field64 \<Rightarrow> field64 \<Rightarrow> field64" is "fp64_add FP64"
  by (simp add: field64_repr_canon)

lift_definition minus_field64 :: "field64 \<Rightarrow> field64 \<Rightarrow> field64" is "fp64_sub FP64"
  by (simp add: field64_repr_canon)

lift_definition times_field64 :: "field64 \<Rightarrow> field64 \<Rightarrow> field64" is "fp64_mul FP64"
  by (simp add: field64_repr_canon)

lift_definition uminus_field64 :: "field64 \<Rightarrow> field64" is "fp64_neg FP64"
  by (simp add: field64_repr_canon fp64.neg_sub)

lift_definition inverse_field64 :: "field64 \<Rightarrow> field64" is "fp64_inv FP64"
  by (simp add: field64_repr_canon fp64.canon_inv)

lift_definition zero_field64 :: field64 is 0
  by (simp add: field64_repr_canon)

lift_definition one_field64 :: field64 is "fp64_roots FP64 ! 0"
  by (simp add: field64_repr_canon)

definition divide_field64 :: "field64 \<Rightarrow> field64 \<Rightarrow> field64" where
  "divide_field64 x y = x * inverse y"

instance
proof
  fix a b c :: field64
  show "a + b + c = a + (b + c)" by transfer (simp add: field64_repr_canon fp64.dom.add_assoc)
  show "a + b = b + a" by transfer (simp add: field64_repr_canon fp64.dom.add_commute)
  show "0 + a = a" by transfer (simp add: field64_repr_canon fp64.dom.add_zero)
  show "- a + a = 0" by transfer (simp add: field64_repr_canon fp64.neg_sub fp64.dom.sub_self)
  show "a - b = a + - b" by transfer (simp add: field64_repr_canon fp64.neg_sub flip: fp64.dom.sub_add)
  show "a * b * c = a * (b * c)" by transfer (simp add: field64_repr_canon fp64.dom.mul_assoc)
  show "a * b = b * a" by transfer (simp add: field64_repr_canon fp64.dom.mul_commute)
  show "1 * a = a" by transfer (simp add: field64_repr_canon fp64.dom.mul_one)
  show "(a + b) * c = a * c + b * c" by transfer (simp add: field64_repr_canon fp64.dom.distrib)
  show "(0 :: field64) \<noteq> 1" by transfer (rule fp64.dom.zero_neq_one)
  show "a \<noteq> 0 \<Longrightarrow> inverse a * a = 1" by transfer (simp add: field64_repr_canon fp64.inv_mul)
  show "a div b = a * inverse b" by (simp add: divide_field64_def)
  show "inverse (0 :: field64) = 0" by transfer (rule fp64.inv_zero [OF fp64.p_ge])
qed

end

text \<open>Equality compares representations.\<close>

instantiation field64 :: equal
begin

lift_definition equal_field64 :: "field64 \<Rightarrow> field64 \<Rightarrow> bool" is "(=)" .

instance
  by standard (transfer, rule refl)

end

definition field128_repr :: "u128 \<Rightarrow> bool" where
  "field128_repr x \<longleftrightarrow> x < fp_p FP128"

lemma field128_repr_canon: "field128_repr = fp128.dom.canon"
  by (simp add: fun_eq_iff field128_repr_def fp128.dom.canon_def word_less_def)

typedef field128 = "{x. field128_repr x}"
  by (rule exI [of _ 0]) (simp add: field128_repr_canon)

setup_lifting type_definition_field128

instantiation field128 :: field
begin

lift_definition plus_field128 :: "field128 \<Rightarrow> field128 \<Rightarrow> field128" is "fp_add FP128"
  by (simp add: field128_repr_canon)

lift_definition minus_field128 :: "field128 \<Rightarrow> field128 \<Rightarrow> field128" is "fp_sub FP128"
  by (simp add: field128_repr_canon)

lift_definition times_field128 :: "field128 \<Rightarrow> field128 \<Rightarrow> field128" is "fp_mul FP128"
  by (simp add: field128_repr_canon)

lift_definition uminus_field128 :: "field128 \<Rightarrow> field128" is "fp_neg FP128"
  by (simp add: field128_repr_canon fp128.neg_sub)

lift_definition inverse_field128 :: "field128 \<Rightarrow> field128" is "fp_inv FP128"
  by (simp add: field128_repr_canon fp128.canon_inv)

lift_definition zero_field128 :: field128 is 0
  by (simp add: field128_repr_canon)

lift_definition one_field128 :: field128 is "fp_roots FP128 ! 0"
  by (simp add: field128_repr_canon)

definition divide_field128 :: "field128 \<Rightarrow> field128 \<Rightarrow> field128" where
  "divide_field128 x y = x * inverse y"

instance
proof
  fix a b c :: field128
  show "a + b + c = a + (b + c)" by transfer (simp add: field128_repr_canon fp128.dom.add_assoc)
  show "a + b = b + a" by transfer (simp add: field128_repr_canon fp128.dom.add_commute)
  show "0 + a = a" by transfer (simp add: field128_repr_canon fp128.dom.add_zero)
  show "- a + a = 0" by transfer (simp add: field128_repr_canon fp128.neg_sub fp128.dom.sub_self)
  show "a - b = a + - b" by transfer (simp add: field128_repr_canon fp128.neg_sub flip: fp128.dom.sub_add)
  show "a * b * c = a * (b * c)" by transfer (simp add: field128_repr_canon fp128.dom.mul_assoc)
  show "a * b = b * a" by transfer (simp add: field128_repr_canon fp128.dom.mul_commute)
  show "1 * a = a" by transfer (simp add: field128_repr_canon fp128.dom.mul_one)
  show "(a + b) * c = a * c + b * c" by transfer (simp add: field128_repr_canon fp128.dom.distrib)
  show "(0 :: field128) \<noteq> 1" by transfer (rule fp128.dom.zero_neq_one)
  show "a \<noteq> 0 \<Longrightarrow> inverse a * a = 1" by transfer (simp add: field128_repr_canon fp128.inv_mul)
  show "a div b = a * inverse b" by (simp add: divide_field128_def)
  show "inverse (0 :: field128) = 0" by transfer (rule fp128.inv_zero [OF fp128.p_ge])
qed

end

text \<open>Equality compares representations.\<close>

instantiation field128 :: equal
begin

lift_definition equal_field128 :: "field128 \<Rightarrow> field128 \<Rightarrow> bool" is "(=)" .

instance
  by standard (transfer, rule refl)

end

definition fieldprio2_repr :: "u128 \<Rightarrow> bool" where
  "fieldprio2_repr x \<longleftrightarrow> x < fp_p FP32"

lemma fieldprio2_repr_canon: "fieldprio2_repr = fp32.dom.canon"
  by (simp add: fun_eq_iff fieldprio2_repr_def fp32.dom.canon_def word_less_def)

typedef fieldprio2 = "{x. fieldprio2_repr x}"
  by (rule exI [of _ 0]) (simp add: fieldprio2_repr_canon)

setup_lifting type_definition_fieldprio2

instantiation fieldprio2 :: field
begin

lift_definition plus_fieldprio2 :: "fieldprio2 \<Rightarrow> fieldprio2 \<Rightarrow> fieldprio2" is "fp_add FP32"
  by (simp add: fieldprio2_repr_canon)

lift_definition minus_fieldprio2 :: "fieldprio2 \<Rightarrow> fieldprio2 \<Rightarrow> fieldprio2" is "fp_sub FP32"
  by (simp add: fieldprio2_repr_canon)

lift_definition times_fieldprio2 :: "fieldprio2 \<Rightarrow> fieldprio2 \<Rightarrow> fieldprio2" is "fp_mul FP32"
  by (simp add: fieldprio2_repr_canon)

lift_definition uminus_fieldprio2 :: "fieldprio2 \<Rightarrow> fieldprio2" is "fp_neg FP32"
  by (simp add: fieldprio2_repr_canon fp32.neg_sub)

lift_definition inverse_fieldprio2 :: "fieldprio2 \<Rightarrow> fieldprio2" is "fp_inv FP32"
  by (simp add: fieldprio2_repr_canon fp32.canon_inv)

lift_definition zero_fieldprio2 :: fieldprio2 is 0
  by (simp add: fieldprio2_repr_canon)

lift_definition one_fieldprio2 :: fieldprio2 is "fp_roots FP32 ! 0"
  by (simp add: fieldprio2_repr_canon)

definition divide_fieldprio2 :: "fieldprio2 \<Rightarrow> fieldprio2 \<Rightarrow> fieldprio2" where
  "divide_fieldprio2 x y = x * inverse y"

instance
proof
  fix a b c :: fieldprio2
  show "a + b + c = a + (b + c)" by transfer (simp add: fieldprio2_repr_canon fp32.dom.add_assoc)
  show "a + b = b + a" by transfer (simp add: fieldprio2_repr_canon fp32.dom.add_commute)
  show "0 + a = a" by transfer (simp add: fieldprio2_repr_canon fp32.dom.add_zero)
  show "- a + a = 0" by transfer (simp add: fieldprio2_repr_canon fp32.neg_sub fp32.dom.sub_self)
  show "a - b = a + - b" by transfer (simp add: fieldprio2_repr_canon fp32.neg_sub flip: fp32.dom.sub_add)
  show "a * b * c = a * (b * c)" by transfer (simp add: fieldprio2_repr_canon fp32.dom.mul_assoc)
  show "a * b = b * a" by transfer (simp add: fieldprio2_repr_canon fp32.dom.mul_commute)
  show "1 * a = a" by transfer (simp add: fieldprio2_repr_canon fp32.dom.mul_one)
  show "(a + b) * c = a * c + b * c" by transfer (simp add: fieldprio2_repr_canon fp32.dom.distrib)
  show "(0 :: fieldprio2) \<noteq> 1" by transfer (rule fp32.dom.zero_neq_one)
  show "a \<noteq> 0 \<Longrightarrow> inverse a * a = 1" by transfer (simp add: fieldprio2_repr_canon fp32.inv_mul)
  show "a div b = a * inverse b" by (simp add: divide_fieldprio2_def)
  show "inverse (0 :: fieldprio2) = 0" by transfer (rule fp32.inv_zero [OF fp32.p_ge])
qed

end

text \<open>Equality compares representations.\<close>

instantiation fieldprio2 :: equal
begin

lift_definition equal_fieldprio2 :: "fieldprio2 \<Rightarrow> fieldprio2 \<Rightarrow> bool" is "(=)" .

instance
  by standard (transfer, rule refl)

end

end
