(* ===== verification/Field.thy ===== *)
theory Field
  imports MakeField
begin

unbundle bit_operations_syntax

text \<open>
  The traits of \<^verbatim>\<open>src/field.rs\<close>.  A type implementing \<open>FftFriendlyFieldElement\<close> is a type of the library's
  class of fields, for its arithmetic, together with a dictionary of its other methods; the macro
  \<open>make_field!\<close> builds the dictionary from a parameter table.  The locale \<open>prime_field\<close> states what
  generic code relies on, and is interpreted on the three fields of the crate.
\<close>

section \<open>The dictionary\<close>

text \<open>A value of the associated type \<open>Integer\<close> is a natural number below \<open>2 ^ INTEGER_BITS\<close>.\<close>

record 'f field_element =
  ENCODED_SIZE :: nat
  INTEGER_BITS :: nat
  modulus :: nat
  try_from :: "bytes \<Rightarrow> ('f, field_error) outcome"
  try_from_random :: "bytes \<Rightarrow> ('f, field_error) outcome"
  to_bytes :: "'f \<Rightarrow> bytes"
  from_integer :: "nat \<Rightarrow> 'f"
  to_integer :: "'f \<Rightarrow> nat"
  fpow :: "'f \<Rightarrow> nat \<Rightarrow> 'f"
  generator :: 'f
  generator_order :: nat
  froot :: "nat \<Rightarrow> 'f option"

definition make_field ::
  "('w::len word \<Rightarrow> 'f) \<Rightarrow> ('f \<Rightarrow> 'w word) \<Rightarrow> nat \<Rightarrow> nat \<Rightarrow> 'w word \<Rightarrow> 'w word \<Rightarrow> 'w word \<Rightarrow> nat \<Rightarrow>
   (nat \<Rightarrow> 'w word option) \<Rightarrow> ('w word \<Rightarrow> 'w word \<Rightarrow> 'w word) \<Rightarrow> ('w word \<Rightarrow> 'w word) \<Rightarrow>
   ('w word \<Rightarrow> 'w word) \<Rightarrow> 'f field_element" where
  "make_field elem repr sz int_bits p bit_mask g num_roots root pow mont resid = \<lparr>
     ENCODED_SIZE = sz,
     INTEGER_BITS = int_bits,
     modulus = unat p,
     try_from = (\<lambda>bs. and_then (repr_try_from_bytes sz p mont bs (- 1)) (Ok \<circ> elem)),
     try_from_random = (\<lambda>bs. and_then (repr_try_from_bytes sz p mont bs bit_mask) (Ok \<circ> elem)),
     to_bytes = (\<lambda>x. repr_to_bytes sz resid (repr x)),
     from_integer = (\<lambda>n. elem (mont (of_nat n))),
     to_integer = (\<lambda>x. unat (resid (repr x))),
     fpow = (\<lambda>x e. elem (pow (repr x) (of_nat e))),
     generator = elem g,
     generator_order = 2 ^ num_roots,
     froot = (\<lambda>l. map_option elem (root l)) \<rparr>"

definition Field64 :: "field64 field_element" where
  "Field64 = make_field Abs_field64 Rep_field64 8 64 (fp64_p FP64) (fp64_bit_mask FP64) (fp64_g FP64)
     (fp64_num_roots FP64) (fp64_root FP64) (fp64_pow FP64) (fp64_montgomery FP64) (fp64_residue FP64)"

definition Field128 :: "field128 field_element" where
  "Field128 = make_field Abs_field128 Rep_field128 16 128 (fp_p FP128) (fp_bit_mask FP128) (fp_g FP128)
     (fp_num_roots FP128) (fp_root FP128) (fp_pow FP128) (fp_montgomery FP128) (fp_residue FP128)"

definition FieldPrio2 :: "fieldprio2 field_element" where
  "FieldPrio2 = make_field Abs_fieldprio2 Rep_fieldprio2 4 32 (fp_p FP32) (fp_bit_mask FP32) (fp_g FP32)
     (fp_num_roots FP32) (fp_root FP32) (fp_pow FP32) (fp_montgomery FP32) (fp_residue FP32)"

section \<open>The contract\<close>

text \<open>What \<open>try_from\<close> accepts: the little-endian bytes of an integer below the modulus.\<close>

definition decode_residue :: "nat \<Rightarrow> nat \<Rightarrow> bytes \<Rightarrow> ('f::field, field_error) outcome" where
  "decode_residue sz p bs =
     (if length bs < sz then Err ShortRead
      else if p \<le> le_value (take sz bs) then Err ModulusOverflow
      else Ok (of_nat (le_value (take sz bs))))"

locale prime_field =
  fixes F :: "'f::field field_element"
  assumes prime_modulus: "is_prime (modulus F)"
    and integer_bits: "INTEGER_BITS F = 8 * ENCODED_SIZE F"
    and modulus_bits: "2 ^ (INTEGER_BITS F - 1) < modulus F" "modulus F < 2 ^ INTEGER_BITS F"
    and to_integer_less: "to_integer F x < modulus F"
    and of_nat_to_integer: "of_nat (to_integer F x) = x"
    and to_integer_of_nat: "to_integer F (of_nat n) = n mod modulus F"
    and from_integer: "n < 2 ^ INTEGER_BITS F \<Longrightarrow> from_integer F n = of_nat n"
    and try_from: "try_from F bs = decode_residue (ENCODED_SIZE F) (modulus F) bs"
    and try_from_random: "try_from_random F bs = decode_residue (ENCODED_SIZE F) (modulus F) bs"
    and to_bytes: "to_bytes F x = le_bytes (ENCODED_SIZE F) (to_integer F x)"
    and fpow: "n < 2 ^ INTEGER_BITS F \<Longrightarrow> fpow F x n = x ^ n"
    and froot_0: "froot F 0 = Some 1"
    and froot_1: "froot F 1 = Some w \<Longrightarrow> w = - 1"
    and froot_Suc: "froot F (Suc l) = Some w \<Longrightarrow> froot F l = Some (w * w)"
    and froot_20: "l \<le> 20 \<Longrightarrow> froot F l \<noteq> None"
begin

lemma modulus_gt_1: "1 < modulus F"
  using prime_modulus by (simp add: is_prime_def)

lemma of_nat_eq_iff: "(of_nat m :: 'f) = of_nat n \<longleftrightarrow> m mod modulus F = n mod modulus F"
  by (metis of_nat_to_integer to_integer_of_nat)

lemma of_nat_eq_0_iff: "(of_nat n :: 'f) = 0 \<longleftrightarrow> modulus F dvd n"
  using of_nat_eq_iff [of n 0] by (simp add: dvd_eq_mod_eq_0)

lemma to_integer_inj: "to_integer F x = to_integer F y \<longleftrightarrow> x = y"
  by (metis of_nat_to_integer)

lemma to_integer_0 [simp]: "to_integer F 0 = 0" and to_integer_1 [simp]: "to_integer F 1 = 1"
  using to_integer_of_nat [of 0] to_integer_of_nat [of 1] modulus_gt_1 by simp_all

lemma to_integer_add: "to_integer F (x + y) = (to_integer F x + to_integer F y) mod modulus F"
  by (metis of_nat_add of_nat_to_integer to_integer_of_nat)

lemma to_integer_mult: "to_integer F (x * y) = to_integer F x * to_integer F y mod modulus F"
  by (metis of_nat_mult of_nat_to_integer to_integer_of_nat)

end

section \<open>The fields of the crate\<close>

text \<open>A table with its type: the representation of every operation is the table's operation.\<close>

locale repr_field = field_methods p R uint add sub mul 0 one root pow inv neg mont resid
  for p R :: int and add sub mul :: "'w::len word \<Rightarrow> 'w word \<Rightarrow> 'w word" and one :: "'w word"
    and root pow inv neg mont resid +
  fixes elem_of :: "'w word \<Rightarrow> 'f::field" and repr :: "'f \<Rightarrow> 'w word" and P msk :: "'w word"
    and sz bits :: nat
  assumes P: "p = uint P" "2 ^ (bits - 1) < unat P" "unat P < 2 ^ bits" "2 < unat P"
    and bits: "bits = 8 * sz" "bits \<le> LENGTH('w)" "msk = - 1 \<or> msk = mask bits"
    and canon_repr: "canon (repr x)"
    and repr_elem: "canon w \<Longrightarrow> repr (elem_of w) = w"
    and elem_repr: "elem_of (repr x) = x"
    and repr_add: "repr (x + y) = add (repr x) (repr y)"
    and repr_mult: "repr (x * y) = mul (repr x) (repr y)"
    and repr_one: "repr 1 = one"
    and repr_zero: "repr 0 = 0"
    and root_20: "l \<le> 20 \<Longrightarrow> root l \<noteq> None"
begin

definition residue_of :: "'f \<Rightarrow> nat" where
  "residue_of x = nat (elem (repr x))"

lemma residue_of_inj:
  assumes "residue_of x = residue_of y"
  shows "x = y"
proof -
  have "elem (repr x) = elem (repr y)"
    using assms elem_bounds(1) [of "repr x"] elem_bounds(1) [of "repr y"] by (simp add: residue_of_def)
  then have "repr x = repr y" by (intro elem_eqI canon_repr)
  then show ?thesis by (metis elem_repr)
qed

lemma p_nat: "p = int (unat P)"
  by (simp add: P(1))

lemma int_mod_p: "int (n mod unat P) = int n mod p"
  unfolding p_nat by (rule of_nat_mod)

lemma residue_of_less: "residue_of x < unat P"
proof -
  have "elem (repr x) < int (unat P)" using elem_bounds(2) [of "repr x"] p_nat by (rule ord_less_eq_trans)
  then show ?thesis unfolding residue_of_def using P(4) by linarith
qed

lemma elem_of_nat: "elem (repr (of_nat n)) = int n mod p"
  by (induction n)
     (simp_all add: repr_zero repr_add repr_one canon_repr mod_add_right_eq)

lemma residue_of_of_nat: "residue_of (of_nat n) = n mod unat P"
  by (simp only: residue_of_def elem_of_nat nat_int flip: int_mod_p)

lemma of_nat_residue_of: "of_nat (residue_of x) = x"
  by (rule residue_of_inj) (simp add: residue_of_of_nat residue_of_less)

lemma unat_resid: "unat (resid (repr x)) = residue_of x"
  by (simp only: residue_of_def val_resid [OF canon_repr] unat_eq_nat_uint)

lemma elem_of_eqI:
  assumes "canon w" and "elem w = int n mod p"
  shows "elem_of w = of_nat n"
  by (rule residue_of_inj) (simp add: residue_of_def repr_elem assms elem_of_nat)

lemma elem_of_mont: "elem_of (mont w) = of_nat (unat w)"
  by (rule elem_of_eqI) (simp_all add: canon_mont elem_mont)

lemma elem_of_pow: "elem_of (pow (repr x) e) = x ^ unat e"
proof -
  have "int (residue_of x) = elem (repr x)" by (simp add: residue_of_def elem_bounds)
  then have "elem (pow (repr x) e) = int (residue_of x ^ unat e) mod p"
    by (simp only: elem_pow [OF canon_repr] of_nat_power unat_eq_nat_uint)
  then have "elem_of (pow (repr x) e) = of_nat (residue_of x ^ unat e)"
    by (intro elem_of_eqI canon_pow canon_repr)
  then show ?thesis by (simp add: of_nat_residue_of)
qed

lemma unat_of_nat_bits:
  assumes "n < 2 ^ bits"
  shows "unat (of_nat n :: 'w word) = n"
proof -
  have "n < 2 ^ LENGTH('w)"
    using assms bits(2) by (meson less_le_trans one_le_numeral power_increasing)
  then show ?thesis by (simp add: unsigned_of_nat take_bit_nat_eq_self)
qed

lemma int_of_bytes_masked:
  assumes "sz \<le> length bs" and "m = - 1 \<or> m = mask bits"
  shows "unat (int_of_bytes sz bs AND m :: 'w word) = le_value (take sz bs)"
proof -
  have v: "unat (int_of_bytes sz bs :: 'w word) = le_value (take sz bs)"
    using assms bits by (intro unat_int_of_bytes) simp_all
  have "length (take sz bs) = sz" using assms(1) by simp
  then have "le_value (take sz bs) < 2 ^ bits"
    using le_value_bound [of "take sz bs"] by (simp add: power_mult bits(1))
  then have "take_bit bits (int_of_bytes sz bs :: 'w word) = int_of_bytes sz bs"
    by (intro unsigned_word_eqI [where 'a = nat]) (simp add: unsigned_take_bit_eq v take_bit_nat_eq_self)
  then have "int_of_bytes sz bs AND m = (int_of_bytes sz bs :: 'w word)"
    using assms(2) by (auto simp: take_bit_eq_mask)
  with v show ?thesis by simp
qed

lemma try_from_bytes_decode:
  assumes "m = - 1 \<or> m = mask bits"
  shows "and_then (repr_try_from_bytes sz P mont bs m) (Ok \<circ> elem_of) = decode_residue sz (unat P) bs"
  using int_of_bytes_masked [OF _ assms, of bs]
  by (simp add: repr_try_from_bytes_def decode_residue_def Let_def elem_of_mont word_le_nat_alt)

lemma elem_of_square:
  assumes "root (Suc l) = Some w" and "root l = Some v"
  shows "elem_of v = elem_of w * elem_of w"
proof -
  have "repr (elem_of v) = repr (elem_of w * elem_of w)"
    using root_canon [OF assms(1)] root_canon [OF assms(2)] root_square [OF assms]
    by (simp add: repr_mult repr_elem)
  then show ?thesis by (metis elem_repr)
qed

lemma root_1_minus_one:
  assumes "root 1 = Some w"
  shows "elem_of w = - 1"
proof -
  have "elem_of w * elem_of w = elem_of one"
    using elem_of_square [of 0 w one] assms root_0 by simp
  moreover have one: "elem_of one = 1" by (metis elem_repr repr_one)
  ultimately have "elem_of w = 1 \<or> elem_of w = - 1" by (simp add: square_eq_1_iff)
  moreover have "elem_of w \<noteq> 1"
    using root_1 [OF assms] root_canon [OF assms] by (metis repr_elem repr_one)
  ultimately show ?thesis by simp
qed

lemma prime_field_make: "prime_field (make_field elem_of repr sz bits P msk g nr root pow mont resid)"
proof (unfold_locales, unfold make_field_def field_element.simps)
  show "is_prime (unat P)" using prime p_nat by simp
  show "unat (resid (repr x)) < unat P" "of_nat (unat (resid (repr x))) = x" for x
    unfolding unat_resid by (rule residue_of_less of_nat_residue_of)+
  show "unat (resid (repr (of_nat n))) = n mod unat P" for n
    unfolding unat_resid by (rule residue_of_of_nat)
  show "n < 2 ^ bits \<Longrightarrow> elem_of (mont (of_nat n)) = of_nat n" for n
    by (simp add: elem_of_mont unat_of_nat_bits)
  show "n < 2 ^ bits \<Longrightarrow> elem_of (pow (repr x) (of_nat n)) = x ^ n" for n x
    by (simp add: elem_of_pow unat_of_nat_bits)
  show "map_option elem_of (root 0) = Some 1" using root_0 by (simp, metis elem_repr repr_one)
  show "map_option elem_of (root 1) = Some w \<Longrightarrow> w = - 1" for w using root_1_minus_one by auto
  show "map_option elem_of (root (Suc l)) = Some w \<Longrightarrow> map_option elem_of (root l) = Some (w * w)" for l w
    using root_Suc elem_of_square by fastforce
qed (use P bits root_20 in \<open>simp_all add: try_from_bytes_decode repr_to_bytes_le\<close>)

end

interpretation field64: repr_field "uint (fp64_p FP64)" B64 "fp64_add FP64" "fp64_sub FP64" "fp64_mul FP64"
    "fp64_roots FP64 ! 0" "fp64_root FP64" "fp64_pow FP64" "fp64_inv FP64" "fp64_neg FP64"
    "fp64_montgomery FP64" "fp64_residue FP64" Abs_field64 Rep_field64 "fp64_p FP64" "fp64_bit_mask FP64" 8 64
proof unfold_locales
  show "fp64.dom.canon (Rep_field64 x)" for x using Rep_field64 [of x] by (simp add: field64_repr_canon)
  show "fp64.dom.canon w \<Longrightarrow> Rep_field64 (Abs_field64 w) = w" for w
    by (simp add: Abs_field64_inverse field64_repr_canon)
  show "l \<le> 20 \<Longrightarrow> fp64_root FP64 l \<noteq> None" for l by (simp add: fp64_root_def FP64_def)
qed (simp_all add: Rep_field64_inverse plus_field64.rep_eq times_field64.rep_eq one_field64.rep_eq
    zero_field64.rep_eq, simp_all add: FP64_def mask_eq_exp_minus_1)

interpretation Field64: prime_field Field64
  unfolding Field64_def by (rule field64.prime_field_make)

interpretation field128: repr_field "uint (fp_p FP128)" B128 "fp_add FP128" "fp_sub FP128" "fp_mul FP128"
    "fp_roots FP128 ! 0" "fp_root FP128" "fp_pow FP128" "fp_inv FP128" "fp_neg FP128"
    "fp_montgomery FP128" "fp_residue FP128" Abs_field128 Rep_field128 "fp_p FP128" "fp_bit_mask FP128" 16 128
proof unfold_locales
  show "fp128.dom.canon (Rep_field128 x)" for x using Rep_field128 [of x] by (simp add: field128_repr_canon)
  show "fp128.dom.canon w \<Longrightarrow> Rep_field128 (Abs_field128 w) = w" for w
    by (simp add: Abs_field128_inverse field128_repr_canon)
  show "l \<le> 20 \<Longrightarrow> fp_root FP128 l \<noteq> None" for l by (simp add: fp_root_def FP128_def)
qed (simp_all add: Rep_field128_inverse plus_field128.rep_eq times_field128.rep_eq one_field128.rep_eq
    zero_field128.rep_eq, simp_all add: FP128_def mask_eq_exp_minus_1)

interpretation Field128: prime_field Field128
  unfolding Field128_def by (rule field128.prime_field_make)

interpretation fieldprio2: repr_field "uint (fp_p FP32)" B128 "fp_add FP32" "fp_sub FP32" "fp_mul FP32"
    "fp_roots FP32 ! 0" "fp_root FP32" "fp_pow FP32" "fp_inv FP32" "fp_neg FP32"
    "fp_montgomery FP32" "fp_residue FP32" Abs_fieldprio2 Rep_fieldprio2 "fp_p FP32" "fp_bit_mask FP32" 4 32
proof unfold_locales
  show "fp32.dom.canon (Rep_fieldprio2 x)" for x using Rep_fieldprio2 [of x] by (simp add: fieldprio2_repr_canon)
  show "fp32.dom.canon w \<Longrightarrow> Rep_fieldprio2 (Abs_fieldprio2 w) = w" for w
    by (simp add: Abs_fieldprio2_inverse fieldprio2_repr_canon)
  show "l \<le> 20 \<Longrightarrow> fp_root FP32 l \<noteq> None" for l by (simp add: fp_root_def FP32_def)
qed (simp_all add: Rep_fieldprio2_inverse plus_fieldprio2.rep_eq times_fieldprio2.rep_eq one_fieldprio2.rep_eq
    zero_fieldprio2.rep_eq, simp_all add: FP32_def mask_eq_exp_minus_1)

interpretation FieldPrio2: prime_field FieldPrio2
  unfolding FieldPrio2_def by (rule fieldprio2.prime_field_make)

lemma field_sizes [simp]:
  "ENCODED_SIZE Field64 = 8" "INTEGER_BITS Field64 = 64"
  "ENCODED_SIZE Field128 = 16" "INTEGER_BITS Field128 = 128"
  "ENCODED_SIZE FieldPrio2 = 4" "INTEGER_BITS FieldPrio2 = 32"
  by (simp_all add: Field64_def Field128_def FieldPrio2_def make_field_def)

lemma modulus_64: "modulus Field64 = 18446744069414584321"
  and modulus_128: "modulus Field128 = 340282366920938462946865773367900766209"
  by (simp_all add: Field64_def Field128_def make_field_def FP64_def FP128_def)

end
