(* ===== verification/FieldVec.thy ===== *)
theory FieldVec
  imports Field
begin

unbundle bit_operations_syntax

text \<open>
  The rest of \<^verbatim>\<open>src/field.rs\<close>: the wire encoding of field elements and of vectors of them, the bit-vector
  encoding of integers, sampling by rejection, and vector addition and secret sharing.  Everything
  is proved in the contract \<open>prime_field\<close>, and so for each of the crate's fields.
\<close>

section \<open>Operations\<close>

definition field_encode :: "'f field_element \<Rightarrow> 'f encoder" where
  "field_encode F x bs = Ok (bs @ to_bytes F x)"

definition field_decode :: "'f field_element \<Rightarrow> 'f decoder" where
  "field_decode F c =
     and_then (read_exact (ENCODED_SIZE F) c) (\<lambda>(value, c').
       and_then (map_err (Other \<circ> BoxedField) (try_from F value)) (\<lambda>x. Ok (x, c')))"

definition encode_fieldvec :: "'f field_element \<Rightarrow> 'f list encoder" where
  "encode_fieldvec F val bs = for_each (field_encode F) val bs"

text \<open>The stack buffer has 64 bytes.\<close>

definition decode_fieldvec :: "'f field_element \<Rightarrow> nat \<Rightarrow> 'f list decoder" where
  "decode_fieldvec F count input =
     (if 64 < ENCODED_SIZE F then Panic
      else for_each (\<lambda>_ (vec, c).
             and_then (read_exact (ENCODED_SIZE F) c) (\<lambda>(buf, c').
               and_then (map_err (Other \<circ> BoxedField) (try_from F buf)) (\<lambda>x. Ok (vec @ [x], c'))))
           [0..<count] ([], input))"

definition slice_into_byte_vec :: "'f field_element \<Rightarrow> 'f list \<Rightarrow> (bytes, unit) outcome" where
  "slice_into_byte_vec F values =
     (case encode_fieldvec F values [] of Ok bs \<Rightarrow> Ok bs | _ \<Rightarrow> Panic)"

definition byte_slice_into_vec :: "'f field_element \<Rightarrow> bytes \<Rightarrow> ('f list, field_error) outcome" where
  "byte_slice_into_vec F bs =
     (if ENCODED_SIZE F = 0 then Panic
      else if length bs mod ENCODED_SIZE F \<noteq> 0 then Err ShortRead
      else for_each (\<lambda>chunk vec.
             and_then (map_err FieldCodec (get_decoded_with_param (field_decode F) chunk))
               (\<lambda>x. Ok (vec @ [x])))
           (chunks (ENCODED_SIZE F) bs) [])"

definition valid_integer_try_from :: "'f field_element \<Rightarrow> nat \<Rightarrow> (nat, field_error) outcome" where
  "valid_integer_try_from F i =
     (if 2 ^ INTEGER_BITS F \<le> i then Err IntegerTryFrom
      else if modulus F \<le> i then Err ModulusOverflow
      else Ok i)"

definition valid_integer_bitlength :: "'f field_element \<Rightarrow> nat \<Rightarrow> bool" where
  "valid_integer_bitlength F bits =
     (if bits \<ge> 8 * ENCODED_SIZE F then False
      else if drop_bit bits (modulus F) \<noteq> 0 then True
      else False)"

definition encode_as_bitvector :: "'f field_element \<Rightarrow> nat \<Rightarrow> nat \<Rightarrow> ('f list, field_error) outcome" where
  "encode_as_bitvector F input bits =
     (if \<not> valid_integer_bitlength F bits then Err BitVectorTooLong
      else if drop_bit bits input \<noteq> 0 then Err InputSizeMismatch
      else Ok (map (\<lambda>bit_offset. from_integer F (drop_bit bit_offset input AND 1)) [0..<bits]))"

definition decode_bitvector :: "'f::field field_element \<Rightarrow> 'f list \<Rightarrow> ('f, field_error) outcome" where
  "decode_bitvector F input =
     (if \<not> valid_integer_bitlength F (length input) then Err BitVectorTooLong
      else let two = 1 + 1
           in Ok (fst (fold (\<lambda>value (decoded, power_of_two).
                 (decoded + value * power_of_two, power_of_two * two)) input (0, 1))))"

text \<open>\<open>ControlFlow::Break\<close> is \<open>Some\<close>, \<open>ControlFlow::Continue\<close> is \<open>None\<close>.\<close>

definition from_random_rejection :: "'f field_element \<Rightarrow> bytes \<Rightarrow> ('f option, 'e) outcome" where
  "from_random_rejection F bs =
     (case try_from_random F bs of
        Ok x \<Rightarrow> Ok (Some x)
      | Err ModulusOverflow \<Rightarrow> Ok None
      | _ \<Rightarrow> Panic)"

definition merge_vector :: "'f::comm_ring_1 list \<Rightarrow> 'f list \<Rightarrow> ('f list, field_error) outcome" where
  "merge_vector accumulator other_vector =
     (if length accumulator \<noteq> length other_vector then Err InputSizeMismatch
      else Ok (map2 (+) accumulator other_vector))"

text \<open>The random vectors \<open>split_vector\<close> draws are the argument \<open>shares\<close>, one for each but the first share.\<close>

definition share_step :: "'f::field list \<Rightarrow> 'f list list \<Rightarrow> 'f list list" where
  "share_step share outp = outp[0 := map2 (-) (outp ! 0) share] @ [share]"

definition split_vector :: "'f::field list \<Rightarrow> nat \<Rightarrow> 'f list list \<Rightarrow> 'f list list" where
  "split_vector inp num_shares shares =
     (if num_shares = 0 then []
      else fold share_step (take (num_shares - 1) shares) [inp])"

section \<open>Wire encoding\<close>

context prime_field
begin

lemma modulus_le_256: "modulus F < 256 ^ ENCODED_SIZE F"
  using modulus_bits(2) by (simp add: integer_bits power_mult)

lemma le_value_to_bytes [simp]: "le_value (to_bytes F x) = to_integer F x"
  using less_trans [OF to_integer_less modulus_le_256] by (simp add: to_bytes le_value_le_bytes)

lemma length_to_bytes [simp]: "length (to_bytes F x) = ENCODED_SIZE F"
  by (simp add: to_bytes)

lemma try_from_to_bytes [simp]: "try_from F (to_bytes F x) = Ok x"
  using to_integer_less [of x]
  by (simp add: try_from decode_residue_def of_nat_to_integer)

lemma try_from_OkD:
  assumes "try_from F bs = Ok x" and "length bs = ENCODED_SIZE F"
  shows "bs = to_bytes F x"
  using assms le_bytes_le_value [of bs]
  by (auto simp: try_from decode_residue_def to_bytes to_integer_of_nat split: if_splits)

end

sublocale prime_field \<subseteq> codec "field_encode F" "field_decode F" "\<lambda>_. True" "to_bytes F"
  by unfold_locales (simp_all add: field_encode_def field_decode_def read_exact_def)

context prime_field
begin

lemma encode_fieldvec_wire: "encode_fieldvec F xs bs = Ok (bs @ concat (map (to_bytes F) xs))"
  unfolding encode_fieldvec_def by (rule for_each_enc) simp

text \<open>\<open>decode_fieldvec\<close> runs the element decoder the given number of times.\<close>

lemma decode_fieldvec_wire:
  assumes "ENCODED_SIZE F \<le> 64"
  shows "decode_fieldvec F (length xs) (Cursor (pre @ concat (map (to_bytes F) xs) @ post) (length pre)) =
    Ok (xs, Cursor (pre @ concat (map (to_bytes F) xs) @ post)
      (length pre + length (concat (map (to_bytes F) xs))))"
proof -
  let ?step = "\<lambda>_ :: nat. \<lambda>(vec, c). and_then (read_exact (ENCODED_SIZE F) c) (\<lambda>(buf, c').
      and_then (map_err (Other \<circ> BoxedField) (try_from F buf)) (\<lambda>x. Ok (vec @ [x], c')))"
  have "length ns = length xs \<Longrightarrow>
      for_each ?step ns (acc, Cursor (pre @ concat (map (to_bytes F) xs) @ post) (length pre)) =
      Ok (acc @ xs, Cursor (pre @ concat (map (to_bytes F) xs) @ post)
        (length pre + length (concat (map (to_bytes F) xs))))" for ns acc pre
  proof (induction xs arbitrary: ns acc pre)
    case (Cons x xs)
    then obtain n ms where ns: "ns = n # ms" "length ms = length xs" by (cases ns) auto
    show ?case
      using Cons.IH [OF ns(2), of "acc @ [x]" "pre @ to_bytes F x"]
      by (simp add: ns(1) read_exact_def)
  qed simp
  from this [of "[0..<length xs]" "[]" pre] show ?thesis
    using assms by (simp add: decode_fieldvec_def)
qed

section \<open>Bit vectors\<close>

lemma valid_integer_bitlength_iff:
  "valid_integer_bitlength F bits \<longleftrightarrow> bits < INTEGER_BITS F"
proof -
  have "modulus F div 2 ^ bits \<noteq> 0" if "bits < INTEGER_BITS F"
  proof -
    have "(2 :: nat) ^ bits \<le> 2 ^ (INTEGER_BITS F - 1)" using that by (intro power_increasing) simp_all
    also have "\<dots> < modulus F" by (rule modulus_bits)
    finally show ?thesis by (simp add: div_greater_zero_iff)
  qed
  then show ?thesis by (auto simp: valid_integer_bitlength_def integer_bits drop_bit_eq_div)
qed

lemma decode_bitvector_fold:
  "fold (\<lambda>value (decoded, power_of_two). (decoded + value * power_of_two, power_of_two * (1 + 1)))
     xs (d, p) = (d + p * horner_sum id 2 xs, p * (2 :: 'f) ^ length xs)"
  by (induction xs arbitrary: d p) (simp_all add: algebra_simps)

lemma decode_bitvector_horner:
  "decode_bitvector F xs = (if length xs < INTEGER_BITS F then Ok (horner_sum id 2 xs) else Err BitVectorTooLong)"
  by (simp add: decode_bitvector_def valid_integer_bitlength_iff decode_bitvector_fold [of xs 0 1, simplified])

lemma encode_as_bitvector_Ok:
  assumes "bits < INTEGER_BITS F" and "n < 2 ^ bits"
  shows "encode_as_bitvector F n bits = Ok (map (of_bool \<circ> bit n) [0..<bits])"
proof -
  have "(1 :: nat) < 2 ^ INTEGER_BITS F" using assms(1) by (intro one_less_power) simp_all
  then have "from_integer F (drop_bit i n AND 1) = of_bool (bit n i)" for i
    by (simp add: and_one_eq from_integer bit_iff_odd_drop_bit mod_2_eq_odd)
  with assms show ?thesis
    by (simp add: encode_as_bitvector_def valid_integer_bitlength_iff drop_bit_eq_div)
qed

lemma encode_as_bitvector_Err:
  "INTEGER_BITS F \<le> bits \<Longrightarrow> encode_as_bitvector F n bits = Err BitVectorTooLong"
  "bits < INTEGER_BITS F \<Longrightarrow> 2 ^ bits \<le> n \<Longrightarrow> encode_as_bitvector F n bits = Err InputSizeMismatch"
  by (simp_all add: encode_as_bitvector_def valid_integer_bitlength_iff drop_bit_eq_div div_greater_zero_iff)

lemma horner_sum_of_bool: "horner_sum id (2 :: 'f) (map of_bool bs) = of_nat (horner_sum of_bool 2 bs)"
  by (induction bs) simp_all

lemma bitvector_roundtrip:
  assumes "bits < INTEGER_BITS F" and "n < 2 ^ bits"
  shows "and_then (encode_as_bitvector F n bits) (decode_bitvector F) = Ok (of_nat n)"
proof -
  have "horner_sum id (2 :: 'f) (map (of_bool \<circ> bit n) [0..<bits]) =
      of_nat (horner_sum of_bool 2 (map (bit n) [0..<bits]))"
    using horner_sum_of_bool [of "map (bit n) [0..<bits]"] by simp
  also have "\<dots> = of_nat n"
    using assms(2) by (simp only: horner_sum_bit_eq_take_bit take_bit_nat_eq_self)
  finally show ?thesis
    using assms by (simp add: encode_as_bitvector_Ok decode_bitvector_horner)
qed

end

section \<open>Vectors\<close>

lemma merge_vector_nth:
  assumes "merge_vector xs ys = Ok zs"
  shows "length zs = length xs" and "i < length xs \<Longrightarrow> zs ! i = xs ! i + ys ! i"
  using assms by (auto simp: merge_vector_def split: if_splits)

text \<open>The sum of vectors of one length.\<close>

definition vector_sum :: "nat \<Rightarrow> 'f::field list list \<Rightarrow> 'f list" where
  "vector_sum n vs = foldr (map2 (+)) vs (replicate n 0)"

lemma length_vector_sum [simp]: "\<forall>v \<in> set vs. length v = n \<Longrightarrow> length (vector_sum n vs) = n"
  by (induction vs) (simp_all add: vector_sum_def)

lemma vector_sum_nth:
  "\<forall>v \<in> set vs. length v = n \<Longrightarrow> i < n \<Longrightarrow> vector_sum n vs ! i = (\<Sum>v\<leftarrow>vs. v ! i)"
proof (induction vs)
  case (Cons v vs)
  have "length (vector_sum n vs) = n" using Cons.prems by simp
  then show ?case using Cons by (simp add: vector_sum_def)
qed (simp add: vector_sum_def)

lemma share_step_sum:
  assumes "outp \<noteq> []" and "\<forall>v \<in> set outp. length v = n" and "length share = n"
  shows "share_step share outp \<noteq> []" "\<forall>v \<in> set (share_step share outp). length v = n"
    and "vector_sum n (share_step share outp) = vector_sum n outp"
    and "length (share_step share outp) = Suc (length outp)"
proof -
  obtain o1 os where o: "outp = o1 # os" using assms(1) by (cases outp) auto
  show l: "\<forall>v \<in> set (share_step share outp). length v = n" using assms by (simp add: share_step_def o)
  show "vector_sum n (share_step share outp) = vector_sum n outp"
  proof (rule nth_equalityI)
    show "length (vector_sum n (share_step share outp)) = length (vector_sum n outp)"
      using l assms(2) by simp
    fix i
    assume "i < length (vector_sum n (share_step share outp))"
    then have i: "i < n" using l by simp
    then show "vector_sum n (share_step share outp) ! i = vector_sum n outp ! i"
      using vector_sum_nth [OF l i] vector_sum_nth [OF assms(2) i] assms
      by (simp add: share_step_def o)
  qed
qed (simp_all add: share_step_def)

lemma share_steps_sum:
  assumes "outp \<noteq> []" and "\<forall>v \<in> set outp. length v = n" and "\<forall>v \<in> set shares. length v = n"
  shows "vector_sum n (fold share_step shares outp) = vector_sum n outp \<and>
    length (fold share_step shares outp) = length outp + length shares"
  using assms
proof (induction shares arbitrary: outp)
  case (Cons share shares)
  have "length share = n" using Cons.prems by simp
  note step = share_step_sum [OF Cons.prems(1,2) this]
  show ?case using Cons.IH [OF step(1,2)] Cons.prems(3) step(3,4) by simp
qed simp

section \<open>Properties\<close>

lemma for_each_collect:
  "for_each (\<lambda>c vec. and_then (g c) (\<lambda>x. Ok (vec @ [x]))) cs acc = Ok ys \<longleftrightarrow>
    (\<exists>xs. ys = acc @ xs \<and> list_all2 (\<lambda>c x. g c = Ok x) cs xs)"
proof (induction cs arbitrary: acc)
  case (Cons c cs)
  then show ?case by (auto simp: list_all2_Cons1)
qed auto

lemma chunks_of_length:
  "0 < n \<Longrightarrow> n dvd length xs \<Longrightarrow> c \<in> set (chunks n xs) \<Longrightarrow> length c = n"
proof (induction "length xs" arbitrary: xs rule: less_induct)
  case less
  show ?case
  proof (cases "xs = []")
    case False
    then have "n \<le> length xs" using less.prems by (simp add: dvd_imp_le)
    moreover have "n dvd length (drop n xs)" using less.prems by (simp add: dvd_diff_nat)
    moreover have "c = take n xs \<or> c \<in> set (chunks n (drop n xs))" using less.prems False by (simp add: chunks_step)
    ultimately show ?thesis using less.hyps [of "drop n xs"] less.prems False by auto
  qed (use less.prems in simp)
qed

lemma chunks_map_length:
  assumes "0 < n" and "\<And>x. length (f x) = n"
  shows "chunks n (concat (map f xs)) = map f xs"
proof (induction xs)
  case (Cons x xs)
  have "f x \<noteq> []" using assms(1) assms(2) [of x] by auto
  then show ?case using Cons chunks_step [of "f x @ concat (map f xs)" n] assms by simp
qed simp

context prime_field
begin

lemma get_decoded_field:
  assumes "length bs = ENCODED_SIZE F"
  shows "get_decoded_with_param (field_decode F) bs = Ok x \<longleftrightarrow> bs = to_bytes F x"
  using assms try_from_OkD [of bs x]
  by (auto simp: get_decoded_with_param_def field_decode_def read_exact_def)

lemma byte_vec_iff:
  assumes "0 < ENCODED_SIZE F"
  shows "slice_into_byte_vec F xs = Ok bs \<longleftrightarrow> byte_slice_into_vec F bs = Ok xs"
proof
  assume "slice_into_byte_vec F xs = Ok bs"
  then have bs: "bs = concat (map (to_bytes F) xs)"
    by (simp add: slice_into_byte_vec_def encode_fieldvec_wire)
  have "length bs = length xs * ENCODED_SIZE F" unfolding bs by (induction xs) auto
  moreover have "list_all2 (\<lambda>c x. get_decoded_with_param (field_decode F) c = Ok x) (map (to_bytes F) xs) xs"
    by (simp add: list_all2_map1 list_all2_same get_decoded_field)
  ultimately show "byte_slice_into_vec F bs = Ok xs"
    using assms by (simp add: byte_slice_into_vec_def for_each_collect bs chunks_map_length)
next
  assume r: "byte_slice_into_vec F bs = Ok xs"
  then have dvd: "ENCODED_SIZE F dvd length bs" and
    all: "list_all2 (\<lambda>c x. get_decoded_with_param (field_decode F) c = Ok x) (chunks (ENCODED_SIZE F) bs) xs"
    using assms by (auto simp: byte_slice_into_vec_def for_each_collect dvd_eq_mod_eq_0 split: if_splits)
  have "list_all2 (\<lambda>c x. c = to_bytes F x) (chunks (ENCODED_SIZE F) bs) xs"
    using all chunks_of_length [OF assms dvd] get_decoded_field
    by (auto simp: list_all2_conv_all_nth)
  then have "chunks (ENCODED_SIZE F) bs = map (to_bytes F) xs"
    by (simp add: list_all2_conv_all_nth list_eq_iff_nth_eq)
  then show "slice_into_byte_vec F xs = Ok bs"
    using concat_chunks [OF assms, of bs] by (simp add: slice_into_byte_vec_def encode_fieldvec_wire)
qed

end

text \<open>
  C33. Field elements have exactly one encoding: a vector of \<open>Field64\<close> or \<open>Field128\<close> elements is written as \<open>bs\<close> if and only
  if \<open>bs\<close> is read as that vector, so that every representation out of range or of the wrong length is refused.
\<close>

theorem field_vec_unique_encoding:
  "(slice_into_byte_vec Field64 xs = Ok bs \<longleftrightarrow> byte_slice_into_vec Field64 bs = Ok xs) \<and>
   (slice_into_byte_vec Field128 ys = Ok cs \<longleftrightarrow> byte_slice_into_vec Field128 cs = Ok ys)"
proof -
  have "ENCODED_SIZE Field64 = 8" "ENCODED_SIZE Field128 = 16"
    by (simp_all add: Field64_def Field128_def make_field_def)
  then show ?thesis by (simp add: Field64.byte_vec_iff Field128.byte_vec_iff)
qed


text \<open>
  Bit vectors over the 128-bit field: \<open>encode_into_bitvector_representation\<close> refuses a length that the field cannot hold
  and an integer of more bits than the length, and otherwise writes the bits, least significant first, which
  \<open>decode_from_bitvector_representation\<close> turns back into the integer.
\<close>

theorem bitvector_total:
  "encode_as_bitvector Field128 n bits =
     (if 128 \<le> bits then Err BitVectorTooLong
      else if 2 ^ bits \<le> n then Err InputSizeMismatch
      else Ok (map (\<lambda>i. of_bool (bit n i)) [0..<bits])) \<and>
   and_then (encode_as_bitvector Field128 n bits) (decode_bitvector Field128) =
     and_then (encode_as_bitvector Field128 n bits) (\<lambda>_. Ok (of_nat n))"
proof -
  have bits: "INTEGER_BITS Field128 = 128" by (simp add: Field128_def make_field_def)
  show ?thesis
    using Field128.encode_as_bitvector_Ok [of bits n] Field128.encode_as_bitvector_Err [of bits n]
      Field128.bitvector_roundtrip [of bits n]
    unfolding bits by (cases "128 \<le> bits"; cases "2 ^ bits \<le> n") (auto simp: comp_def)
qed


text \<open>
  Additive secret sharing: \<open>split_vector\<close> makes the requested number of shares, each as long as the input, and they add
  up to the input, whatever the random shares are.
\<close>

theorem split_vector_sums:
  fixes inp :: "'f::field list"
  assumes "0 < num_shares" and "length shares = num_shares - 1" and "\<forall>s \<in> set shares. length s = length inp"
  shows "length (split_vector inp num_shares shares) = num_shares \<and>
    vector_sum (length inp) (split_vector inp num_shares shares) = inp"
proof -
  have "vector_sum (length inp) [inp] = inp"
    by (rule nth_equalityI) (simp_all add: vector_sum_nth)
  then show ?thesis
    using assms share_steps_sum [of "[inp]" "length inp" shares] by (simp add: split_vector_def)
qed


theorem split_vector_sums_witness:
  "vector_sum 2 (split_vector [5, 7 :: field64] 3 [[1, 2], [3, 4]]) = [5, 7]"
  using split_vector_sums [of 3 "[[1, 2], [3, 4]]" "[5, 7 :: field64]"] by (simp add: numeral_2_eq_2)

end
