(* ===== verification/Fft.thy ===== *)
theory Fft
  imports FieldVec
begin

text \<open>
  The iterative discrete Fourier transform of \<^verbatim>\<open>src/fft.rs\<close>, with its in-place butterflies and the
  bit-reversed reading of the input, and the last step of the inverse transform.  The transform is
  shown to evaluate the polynomial with the given coefficients at the powers of a root of unity, and
  the inverse to be its inverse.
\<close>

section \<open>Operations\<close>

datatype fft_error = OutputTooSmall | SizeTooLarge | SizeInvalid

definition MAX_ROOTS :: nat where
  "MAX_ROOTS = 20"

definition bitrev :: "nat \<Rightarrow> nat \<Rightarrow> nat" where
  "bitrev d x = unat (drop_bit (64 - d) (word_reverse (of_nat x :: u64)))"

definition butterfly :: "'f::field \<Rightarrow> nat \<Rightarrow> nat \<Rightarrow> 'f list \<Rightarrow> 'f list" where
  "butterfly w x y outp =
     (let u = outp ! x; v = w * outp ! (x + y) in outp[x := u + v, x + y := u - v])"

text \<open>One pass of the outer loop: the first iteration of the loop on \<open>i\<close> is unrolled, with weight one.\<close>

definition fft_pass :: "nat \<Rightarrow> 'f::field \<Rightarrow> nat \<Rightarrow> 'f list \<Rightarrow> 'f list" where
  "fft_pass sz r l outp =
     (let y = 2 ^ (l - 1);
          chunk = sz div y div 2;
          outp = fold (\<lambda>j outp.
              let x = j * 2 ^ l; u = outp ! x; v = outp ! (x + y)
              in outp[x := u + v, x + y := u - v]) [0..<chunk] outp
      in snd (fold (\<lambda>i (w, outp).
           let w = w * r
           in (w, fold (\<lambda>j outp. butterfly w (j * 2 ^ l + i) y outp) [0..<chunk] outp))
           [1..<y] (1, outp)))"

definition discrete_fourier_transform ::
  "'f::field field_element \<Rightarrow> 'f list \<Rightarrow> 'f list \<Rightarrow> nat \<Rightarrow> ('f list, fft_error) outcome" where
  "discrete_fourier_transform F outp inp sz =
     and_then (log2 (of_nat sz)) (\<lambda>d.
       if sz > length outp then Err OutputTooSmall
       else if sz > 2 ^ MAX_ROOTS then Err SizeTooLarge
       else if sz \<noteq> 2 ^ d then Err SizeInvalid
       else
         and_then
           (if d > 0
            then Ok (map (\<lambda>i. let j = bitrev d i in if j < length inp then inp ! j else 0) [0..<sz]
                     @ drop sz outp)
            else if inp = [] then Panic else Ok (outp[0 := inp ! 0]))
           (for_each (\<lambda>l outp.
              case froot F l of None \<Rightarrow> Panic | Some r \<Rightarrow> Ok (fft_pass sz r l outp)) [1..<d + 1]))"

definition discrete_fourier_transform_inv_finish :: "'f::field list \<Rightarrow> nat \<Rightarrow> 'f \<Rightarrow> 'f list" where
  "discrete_fourier_transform_inv_finish outp sz size_inv =
     (let outp = outp[0 := outp ! 0 * size_inv];
          outp = outp[sz div 2 := outp ! (sz div 2) * size_inv]
      in fold (\<lambda>i outp.
           let tmp = outp ! i * size_inv
           in outp[i := outp ! (sz - i) * size_inv, sz - i := tmp]) [1..<sz div 2] outp)"

definition discrete_fourier_transform_inv ::
  "'f::field field_element \<Rightarrow> 'f list \<Rightarrow> 'f list \<Rightarrow> nat \<Rightarrow> ('f list, fft_error) outcome" where
  "discrete_fourier_transform_inv F outp inp sz =
     (if 2 ^ INTEGER_BITS F \<le> sz then Panic
      else let size_inv = inverse (from_integer F sz)
           in and_then (discrete_fourier_transform F outp inp sz) (\<lambda>outp.
                Ok (discrete_fourier_transform_inv_finish outp sz size_inv)))"

section \<open>Bit reversal\<close>

lemma bit_bitrev: "d \<le> 64 \<Longrightarrow> bit (bitrev d x) n \<longleftrightarrow> n < d \<and> bit x (d - Suc n)"
  unfolding bitrev_def by (auto simp: bit_simps)

lemma bitrev_bound: "d \<le> 64 \<Longrightarrow> bitrev d x < 2 ^ d"
proof -
  assume "d \<le> 64"
  then have "take_bit d (bitrev d x) = bitrev d x"
    by (intro bit_eqI) (auto simp: bit_simps bit_bitrev)
  then show ?thesis by (metis take_bit_nat_less_exp)
qed

lemma bit_double_of_bool: "bit (2 * j + of_bool b :: nat) k \<longleftrightarrow> (if k = 0 then b else bit j (k - 1))"
  by (cases k) (simp_all add: bit_0 bit_Suc)

lemma bitrev_shift:
  assumes "d < 64" and x: "\<And>k. bit x k \<longleftrightarrow> (if k = 0 then b else bit j (k - 1))"
  shows "bitrev (Suc d) x = of_bool b * 2 ^ d + bitrev d j"
proof -
  have "bitrev (Suc d) x = push_bit d (of_bool b) OR bitrev d j"
    using assms(1) by (intro bit_eqI) (auto simp: bit_simps bit_bitrev x less_Suc_eq)
  also have "\<dots> = push_bit d (of_bool b) + bitrev d j"
  proof -
    have "push_bit d (of_bool b) AND bitrev d j = 0"
      using assms by (intro bit_eqI) (auto simp: bit_simps bit_bitrev)
    then show ?thesis by (simp add: disjunctive_add_eq_or)
  qed
  finally show ?thesis by (simp add: push_bit_eq_mult)
qed

lemma bitrev_double:
  assumes "d < 64"
  shows "bitrev (Suc d) (2 * j) = bitrev d j" and "bitrev (Suc d) (2 * j + 1) = 2 ^ d + bitrev d j"
  using bitrev_shift [OF assms bit_double_of_bool, of j False]
    bitrev_shift [OF assms bit_double_of_bool, of j True] by simp_all

lemma bitrev_0 [simp]: "bitrev 0 x = 0"
  using bitrev_bound [of 0 x] by simp

section \<open>Logarithm\<close>

lemma leading_zeros_top:
  fixes x :: "'w::len word"
  assumes "x \<noteq> 0"
  shows "leading_zeros x < LENGTH('w)" and "bit x (LENGTH('w) - Suc (leading_zeros x))"
proof -
  let ?xs = "rev [0..<LENGTH('w)]"
  obtain i where i: "bit x i" using assms by (metis bit_eqI bit_0_eq bot_apply bot_bool_def)
  from bit_below_leading_zeros [OF i] show lz: "leading_zeros x < LENGTH('w)" by simp
  then have "\<not> \<not> bit x (?xs ! leading_zeros x)"
    unfolding leading_zeros_def by (intro nth_length_takeWhile) simp
  with lz show "bit x (LENGTH('w) - Suc (leading_zeros x))" by (simp add: rev_nth)
qed

lemma log2_total:
  assumes "0 < n" and "n < 2 ^ 64"
  shows "\<exists>d. log2 (of_nat n) = Ok d"
proof -
  have "unat (of_nat n :: u128) = n" using assms by (simp add: unsigned_of_nat take_bit_nat_eq_self)
  then have "(of_nat n :: u128) \<noteq> 0" using assms(1) by (metis less_not_refl unsigned_0)
  from leading_zeros_top(1) [OF this] show ?thesis by (simp add: log2_def Let_def)
qed

lemma log2_power:
  assumes "d < 128"
  shows "log2 (of_nat (2 ^ d)) = Ok d"
proof -
  have x: "(of_nat (2 ^ d) :: u128) = push_bit d 1" by (simp add: push_bit_of_1)
  have "bit (push_bit d 1 :: u128) d" using assms by (simp add: bit_simps)
  then have "(push_bit d 1 :: u128) \<noteq> 0" by (metis bit_0_eq bot_apply bot_bool_def)
  note top = leading_zeros_top [OF this]
  then have "127 - leading_zeros (push_bit d 1 :: u128) = d" by (auto simp: bit_simps)
  with top(1) show ?thesis unfolding x by (simp add: log2_def Let_def)
qed

section \<open>Butterflies\<close>

text \<open>Butterflies on disjoint pairs of positions are independent of each other.\<close>

lemma length_butterfly [simp]: "length (butterfly w x y outp) = length outp"
  by (simp add: butterfly_def Let_def)

lemma butterflies:
  assumes "distinct (map fst P @ map (\<lambda>(x, w). x + y) P)"
    and "\<forall>(x, w) \<in> set P. x + y < length outp" and "0 < y"
  defines "res \<equiv> fold (\<lambda>(x, w). butterfly w x y) P outp"
  shows "length res = length outp"
    and "(x, w) \<in> set P \<Longrightarrow>
      res ! x = outp ! x + w * outp ! (x + y) \<and> res ! (x + y) = outp ! x - w * outp ! (x + y)"
    and "k \<notin> fst ` set P \<Longrightarrow> k \<notin> (\<lambda>(x, w). x + y) ` set P \<Longrightarrow> res ! k = outp ! k"
proof -
  have "length res = length outp \<and>
    (\<forall>(x, w) \<in> set P. res ! x = outp ! x + w * outp ! (x + y) \<and>
       res ! (x + y) = outp ! x - w * outp ! (x + y)) \<and>
    (\<forall>k. k \<notin> fst ` set P \<and> k \<notin> (\<lambda>(x, w). x + y) ` set P \<longrightarrow> res ! k = outp ! k)"
    using assms(1,2) unfolding res_def
  proof (induction P arbitrary: outp)
    case (Cons p P)
    obtain x w where p: "p = (x, w)" by force
    define out where "out = butterfly w x y outp"
    have other: "k \<noteq> x \<Longrightarrow> k \<noteq> x + y \<Longrightarrow> out ! k = outp ! k" for k
      by (simp add: out_def butterfly_def Let_def)
    have here: "out ! x = outp ! x + w * outp ! (x + y)" "out ! (x + y) = outp ! x - w * outp ! (x + y)"
      using Cons.prems(2) assms(3) by (simp_all add: out_def butterfly_def Let_def p)
    have "distinct (map fst P @ map (\<lambda>(x, w). x + y) P)" "\<forall>(x, w) \<in> set P. x + y < length out"
      using Cons.prems by (auto simp: out_def)
    note IH = Cons.IH [OF this]
    have new: "x \<notin> fst ` set P" "x \<notin> (\<lambda>(x, w). x + y) ` set P"
      "x + y \<notin> fst ` set P" "x + y \<notin> (\<lambda>(x, w). x + y) ` set P"
      using Cons.prems(1) by (auto simp: p)
    have tail: "a \<noteq> x" "a \<noteq> x + y" "a + y \<noteq> x" "a + y \<noteq> x + y" if "(a, v) \<in> set P" for a v
      using that new by force+
    have len: "length out = length outp" by (simp add: out_def)
    show ?case
      using IH new here tail other len by (auto simp: p out_def [symmetric])
  qed simp
  then show "length res = length outp"
    and "(x, w) \<in> set P \<Longrightarrow>
      res ! x = outp ! x + w * outp ! (x + y) \<and> res ! (x + y) = outp ! x - w * outp ! (x + y)"
    and "k \<notin> fst ` set P \<Longrightarrow> k \<notin> (\<lambda>(x, w). x + y) ` set P \<Longrightarrow> res ! k = outp ! k"
    by auto
qed

text \<open>A pass is a sequence of butterflies, the \<open>i\<close>-th of each chunk weighted by \<open>r ^ i\<close>.\<close>

definition pass_pairs :: "'f::field \<Rightarrow> nat \<Rightarrow> nat \<Rightarrow> nat \<Rightarrow> (nat \<times> 'f) list" where
  "pass_pairs r l y chunk = map (\<lambda>(i, j). (j * 2 ^ l + i, r ^ i)) (List.product [0..<y] [0..<chunk])"

lemma fold_running_power:
  fixes r :: "'f::field"
  assumes "0 < a"
  shows "fold (\<lambda>i (w, s). let w = w * r in (w, f w i s)) [a..<a + n] (r ^ (a - 1), s) =
    (r ^ (a - 1 + n), fold (\<lambda>i. f (r ^ i) i) [a..<a + n] s)"
proof (induction n)
  case (Suc n)
  have "r ^ (a - 1 + n) * r = r ^ (a + n)" using assms by (simp flip: power_Suc2)
  with Suc assms show ?case by (simp add: Let_def)
qed simp

lemma fold_product: "fold g (map h (List.product xs ys)) s = fold (\<lambda>i. fold (\<lambda>j. g (h (i, j))) ys) xs s"
  by (induction xs arbitrary: s) (simp_all add: fold_map comp_def)

lemma unrolled: "outp[x := outp ! x + outp ! (x + y), x + y := outp ! x - outp ! (x + y)] = butterfly 1 x y outp"
  by (simp add: butterfly_def Let_def)

lemma fft_pass_pairs:
  fixes r :: "'f::field"
  shows "fft_pass sz r l outp =
    fold (\<lambda>(x, w). butterfly w x (2 ^ (l - 1))) (pass_pairs r l (2 ^ (l - 1)) (sz div 2 ^ (l - 1) div 2)) outp"
proof -
  let ?y = "2 ^ (l - 1) :: nat" and ?chunk = "sz div 2 ^ (l - 1) div 2"
  let ?row = "\<lambda>w i. fold (\<lambda>j. butterfly w (j * 2 ^ l + i) ?y) [0..<?chunk]"
  have y: "[0..<?y] = 0 # [1..<1 + (?y - 1)]" by (simp add: upt_conv_Cons)
  have "fold (\<lambda>(x, w). butterfly w x ?y) (pass_pairs r l ?y ?chunk) outp = fold (\<lambda>i. ?row (r ^ i) i) [0..<?y] outp"
    by (simp add: pass_pairs_def fold_product)
  also have "\<dots> = fold (\<lambda>i. ?row (r ^ i) i) [1..<1 + (?y - 1)] (?row 1 0 outp)"
    unfolding y by simp
  also have "\<dots> = snd (fold (\<lambda>i (w, s). let w = w * r in (w, ?row w i s)) [1..<1 + (?y - 1)] (1, ?row 1 0 outp))"
    using fold_running_power [of 1 r ?row "?y - 1" "?row 1 0 outp"] by simp
  also have "\<dots> = fft_pass sz r l outp"
    by (simp add: fft_pass_def unrolled Let_def)
  finally show ?thesis by simp
qed

lemma pass_pairs_distinct:
  fixes r :: "'f::field"
  assumes "0 < l"
  shows "distinct (map fst (pass_pairs r l (2 ^ (l - 1)) n) @
    map (\<lambda>(x, w). x + 2 ^ (l - 1)) (pass_pairs r l (2 ^ (l - 1)) n))"
proof -
  let ?y = "2 ^ (l - 1) :: nat" and ?ps = "List.product [0..<2 ^ (l - 1)] [0..<n]"
  let ?f = "\<lambda>(i, j). j * 2 ^ l + i :: nat" and ?g = "\<lambda>(i, j). j * 2 ^ l + (i + ?y)"
  have l: "2 ^ l = ?y + ?y" using assms by (cases l) simp_all
  have dm: "(j * 2 ^ l + i) div 2 ^ l = j" "(j * 2 ^ l + i) mod 2 ^ l = i" if "i < 2 ^ l" for i j :: nat
    using that by simp_all
  have f: "map fst (pass_pairs r l ?y n) = map ?f ?ps"
    and g: "map (\<lambda>(x, w). x + ?y) (pass_pairs r l ?y n) = map ?g ?ps"
    by (auto simp: pass_pairs_def)
  have key: "i = i' \<and> j = j'" if "j * 2 ^ l + i = j' * 2 ^ l + i'" "i < 2 ^ l" "i' < 2 ^ l" for i j i' j' :: nat
    using dm [OF that(2), of j] dm [OF that(3), of j'] that(1) by metis
  have lt: "i < ?y \<Longrightarrow> i < 2 ^ l" "i < ?y \<Longrightarrow> i + ?y < 2 ^ l" for i using l by simp_all
  have "inj_on ?f (set ?ps)"
    by (rule inj_onI) (clarsimp simp del: One_nat_def, metis key lt(1))
  moreover have "inj_on ?g (set ?ps)"
    by (rule inj_onI) (clarsimp simp del: One_nat_def, metis key lt(1))
  moreover have "?f ` set ?ps \<inter> ?g ` set ?ps = {}"
  proof (rule equals0I)
    fix a
    assume "a \<in> ?f ` set ?ps \<inter> ?g ` set ?ps"
    then obtain p q where pq: "a = ?f p" "p \<in> set ?ps" "a = ?g q" "q \<in> set ?ps" by blast
    moreover obtain i j i' j' where "p = (i, j)" "q = (i', j')" by force
    ultimately have a: "a = j * 2 ^ l + i" "i < ?y" "a = j' * 2 ^ l + (i' + ?y)" "i' < ?y" by simp_all
    from a(1,3) have "i = i' + ?y" using key lt a(2,4) by metis
    with a(2) show False by simp
  qed
  ultimately show ?thesis unfolding f g by (simp add: distinct_map distinct_product)
qed

lemma fft_pass_correct:
  fixes r :: "'f::field"
  assumes l: "0 < l" "l \<le> d" and len: "2 ^ d \<le> length outp"
    and j: "j < 2 ^ (d - l)" and i: "i < 2 ^ (l - 1)"
  shows "fft_pass (2 ^ d) r l outp ! (j * 2 ^ l + i) =
      outp ! (j * 2 ^ l + i) + r ^ i * outp ! (j * 2 ^ l + i + 2 ^ (l - 1))"
    and "fft_pass (2 ^ d) r l outp ! (j * 2 ^ l + i + 2 ^ (l - 1)) =
      outp ! (j * 2 ^ l + i) - r ^ i * outp ! (j * 2 ^ l + i + 2 ^ (l - 1))"
proof -
  let ?y = "2 ^ (l - 1) :: nat"
  have yl: "2 ^ l = 2 * ?y" using l by (cases l) simp_all
  have "2 ^ d = (2 ^ (d - l) :: nat) * 2 ^ l" using l by (simp flip: power_add)
  then have chunk: "2 ^ d div ?y div 2 = 2 ^ (d - l)" unfolding yl by simp
  have bound: "j * 2 ^ l + i + ?y < length outp" if "j < 2 ^ (d - l)" "i < ?y" for i j
  proof -
    have "j * 2 ^ l + i + ?y < Suc j * 2 ^ l" using that yl by simp
    also have "\<dots> \<le> 2 ^ (d - l) * 2 ^ l" using that by (intro mult_le_mono1) simp
    also have "\<dots> = 2 ^ d" using l by (simp flip: power_add)
    finally show ?thesis using len by simp
  qed
  have "\<forall>(x, w) \<in> set (pass_pairs r l ?y (2 ^ (d - l))). x + ?y < length outp"
    using bound by (auto simp: pass_pairs_def)
  moreover have "(j * 2 ^ l + i, r ^ i) \<in> set (pass_pairs r l ?y (2 ^ (d - l)))"
    using i j by (auto simp: pass_pairs_def)
  ultimately have "fft_pass (2 ^ d) r l outp ! (j * 2 ^ l + i) =
      outp ! (j * 2 ^ l + i) + r ^ i * outp ! (j * 2 ^ l + i + ?y) \<and>
      fft_pass (2 ^ d) r l outp ! (j * 2 ^ l + i + ?y) =
      outp ! (j * 2 ^ l + i) - r ^ i * outp ! (j * 2 ^ l + i + ?y)"
    unfolding fft_pass_pairs chunk by (intro butterflies(2) pass_pairs_distinct l(1)) simp_all
  then show "fft_pass (2 ^ d) r l outp ! (j * 2 ^ l + i) =
      outp ! (j * 2 ^ l + i) + r ^ i * outp ! (j * 2 ^ l + i + ?y)"
    and "fft_pass (2 ^ d) r l outp ! (j * 2 ^ l + i + ?y) =
      outp ! (j * 2 ^ l + i) - r ^ i * outp ! (j * 2 ^ l + i + ?y)"
    by blast+
qed

lemma length_fft_pass [simp]: "length (fft_pass sz r l outp) = length outp"
proof -
  have "length (fold (\<lambda>(x, w). butterfly w x y) P outp) = length outp" for P y
    by (induction P arbitrary: outp) auto
  then show ?thesis by (simp add: fft_pass_pairs)
qed

section \<open>Correctness\<close>

text \<open>
  After \<open>l\<close> passes chunk \<open>j\<close> holds the transform of size \<open>2 ^ l\<close> of the subsequence of the input with
  stride \<open>2 ^ (d - l)\<close> starting at the bit-reversed chunk number.
\<close>

definition fft_inv :: "(nat \<Rightarrow> 'f::field) \<Rightarrow> nat \<Rightarrow> nat \<Rightarrow> 'f \<Rightarrow> 'f list \<Rightarrow> bool" where
  "fft_inv a d l w outp \<longleftrightarrow> 2 ^ d \<le> length outp \<and>
     (\<forall>j < 2 ^ (d - l). \<forall>i < 2 ^ l.
        outp ! (j * 2 ^ l + i) = (\<Sum>k<2 ^ l. a (bitrev (d - l) j + k * 2 ^ (d - l)) * w ^ (i * k)))"

lemma sum_even_odd: "(\<Sum>k<2 * n. f k) = (\<Sum>k<n. f (2 * k)) + (\<Sum>k<n. f (2 * k + 1 :: nat) :: 'f::field)"
  by (induction n) (simp_all add: algebra_simps)

lemma fft_inv_step:
  fixes a :: "nat \<Rightarrow> 'f::field"
  assumes inv: "fft_inv a d l (r * r) outp" and l: "l < d" "d \<le> 64" and r: "r ^ (2 ^ l) = - 1"
  shows "fft_inv a d (Suc l) r (fft_pass (2 ^ d) r (Suc l) outp)"
proof -
  let ?y = "2 ^ l :: nat" and ?m = "d - Suc l"
  have m: "d - l = Suc ?m" using l by simp
  define B where "B j k = bitrev ?m j + k * 2 ^ ?m" for j k
  let ?even = "\<lambda>j i. \<Sum>k<?y. a (B j (2 * k)) * r ^ (i * (2 * k))"
    and ?odd = "\<lambda>j i. \<Sum>k<?y. a (B j (2 * k + 1)) * r ^ (i * (2 * k + 1))"
  have split: "(\<Sum>k<2 ^ Suc l. a (B j k) * r ^ (i * k)) = ?even j i + ?odd j i" for i j
    using sum_even_odd [of "\<lambda>k. a (B j k) * r ^ (i * k)" ?y] by simp
  have old: "outp ! (j * ?y + i) = (\<Sum>k<?y. a (bitrev (Suc ?m) j + k * 2 ^ Suc ?m) * (r * r) ^ (i * k))"
    if "j < 2 ^ Suc ?m" "i < ?y" for i j
    using inv that by (simp add: fft_inv_def m)
  have u: "outp ! (j * 2 ^ Suc l + i) = ?even j i" if "j < 2 ^ ?m" "i < ?y" for i j
  proof -
    have "outp ! (2 * j * ?y + i) = ?even j i"
      unfolding B_def using that l bitrev_double(1) [of ?m j] 
      by (subst old) (auto intro!: sum.cong simp: power_mult [symmetric] power2_eq_square [symmetric] algebra_simps)
    then show ?thesis by (simp add: algebra_simps)
  qed
  have v: "r ^ i * outp ! (j * 2 ^ Suc l + i + ?y) = ?odd j i" if "j < 2 ^ ?m" "i < ?y" for i j
  proof -
    have "r ^ i * outp ! ((2 * j + 1) * ?y + i) = ?odd j i"
      unfolding B_def using that l bitrev_double(2) [of ?m j]
      by (subst old) (auto intro!: sum.cong simp: sum_distrib_left power_add power_mult [symmetric]
          power2_eq_square [symmetric] algebra_simps)
    then show ?thesis by (simp add: algebra_simps)
  qed
  have neg: "?even j (i + ?y) = ?even j i" "?odd j (i + ?y) = - ?odd j i" for i j
  proof -
    have eq: "r ^ ((i + ?y) * n) = r ^ (i * n) * (- 1) ^ n" for n
      by (simp add: add_mult_distrib power_add power_mult r)
    show "?even j (i + ?y) = ?even j i" "?odd j (i + ?y) = - ?odd j i"
      by (simp_all only: eq) (simp_all add: sum_negf)
  qed
  show ?thesis
    unfolding fft_inv_def
  proof (intro conjI allI impI)
    show "2 ^ d \<le> length (fft_pass (2 ^ d) r (Suc l) outp)" using inv by (simp add: fft_inv_def)
    fix j i :: nat
    assume j: "j < 2 ^ ?m" and i: "i < 2 ^ Suc l"
    have len: "2 ^ d \<le> length outp" using inv by (simp add: fft_inv_def)
    show "fft_pass (2 ^ d) r (Suc l) outp ! (j * 2 ^ Suc l + i) =
        (\<Sum>k<2 ^ Suc l. a (bitrev ?m j + k * 2 ^ ?m) * r ^ (i * k))"
      unfolding B_def [symmetric] split
    proof (cases "i < ?y")
      case True
      then show "fft_pass (2 ^ d) r (Suc l) outp ! (j * 2 ^ Suc l + i) = ?even j i + ?odd j i"
        using fft_pass_correct(1) [of "Suc l" d outp j i r] l len j u [OF j] v [OF j] by simp
    next
      case False
      define i' where "i' = i - ?y"
      have i': "i = i' + ?y" "i' < ?y" using False i by (simp_all add: i'_def)
      show "fft_pass (2 ^ d) r (Suc l) outp ! (j * 2 ^ Suc l + i) = ?even j i + ?odd j i"
        unfolding i'(1) neg using fft_pass_correct(2) [of "Suc l" d outp j i' r] l len j u [OF j i'(2)] v [OF j i'(2)] i'(2)
        by (simp add: add.assoc)
    qed
  qed
qed

text \<open>The coefficients a list stands for.\<close>

definition coeff :: "'f::field list \<Rightarrow> nat \<Rightarrow> 'f" where
  "coeff p k = (if k < length p then p ! k else 0)"

definition is_dft :: "'f::field \<Rightarrow> nat \<Rightarrow> (nat \<Rightarrow> 'f) \<Rightarrow> 'f list \<Rightarrow> bool" where
  "is_dft w n a outp \<longleftrightarrow> n \<le> length outp \<and> (\<forall>i < n. outp ! i = (\<Sum>k<n. a k * w ^ (i * k)))"

context prime_field
begin

lemma froot_half_power: "froot F (Suc l) = Some w \<Longrightarrow> w ^ (2 ^ l) = - 1"
proof (induction l arbitrary: w)
  case 0
  then show ?case using froot_1 by simp
next
  case (Suc l)
  from Suc.IH [OF froot_Suc [OF Suc.prems]] show ?case
    by (simp add: power_mult power2_eq_square)
qed

lemma froot_power: "froot F l = Some w \<Longrightarrow> w ^ (2 ^ l) = 1"
  using froot_0 froot_half_power [of "l - 1" w] 
  by (cases l) (simp_all add: power_mult power2_eq_square power_mult_distrib)

lemma fft_passes:
  assumes "d \<le> 20" and "n \<le> d" and "fft_inv a d 0 1 outp"
  shows "\<exists>w res. froot F n = Some w \<and> fft_inv a d n w res \<and> length res = length outp \<and>
    for_each (\<lambda>l outp. case froot F l of None \<Rightarrow> Panic | Some r \<Rightarrow> Ok (fft_pass (2 ^ d) r l outp))
      [1..<n + 1] outp = (Ok res :: ('f list, fft_error) outcome)"
  using assms(2)
proof (induction n)
  case 0
  then show ?case using assms(3) froot_0 by simp
next
  case (Suc n)
  obtain w res where IH: "froot F n = Some w" "fft_inv a d n w res" "length res = length outp"
    "for_each (\<lambda>l outp. case froot F l of None \<Rightarrow> Panic | Some r \<Rightarrow> Ok (fft_pass (2 ^ d) r l outp))
      [1..<n + 1] outp = (Ok res :: ('f list, fft_error) outcome)"
    using Suc.IH Suc_leD [OF Suc.prems] by blast
  obtain r where r: "froot F (Suc n) = Some r" using froot_20 [of "Suc n"] Suc.prems assms(1) by auto
  have "w = r * r" using froot_Suc [OF r] IH(1) by simp
  with IH(2) have "fft_inv a d (Suc n) r (fft_pass (2 ^ d) r (Suc n) res)"
    using Suc.prems assms(1) froot_half_power [OF r] by (intro fft_inv_step) simp_all
  with IH r show ?case by (auto simp: for_each_append)
qed

lemma fft_inv_init:
  assumes "0 < d" and "d \<le> 64" and "2 ^ d \<le> length outp"
  shows "fft_inv (coeff inp) d 0 1
    (map (\<lambda>i. let j = bitrev d i in if j < length inp then inp ! j else 0) [0..<2 ^ d] @ drop (2 ^ d) outp)"
  using assms by (auto simp: fft_inv_def nth_append coeff_def Let_def)

theorem dft_correct:
  assumes "d \<le> 20" and "2 ^ d \<le> length outp" and "inp \<noteq> []"
  shows "\<exists>w res. froot F d = Some w \<and> discrete_fourier_transform F outp inp (2 ^ d) = Ok res \<and>
    length res = length outp \<and> is_dft w (2 ^ d) (coeff inp) res"
proof -
  define start where "start =
    (if d > 0
     then map (\<lambda>i. let j = bitrev d i in if j < length inp then inp ! j else 0) [0..<2 ^ d] @ drop (2 ^ d) outp
     else outp[0 := inp ! 0])"
  have init: "fft_inv (coeff inp) d 0 1 start"
    using fft_inv_init [of d outp inp] assms
    by (cases "d = 0") (simp_all add: start_def fft_inv_def coeff_def Suc_le_eq)
  have len: "length start = length outp" using assms by (auto simp: start_def)
  obtain w res where w: "froot F d = Some w" "fft_inv (coeff inp) d d w res" "length res = length start"
    "for_each (\<lambda>l outp. case froot F l of None \<Rightarrow> Panic | Some r \<Rightarrow> Ok (fft_pass (2 ^ d) r l outp))
      [1..<d + 1] start = (Ok res :: ('f list, fft_error) outcome)"
    using fft_passes [OF assms(1) order_refl init] by blast
  have "(2 :: nat) ^ d \<le> 2 ^ 20" using assms(1) by (intro power_increasing) simp_all
  moreover have "log2 (of_nat (2 ^ d)) = (Ok d :: (nat, fft_error) outcome)"
    using assms(1) by (intro log2_power) simp
  ultimately have "discrete_fourier_transform F outp inp (2 ^ d) = Ok res"
    using w(4) assms(2,3) unfolding discrete_fourier_transform_def MAX_ROOTS_def
    by (simp add: start_def split: if_splits)
  moreover have "is_dft w (2 ^ d) (coeff inp) res"
    using w(2) by (simp add: fft_inv_def is_dft_def)
  ultimately show ?thesis using w(1,3) len by auto
qed

end

section \<open>The inverse transform\<close>

lemma length_inv_finish [simp]: "length (discrete_fourier_transform_inv_finish outp n c) = length outp"
proof -
  have "length (fold (\<lambda>i outp. let tmp = outp ! i * c in outp[i := outp ! (n - i) * c, n - i := tmp]) is outp) =
      length outp" for "is" outp
    by (induction "is" arbitrary: outp) (simp_all add: Let_def)
  then show ?thesis by (simp add: discrete_fourier_transform_inv_finish_def Let_def)
qed

text \<open>The swaps of the loop touch disjoint pairs of positions.\<close>

lemma inv_finish_loop:
  fixes outp :: "'f::field list"
  assumes "n \<le> length outp" and "m \<le> n div 2" and "0 < m" and "k < n"
  shows "fold (\<lambda>i outp. let tmp = outp ! i * c in outp[i := outp ! (n - i) * c, n - i := tmp]) [1..<m] outp ! k =
    (if 0 < k \<and> (k < m \<or> n - m < k) then outp ! (n - k) * c else outp ! k)"
  using assms(2-4)
proof (induction m arbitrary: k)
  case (Suc m)
  let ?f = "\<lambda>i outp. let tmp = outp ! i * c in outp[i := outp ! (n - i) * c, n - i := tmp]"
  show ?case
  proof (cases "m = 0")
    case True
    then show ?thesis using Suc.prems by auto
  next
    case False
    let ?prev = "fold ?f [1..<m] outp"
    have len: "length (fold ?f xs ys) = length ys" for xs ys
      by (induction xs arbitrary: ys) (simp_all add: Let_def)
    have IH: "k < n \<Longrightarrow> ?prev ! k = (if 0 < k \<and> (k < m \<or> n - m < k) then outp ! (n - k) * c else outp ! k)" for k
      using Suc False by simp
    have m: "m < n - m" "n - m < n" "m < n" using Suc.prems False by auto
    have "fold ?f [1..<Suc m] outp = ?prev[m := ?prev ! (n - m) * c, n - m := ?prev ! m * c]"
      using False by (simp add: Let_def)
    moreover have "?prev ! (n - m) = outp ! (n - m)" "?prev ! m = outp ! m"
      using IH [of "n - m"] IH [of m] m by auto
    ultimately have "fold ?f [1..<Suc m] outp ! k =
        (if k = n - m then outp ! m * c else if k = m then outp ! (n - m) * c else ?prev ! k)"
      using m assms(1) len [of "[1..<m]" outp] Suc.prems(3) by (simp add: nth_list_update)
    also have "\<dots> = (if 0 < k \<and> (k < Suc m \<or> n - Suc m < k) then outp ! (n - k) * c else outp ! k)"
      using IH [OF Suc.prems(3)] m Suc.prems False by (auto simp: less_Suc_eq)
    finally show ?thesis .
  qed
qed simp

lemma inv_finish_nth:
  fixes outp :: "'f::field list"
  assumes "2 ^ d \<le> length outp" and "i < 2 ^ d" and "d = 0 \<Longrightarrow> c = 1"
  shows "discrete_fourier_transform_inv_finish outp (2 ^ d) c ! i = outp ! ((2 ^ d - i) mod 2 ^ d) * c"
proof (cases d)
  case 0
  with assms show ?thesis by (simp add: discrete_fourier_transform_inv_finish_def)
next
  case (Suc l)
  let ?n = "2 ^ d :: nat"
  have half: "?n div 2 = 2 ^ l" "?n = 2 * 2 ^ l" by (simp_all add: Suc)
  let ?start = "outp[0 := outp ! 0 * c, ?n div 2 := outp ! (?n div 2) * c]"
  have "discrete_fourier_transform_inv_finish outp ?n c =
      fold (\<lambda>i outp. let tmp = outp ! i * c in outp[i := outp ! (?n - i) * c, ?n - i := tmp]) [1..<?n div 2] ?start"
    by (simp add: discrete_fourier_transform_inv_finish_def Let_def half)
  then have "discrete_fourier_transform_inv_finish outp ?n c ! i =
      (if 0 < i \<and> (i < ?n div 2 \<or> ?n - ?n div 2 < i) then ?start ! (?n - i) * c else ?start ! i)"
    using assms by (subst inv_finish_loop [symmetric]) (simp_all add: half)
  also have "\<dots> = outp ! ((?n - i) mod ?n) * c"
  proof -
    have "(0 :: nat) < 2 ^ l" by simp
    then have pos: "0 < length outp" "2 ^ l < length outp" using assms(1) half by linarith+
    consider "i = 0" | "i = 2 ^ l" | "0 < i" "i \<noteq> 2 ^ l" by blast
    then show ?thesis
      using assms(1,2) pos by cases (auto simp: half nth_list_update)
  qed
  finally show ?thesis .
qed

section \<open>Orthogonality\<close>

lemma primitive_root:
  fixes w :: "'f::field"
  assumes w: "w ^ (2 ^ l) = - 1" and two: "(1 :: 'f) \<noteq> - 1" and t: "0 < t" "t < 2 ^ Suc l"
  shows "w ^ t \<noteq> 1"
proof
  assume "w ^ t = 1"
  obtain s q where q: "t = 2 ^ s * q" "odd q" using odd_part t(1) by blast
  have "(2 :: nat) ^ s \<le> t" using q by (cases q) simp_all
  then have "(2 :: nat) ^ s < 2 ^ Suc l" using t(2) by simp
  then have s: "s \<le> l" by (simp only: power_strict_increasing_iff less_Suc_eq_le one_less_numeral_iff semiring_norm)
  have "2 ^ l * q = t * 2 ^ (l - s)" using s by (simp add: q(1) flip: power_add)
  then have "w ^ (2 ^ l * q) = 1" using \<open>w ^ t = 1\<close> by (simp add: power_mult)
  moreover have "w ^ (2 ^ l * q) = - 1" using q(2) by (simp add: power_mult w)
  ultimately show False using two by simp
qed

lemma sum_powers_zero:
  fixes x :: "'f::field"
  assumes "x \<noteq> 1" and "x ^ n = 1"
  shows "(\<Sum>i<n. x ^ i) = 0"
  using assms by (simp add: sum_gp_strict)

text \<open>\<open>v\<close> is the inverse of the primitive root \<open>w\<close>; \<open>n\<close> must not vanish in the field.\<close>

lemma dft_orthogonal:
  fixes w :: "'f::field"
  assumes prim: "\<And>t. 0 < t \<Longrightarrow> t < n \<Longrightarrow> w ^ t \<noteq> 1" and w: "w ^ n = 1" "w * v = 1"
    and mk: "m < n" "k < n"
  shows "(\<Sum>i<n. w ^ (m * i) * v ^ (k * i)) = (if m = k then of_nat n else 0)"
proof (cases "m = k")
  case True
  then show ?thesis by (simp add: w(2) flip: power_mult_distrib)
next
  case False
  have v: "v ^ n = 1"
    using w by (metis mult_1 power_mult_distrib power_one)
  let ?x = "w ^ m * v ^ k"
  have "?x \<noteq> 1"
  proof
    assume "?x = 1"
    then have "w ^ m * (v ^ k * w ^ k) = w ^ k" by (simp flip: mult.assoc)
    moreover have "v ^ k * w ^ k = 1" using w(2) by (simp add: mult.commute flip: power_mult_distrib)
    ultimately have eq: "w ^ m = w ^ k" by simp
    have "w \<noteq> 0" using w(2) by auto
    have "w ^ (max m k - min m k) = 1"
      using eq \<open>w \<noteq> 0\<close> by (simp add: power_diff max_def min_def)
    then show False using prim [of "max m k - min m k"] False mk
      by (simp add: max_def min_def less_imp_diff_less split: if_splits)
  qed
  moreover have "?x ^ n = 1"
    by (simp add: power_mult_distrib w(1) v flip: power_mult) (metis w(1) v mult.commute power_mult power_one mult_1)
  ultimately have "(\<Sum>i<n. ?x ^ i) = 0" by (rule sum_powers_zero)
  then show ?thesis using False by (simp add: power_mult_distrib flip: power_mult)
qed

lemma dft_inverse:
  fixes w :: "'f::field"
  assumes prim: "\<And>t. 0 < t \<Longrightarrow> t < n \<Longrightarrow> w ^ t \<noteq> 1" and w: "w ^ n = 1" "w * v = 1" and n: "of_nat n * c = (1 :: 'f)"
    and m: "m < n"
  shows "(\<Sum>i<n. (\<Sum>k<n. a k * v ^ (k * i)) * c * w ^ (m * i)) = a m"
proof -
  have "(\<Sum>i<n. (\<Sum>k<n. a k * v ^ (k * i)) * c * w ^ (m * i)) =
      (\<Sum>i<n. \<Sum>k<n. a k * c * (w ^ (m * i) * v ^ (k * i)))"
    by (simp add: sum_distrib_left sum_distrib_right ac_simps)
  also have "\<dots> = (\<Sum>k<n. a k * c * (\<Sum>i<n. w ^ (m * i) * v ^ (k * i)))"
    by (subst sum.swap) (simp add: sum_distrib_left)
  also have "\<dots> = (\<Sum>k<n. if k = m then a k * c * of_nat n else 0)"
    using dft_orthogonal [OF prim w m] by (intro sum.cong) auto
  also have "\<dots> = a m * (of_nat n * c)" using m by (simp add: ac_simps)
  finally show ?thesis by (simp add: n)
qed

lemma power_mod_order: "w ^ n = 1 \<Longrightarrow> w ^ (k mod n) = (w :: 'f::field) ^ k"
  by (metis mod_mult_div_eq mult_1_right power_add power_mult power_one)

context prime_field
begin

lemma two_neq_0: "(2 :: 'f) \<noteq> 0"
proof -
  have "2 < modulus F"
  proof (cases "ENCODED_SIZE F")
    case 0
    then show ?thesis using modulus_bits by (simp add: integer_bits)
  next
    case (Suc k)
    have "(2 :: nat) ^ 7 \<le> 2 ^ (INTEGER_BITS F - 1)" by (intro power_increasing) (simp_all add: integer_bits Suc)
    then show ?thesis using modulus_bits(1) by simp
  qed
  then have "\<not> modulus F dvd 2" by (auto dest: dvd_imp_le)
  then show ?thesis using of_nat_eq_0_iff [of 2] by simp
qed

lemma one_neq_minus_one: "(1 :: 'f) \<noteq> - 1"
  using two_neq_0 by (simp add: eq_neg_iff_add_eq_0)

lemma froot_primitive:
  assumes "froot F d = Some w" and "0 < t" and "t < 2 ^ d"
  shows "w ^ t \<noteq> 1"
proof (cases d)
  case (Suc l)
  then show ?thesis
    using assms primitive_root [OF froot_half_power [of l w] one_neq_minus_one] by simp
qed (use assms in simp)

text \<open>The coefficients the inverse transform computes from the values \<open>a\<close> at the powers of \<open>w\<close>.\<close>

definition inverse_coeff :: "nat \<Rightarrow> 'f \<Rightarrow> (nat \<Rightarrow> 'f) \<Rightarrow> nat \<Rightarrow> 'f" where
  "inverse_coeff n w a i = (\<Sum>k<n. a k * inverse w ^ (k * i)) * inverse (of_nat n)"

lemma inverse_coeff_interpolates:
  assumes "froot F d = Some w" and "m < 2 ^ d"
  shows "(\<Sum>i<2 ^ d. inverse_coeff (2 ^ d) w a i * w ^ (m * i)) = a m"
proof -
  have "w ^ 2 ^ d = 1" using froot_power assms(1) by blast
  moreover from this have "w * inverse w = 1" by (cases "w = 0") (simp_all add: zero_power)
  moreover have "of_nat (2 ^ d) * inverse (of_nat (2 ^ d)) = (1 :: 'f)" using two_neq_0 by simp
  ultimately show ?thesis
    unfolding inverse_coeff_def using froot_primitive [OF assms(1)] assms(2) by (intro dft_inverse)
qed

lemma inv_finish_is_dft:
  assumes "froot F d = Some w" and "is_dft w (2 ^ d) a outp" and "i < 2 ^ d"
  shows "discrete_fourier_transform_inv_finish outp (2 ^ d) (inverse (of_nat (2 ^ d))) ! i =
    inverse_coeff (2 ^ d) w a i"
proof -
  let ?n = "2 ^ d :: nat"
  have w: "w ^ ?n = 1" using froot_power assms(1) by blast
  then have w0: "w \<noteq> 0" by (auto simp: zero_power)
  have "w ^ ((?n - i) mod ?n) = inverse w ^ i"
    unfolding power_mod_order [OF w] using w0 assms(3) by (simp add: power_diff w power_one_over inverse_eq_divide)
  then have "w ^ ((?n - i) mod ?n * k) = inverse w ^ (k * i)" for k
    by (simp only: power_mult) (simp only: mult.commute flip: power_mult)
  then have "outp ! ((?n - i) mod ?n) = (\<Sum>k<?n. a k * inverse w ^ (k * i))"
    using assms(2) by (simp add: is_dft_def)
  moreover have "d = 0 \<Longrightarrow> inverse (of_nat ?n) = (1 :: 'f)" by simp
  ultimately show ?thesis
    using assms(2,3) by (simp add: is_dft_def inv_finish_nth inverse_coeff_def)
qed

end

end
