(* ===== verification/Polynomial.thy ===== *)
theory Polynomial
  imports Fft
begin

text \<open>
  Polynomials as coefficient lists, from \<^verbatim>\<open>src/polynomial.rs\<close>: evaluation by Horner's rule, degree,
  multiplication, interpolation through the inverse transform, and the range-check polynomial.  A
  list stands for the polynomial function \<open>poly\<close>; the operations are shown to compute it, and a
  polynomial with more roots than coefficients to vanish.
\<close>

section \<open>Operations\<close>

definition poly_eval :: "'f::field list \<Rightarrow> 'f \<Rightarrow> 'f" where
  "poly_eval p eval_at =
     (if p = [] then 0
      else fold (\<lambda>i result. result * eval_at + p ! i) (rev [0..<length p - 1]) (p ! (length p - 1)))"

fun poly_deg_loop :: "'f::field list \<Rightarrow> nat \<Rightarrow> nat" where
  "poly_deg_loop p 0 = 0"
| "poly_deg_loop p (Suc d) = (if p ! d = 0 then poly_deg_loop p d else Suc d)"

definition poly_deg :: "'f::field list \<Rightarrow> nat" where
  "poly_deg p = poly_deg_loop p (length p) - 1"

text \<open>Reading coefficient zero of an empty polynomial is out of bounds.\<close>

definition poly_mul :: "'f::field list \<Rightarrow> 'f list \<Rightarrow> ('f list, 'e) outcome" where
  "poly_mul p q =
     (if p = [] \<or> q = [] then Panic
      else let p_size = poly_deg p + 1;
               q_size = poly_deg q + 1;
               out = fold (\<lambda>i out. fold (\<lambda>j out. out[i + j := out ! (i + j) + p ! i * q ! j]) [0..<q_size] out)
                       [0..<p_size] (replicate (p_size + q_size) 0)
           in Ok (take (poly_deg out + 1) out))"

text \<open>\<open>tmp_coeffs\<close> is scratch memory, overwritten.\<close>

definition poly_interpret_eval ::
  "'f::field field_element \<Rightarrow> 'f list \<Rightarrow> 'f \<Rightarrow> 'f list \<Rightarrow> ('f, 'e) outcome" where
  "poly_interpret_eval F points eval_at tmp_coeffs =
     (if 2 ^ INTEGER_BITS F \<le> length points then Panic
      else let size_inv = inverse (from_integer F (length points))
           in case discrete_fourier_transform F tmp_coeffs points (length points) of
                Ok tmp_coeffs \<Rightarrow>
                  let tmp_coeffs = discrete_fourier_transform_inv_finish tmp_coeffs (length points) size_inv
                  in Ok (poly_eval (take (length points) tmp_coeffs) eval_at)
              | _ \<Rightarrow> Panic)"

definition poly_range_check :: "'f::field field_element \<Rightarrow> nat \<Rightarrow> nat \<Rightarrow> ('f list, 'e) outcome" where
  "poly_range_check F start stop =
     for_each (\<lambda>i p.
         if 2 ^ INTEGER_BITS F \<le> i then Panic
         else poly_mul p [- from_integer F i, 1]) [start..<stop] [1]"

section \<open>Evaluation\<close>

definition poly :: "'f::field list \<Rightarrow> 'f \<Rightarrow> 'f" where
  "poly p x = (\<Sum>i<length p. p ! i * x ^ i)"

lemma poly_Nil [simp]: "poly [] x = 0" and poly_Cons [simp]: "poly (c # p) x = c + x * poly p x"
  by (simp_all add: poly_def sum.lessThan_Suc_shift sum_distrib_left ac_simps del: sum.lessThan_Suc)

lemma poly_coeff: "length p \<le> n \<Longrightarrow> poly p x = (\<Sum>i<n. coeff p i * x ^ i)"
  unfolding poly_def coeff_def by (rule sum.mono_neutral_cong_left) auto

lemma poly_append: "poly (p @ q) x = poly p x + x ^ length p * poly q x"
  by (induction p) (simp_all add: algebra_simps)

lemma poly_eval_horner:
  "n \<le> length p \<Longrightarrow> fold (\<lambda>i result. result * x + p ! i) (rev [0..<n]) r = poly (take n p) x + x ^ n * r"
proof (induction n arbitrary: r)
  case (Suc n)
  then show ?case by (simp add: take_Suc_conv_app_nth poly_append min_def algebra_simps)
qed simp

lemma poly_eval_correct [simp]: "poly_eval p x = poly p x"
proof (cases p rule: rev_cases)
  case (snoc q c)
  then show ?thesis
    using poly_eval_horner [of "length q" p x c] by (simp add: poly_eval_def poly_append)
qed (simp add: poly_eval_def)

section \<open>Degree\<close>

lemma poly_deg_loop_le: "poly_deg_loop p n \<le> n"
  by (induction n) simp_all

lemma poly_deg_loop_zero: "poly_deg_loop p n \<le> i \<Longrightarrow> i < n \<Longrightarrow> p ! i = 0"
  by (induction n) (auto simp: less_Suc_eq split: if_splits)

lemma poly_deg_loop_top: "poly_deg_loop p n = Suc d \<Longrightarrow> p ! d \<noteq> 0"
  by (induction n) (auto split: if_splits)

lemma poly_above_deg: "poly_deg p < i \<Longrightarrow> i < length p \<Longrightarrow> p ! i = 0"
  by (rule poly_deg_loop_zero [of p "length p"]) (simp_all add: poly_deg_def)

lemma poly_deg_le: "(\<And>i. k < i \<Longrightarrow> i < length p \<Longrightarrow> p ! i = 0) \<Longrightarrow> poly_deg p \<le> k"
proof -
  assume z: "\<And>i. k < i \<Longrightarrow> i < length p \<Longrightarrow> p ! i = 0"
  have "poly_deg_loop p n \<le> Suc k" if "n \<le> length p" for n
    using that
  proof (induction n)
    case (Suc n)
    then show ?case using z [of n] by (cases "k < n") simp_all
  qed simp
  from this [of "length p"] show ?thesis by (simp add: poly_deg_def)
qed

lemma poly_deg_bound: "p \<noteq> [] \<Longrightarrow> poly_deg p < length p"
  using poly_deg_loop_le [of p "length p"] by (cases p) (simp_all add: poly_deg_def less_Suc_eq_le)

lemma poly_deg_leading: "p \<noteq> [] \<Longrightarrow> \<exists>i < length p. p ! i \<noteq> 0 \<Longrightarrow> p ! poly_deg p \<noteq> 0"
proof -
  assume "\<exists>i < length p. p ! i \<noteq> 0"
  then obtain i where i: "i < length p" "p ! i \<noteq> 0" by blast
  then have "i < poly_deg_loop p (length p)" using poly_deg_loop_zero not_less by blast
  then obtain d where d: "poly_deg_loop p (length p) = Suc d" by (cases "poly_deg_loop p (length p)") auto
  from poly_deg_loop_top [OF this] show ?thesis by (simp add: poly_deg_def d)
qed

lemma poly_zero: "\<forall>c \<in> set p. c = 0 \<Longrightarrow> poly p x = 0"
  by (induction p) simp_all

lemma poly_truncate: "(\<And>i. n \<le> i \<Longrightarrow> i < length p \<Longrightarrow> p ! i = 0) \<Longrightarrow> poly (take n p) x = poly p x"
proof -
  assume "\<And>i. n \<le> i \<Longrightarrow> i < length p \<Longrightarrow> p ! i = 0"
  then have "\<forall>c \<in> set (drop n p). c = 0" by (auto simp: in_set_conv_nth)
  then have "poly (drop n p) x = 0" by (rule poly_zero)
  then show ?thesis using poly_append [of "take n p" "drop n p" x] by simp
qed

section \<open>Multiplication\<close>

lemma poly_add_at:
  assumes "k < length p"
  shows "poly (p[k := p ! k + c]) x = poly p x + c * x ^ k"
proof -
  have "poly (p[k := p ! k + c]) x = (\<Sum>i<length p. p ! i * x ^ i + (if i = k then c * x ^ k else 0))"
    unfolding poly_def by (intro sum.cong) (auto simp: nth_list_update algebra_simps)
  also have "\<dots> = poly p x + c * x ^ k" using assms by (simp add: sum.distrib poly_def)
  finally show ?thesis .
qed

lemma poly_mul_row:
  assumes "i + n \<le> length out"
  shows "length (fold (\<lambda>j out. out[i + j := out ! (i + j) + c * q ! j]) [0..<n] out) = length out"
    and "poly (fold (\<lambda>j out. out[i + j := out ! (i + j) + c * q ! j]) [0..<n] out) x =
      poly out x + c * x ^ i * (\<Sum>j<n. q ! j * x ^ j)"
proof -
  show len: "length (fold (\<lambda>j out. out[i + j := out ! (i + j) + c * q ! j]) js out) = length out" for js
    by (induction js arbitrary: out) simp_all
  show "poly (fold (\<lambda>j out. out[i + j := out ! (i + j) + c * q ! j]) [0..<n] out) x =
      poly out x + c * x ^ i * (\<Sum>j<n. q ! j * x ^ j)"
    using assms by (induction n) (simp_all add: poly_add_at len distrib_left power_add)
qed

lemma poly_mul_rows:
  fixes p q out :: "'f::field list"
  assumes "m + n \<le> length out"
  defines "row \<equiv> \<lambda>i out. fold (\<lambda>j out. out[i + j := out ! (i + j) + p ! i * q ! j]) [0..<n] out"
  shows "length (fold row [0..<m] out) = length out"
    and "poly (fold row [0..<m] out) x = poly out x + (\<Sum>i<m. p ! i * x ^ i) * (\<Sum>j<n. q ! j * x ^ j)"
proof -
  have "length (fold row [0..<m] out) = length out \<and>
      poly (fold row [0..<m] out) x = poly out x + (\<Sum>i<m. p ! i * x ^ i) * (\<Sum>j<n. q ! j * x ^ j)"
    using assms(1) by (induction m) (simp_all add: row_def poly_mul_row algebra_simps)
  then show "length (fold row [0..<m] out) = length out"
    and "poly (fold row [0..<m] out) x = poly out x + (\<Sum>i<m. p ! i * x ^ i) * (\<Sum>j<n. q ! j * x ^ j)"
    by blast+
qed

lemma poly_mul_rows_above:
  fixes p q out :: "'f::field list"
  assumes "m + n \<le> Suc k"
  shows "fold (\<lambda>i out. fold (\<lambda>j out. out[i + j := out ! (i + j) + p ! i * q ! j]) [0..<n] out) [0..<m] out ! k = out ! k"
proof -
  have row: "i + n \<le> k \<Longrightarrow> fold (\<lambda>j out. out[i + j := out ! (i + j) + c * q ! j]) [0..<n] out ! k = out ! k" for i c out
    by (induction n) simp_all
  from assms show ?thesis by (induction m) (simp_all add: row)
qed

lemma poly_upto_deg: "p \<noteq> [] \<Longrightarrow> (\<Sum>i<poly_deg p + 1. p ! i * x ^ i) = poly p x"
  unfolding poly_def
  by (rule sum.mono_neutral_left) (use poly_deg_bound [of p] poly_above_deg [of p] in auto)

lemma poly_mul_correct:
  assumes "p \<noteq> []" and "q \<noteq> []"
  shows "\<exists>r. poly_mul p q = Ok r \<and> r \<noteq> [] \<and> length r \<le> poly_deg p + poly_deg q + 1 \<and>
    (\<forall>x. poly r x = poly p x * poly q x)"
proof -
  let ?m = "poly_deg p + 1" and ?n = "poly_deg q + 1"
  define out where "out = fold (\<lambda>i out. fold (\<lambda>j out. out[i + j := out ! (i + j) + p ! i * q ! j]) [0..<?n] out)
    [0..<?m] (replicate (?m + ?n) 0)"
  have len: "length out = ?m + ?n" unfolding out_def by (subst poly_mul_rows(1)) simp_all
  have "poly out x = poly p x * poly q x" for x
  proof -
    have "poly (replicate (?m + ?n) 0) x = 0" by (rule poly_zero) simp
    then show ?thesis
      unfolding out_def by (subst poly_mul_rows(2)) (simp_all only: poly_upto_deg [OF assms(1)]
        poly_upto_deg [OF assms(2)] length_replicate order_refl add_0)
  qed
  moreover have "poly (take (poly_deg out + 1) out) x = poly out x" for x
    by (rule poly_truncate) (simp add: poly_above_deg)
  moreover have "poly_mul p q = Ok (take (poly_deg out + 1) out)"
    using assms unfolding poly_mul_def Let_def out_def by (simp only: simp_thms if_False)
  moreover have "take (poly_deg out + 1) out \<noteq> []" using len by auto
  moreover have "poly_deg out \<le> poly_deg p + poly_deg q"
  proof (rule poly_deg_le)
    fix k
    assume k: "poly_deg p + poly_deg q < k" "k < length out"
    have "out ! k = replicate (?m + ?n) 0 ! k"
      unfolding out_def using k(1) by (intro poly_mul_rows_above) simp
    also have "\<dots> = 0" using k(2) len by (simp only: nth_replicate)
    finally show "out ! k = 0" .
  qed
  ultimately show ?thesis by auto
qed

section \<open>Interpolation\<close>

context prime_field
begin

text \<open>The value at \<open>x\<close> of the polynomial with the given values at the powers of \<open>w\<close>.\<close>

definition interpolated :: "nat \<Rightarrow> 'f \<Rightarrow> (nat \<Rightarrow> 'f) \<Rightarrow> 'f \<Rightarrow> 'f" where
  "interpolated n w a x = (\<Sum>i<n. inverse_coeff n w a i * x ^ i)"

lemma interpolated_node:
  assumes "froot F d = Some w" and "m < 2 ^ d"
  shows "interpolated (2 ^ d) w a (w ^ m) = a m"
  using inverse_coeff_interpolates [OF assms] by (simp add: interpolated_def power_mult)

lemma inverse_coeff_add: "inverse_coeff n w (\<lambda>k. a k + b k) i = inverse_coeff n w a i + inverse_coeff n w b i"
  by (simp add: inverse_coeff_def sum.distrib algebra_simps)

lemma interpolated_add: "interpolated n w (\<lambda>k. a k + b k) x = interpolated n w a x + interpolated n w b x"
  by (simp add: interpolated_def inverse_coeff_add sum.distrib algebra_simps)

lemma small_power_fits:
  assumes "d \<le> 20" and "32 \<le> INTEGER_BITS F"
  shows "(2 :: nat) ^ d < 2 ^ INTEGER_BITS F"
  using assms by (intro power_strict_increasing) simp_all

lemma poly_interpret_eval_correct:
  assumes d: "length points = 2 ^ d" "d \<le> 20" "32 \<le> INTEGER_BITS F" and len: "2 ^ d \<le> length tmp"
  shows "\<exists>w. froot F d = Some w \<and>
    poly_interpret_eval F points x tmp = Ok (interpolated (2 ^ d) w (coeff points) x)"
proof -
  have "points \<noteq> []" using d(1) by auto
  then obtain w res where w: "froot F d = Some w" "discrete_fourier_transform F tmp points (2 ^ d) = Ok res"
    "length res = length tmp" "is_dft w (2 ^ d) (coeff points) res"
    using dft_correct [OF d(2) len] by blast
  let ?out = "discrete_fourier_transform_inv_finish res (2 ^ d) (inverse (of_nat (2 ^ d)))"
  have "poly (take (2 ^ d) ?out) x = interpolated (2 ^ d) w (coeff points) x"
    unfolding poly_def interpolated_def
    using inv_finish_is_dft [OF w(1,4)] w(3) len by (intro sum.cong) simp_all
  moreover have "from_integer F (2 ^ d) = of_nat (2 ^ d)" by (rule from_integer [OF small_power_fits [OF d(2,3)]])
  ultimately show ?thesis
    using w(1,2) d(1) small_power_fits [OF d(2,3)] by (simp add: poly_interpret_eval_def Let_def)
qed

text \<open>The inverse transform recovers the coefficients of a polynomial that fits.\<close>

lemma inverse_coeff_poly:
  assumes "froot F d = Some w" and "length r \<le> 2 ^ d" and i: "i < 2 ^ d"
  shows "inverse_coeff (2 ^ d) w (\<lambda>k. poly r (w ^ k)) i = coeff r i"
proof -
  let ?n = "2 ^ d :: nat" and ?v = "inverse w"
  have w: "w ^ ?n = 1" using froot_power assms(1) by blast
  then have wv: "w * ?v = 1" by (cases "w = 0") (simp_all add: zero_power)
  have "(\<Sum>k<?n. poly r (w ^ k) * ?v ^ (k * i)) = (\<Sum>k<?n. \<Sum>j<?n. coeff r j * (w ^ (j * k) * ?v ^ (i * k)))"
    unfolding poly_coeff [OF assms(2)]
    by (simp add: sum_distrib_left power_mult [symmetric] ac_simps)
  also have "\<dots> = (\<Sum>j<?n. coeff r j * (\<Sum>k<?n. w ^ (j * k) * ?v ^ (i * k)))"
    by (subst sum.swap) (simp add: sum_distrib_left)
  also have "\<dots> = (\<Sum>j<?n. if j = i then coeff r j * of_nat ?n else 0)"
    using dft_orthogonal [OF froot_primitive [OF assms(1)] w wv _ i] by (intro sum.cong) auto
  also have "\<dots> = coeff r i * of_nat ?n" using i by simp
  finally show ?thesis using two_neq_0 by (simp add: inverse_coeff_def)
qed

section \<open>The range-check polynomial\<close>

lemma poly_range_check_correct:
  assumes "stop \<le> 2 ^ INTEGER_BITS F"
  shows "\<exists>p. poly_range_check F start stop = (Ok p :: ('f list, 'e) outcome) \<and> p \<noteq> [] \<and> 
    (\<forall>x. poly p x = (\<Prod>i\<in>{start..<stop}. x - of_nat i))"
proof -
  let ?step = "\<lambda>i p. if 2 ^ INTEGER_BITS F \<le> i then Panic
    else (poly_mul p [- from_integer F i, 1] :: ('f list, 'e) outcome)"
  have "\<exists>p. for_each ?step [start..<start + n] [1] = Ok p \<and> p \<noteq> [] \<and>
      (\<forall>x. poly p x = (\<Prod>i\<in>{start..<start + n}. x - of_nat i))" if "start + n \<le> 2 ^ INTEGER_BITS F" for n
    using that
  proof (induction n)
    case (Suc n)
    then obtain p where p: "for_each ?step [start..<start + n] [1] = Ok p" "p \<noteq> []"
      "\<And>x. poly p x = (\<Prod>i\<in>{start..<start + n}. x - of_nat i)" by auto
    obtain r where r: "poly_mul p [- of_nat (start + n), 1] = (Ok r :: ('f list, 'e) outcome)" "r \<noteq> []"
      "\<And>x. poly r x = poly p x * poly [- of_nat (start + n), 1] x"
      using poly_mul_correct [OF p(2), of "[- of_nat (start + n), 1]"] by (auto simp del: of_nat_add)
    have "from_integer F (start + n) = of_nat (start + n)" using Suc.prems by (intro from_integer) simp
    moreover have "[start..<start + Suc n] = [start..<start + n] @ [start + n]" by simp
    ultimately have "for_each ?step [start..<start + Suc n] [1] = Ok r"
      using Suc.prems p(1) r(1) by (simp add: for_each_append del: of_nat_add upt_Suc)
    moreover have "poly r x = (\<Prod>i\<in>{start..<start + Suc n}. x - of_nat i)" for x
      by (simp add: r(3) p(3) atLeastLessThanSuc mult.commute)
    ultimately show ?case using r(2) by blast
  qed simp
  from this [of "stop - start"] assms show ?thesis
    by (cases "start \<le> stop") (auto simp: poly_range_check_def)
qed

end

section \<open>Properties\<close>

context prime_field
begin

lemma dft_inv_dft:
  assumes "d \<le> 20" and "20 < INTEGER_BITS F" and "length inp = 2 ^ d" and "length outp = 2 ^ d"
  shows "and_then (discrete_fourier_transform F outp inp (2 ^ d)) (\<lambda>y. discrete_fourier_transform_inv F outp y (2 ^ d)) = Ok inp"
proof -
  have pos: "inp \<noteq> []" using assms(3) by auto
  obtain w y where w: "froot F d = Some w" and y: "discrete_fourier_transform F outp inp (2 ^ d) = Ok y"
    "length y = 2 ^ d" "is_dft w (2 ^ d) (coeff inp) y"
    using dft_correct [of d outp inp] assms pos by auto
  have "y \<noteq> []" using y(2) by auto
  then obtain z where z: "discrete_fourier_transform F outp y (2 ^ d) = Ok z" "length z = 2 ^ d"
    "is_dft w (2 ^ d) (coeff y) z"
    using dft_correct [of d outp y] assms w by auto
  have small: "2 ^ d < (2 :: nat) ^ INTEGER_BITS F" using assms by simp
  have fin: "inverse_coeff (2 ^ d) w (coeff y) i = inp ! i" if i: "i < 2 ^ d" for i
  proof -
    have "coeff y k = poly inp (w ^ k)" if "k < 2 ^ d" for k
      using y(2,3) that assms(3) by (simp add: coeff_def is_dft_def poly_def power_mult)
    then have "inverse_coeff (2 ^ d) w (coeff y) i = inverse_coeff (2 ^ d) w (\<lambda>k. poly inp (w ^ k)) i"
      by (simp add: inverse_coeff_def)
    then show ?thesis using inverse_coeff_poly [OF w, of inp i] i assms(3) by (simp add: coeff_def)
  qed
  have "discrete_fourier_transform_inv_finish z (2 ^ d) (inverse (of_nat (2 ^ d))) = inp"
    by (rule nth_equalityI) (use z assms(3) inv_finish_is_dft [OF w z(3)] fin in \<open>simp_all add: length_inv_finish\<close>)
  then show ?thesis
    using y z small by (simp add: discrete_fourier_transform_inv_def from_integer)
qed

end




end
