(* ===== verification/Gadgets.thy ===== *)
theory Gadgets
  imports Polynomial
begin

text \<open>
  The gadgets of \<^verbatim>\<open>src/flp/gadgets.rs\<close>: the multiplier, evaluation of a polynomial, and the sum of an
  inner gadget over chunks of the input.  A gadget is called on field elements, and on polynomials,
  below a threshold by multiplying coefficients and above it through the Fourier transform.  Both
  ways are shown to compute the polynomial whose values are the gadget's on the values of the inputs.
\<close>

section \<open>Errors\<close>

text \<open>The messages carried by the variants of \<open>FlpError\<close> are not modelled.\<close>

datatype flp_error =
    ProveError
  | QueryError
  | DecideError
  | GadgetError
  | ValidError
  | EncodeError
  | DecodeError
  | TruncateError
  | InvalidParameter
  | FftErr fft_error
  | FieldErr field_error

section \<open>Gadgets\<close>

definition wire_poly_len :: "nat \<Rightarrow> nat" where
  "wire_poly_len num_calls = next_power_of_two (1 + num_calls)"

definition gadget_poly_len :: "nat \<Rightarrow> nat \<Rightarrow> nat" where
  "gadget_poly_len gadget_degree wire_poly_length = gadget_degree * (wire_poly_length - 1) + 1"

definition gadget_poly_fft_mem_len :: "nat \<Rightarrow> nat \<Rightarrow> nat" where
  "gadget_poly_fft_mem_len degree num_calls =
     next_power_of_two (gadget_poly_len degree (wire_poly_len num_calls))"

definition FFT_THRESHOLD :: nat where
  "FFT_THRESHOLD = 30"

text \<open>The implementations of \<open>Gadget\<close> that do arithmetic; none of their methods changes the gadget.\<close>

datatype 'f gadget =
    Mul nat 'f nat
  | PolyEval "'f list" nat 'f nat
  | ParallelSum "'f gadget" nat

text \<open>The size of the transform is converted to the field's integer type, which panics if it does not fit.\<close>

definition Mul_new :: "'f::field field_element \<Rightarrow> nat \<Rightarrow> ('f gadget, flp_error) outcome" where
  "Mul_new F num_calls =
     (let n = gadget_poly_fft_mem_len 2 num_calls
      in if 2 ^ INTEGER_BITS F \<le> n then Panic
         else Ok (Mul n (inverse (from_integer F n)) num_calls))"

definition PolyEval_new :: "'f::field field_element \<Rightarrow> 'f list \<Rightarrow> nat \<Rightarrow> ('f gadget, flp_error) outcome" where
  "PolyEval_new F p num_calls =
     (let n = gadget_poly_fft_mem_len (poly_deg p) num_calls
      in if 2 ^ INTEGER_BITS F \<le> n then Panic
         else Ok (PolyEval p n (inverse (from_integer F n)) num_calls))"

fun arity :: "'f gadget \<Rightarrow> nat" where
  "arity (Mul n n_inv num_calls) = 2"
| "arity (PolyEval p n n_inv num_calls) = 1"
| "arity (ParallelSum inner chnks) = chnks * arity inner"

fun degree :: "'f::field gadget \<Rightarrow> nat" where
  "degree (Mul n n_inv num_calls) = 2"
| "degree (PolyEval p n n_inv num_calls) = poly_deg p"
| "degree (ParallelSum inner chnks) = degree inner"

fun calls :: "'f gadget \<Rightarrow> nat" where
  "calls (Mul n n_inv num_calls) = num_calls"
| "calls (PolyEval p n n_inv num_calls) = num_calls"
| "calls (ParallelSum inner chnks) = calls inner"

definition gadget_call_check :: "'f gadget \<Rightarrow> nat \<Rightarrow> (unit, flp_error) outcome" where
  "gadget_call_check g in_len =
     (if in_len \<noteq> arity g then Err GadgetError
      else if in_len = 0 then Err GadgetError
      else Ok ())"

definition gadget_call_poly_check :: "'f::field gadget \<Rightarrow> 'f list \<Rightarrow> 'f list list \<Rightarrow> (unit, flp_error) outcome" where
  "gadget_call_poly_check g outp inp =
     and_then (gadget_call_check g (length inp)) (\<lambda>_.
       if \<exists>i \<in> set [1..<length inp]. length (inp ! i) \<noteq> length (inp ! 0) then Err GadgetError
       else let expected = next_power_of_two (gadget_poly_len (degree g) (length (inp ! 0)))
            in if length outp \<noteq> expected then Err GadgetError else Ok ())"

fun gadget_call :: "'f::field gadget \<Rightarrow> 'f list \<Rightarrow> ('f, flp_error) outcome" where
  "gadget_call (Mul n n_inv num_calls) inp =
     and_then (gadget_call_check (Mul n n_inv num_calls) (length inp)) (\<lambda>_. Ok (inp ! 0 * inp ! 1))"
| "gadget_call (PolyEval p n n_inv num_calls) inp =
     and_then (gadget_call_check (PolyEval p n n_inv num_calls) (length inp)) (\<lambda>_. Ok (poly_eval p (inp ! 0)))"
| "gadget_call (ParallelSum inner chnks) inp =
     and_then (gadget_call_check (ParallelSum inner chnks) (length inp)) (\<lambda>_.
       for_each (\<lambda>chunk outp. and_then (gadget_call inner chunk) (\<lambda>y. Ok (outp + y)))
         (chunks (arity inner) inp) 0)"

definition mul_call_poly_direct :: "'f::field list \<Rightarrow> 'f list list \<Rightarrow> ('f list, flp_error) outcome" where
  "mul_call_poly_direct outp inp =
     and_then (poly_mul (inp ! 0) (inp ! 1)) (\<lambda>v.
       if length v \<le> length outp then Ok (v @ drop (length v) outp) else Panic)"

definition mul_call_poly_fft ::
  "'f::field field_element \<Rightarrow> nat \<Rightarrow> 'f \<Rightarrow> 'f list \<Rightarrow> 'f list list \<Rightarrow> ('f list, flp_error) outcome" where
  "mul_call_poly_fft F n n_inv outp inp =
     and_then (map_err FftErr (discrete_fourier_transform F (replicate n 0) (inp ! 0) n)) (\<lambda>buf.
     and_then (map_err FftErr (discrete_fourier_transform F outp (inp ! 1) n)) (\<lambda>outp.
     let buf = map (\<lambda>i. buf ! i * outp ! i) [0..<n] in
     and_then (map_err FftErr (discrete_fourier_transform F outp buf n)) (\<lambda>outp.
       Ok (discrete_fourier_transform_inv_finish outp n n_inv))))"

definition polyeval_call_poly_direct ::
  "'f::field list \<Rightarrow> 'f list \<Rightarrow> 'f list list \<Rightarrow> ('f list, flp_error) outcome" where
  "polyeval_call_poly_direct p outp inp =
     (if p = [] \<or> outp = [] then Panic
      else and_then
        (for_each (\<lambda>i (outp, x).
           if length outp < length x then Panic
           else let outp = fold (\<lambda>j outp. outp[j := outp ! j + p ! i * x ! j]) [0..<length x] outp
                in if i < length p - 1
                   then and_then (poly_mul x (inp ! 0)) (\<lambda>x. Ok (outp, x))
                   else Ok (outp, x))
           [1..<length p] (outp[0 := p ! 0], inp ! 0))
        (\<lambda>(outp, x). Ok outp))"

definition polyeval_call_poly_fft ::
  "'f::field field_element \<Rightarrow> 'f list \<Rightarrow> nat \<Rightarrow> 'f \<Rightarrow> 'f list \<Rightarrow> 'f list list \<Rightarrow> ('f list, flp_error) outcome" where
  "polyeval_call_poly_fft F p n n_inv outp inps =
     (let inp = inps ! 0 in
      and_then (map_err FftErr (discrete_fourier_transform F (replicate n 0) inp n)) (\<lambda>inp_vals.
      if n < length inp \<or> p = [] \<or> length outp < n then Panic
      else and_then
        (for_each (\<lambda>i (outp, x_vals, x).
           let outp = fold (\<lambda>j outp. outp[j := outp ! j + p ! i * x ! j]) [0..<n] outp
           in if i < length p - 1
              then let x_vals = map (\<lambda>j. x_vals ! j * inp_vals ! j) [0..<n]
                   in and_then (map_err FftErr (discrete_fourier_transform F x x_vals n)) (\<lambda>x.
                        Ok (outp, x_vals, discrete_fourier_transform_inv_finish x n n_inv))
              else Ok (outp, x_vals, x))
           [1..<length p] (outp[0 := p ! 0], inp_vals, inp @ replicate (n - length inp) 0))
        (\<lambda>(outp, x_vals, x). Ok outp)))"

fun call_poly :: "'f::field field_element \<Rightarrow> 'f gadget \<Rightarrow> 'f list \<Rightarrow> 'f list list \<Rightarrow> ('f list, flp_error) outcome" where
  "call_poly F (Mul n n_inv num_calls) outp inp =
     and_then (gadget_call_poly_check (Mul n n_inv num_calls) outp inp) (\<lambda>_.
       if length (inp ! 0) \<ge> FFT_THRESHOLD then mul_call_poly_fft F n n_inv outp inp
       else mul_call_poly_direct outp inp)"
| "call_poly F (PolyEval p n n_inv num_calls) outp inp =
     and_then (gadget_call_poly_check (PolyEval p n n_inv num_calls) outp inp) (\<lambda>_.
       let outp = map (\<lambda>_. 0) outp in
       if length (inp ! 0) \<ge> FFT_THRESHOLD then polyeval_call_poly_fft F p n n_inv outp inp
       else polyeval_call_poly_direct p outp inp)"
| "call_poly F (ParallelSum inner chnks) outp inp =
     and_then (gadget_call_poly_check (ParallelSum inner chnks) outp inp) (\<lambda>_.
       and_then
         (for_each (\<lambda>chunk (outp, partial_outp).
            and_then (call_poly F inner partial_outp chunk) (\<lambda>partial_outp.
              if length partial_outp < length outp then Panic
              else Ok (map2 (+) outp partial_outp, partial_outp)))
            (chunks (arity inner) inp) (map (\<lambda>_. 0) outp, replicate (length outp) 0))
         (\<lambda>(outp, partial_outp). Ok outp))"

section \<open>Values\<close>

text \<open>What a gadget computes on field elements.\<close>

fun gadget_value :: "'f::field gadget \<Rightarrow> 'f list \<Rightarrow> 'f" where
  "gadget_value (Mul n n_inv num_calls) v = v ! 0 * v ! 1"
| "gadget_value (PolyEval p n n_inv num_calls) v = poly p (v ! 0)"
| "gadget_value (ParallelSum inner chnks) v = sum_list (map (gadget_value inner) (chunks (arity inner) v))"

lemma chunks_lengths:
  assumes "length xs = k * n" and "c \<in> set (chunks n xs)"
  shows "length c = n"
  using assms
proof (induction n xs arbitrary: k rule: chunks.induct)
  case (1 n xs)
  then have n: "xs \<noteq> []" "0 < n" by (auto simp: chunks.simps split: if_splits)
  then obtain k' where k: "k = Suc k'" using 1(2) by (cases k) auto
  then have "length (drop n xs) = k' * n" using 1(2) by simp
  with 1 n k show ?case by (auto simp: chunks_step)
qed

lemma length_chunks:
  assumes "length xs = k * n" and "0 < n"
  shows "length (chunks n xs) = k"
  using assms
proof (induction k arbitrary: xs)
  case (Suc k)
  then have "xs \<noteq> []" "length (drop n xs) = k * n" by auto
  with Suc show ?case by (simp add: chunks_step)
qed simp

lemma for_each_sum:
  assumes "\<And>x. x \<in> set xs \<Longrightarrow> f x = Ok (g x)"
  shows "for_each (\<lambda>x acc. and_then (f x) (\<lambda>y. Ok (acc + y))) xs acc = Ok (acc + sum_list (map g xs) :: 'a::comm_monoid_add)"
  using assms by (induction xs arbitrary: acc) (simp_all add: add.assoc)

lemma gadget_call_value:
  assumes "length inp = arity g" and "0 < arity g"
  shows "gadget_call g inp = Ok (gadget_value g inp)"
  using assms
proof (induction g arbitrary: inp)
  case (ParallelSum inner k)
  have inner: "0 < arity inner" using ParallelSum.prems by (cases "arity inner") simp_all
  have "gadget_call inner c = Ok (gadget_value inner c)" if "c \<in> set (chunks (arity inner) inp)" for c
    using ParallelSum.IH [OF chunks_lengths inner] ParallelSum.prems that by simp
  from for_each_sum [OF this, where acc = 0] show ?case
    using ParallelSum.prems by (simp add: gadget_call_check_def)
qed (simp_all add: gadget_call_check_def)

lemma gadget_call_arity: "length inp \<noteq> arity g \<Longrightarrow> gadget_call g inp = Err GadgetError"
  by (cases g) (simp_all add: gadget_call_check_def)

section \<open>Transforms of polynomials\<close>

context prime_field
begin

lemma dft_evaluates:
  assumes "froot F d = Some w" and "d \<le> 20" and "2 ^ d \<le> length outp" and "p \<noteq> []" and "length p \<le> 2 ^ d"
  obtains vs where "discrete_fourier_transform F outp p (2 ^ d) = Ok vs" and "length vs = length outp"
    and "\<And>i. i < 2 ^ d \<Longrightarrow> vs ! i = poly p (w ^ i)"
proof -
  obtain vs where vs: "discrete_fourier_transform F outp p (2 ^ d) = Ok vs" "length vs = length outp"
    "is_dft w (2 ^ d) (coeff p) vs"
    using dft_correct [OF assms(2-4)] assms(1) by auto
  have "vs ! i = poly p (w ^ i)" if "i < 2 ^ d" for i
    using vs(3) that by (simp add: is_dft_def poly_coeff [OF assms(5)] power_mult)
  with vs that show ?thesis by blast
qed

lemma dft_interpolates:
  assumes w: "froot F d = Some w" and d: "d \<le> 20" and len: "2 ^ d \<le> length outp"
    and vs: "length vs = 2 ^ d" "\<And>i. i < 2 ^ d \<Longrightarrow> vs ! i = poly r (w ^ i)" and r: "length r \<le> 2 ^ d"
  obtains res where "discrete_fourier_transform F outp vs (2 ^ d) = Ok res" and "length res = length outp"
    and "\<And>i. i < 2 ^ d \<Longrightarrow>
      discrete_fourier_transform_inv_finish res (2 ^ d) (inverse (of_nat (2 ^ d))) ! i = coeff r i"
proof -
  have "vs \<noteq> []" using vs(1) by auto
  then obtain res where res: "discrete_fourier_transform F outp vs (2 ^ d) = Ok res"
    "length res = length outp" "is_dft w (2 ^ d) (coeff vs) res"
    using dft_correct [OF d len] w by auto
  have "inverse_coeff (2 ^ d) w (coeff vs) i = inverse_coeff (2 ^ d) w (\<lambda>k. poly r (w ^ k)) i" for i
    unfolding inverse_coeff_def using vs by (simp add: coeff_def)
  then have "discrete_fourier_transform_inv_finish res (2 ^ d) (inverse (of_nat (2 ^ d))) ! i = coeff r i"
    if "i < 2 ^ d" for i
    using inv_finish_is_dft [OF w res(3) that] inverse_coeff_poly [OF w r that] by simp
  with res that show ?thesis by blast
qed

lemma poly_nth_coeff: "(\<And>i. i < length p \<Longrightarrow> p ! i = coeff r i) \<Longrightarrow> length r \<le> length p \<Longrightarrow> poly p x = poly r x"
  unfolding poly_coeff [of r "length p"] by (simp add: poly_def)

end

text \<open>A list holds the polynomial \<open>f\<close>, with nothing at or above position \<open>n\<close>.\<close>

definition holds_poly :: "'f::field list \<Rightarrow> nat \<Rightarrow> ('f \<Rightarrow> 'f) \<Rightarrow> bool" where
  "holds_poly p n f \<longleftrightarrow> (\<forall>x. poly p x = f x) \<and> (\<forall>i. n \<le> i \<and> i < length p \<longrightarrow> p ! i = 0)"

lemma holds_poly_coeffs:
  assumes "\<And>i. i < length p \<Longrightarrow> p ! i = coeff r i" and "length r \<le> n" and "length r \<le> length p"
    and "\<And>x. poly r x = f x"
  shows "holds_poly p n f"
proof -
  have "poly p x = poly r x" for x
    unfolding poly_coeff [OF assms(3)] using assms(1) by (simp add: poly_def)
  then show ?thesis using assms by (auto simp: holds_poly_def coeff_def)
qed

section \<open>The multiplier\<close>

lemma gadget_poly_len_2: "0 < m \<Longrightarrow> gadget_poly_len 2 m = 2 * m - 1"
  by (simp add: gadget_poly_len_def)

lemma poly_mul_small:
  assumes "length p = m" and "length q = m" and "0 < m"
  obtains r where "poly_mul p q = (Ok r :: ('f::field list, flp_error) outcome)" and "r \<noteq> []" and "length r \<le> 2 * m - 1" and "\<And>x. poly r x = poly p x * poly q x"
proof -
  have ne: "p \<noteq> []" "q \<noteq> []" using assms by auto
  obtain r where r: "poly_mul p q = (Ok r :: ('f list, flp_error) outcome)" "r \<noteq> []" "length r \<le> poly_deg p + poly_deg q + 1"
    "\<forall>x. poly r x = poly p x * poly q x" using poly_mul_correct [OF ne] by blast
  have "length r \<le> 2 * m - 1"
    using r(3) poly_deg_bound [OF ne(1)] poly_deg_bound [OF ne(2)] assms by simp
  with r that show ?thesis by blast
qed

lemma mul_call_poly_direct_correct:
  assumes "length f = m" and "length g = m" and "0 < m" and "2 * m - 1 \<le> n"
  shows "\<exists>p. mul_call_poly_direct (replicate n 0) [f, g] = Ok p \<and> length p = n \<and>
    holds_poly p (2 * m - 1) (\<lambda>x. poly f x * poly g x)"
proof -
  obtain r where r: "poly_mul f g = (Ok r :: ('a list, flp_error) outcome)" "length r \<le> 2 * m - 1"
    "\<And>x. poly r x = poly f x * poly g x" using poly_mul_small [OF assms(1-3)] by metis
  let ?p = "r @ drop (length r) (replicate n 0)"
  have "mul_call_poly_direct (replicate n 0) [f, g] = Ok ?p"
    using r assms(4) by (simp add: mul_call_poly_direct_def)
  moreover have "holds_poly ?p (2 * m - 1) (\<lambda>x. poly f x * poly g x)"
    using r assms(4) by (intro holds_poly_coeffs [of _ r]) (auto simp: nth_append coeff_def)
  ultimately show ?thesis using r(2) assms(4) by auto
qed

context prime_field
begin

lemma mul_call_poly_fft_correct:
  assumes n: "n = 2 ^ d" "d \<le> 20" "n_inv = inverse (of_nat n)" and m: "length f = m" "length g = m" "0 < m" "2 * m - 1 \<le> n"
    and outp: "length outp = n"
  shows "\<exists>p. mul_call_poly_fft F n n_inv outp [f, g] = Ok p \<and> length p = n \<and>
    holds_poly p (2 * m - 1) (\<lambda>x. poly f x * poly g x)"
proof -
  obtain w where w: "froot F d = Some w" using froot_20 [OF n(2)] by blast
  have fg: "f \<noteq> []" "length f \<le> 2 ^ d" "g \<noteq> []" "length g \<le> 2 ^ d" using m n(1) by auto
  obtain r where r: "length r \<le> 2 * m - 1" "\<And>x. poly r x = poly f x * poly g x"
    using poly_mul_small [OF m(1-3)] by metis
  obtain buf where buf: "discrete_fourier_transform F (replicate n 0) f n = Ok buf" "length buf = n"
    "\<And>i. i < n \<Longrightarrow> buf ! i = poly f (w ^ i)"
    using dft_evaluates [OF w n(2) _ fg(1,2), of "replicate n 0"] n(1) by auto
  obtain out1 where out1: "discrete_fourier_transform F outp g n = Ok out1" "length out1 = n"
    "\<And>i. i < n \<Longrightarrow> out1 ! i = poly g (w ^ i)"
    using dft_evaluates [OF w n(2) _ fg(3,4), of outp] n(1) outp by auto
  define buf2 where "buf2 = map (\<lambda>i. buf ! i * out1 ! i) [0..<n]"
  have "length buf2 = 2 ^ d" "\<And>i. i < 2 ^ d \<Longrightarrow> buf2 ! i = poly r (w ^ i)"
    using n(1) by (simp_all add: buf2_def buf out1 r)
  then obtain res where res: "discrete_fourier_transform F out1 buf2 n = Ok res" "length res = n"
    "\<And>i. i < n \<Longrightarrow> discrete_fourier_transform_inv_finish res n n_inv ! i = coeff r i"
    using dft_interpolates [OF w n(2), of out1 buf2 r] r m n out1(2) by auto
  let ?p = "discrete_fourier_transform_inv_finish res n n_inv"
  have "mul_call_poly_fft F n n_inv outp [f, g] = Ok ?p"
    using buf(1) out1(1) res(1) by (simp add: mul_call_poly_fft_def Let_def flip: buf2_def)
  moreover have "holds_poly ?p (2 * m - 1) (\<lambda>x. poly f x * poly g x)"
    using res r m by (intro holds_poly_coeffs [of _ r]) auto
  ultimately show ?thesis using res(2) by auto
qed

end

section \<open>Evaluation of a polynomial\<close>

text \<open>The loops add \<open>c * x ^ i\<close> for the coefficients \<open>c\<close> in turn, \<open>xs\<close> holding the current power.\<close>

lemma add_scaled:
  assumes "n \<le> length outp" and "n \<le> length xs"
  shows "length (fold (\<lambda>j outp. outp[j := outp ! j + c * xs ! j]) [0..<n] outp) = length outp"
    and "fold (\<lambda>j outp. outp[j := outp ! j + c * xs ! j]) [0..<n] outp ! i =
      (if i < n then outp ! i + c * xs ! i else outp ! i :: 'f::field)"
proof -
  show len: "length (fold (\<lambda>j outp. outp[j := outp ! j + c * xs ! j]) js outp) = length outp" for js
    by (induction js arbitrary: outp) simp_all
  show "fold (\<lambda>j outp. outp[j := outp ! j + c * xs ! j]) [0..<n] outp ! i =
      (if i < n then outp ! i + c * xs ! i else outp ! i)"
    using assms by (induction n arbitrary: i) (simp_all add: nth_list_update len)
qed

lemma poly_add_scaled:
  assumes "length xs \<le> length outp"
  shows "poly (fold (\<lambda>j outp. outp[j := outp ! j + c * xs ! j]) [0..<length xs] outp) x =
    poly outp x + c * poly xs x"
proof -
  let ?res = "fold (\<lambda>j outp. outp[j := outp ! j + c * xs ! j]) [0..<length xs] outp"
  have "poly ?res x = (\<Sum>i<length outp. (outp ! i + c * coeff xs i) * x ^ i)"
    unfolding poly_def using assms by (intro sum.cong) (simp_all add: add_scaled coeff_def)
  also have "\<dots> = poly outp x + c * poly xs x"
    by (simp add: poly_coeff [OF assms] sum_distrib_left sum.distrib algebra_simps) (simp add: poly_def)
  finally show ?thesis .
qed

text \<open>The polynomial \<open>p\<close> of the current accumulator after coefficient \<open>k\<close>, in a buffer of length \<open>n\<close>.\<close>

definition eval_acc :: "'f::field list \<Rightarrow> 'f list \<Rightarrow> nat \<Rightarrow> nat \<Rightarrow> 'f list \<Rightarrow> bool" where
  "eval_acc p f n k outp \<longleftrightarrow> length outp = n \<and>
     holds_poly outp (k * (length f - 1) + 1) (\<lambda>x. poly (take (Suc k) p) (poly f x))"

lemma eval_acc_init:
  assumes "p \<noteq> []" and "0 < n"
  shows "eval_acc p f n 0 ((replicate n 0)[0 := p ! 0])"
proof -
  have "poly ((replicate n 0)[0 := p ! 0]) x = p ! 0" for x :: 'a
    using assms poly_zero [of "replicate (n - 1) 0" x] by (cases n) simp_all
  then show ?thesis
    using assms by (cases p) (auto simp: eval_acc_def holds_poly_def nth_list_update)
qed

lemma eval_acc_step:
  assumes acc: "eval_acc p f n k outp" and k: "Suc k < length p"
    and xs: "length xs \<le> n" "holds_poly xs (Suc k * (length f - 1) + 1) (\<lambda>x. poly f x ^ Suc k)"
  shows "eval_acc p f n (Suc k) (fold (\<lambda>j outp. outp[j := outp ! j + p ! Suc k * xs ! j]) [0..<length xs] outp)"
proof -
  let ?res = "fold (\<lambda>j outp. outp[j := outp ! j + p ! Suc k * xs ! j]) [0..<length xs] outp"
  have len: "length outp = n" "length ?res = n" using acc xs(1) by (simp_all add: eval_acc_def add_scaled)
  have "poly ?res x = poly (take (Suc (Suc k)) p) (poly f x)" for x
  proof -
    have "poly outp x = poly (take (Suc k) p) (poly f x)" "poly xs x = poly f x ^ Suc k"
      using acc xs(2) by (simp_all add: eval_acc_def holds_poly_def)
    moreover have "poly (take (Suc (Suc k)) p) y = poly (take (Suc k) p) y + p ! Suc k * y ^ Suc k" for y
      using k by (simp only: take_Suc_conv_app_nth [of "Suc k"] poly_append)
        (simp add: min_def mult.commute mult.left_commute)
    ultimately show ?thesis using poly_add_scaled [of xs outp] xs(1) len(1) by simp
  qed
  moreover have "?res ! i = 0" if "Suc k * (length f - 1) + 1 \<le> i" "i < n" for i
  proof -
    have "outp ! i = 0" using acc that by (simp add: eval_acc_def holds_poly_def)
    moreover have "i < length xs \<Longrightarrow> xs ! i = 0" using xs(2) that by (simp add: holds_poly_def)
    ultimately show ?thesis using xs(1) len(1) by (simp add: add_scaled)
  qed
  ultimately show ?thesis using len by (simp add: eval_acc_def holds_poly_def)
qed

lemma polyeval_direct_loop:
  fixes p f :: "'f::field list"
  assumes f: "f \<noteq> []" and n: "(length p - 1) * (length f - 1) + 1 \<le> n" and k: "k < length p"
    and acc: "eval_acc p f n 0 outp"
  shows "\<exists>outp' xs. for_each (\<lambda>i (outp, x).
       if length outp < length x then Panic
       else let outp = fold (\<lambda>j outp. outp[j := outp ! j + p ! i * x ! j]) [0..<length x] outp
            in if i < length p - 1 then and_then (poly_mul x f) (\<lambda>x. Ok (outp, x)) else Ok (outp, x))
       [1..<Suc k] (outp, f) = (Ok (outp', xs) :: ('f list \<times> 'f list, flp_error) outcome) \<and>
     eval_acc p f n k outp' \<and>
     (k < length p - 1 \<longrightarrow> xs \<noteq> [] \<and> length xs \<le> Suc k * (length f - 1) + 1 \<and> (\<forall>x. poly xs x = poly f x ^ Suc k))"
  using k
proof (induction k)
  case 0
  then show ?case using acc f by (cases f) auto
next
  case (Suc k)
  let ?step = "\<lambda>i (outp, x).
       if length outp < length x then Panic
       else let outp = fold (\<lambda>j outp. outp[j := outp ! j + p ! i * x ! j]) [0..<length x] outp
            in if i < length p - 1 then and_then (poly_mul x f) (\<lambda>x. Ok (outp, x))
               else (Ok (outp, x) :: ('f list \<times> 'f list, flp_error) outcome)"
  obtain out1 xs where IH: "for_each ?step [1..<Suc k] (outp, f) = Ok (out1, xs)" "eval_acc p f n k out1"
    "xs \<noteq> []" "length xs \<le> Suc k * (length f - 1) + 1" "\<And>x. poly xs x = poly f x ^ Suc k"
    using Suc by auto
  have "Suc k * (length f - 1) \<le> (length p - 1) * (length f - 1)" using Suc.prems by (intro mult_le_mono1) simp
  then have xs: "length xs \<le> n" using IH(4) n by simp
  have "holds_poly xs (Suc k * (length f - 1) + 1) (\<lambda>x. poly f x ^ Suc k)"
    using IH(4,5) unfolding holds_poly_def by auto
  note acc' = eval_acc_step [OF IH(2) Suc.prems xs this]
  have len: "length out1 = n" using IH(2) by (simp add: eval_acc_def)
  have split: "[1..<Suc (Suc k)] = [1..<Suc k] @ [Suc k]" by simp
  show ?case
  proof (cases "Suc k < length p - 1")
    case True
    obtain r where r: "poly_mul xs f = (Ok r :: ('f list, flp_error) outcome)" "r \<noteq> []"
      "length r \<le> poly_deg xs + poly_deg f + 1" "\<And>x. poly r x = poly xs x * poly f x"
      using poly_mul_correct [OF IH(3) f] by metis
    have "length r \<le> Suc (Suc k) * (length f - 1) + 1"
      using r(3) IH(4) poly_deg_bound [OF IH(3)] poly_deg_bound [OF f] by simp
    then show ?thesis
      unfolding split using IH(1) xs len acc' True r by (auto simp: for_each_append Let_def IH(5) mult.commute)
  next
    case False
    then show ?thesis
      unfolding split using IH(1) xs len acc' by (auto simp: for_each_append Let_def)
  qed
qed

lemma polyeval_call_poly_direct_correct:
  assumes "p \<noteq> []" and "f \<noteq> []" and "(length p - 1) * (length f - 1) + 1 \<le> n"
  shows "\<exists>q. polyeval_call_poly_direct p (replicate n 0) [f] = Ok q \<and> eval_acc p f n (length p - 1) q"
proof -
  have "Suc (length p - 1) = length p" using assms(1) by simp
  with polyeval_direct_loop [OF assms(2,3) _ eval_acc_init, of "length p - 1"] assms show ?thesis
    unfolding polyeval_call_poly_direct_def nth_Cons_0 by auto
qed

context prime_field
begin

lemma poly_powers:
  fixes f :: "'f list"
  assumes f: "f \<noteq> []"
  shows "\<exists>r. length r \<le> k * (length f - 1) + 1 \<and> (\<forall>x. poly r x = poly f x ^ k)"
proof (induction k)
  case 0
  then show ?case by (intro exI [of _ "[1]"]) simp
next
  case (Suc k)
  then obtain r where r: "length r \<le> k * (length f - 1) + 1" "\<And>x. poly r x = poly f x ^ k" by blast
  show ?case
  proof (cases "r = []")
    case True
    then show ?thesis using r(2) by (intro exI [of _ "[]"]) (simp flip: r(2))
  next
    case False
    obtain q where q: "length q \<le> poly_deg r + poly_deg f + 1" "\<And>x. poly q x = poly r x * poly f x"
      using poly_mul_correct [OF False f] by blast
    have "length q \<le> Suc k * (length f - 1) + 1"
      using q(1) r(1) poly_deg_bound [OF False] poly_deg_bound [OF f] by simp
    with q(2) r(2) show ?thesis by (intro exI [of _ q]) (simp add: mult.commute)
  qed
qed

lemma polyeval_fft_loop:
  assumes w: "froot F d = Some w" and d: "d \<le> 20" "n = 2 ^ d" "n_inv = inverse (of_nat n)" and f: "f \<noteq> []"
    and n: "(length p - 1) * (length f - 1) + 1 \<le> n" and k: "k < length p"
    and acc: "eval_acc p f n 0 outp" and vals: "\<And>i. i < n \<Longrightarrow> vals ! i = poly f (w ^ i)"
    and x0: "length x0 = n" "holds_poly x0 (length f) (poly f)"
  shows "\<exists>outp' x_vals x. for_each (\<lambda>i (outp, x_vals, x).
       let outp = fold (\<lambda>j outp. outp[j := outp ! j + p ! i * x ! j]) [0..<n] outp
       in if i < length p - 1
          then let x_vals = map (\<lambda>j. x_vals ! j * vals ! j) [0..<n]
               in and_then (map_err FftErr (discrete_fourier_transform F x x_vals n)) (\<lambda>x.
                    Ok (outp, x_vals, discrete_fourier_transform_inv_finish x n n_inv))
          else Ok (outp, x_vals, x))
       [1..<Suc k] (outp, vals, x0) = Ok (outp', x_vals, x) \<and>
     eval_acc p f n k outp' \<and>
     (k < length p - 1 \<longrightarrow> (\<forall>i < n. x_vals ! i = poly f (w ^ i) ^ Suc k) \<and> length x = n \<and>
        holds_poly x (Suc k * (length f - 1) + 1) (\<lambda>x. poly f x ^ Suc k))"
  using k
proof (induction k)
  case 0
  have "length f = length f - 1 + 1" using f by (cases f) simp_all
  then show ?case using acc vals x0 by (auto simp: holds_poly_def)
next
  case (Suc k)
  let ?step = "\<lambda>i (outp, x_vals, x).
       let outp = fold (\<lambda>j outp. outp[j := outp ! j + p ! i * x ! j]) [0..<n] outp
       in if i < length p - 1
          then let x_vals = map (\<lambda>j. x_vals ! j * vals ! j) [0..<n]
               in and_then (map_err FftErr (discrete_fourier_transform F x x_vals n)) (\<lambda>x.
                    Ok (outp, x_vals, discrete_fourier_transform_inv_finish x n n_inv))
          else Ok (outp, x_vals, x)"
  obtain out1 xv xs where IH: "for_each ?step [1..<Suc k] (outp, vals, x0) = Ok (out1, xv, xs)" "eval_acc p f n k out1"
    "\<And>i. i < n \<Longrightarrow> xv ! i = poly f (w ^ i) ^ Suc k" "length xs = n"
    "holds_poly xs (Suc k * (length f - 1) + 1) (\<lambda>x. poly f x ^ Suc k)"
    using Suc by auto
  have acc': "eval_acc p f n (Suc k) (fold (\<lambda>j outp. outp[j := outp ! j + p ! Suc k * xs ! j]) [0..<n] out1)"
    using eval_acc_step [OF IH(2) Suc.prems _ IH(5)] IH(4) by simp
  have split: "[1..<Suc (Suc k)] = [1..<Suc k] @ [Suc k]" by simp
  show ?case
  proof (cases "Suc k < length p - 1")
    case True
    define xv' where "xv' = map (\<lambda>j. xv ! j * vals ! j) [0..<n]"
    have xv': "xv' ! i = poly f (w ^ i) ^ Suc (Suc k)" if "i < n" for i
      using that by (simp add: xv'_def IH(3) vals mult.commute)
    obtain r where r: "length r \<le> Suc (Suc k) * (length f - 1) + 1" "\<And>x. poly r x = poly f x ^ Suc (Suc k)"
      using poly_powers [OF f] by blast
    have "Suc (Suc k) * (length f - 1) \<le> (length p - 1) * (length f - 1)" using True by (intro mult_le_mono1) simp
    then have rn: "length r \<le> 2 ^ d" using r(1) n d(2) by simp
    obtain res where res: "discrete_fourier_transform F xs xv' n = Ok res" "length res = n"
      "\<And>i. i < n \<Longrightarrow> discrete_fourier_transform_inv_finish res n n_inv ! i = coeff r i"
      using dft_interpolates [OF w d(1) _ _ _ rn, of xs xv'] IH(4) d(2,3) xv' r(2) by (auto simp: xv'_def)
    have "holds_poly (discrete_fourier_transform_inv_finish res n n_inv)
        (Suc (Suc k) * (length f - 1) + 1) (\<lambda>x. poly f x ^ Suc (Suc k))"
      using res r rn d(2) by (intro holds_poly_coeffs [of _ r]) auto
    then show ?thesis
      unfolding split using IH(1) acc' True res xv'
      by (auto simp: for_each_append Let_def simp del: power_Suc mult_Suc simp flip: xv'_def)
  next
    case False
    then show ?thesis
      unfolding split using IH(1) acc' by (auto simp: for_each_append Let_def)
  qed
qed

lemma polyeval_call_poly_fft_correct:
  assumes d: "n = 2 ^ d" "d \<le> 20" "n_inv = inverse (of_nat n)" and pf: "p \<noteq> []" "f \<noteq> []"
    and n: "(length p - 1) * (length f - 1) + 1 \<le> n" "length f \<le> n"
  shows "\<exists>q. polyeval_call_poly_fft F p n n_inv (replicate n 0) [f] = Ok q \<and> eval_acc p f n (length p - 1) q"
proof -
  obtain w where w: "froot F d = Some w" using froot_20 [OF d(2)] by blast
  obtain vals where vals: "discrete_fourier_transform F (replicate n 0) f n = Ok vals"
    "\<And>i. i < n \<Longrightarrow> vals ! i = poly f (w ^ i)"
    using dft_evaluates [OF w d(2) _ pf(2), of "replicate n 0"] d(1) n(2) by auto
  let ?x0 = "f @ replicate (n - length f) 0"
  have x0: "length ?x0 = n" "holds_poly ?x0 (length f) (poly f)"
    using n(2) by (auto simp: holds_poly_def nth_append poly_append poly_zero)
  have "eval_acc p f n 0 ((replicate n 0)[0 := p ! 0])" by (rule eval_acc_init) (use pf n in auto)
  moreover have "Suc (length p - 1) = length p" using pf(1) by simp
  ultimately show ?thesis
    using polyeval_fft_loop [OF w d(2,1,3) pf(2) n(1) _ _ vals(2) x0, of "length p - 1" "(replicate n 0)[0 := p ! 0]"]
      pf(1) vals(1) n(2)
    unfolding polyeval_call_poly_fft_def nth_Cons_0 by (auto simp: Let_def)
qed

end

section \<open>All gadgets\<close>

text \<open>
  What a gadget of the circuit must satisfy for wire polynomials of length \<open>m\<close>: the constructor's
  choice of transform size, a polynomial without leading zeros, and for a sum of several chunks an
  inner gadget that overwrites its output buffer.  The multiplier does so only above the threshold.
\<close>

fun overwrites :: "nat \<Rightarrow> 'f gadget \<Rightarrow> bool" where
  "overwrites m (Mul n n_inv num_calls) \<longleftrightarrow> FFT_THRESHOLD \<le> m"
| "overwrites m (PolyEval p n n_inv num_calls) \<longleftrightarrow> True"
| "overwrites m (ParallelSum inner chnks) \<longleftrightarrow> True"

fun gadget_wf :: "nat \<Rightarrow> 'f::field gadget \<Rightarrow> bool" where
  "gadget_wf m (Mul n n_inv num_calls) \<longleftrightarrow>
     n = next_power_of_two (gadget_poly_len 2 m) \<and> n \<le> 2 ^ 20 \<and> n_inv = inverse (of_nat n)"
| "gadget_wf m (PolyEval p n n_inv num_calls) \<longleftrightarrow>
     2 \<le> length p \<and> poly_deg p = length p - 1 \<and>
     n = next_power_of_two (gadget_poly_len (poly_deg p) m) \<and> n \<le> 2 ^ 20 \<and> n_inv = inverse (of_nat n)"
| "gadget_wf m (ParallelSum inner chnks) \<longleftrightarrow>
     0 < chnks \<and> gadget_wf m inner \<and> (overwrites m inner \<or> chnks = 1)"

lemma chunks_map: "chunks n (map h xs) = map (map h) (chunks n xs)"
proof (induction n xs rule: chunks.induct)
  case (1 n xs)
  then show ?case by (cases "xs = [] \<or> n = 0") (simp_all add: chunks.simps [of n xs] chunks.simps [of n "map h xs"] take_map drop_map)
qed

lemma holds_poly_add:
  assumes "holds_poly p n f" and "holds_poly q n g" and "length p = length q"
  shows "holds_poly (map2 (+) p q) n (\<lambda>x. f x + g x)"
proof -
  have "poly (map2 (+) p q) x = poly p x + poly q x" for x
    using assms(3) by (simp add: poly_def sum.distrib distrib_right)
  then show ?thesis using assms by (simp add: holds_poly_def)
qed

lemma call_poly_check:
  assumes "length inp = arity g" and "0 < arity g" and "\<forall>f \<in> set inp. length f = m"
    and "length outp = next_power_of_two (gadget_poly_len (degree g) m)"
  shows "gadget_call_poly_check g outp inp = Ok ()"
proof -
  have "length (inp ! i) = m" if "i < length inp" for i using assms(3) that by simp
  then show ?thesis
    using assms by (auto simp: gadget_call_poly_check_def gadget_call_check_def Let_def)
qed

lemma gadget_wf_arity: "gadget_wf m g \<Longrightarrow> 0 < arity g"
  by (induction g) simp_all

lemma power_of_two_small:
  assumes "next_power_of_two k \<le> 2 ^ 20"
  obtains d where "next_power_of_two k = 2 ^ d" and "d \<le> 20"
proof -
  obtain d where d: "next_power_of_two k = 2 ^ d" by (rule next_power_of_two_power)
  with assms have "d \<le> 20" by (simp only: power_increasing_iff one_less_numeral_iff semiring_norm)
  with d that show ?thesis by blast
qed

definition gadget_poly_ok :: "'f::field gadget \<Rightarrow> nat \<Rightarrow> 'f list list \<Rightarrow> 'f list \<Rightarrow> bool" where
  "gadget_poly_ok g m inp p \<longleftrightarrow> length p = next_power_of_two (gadget_poly_len (degree g) m) \<and>
     holds_poly p (gadget_poly_len (degree g) m) (\<lambda>x. gadget_value g (map (\<lambda>f. poly f x) inp))"

context prime_field
begin

lemma mul_call_poly:
  assumes wf: "gadget_wf m (Mul n n_inv c)" and m: "0 < m" and inp: "length inp = 2" "\<forall>f \<in> set inp. length f = m"
    and outp: "length outp = n" "FFT_THRESHOLD \<le> m \<or> outp = replicate n 0"
  shows "\<exists>p. call_poly F (Mul n n_inv c) outp inp = Ok p \<and> gadget_poly_ok (Mul n n_inv c) m inp p"
proof -
  obtain f g where fg: "inp = [f, g]" using inp(1) by (auto simp: length_Suc_conv numeral_2_eq_2)
  have n: "n = next_power_of_two (gadget_poly_len 2 m)" "n \<le> 2 ^ 20" "n_inv = inverse (of_nat n)"
    using wf by simp_all
  obtain d where d: "n = 2 ^ d" "d \<le> 20" using power_of_two_small n by metis
  have len: "length f = m" "length g = m" "2 * m - 1 \<le> n"
    using inp(2) next_power_of_two_ge [of "gadget_poly_len 2 m"] n(1) m by (simp_all add: fg gadget_poly_len_2)
  have "\<exists>p. (if length f \<ge> FFT_THRESHOLD then mul_call_poly_fft F n n_inv outp inp else mul_call_poly_direct outp inp) = Ok p \<and>
      length p = n \<and> holds_poly p (2 * m - 1) (\<lambda>x. poly f x * poly g x)"
    using mul_call_poly_fft_correct [OF d n(3) len(1,2) m len(3) outp(1)]
      mul_call_poly_direct_correct [OF len(1,2) m len(3)] outp(2) len(1) by (auto simp: fg)
  then show ?thesis
    using call_poly_check [of inp "Mul n n_inv c" m outp] inp outp(1) n(1) m
    by (auto simp: fg gadget_poly_ok_def gadget_poly_len_2)
qed

lemma polyeval_call_poly:
  assumes wf: "gadget_wf m (PolyEval p n n_inv c)" and m: "0 < m" and inp: "length inp = 1" "\<forall>f \<in> set inp. length f = m"
    and outp: "length outp = n"
  shows "\<exists>q. call_poly F (PolyEval p n n_inv c) outp inp = Ok q \<and> gadget_poly_ok (PolyEval p n n_inv c) m inp q"
proof -
  obtain f where f: "inp = [f]" using inp(1) by (auto simp: length_Suc_conv)
  have n: "n = next_power_of_two (gadget_poly_len (poly_deg p) m)" "n \<le> 2 ^ 20" "n_inv = inverse (of_nat n)"
    "2 \<le> length p" "poly_deg p = length p - 1"
    using wf unfolding gadget_wf.simps by blast+
  obtain d where d: "n = 2 ^ d" "d \<le> 20" using power_of_two_small n by metis
  have len: "length f = m" "f \<noteq> []" "p \<noteq> []" using inp(2) m n(4) by (auto simp: f)
  have big: "(length p - 1) * (length f - 1) + 1 \<le> n"
    using next_power_of_two_ge [of "gadget_poly_len (poly_deg p) m"] n(1,5) by (simp add: gadget_poly_len_def len(1))
  have "length f - 1 \<le> (length p - 1) * (length f - 1)" using n(4) by (cases "length p - 1") simp_all
  with big have fn: "length f \<le> n" by linarith
  have "map (\<lambda>_. 0 :: 'f) outp = replicate n 0" using outp by (simp add: map_replicate_const)
  moreover have "gadget_call_poly_check (PolyEval p n n_inv c) outp inp = Ok ()"
    using inp outp n(1) by (intro call_poly_check) simp_all
  ultimately have call: "call_poly F (PolyEval p n n_inv c) outp inp =
      (if length f \<ge> FFT_THRESHOLD then polyeval_call_poly_fft F p n n_inv (replicate n 0) [f]
       else polyeval_call_poly_direct p (replicate n 0) [f])"
    by (simp add: f Let_def)
  have "\<exists>q. call_poly F (PolyEval p n n_inv c) outp inp = Ok q \<and> eval_acc p f n (length p - 1) q"
    unfolding call using polyeval_call_poly_fft_correct [OF d n(3) len(3,2) big fn]
      polyeval_call_poly_direct_correct [OF len(3,2) big] by auto
  then show ?thesis
    using n(4,5,1) len(1) by (auto simp: f gadget_poly_ok_def eval_acc_def gadget_poly_len_def simp del: call_poly.simps)
qed

lemma parallel_sum_loop:
  assumes inner: "\<And>outp. length outp = n \<Longrightarrow> fresh outp \<Longrightarrow> \<forall>c \<in> set cs. \<exists>p. call_poly F g outp c = Ok p \<and> gadget_poly_ok g m c p"
    and n: "n = next_power_of_two (gadget_poly_len (degree g) m)"
    and acc: "length acc = n" "holds_poly acc (gadget_poly_len (degree g) m) h"
    and partial: "length partial = n" "fresh partial" and again: "(\<forall>outp. fresh outp) \<or> length cs \<le> 1"
  shows "\<exists>res partial'. for_each (\<lambda>chunk (outp, partial_outp).
      and_then (call_poly F g partial_outp chunk) (\<lambda>partial_outp.
        if length partial_outp < length outp then Panic
        else Ok (map2 (+) outp partial_outp, partial_outp))) cs (acc, partial) = Ok (res, partial') \<and>
    length res = n \<and> holds_poly res (gadget_poly_len (degree g) m)
      (\<lambda>x. h x + sum_list (map (\<lambda>c. gadget_value g (map (\<lambda>f. poly f x) c)) cs))"
  using inner acc partial again
proof (induction cs arbitrary: acc partial h)
  case (Cons c cs)
  obtain p where p: "call_poly F g partial c = Ok p" "gadget_poly_ok g m c p"
    using Cons.prems(1) [OF Cons.prems(4,5)] by auto
  have len: "length p = n" using p(2) n by (simp add: gadget_poly_ok_def)
  define h' where "h' = (\<lambda>x. h x + gadget_value g (map (\<lambda>f. poly f x) c))"
  have acc': "length (map2 (+) acc p) = n" "holds_poly (map2 (+) acc p) (gadget_poly_len (degree g) m) h'"
    using p(2) Cons.prems(2,3) len holds_poly_add [of acc _ h p] by (simp_all add: gadget_poly_ok_def h'_def)
  have step: "for_each (\<lambda>chunk (outp, partial_outp).
      and_then (call_poly F g partial_outp chunk) (\<lambda>partial_outp.
        if length partial_outp < length outp then Panic
        else Ok (map2 (+) outp partial_outp, partial_outp))) (c # cs) (acc, partial) =
    for_each (\<lambda>chunk (outp, partial_outp).
      and_then (call_poly F g partial_outp chunk) (\<lambda>partial_outp.
        if length partial_outp < length outp then Panic
        else Ok (map2 (+) outp partial_outp, partial_outp))) cs (map2 (+) acc p, p)"
    using p(1) len Cons.prems(2) by simp
  show ?case
  proof (cases "cs = []")
    case True
    then show ?thesis unfolding step using acc' by (simp add: h'_def)
  next
    case False
    then have all: "\<And>outp. fresh outp" using Cons.prems(6) by auto
    have "\<forall>c \<in> set cs. \<exists>p. call_poly F g outp c = Ok p \<and> gadget_poly_ok g m c p" if "length outp = n" "fresh outp" for outp
      using Cons.prems(1) [OF that] by simp
    from Cons.IH [OF this acc' len all] show ?thesis
      unfolding step using all by (simp add: h'_def add.assoc)
  qed
qed simp

theorem call_poly_correct:
  assumes "gadget_wf m g" and "0 < m" and "length inp = arity g" and "\<forall>f \<in> set inp. length f = m"
    and "length outp = next_power_of_two (gadget_poly_len (degree g) m)"
    and "overwrites m g \<or> outp = replicate (length outp) 0"
  shows "\<exists>p. call_poly F g outp inp = Ok p \<and> gadget_poly_ok g m inp p"
  using assms
proof (induction g arbitrary: inp outp)
  case (Mul n n_inv c)
  then show ?case by (intro mul_call_poly) auto
next
  case (PolyEval p n n_inv c)
  then show ?case by (intro polyeval_call_poly) auto
next
  case (ParallelSum g k)
  let ?n = "next_power_of_two (gadget_poly_len (degree g) m)" and ?cs = "chunks (arity g) inp"
  have wf: "gadget_wf m g" "0 < k" "overwrites m g \<or> k = 1" using ParallelSum.prems by simp_all
  have len: "length ?cs = k" "\<And>c. c \<in> set ?cs \<Longrightarrow> length c = arity g"
    using ParallelSum.prems(3) gadget_wf_arity [OF wf(1)] by (auto intro: length_chunks chunks_lengths)
  have mem: "\<forall>f \<in> set c. length f = m" if "c \<in> set ?cs" for c
    using ParallelSum.prems(4) that concat_chunks [OF gadget_wf_arity [OF wf(1)], of inp] by (metis UN_I set_concat)
  define fresh where "fresh outp \<longleftrightarrow> overwrites m g \<or> outp = replicate (length outp) 0" for outp :: "'f list"
  have inner: "\<forall>c \<in> set ?cs. \<exists>p. call_poly F g outp c = Ok p \<and> gadget_poly_ok g m c p"
    if "length outp = ?n" "fresh outp" for outp
    using ParallelSum.IH [OF wf(1) \<open>0 < m\<close> len(2) mem that(1)] that(2) by (auto simp: fresh_def)
  have start: "holds_poly (map (\<lambda>_. 0) outp) (gadget_poly_len (degree g) m) (\<lambda>_. 0)"
    by (simp add: holds_poly_def poly_zero)
  have "(\<forall>outp. fresh outp) \<or> length ?cs \<le> 1" using wf(3) len(1) by (auto simp: fresh_def)
  from parallel_sum_loop [OF inner refl _ start _ _ this, of "replicate (length outp) 0"] ParallelSum.prems(5)
  obtain res partial' where res: "for_each (\<lambda>chunk (outp, partial_outp).
      and_then (call_poly F g partial_outp chunk) (\<lambda>partial_outp.
        if length partial_outp < length outp then Panic
        else Ok (map2 (+) outp partial_outp, partial_outp))) ?cs
      (map (\<lambda>_. 0) outp, replicate (length outp) 0) = Ok (res, partial')" "length res = ?n"
    "holds_poly res (gadget_poly_len (degree g) m) (\<lambda>x. sum_list (map (\<lambda>c. gadget_value g (map (\<lambda>f. poly f x) c)) ?cs))"
    by (auto simp: fresh_def)
  have "gadget_call_poly_check (ParallelSum g k) outp inp = Ok ()"
    using ParallelSum.prems wf(2) gadget_wf_arity [OF wf(1)] by (intro call_poly_check) simp_all
  then show ?case
    using res by (simp add: gadget_poly_ok_def chunks_map comp_def)
qed

end

section \<open>A buffer that is not cleared\<close>

section \<open>Properties\<close>




text \<open>
  C30. A defect of the code, shown by a computed case: \<open>ParallelSum::call_poly\<close> hands the buffer of one chunk to the next without
  clearing it, and the direct multiplication of \<open>Mul\<close> writes only the coefficients up to the degree of the product, so that
  coefficients of an earlier chunk remain when a later product has a lower degree: the polynomial it returns takes the value
  three at one, where the gadget itself gives two.
\<close>

theorem parallel_sum_stale:
  "\<exists>p. call_poly Field64 (ParallelSum (Mul 4 (inverse 4) 1) 2) [0, 0, 0, 0] [[0, 1], [0, 1], [1, 0], [1, 0]] = Ok p \<and>
    gadget_call (ParallelSum (Mul 4 (inverse 4) 1) 2) [1, 1, 1, 1] = Ok (2 :: field64) \<and> poly_eval p 1 = 3"
proof -
  have n: "next_power_of_two 3 = 4" by code_simp
  have c: "chunks 2 [[0, 1], [0, 1], [1, 0], [1, 0]] = [[[0, 1], [0, 1]], [[1, 0], [1, 0 :: field64]]]"
    "chunks 2 [1, 1, 1, 1] = [[1, 1], [1, 1 :: field64]]"
    by (simp_all add: chunks_step)
  have m1: "poly_mul [0, 1] [0, 1] = (Ok [0, 0, 1 :: field64] :: (_, flp_error) outcome)"
    by (simp add: poly_mul_def poly_deg_def eval_nat_numeral)
  have m2: "poly_mul [1, 0] [1, 0] = (Ok [1 :: field64] :: (_, flp_error) outcome)"
    by (simp add: poly_mul_def poly_deg_def eval_nat_numeral)
  have i1: "call_poly Field64 (Mul 4 (inverse 4) 1) [0, 0, 0, 0] [[0, 1], [0, 1]] = Ok [0, 0, 1, 0]"
    by (simp add: gadget_call_poly_check_def gadget_call_check_def gadget_poly_len_def n FFT_THRESHOLD_def mul_call_poly_direct_def m1)
  have i2: "call_poly Field64 (Mul 4 (inverse 4) 1) [0, 0, 1, 0] [[1, 0], [1, 0]] = Ok [1, 0, 1, 0]"
    by (simp add: gadget_call_poly_check_def gadget_call_check_def gadget_poly_len_def n FFT_THRESHOLD_def mul_call_poly_direct_def m2)
  have a: "call_poly Field64 (ParallelSum (Mul 4 (inverse 4) 1) 2) [0, 0, 0, 0] [[0, 1], [0, 1], [1, 0], [1, 0]] = Ok [1, 0, 2, 0]"
    using i1 i2 by (simp add: c gadget_call_poly_check_def gadget_call_check_def gadget_poly_len_def n del: call_poly.simps(1))
  have b: "gadget_call (ParallelSum (Mul 4 (inverse 4) 1) 2) [1, 1, 1, 1] = Ok (2 :: field64)"
    by (simp add: c gadget_call_check_def)
  have c: "poly_eval [1, 0, 2, 0] 1 = (3 :: field64)" by simp
  show ?thesis by (rule exI, rule conjI [OF a], rule conjI [OF b c])
qed


end
