(* ===== verification/VdafError.thy ===== *)
theory VdafError
  imports Gadgets
begin

text \<open>
  The error types of \<^verbatim>\<open>src/idpf.rs\<close>, \<^verbatim>\<open>src/vidpf.rs\<close> and \<^verbatim>\<open>src/vdaf.rs\<close>, which refer to one another, and
  the version byte of \<^verbatim>\<open>src/vdaf.rs\<close>.  Messages inside error values are not modelled.
\<close>

datatype idpf_error = MismatchedLevel | IdpfInvalidParameter

datatype vidpf_error = SameKeyId | LevelTooBig | IndexLevel | InvalidWeightLength | VidpfGetRandom

datatype vdaf_error =
    Uncategorized
  | VdafField field_error
  | VdafIo
  | VdafFlp flp_error
  | VdafPrng
  | VdafGetRandom
  | VdafIdpf idpf_error
  | VdafVidpf vidpf_error
  | VdafOther

definition VERSION :: byte where
  "VERSION = 8"

end
