(* ===== verification/Xof.thy ===== *)
theory Xof
  imports Codec
begin

text \<open>
  Extendable output functions, \<^verbatim>\<open>src/vdaf/xof.rs\<close>.  TurboSHAKE128, AES-128, AES-128 in counter mode and
  HMAC-SHA256 are third-party code: they are the components of the record \<open>primitives\<close>, a parameter of the
  model.  The three implementations of the trait \<open>Xof\<close> are dictionaries over it.  A seed stream is a source
  of bytes read by \<open>fill_bytes\<close>; the locale \<open>seed_stream\<close> says that it hands out consecutive pieces of one
  infinite sequence, however the reads are split, and is proved for every stream of the module.
\<close>

section \<open>Third-party primitives\<close>

text \<open>
  The output of TurboSHAKE128 for a domain byte and an absorbed message, as an infinite sequence; AES-128
  on a block, by the position in the resulting block; the key stream of \<open>Ctr64BE<Aes128>\<close>; HMAC-SHA256.
\<close>

record primitives =
  turboshake128 :: "byte \<Rightarrow> bytes \<Rightarrow> nat \<Rightarrow> byte"
  aes128_encrypt :: "bytes \<Rightarrow> bytes \<Rightarrow> nat \<Rightarrow> byte"
  aes128_ctr64be :: "bytes \<Rightarrow> bytes \<Rightarrow> nat \<Rightarrow> byte"
  hmac_sha256 :: "bytes \<Rightarrow> bytes \<Rightarrow> bytes"

section \<open>Seeds\<close>

type_synonym seed = bytes

definition seed_encode :: "seed encoder" where
  "seed_encode s bs = Ok (bs @ s)"

definition seed_decode :: "nat \<Rightarrow> seed decoder" where
  "seed_decode seed_size c = read_exact seed_size c"

section \<open>The trait\<close>

text \<open>
  \<open>fill\<close> is \<open>RngCore::fill_bytes\<close>.  \<open>init\<close> panics when the domain separation tag is longer than 255 bytes.
\<close>

type_synonym ('s, 'e) rng = "nat \<Rightarrow> 's \<Rightarrow> (bytes \<times> 's, 'e) outcome"

record ('x, 's, 'e) xof =
  SEED_SIZE :: nat
  init :: "bytes \<Rightarrow> bytes \<Rightarrow> ('x, 'e) outcome"
  update :: "bytes \<Rightarrow> 'x \<Rightarrow> 'x"
  into_seed_stream :: "'x \<Rightarrow> 's"
  fill_bytes :: "('s, 'e) rng"

definition into_seed :: "('x, 's, 'e) xof \<Rightarrow> 'x \<Rightarrow> (seed, 'e) outcome" where
  "into_seed P x = and_then (fill_bytes P (SEED_SIZE P) (into_seed_stream P x)) (\<lambda>(new_seed, _). Ok new_seed)"

definition xof_seed_stream :: "('x, 's, 'e) xof \<Rightarrow> seed \<Rightarrow> bytes \<Rightarrow> bytes \<Rightarrow> ('s, 'e) outcome" where
  "xof_seed_stream P seed dst bindr =
     and_then (init P seed dst) (\<lambda>x. Ok (into_seed_stream P (update P bindr x)))"

text \<open>The one-byte length of the tag that precedes it in every hash input.\<close>

definition dst_prefix :: "bytes \<Rightarrow> (bytes, 'e) outcome" where
  "dst_prefix dst = (if length dst < 256 then Ok (of_nat (length dst) # dst) else Panic)"

section \<open>Streams\<close>

text \<open>A reader of a fixed infinite sequence.\<close>

datatype reader = Reader (contents: "nat \<Rightarrow> byte") (offset: nat)

definition reader_read :: "(reader, 'e) rng" where
  "reader_read n r = Ok (map (contents r) [offset r..<offset r + n], Reader (contents r) (offset r + n))"

definition SeedStreamTurboShake128_fill_bytes :: "(reader, 'e) rng" where
  "SeedStreamTurboShake128_fill_bytes n r = reader_read n r"

definition SeedStreamAes128_new :: "primitives \<Rightarrow> bytes \<Rightarrow> bytes \<Rightarrow> reader" where
  "SeedStreamAes128_new prim key iv = Reader (aes128_ctr64be prim key iv) 0"

text \<open>\<open>fill\<close> clears the buffer and applies the key stream to it.\<close>

definition SeedStreamAes128_fill :: "(reader, 'e) rng" where
  "SeedStreamAes128_fill n r =
     and_then (reader_read n r) (\<lambda>(keystream, r). Ok (map2 (XOR) (replicate n 0) keystream, r))"

record fixed_key_stream =
  cipher_key :: bytes
  base_block :: bytes
  length_consumed :: u64

definition sigma :: "bytes \<Rightarrow> bytes" where
  "sigma block = drop 8 block @ map2 (XOR) (drop 8 block) (take 8 block)"

definition hash_block :: "primitives \<Rightarrow> bytes \<Rightarrow> bytes \<Rightarrow> bytes" where
  "hash_block prim key block =
     (let s = sigma block in map (\<lambda>i. aes128_encrypt prim key s i XOR s ! i) [0..<16])"

text \<open>The block for a counter: the counter's eight bytes are added to the front of the base block.\<close>

definition counter_block :: "bytes \<Rightarrow> nat \<Rightarrow> bytes" where
  "counter_block base counter = map2 (XOR) (take 8 base) (le_bytes 8 counter) @ drop 8 base"

definition fill_block :: "primitives \<Rightarrow> fixed_key_stream \<Rightarrow> nat \<Rightarrow> nat \<Rightarrow> bytes \<times> nat \<Rightarrow> bytes \<times> nat" where
  "fill_block prim s n block_counter = (\<lambda>(buf, offset).
     let block = hash_block prim (cipher_key s) (counter_block (base_block s) block_counter);
         read = min (16 - offset) (n - length buf)
     in (buf @ slice block offset (offset + read), 0))"

text \<open>Overflow of the 64-bit counter of consumed bytes panics.\<close>

definition SeedStreamFixedKeyAes128_fill :: "primitives \<Rightarrow> (fixed_key_stream, 'e) rng" where
  "SeedStreamFixedKeyAes128_fill prim n s =
     (let consumed = unat (length_consumed s);
          next_length_consumed = consumed + n
      in if 2 ^ 64 \<le> next_length_consumed + 15 then Panic
         else Ok (fst (fold (fill_block prim s n) [consumed div 16..<(next_length_consumed + 15) div 16] ([], consumed mod 16)),
                  s\<lparr>length_consumed := of_nat next_length_consumed\<rparr>))"

section \<open>The implementations\<close>

datatype turboshake128_state = TurboShake128 (domain_byte: byte) (absorbed: bytes)

definition XOF_TURBO_SHAKE_128_DOMAIN_SEPARATION :: byte where
  "XOF_TURBO_SHAKE_128_DOMAIN_SEPARATION = 1"

definition XOF_FIXED_KEY_AES_128_DOMAIN_SEPARATION :: byte where
  "XOF_FIXED_KEY_AES_128_DOMAIN_SEPARATION = 2"

definition turboshake_update :: "bytes \<Rightarrow> turboshake128_state \<Rightarrow> turboshake128_state" where
  "turboshake_update data x = TurboShake128 (domain_byte x) (absorbed x @ data)"

definition finalize_xof :: "primitives \<Rightarrow> turboshake128_state \<Rightarrow> reader" where
  "finalize_xof prim x = Reader (turboshake128 prim (domain_byte x) (absorbed x)) 0"

definition XofTurboShake128 :: "primitives \<Rightarrow> (turboshake128_state, reader, 'e) xof" where
  "XofTurboShake128 prim = \<lparr>
     SEED_SIZE = 16,
     init = (\<lambda>seed_bytes dst. and_then (dst_prefix dst) (\<lambda>p.
       Ok (turboshake_update seed_bytes
            (turboshake_update p (TurboShake128 XOF_TURBO_SHAKE_128_DOMAIN_SEPARATION []))))),
     update = turboshake_update,
     into_seed_stream = finalize_xof prim,
     fill_bytes = SeedStreamTurboShake128_fill_bytes \<rparr>"

definition XofFixedKeyAes128 :: "primitives \<Rightarrow> (turboshake128_state \<times> bytes, fixed_key_stream, 'e) xof" where
  "XofFixedKeyAes128 prim = \<lparr>
     SEED_SIZE = 16,
     init = (\<lambda>seed_bytes dst. and_then (dst_prefix dst) (\<lambda>p.
       Ok (turboshake_update p (TurboShake128 2 []), seed_bytes))),
     update = (\<lambda>data (fixed_key_deriver, base). (turboshake_update data fixed_key_deriver, base)),
     into_seed_stream = (\<lambda>(fixed_key_deriver, base).
       let r = finalize_xof prim fixed_key_deriver
       in \<lparr>cipher_key = map (contents r) [offset r..<offset r + 16], base_block = base, length_consumed = 0\<rparr>),
     fill_bytes = SeedStreamFixedKeyAes128_fill prim \<rparr>"

text \<open>The factory for streams with one fixed key and several seeds.\<close>

definition XofFixedKeyAes128Key_new :: "primitives \<Rightarrow> bytes \<Rightarrow> bytes \<Rightarrow> (bytes, 'e) outcome" where
  "XofFixedKeyAes128Key_new prim dst bindr =
     and_then (dst_prefix dst) (\<lambda>p.
       let r = finalize_xof prim
                 (turboshake_update bindr
                   (turboshake_update p (TurboShake128 XOF_FIXED_KEY_AES_128_DOMAIN_SEPARATION [])))
       in Ok (map (contents r) [offset r..<offset r + 16]))"

definition with_seed :: "bytes \<Rightarrow> seed \<Rightarrow> fixed_key_stream" where
  "with_seed key seed = \<lparr>cipher_key = key, base_block = seed, length_consumed = 0\<rparr>"

definition XofHmacSha256Aes128 :: "primitives \<Rightarrow> (bytes \<times> bytes, reader, 'e) xof" where
  "XofHmacSha256Aes128 prim = \<lparr>
     SEED_SIZE = 32,
     init = (\<lambda>seed_bytes dst. and_then (dst_prefix dst) (\<lambda>p. Ok (seed_bytes, p))),
     update = (\<lambda>data (key, msg). (key, msg @ data)),
     into_seed_stream = (\<lambda>(key, msg).
       let tag = hmac_sha256 prim key msg
       in SeedStreamAes128_new prim (take 16 tag) (drop 16 tag)),
     fill_bytes = SeedStreamAes128_fill \<rparr>"

section \<open>The contract of a stream\<close>

text \<open>
  \<open>remaining s\<close> is what the stream will still hand out and \<open>avail s n\<close> says that \<open>n\<close> more bytes can be read.
\<close>

locale seed_stream =
  fixes fill :: "('s, 'e) rng"
    and remaining :: "'s \<Rightarrow> nat \<Rightarrow> byte"
    and avail :: "'s \<Rightarrow> nat \<Rightarrow> bool"
  assumes avail_le: "avail s n \<Longrightarrow> m \<le> n \<Longrightarrow> avail s m"
    and fill: "avail s n \<Longrightarrow>
      \<exists>s'. fill n s = Ok (map (remaining s) [0..<n], s') \<and>
        (\<forall>k. remaining s' k = remaining s (n + k)) \<and> (\<forall>m. avail s' m \<longleftrightarrow> avail s (n + m))"
begin

text \<open>Two reads give what one read of the total length gives.\<close>

lemma fill_split:
  assumes "avail s (m + n)"
  shows "\<exists>s' s''. fill m s = Ok (map (remaining s) [0..<m], s') \<and>
    fill n s' = Ok (map (\<lambda>k. remaining s (m + k)) [0..<n], s'')"
proof -
  obtain s' where s': "fill m s = Ok (map (remaining s) [0..<m], s')"
    "\<And>k. remaining s' k = remaining s (m + k)" "avail s' n"
    using fill [OF avail_le [OF assms le_add1]] assms by auto
  with fill [OF s'(3)] show ?thesis by auto
qed

end

definition reader_remaining :: "reader \<Rightarrow> nat \<Rightarrow> byte" where
  "reader_remaining r k = contents r (offset r + k)"

lemma map_shift_upt: "map f [m..<m + n] = map (\<lambda>k. f (m + k)) [0..<n]"
  by (rule nth_equalityI) simp_all

interpretation turboshake: seed_stream SeedStreamTurboShake128_fill_bytes reader_remaining "\<lambda>_ _. True"
  by unfold_locales
    (auto simp: SeedStreamTurboShake128_fill_bytes_def reader_read_def reader_remaining_def map_shift_upt add.assoc)

lemma map2_xor_zeros: "length xs = n \<Longrightarrow> map2 (XOR) (replicate n 0) xs = (xs :: bytes)"
  by (induction xs arbitrary: n) auto

interpretation aes_ctr: seed_stream SeedStreamAes128_fill reader_remaining "\<lambda>_ _. True"
  by unfold_locales
    (auto simp: SeedStreamAes128_fill_def reader_read_def reader_remaining_def map_shift_upt add.assoc map2_xor_zeros)

text \<open>The key stream of the fixed-key construction: byte \<open>i\<close> is byte \<open>i mod 16\<close> of block \<open>i div 16\<close>.\<close>

definition keystream :: "primitives \<Rightarrow> fixed_key_stream \<Rightarrow> nat \<Rightarrow> byte" where
  "keystream prim s i = hash_block prim (cipher_key s) (counter_block (base_block s) (i div 16)) ! (i mod 16)"

definition fixed_key_remaining :: "primitives \<Rightarrow> fixed_key_stream \<Rightarrow> nat \<Rightarrow> byte" where
  "fixed_key_remaining prim s k = keystream prim s (unat (length_consumed s) + k)"

definition fixed_key_avail :: "fixed_key_stream \<Rightarrow> nat \<Rightarrow> bool" where
  "fixed_key_avail s n \<longleftrightarrow> unat (length_consumed s) + n + 15 < 2 ^ 64"


lemma length_hash_block [simp]: "length (hash_block prim key block) = 16"
  by (simp add: hash_block_def Let_def)

lemma block_slice:
  assumes "p div 16 = b" and "p + read \<le> 16 * Suc b"
  shows "slice (hash_block prim (cipher_key s) (counter_block (base_block s) b)) (p mod 16) (p mod 16 + read) =
    map (keystream prim s) [p..<p + read]"
proof (rule nth_equalityI)
  have "p = 16 * b + p mod 16" using assms(1) mult_div_mod_eq [of 16 p] by simp
  then have fits: "p mod 16 + read \<le> 16" using assms(2) by simp
  then show len: "length (slice (hash_block prim (cipher_key s) (counter_block (base_block s) b)) (p mod 16) (p mod 16 + read)) =
      length (map (keystream prim s) [p..<p + read])"
    by (simp add: slice_def)
  fix i
  assume "i < length (slice (hash_block prim (cipher_key s) (counter_block (base_block s) b)) (p mod 16) (p mod 16 + read))"
  with len have i: "i < read" by simp
  have "p + i = 16 * b + (p mod 16 + i)" using assms(1) mult_div_mod_eq [of 16 p] by simp
  moreover have "p mod 16 + i < 16" using fits i by linarith
  ultimately have "(p + i) div 16 = b" "(p + i) mod 16 = p mod 16 + i" by (simp_all only: div_mult_self4 mod_mult_self4 div_less mod_less)
  then show "slice (hash_block prim (cipher_key s) (counter_block (base_block s) b)) (p mod 16) (p mod 16 + read) ! i =
      map (keystream prim s) [p..<p + read] ! i"
    using i fits by (simp add: slice_def keystream_def)
qed

lemma fill_blocks:
  assumes "c div 16 + k \<le> (c + n + 15) div 16"
  shows "fold (fill_block prim s n) [c div 16..<c div 16 + k] ([], c mod 16) =
    (map (keystream prim s) [c..<max c (min (c + n) (16 * (c div 16 + k)))], if k = 0 then c mod 16 else 0)"
  using assms
proof (induction k)
  case (Suc k)
  define b where "b = c div 16 + k"
  define p where "p = max c (min (c + n) (16 * b))"
  have less: "16 * b < c + n" using Suc.prems by (simp add: b_def)
  have p: "p = (if k = 0 then c else 16 * b)" using less by (auto simp: p_def b_def)
  have pb: "p div 16 = b" "p mod 16 = (if k = 0 then c mod 16 else 0)" "c \<le> p" "p \<le> c + n" "p < 16 * Suc b"
    unfolding p using less by (auto simp: b_def)
  define r where "r = min (16 - p mod 16) (n - (p - c))"
  have r: "p + r \<le> 16 * Suc b" "p + r = max c (min (c + n) (16 * Suc b))"
    using pb mult_div_mod_eq [of 16 p] by (auto simp: r_def)
  have "fill_block prim s n b (map (keystream prim s) [c..<p], p mod 16) = (map (keystream prim s) [c..<p + r], 0)"
    using block_slice [OF pb(1) r(1), of prim s] pb(3) upt_add_eq_append [OF pb(3), of r]
    by (simp add: fill_block_def Let_def r_def)
  moreover have "fold (fill_block prim s n) [c div 16..<c div 16 + k] ([], c mod 16) = (map (keystream prim s) [c..<p], p mod 16)"
    using Suc pb(2) by (simp add: p_def b_def)
  ultimately show ?case unfolding r(2) by (simp add: b_def)
qed simp

lemma fixed_key_fill:
  assumes "fixed_key_avail s n"
  shows "SeedStreamFixedKeyAes128_fill prim n s =
    Ok (map (fixed_key_remaining prim s) [0..<n], s\<lparr>length_consumed := of_nat (unat (length_consumed s) + n)\<rparr>)"
proof -
  let ?c = "unat (length_consumed s)"
  have "?c div 16 \<le> (?c + n + 15) div 16" by (intro div_le_mono) simp
  then obtain k where k: "(?c + n + 15) div 16 = ?c div 16 + k" by (auto dest: le_Suc_ex)
  have "?c + n \<le> 16 * ((?c + n + 15) div 16)" by simp
  then have "max ?c (min (?c + n) (16 * (?c div 16 + k))) = ?c + n" by (simp add: k)
  then show ?thesis
    using fill_blocks [of ?c k n prim s] assms
    by (simp add: SeedStreamFixedKeyAes128_fill_def fixed_key_avail_def Let_def k map_shift_upt fixed_key_remaining_def)
qed

interpretation fixed_key: seed_stream "SeedStreamFixedKeyAes128_fill prim" "fixed_key_remaining prim" fixed_key_avail
  for prim
proof unfold_locales
  show "fixed_key_avail s n \<Longrightarrow> m \<le> n \<Longrightarrow> fixed_key_avail s m" for s m n
    by (simp add: fixed_key_avail_def)
  show "\<exists>s'. SeedStreamFixedKeyAes128_fill prim n s = Ok (map (fixed_key_remaining prim s) [0..<n], s') \<and>
      (\<forall>k. fixed_key_remaining prim s' k = fixed_key_remaining prim s (n + k)) \<and>
      (\<forall>m. fixed_key_avail s' m \<longleftrightarrow> fixed_key_avail s (n + m))" if "fixed_key_avail s n" for s n
  proof -
    have "unat (length_consumed s) + n < 2 ^ 64" using that by (simp add: fixed_key_avail_def)
    then have "unat (of_nat (unat (length_consumed s) + n) :: u64) = unat (length_consumed s) + n"
      by (simp add: unat_of_nat take_bit_eq_mod del: of_nat_add)
    then show ?thesis
      by (intro exI [of _ "s\<lparr>length_consumed := of_nat (unat (length_consumed s) + n)\<rparr>"])
        (simp add: fixed_key_fill [OF that] fixed_key_remaining_def fixed_key_avail_def keystream_def add.assoc del: of_nat_add)
  qed
qed

section \<open>Properties\<close>

text \<open>
  Reading the fixed-key stream in two pieces of any lengths is reading it in one: the bytes left over of a block are not
  lost and the same state is reached, up to the length at which the code panics.
\<close>

theorem fixed_key_read_split:
  assumes "unat (length_consumed s) + m + n + 15 < 2 ^ 64"
  shows "\<exists>s' s'' a b. SeedStreamFixedKeyAes128_fill prim m s = (Ok (a, s') :: (_, 'e) outcome) \<and>
    SeedStreamFixedKeyAes128_fill prim n s' = (Ok (b, s'') :: (_, 'e) outcome) \<and>
    SeedStreamFixedKeyAes128_fill prim (m + n) s = (Ok (a @ b, s'') :: (_, 'e) outcome) \<and> length a = m \<and> length b = n"
proof -
  let ?s' = "s\<lparr>length_consumed := of_nat (unat (length_consumed s) + m)\<rparr>"
  have "unat (of_nat (unat (length_consumed s) + m) :: u64) = unat (length_consumed s) + m"
    using assms by (simp add: unat_of_nat take_bit_nat_eq_self del: of_nat_add)
  then have s': "unat (length_consumed ?s') = unat (length_consumed s) + m" by simp
  then have avail: "fixed_key_avail s m" "fixed_key_avail ?s' n" "fixed_key_avail s (m + n)"
    using assms by (simp_all add: fixed_key_avail_def)
  have "map (fixed_key_remaining prim s) [0..<m + n] =
      map (fixed_key_remaining prim s) [0..<m] @ map (fixed_key_remaining prim ?s') [0..<n]"
  proof (rule nth_equalityI)
    fix i
    assume "i < length (map (fixed_key_remaining prim s) [0..<m + n])"
    then show "map (fixed_key_remaining prim s) [0..<m + n] ! i =
        (map (fixed_key_remaining prim s) [0..<m] @ map (fixed_key_remaining prim ?s') [0..<n]) ! i"
      using s' by (auto simp: nth_append fixed_key_remaining_def keystream_def not_less)
  qed simp
  then show ?thesis
    using fixed_key_fill [OF avail(1), of prim, where 'a = 'e] fixed_key_fill [OF avail(2), of prim, where 'a = 'e]
      fixed_key_fill [OF avail(3), of prim, where 'a = 'e] s'
    by (simp add: add.assoc)
qed


theorem fixed_key_read_split_witness:
  "\<exists>s' s'' a b. SeedStreamFixedKeyAes128_fill \<lparr>turboshake128 = \<lambda>_ _ _. 0, aes128_encrypt = \<lambda>_ block i. block ! i,
      aes128_ctr64be = \<lambda>_ _ _. 0, hmac_sha256 = \<lambda>_ _. []\<rparr> 5
      \<lparr>cipher_key = replicate 16 0, base_block = replicate 16 1, length_consumed = 0\<rparr> = (Ok (a, s') :: (_, unit) outcome) \<and>
    SeedStreamFixedKeyAes128_fill \<lparr>turboshake128 = \<lambda>_ _ _. 0, aes128_encrypt = \<lambda>_ block i. block ! i,
      aes128_ctr64be = \<lambda>_ _ _. 0, hmac_sha256 = \<lambda>_ _. []\<rparr> 20 s' = (Ok (b, s'') :: (_, unit) outcome) \<and> length a = 5 \<and> length b = 20"
  using fixed_key_read_split [of "\<lparr>cipher_key = replicate 16 0, base_block = replicate 16 1, length_consumed = 0\<rparr>" 5 20
    "\<lparr>turboshake128 = \<lambda>_ _ _. 0, aes128_encrypt = \<lambda>_ block i. block ! i, aes128_ctr64be = \<lambda>_ _ _. 0, hmac_sha256 = \<lambda>_ _. []\<rparr>",
    where 'e = unit] by auto

end
