(* ===== verification/Prng.thy ===== *)
theory Prng
  imports FieldVec Xof
begin

text \<open>
  The generator of pseudorandom field elements of \<^verbatim>\<open>src/prng.rs\<close>, its unbuffered counterpart
  \<open>generate_random\<close> of \<^verbatim>\<open>src/field.rs\<close>, and \<open>into_field_vec\<close> of \<^verbatim>\<open>src/vdaf/xof.rs\<close>.  Both take the byte
  sequence of a seed stream in pieces of the size of an element and return the first piece below the
  modulus; the buffer of the generator is invisible.  A loop that finds no such piece never returns.
\<close>

section \<open>The generator\<close>

definition BUFFER_SIZE_IN_ELEMENTS :: nat where
  "BUFFER_SIZE_IN_ELEMENTS = 32"

record 's prng =
  prng_stream :: 's
  prng_buffer :: bytes
  buffer_index :: nat

definition from_seed_stream :: "'f field_element \<Rightarrow> ('s, 'e) rng \<Rightarrow> 's \<Rightarrow> ('s prng, 'e) outcome" where
  "from_seed_stream F fill s =
     and_then (fill (BUFFER_SIZE_IN_ELEMENTS * ENCODED_SIZE F) s) (\<lambda>(buf, s).
       Ok \<lparr>prng_stream = s, prng_buffer = buf, buffer_index = 0\<rparr>)"

text \<open>The \<open>for\<close> loop of \<open>get\<close>, from buffer position \<open>i\<close>: an element, if one is found, and the new position.\<close>

function prng_scan :: "'f field_element \<Rightarrow> bytes \<Rightarrow> nat \<Rightarrow> ('f option \<times> nat, 'e) outcome" where
  "prng_scan F buf i =
     (let j = i + ENCODED_SIZE F in
      if ENCODED_SIZE F = 0 then Panic
      else if j > length buf then Ok (None, i)
      else and_then (from_random_rejection F (slice buf i j)) (\<lambda>r.
        case r of Some x \<Rightarrow> Ok (Some x, j) | None \<Rightarrow> prng_scan F buf j))"
  by pat_completeness auto
termination
  by (relation "measure (\<lambda>(F, buf, i). length buf - i)") auto

declare prng_scan.simps [simp del]

partial_function (option) prng_get ::
  "'f field_element \<Rightarrow> ('s, 'e) rng \<Rightarrow> 's prng \<Rightarrow> ('f \<times> 's prng, 'e) outcome option" where
  "prng_get F fill g =
     (case prng_scan F (prng_buffer g) (buffer_index g) of
        Ok r \<Rightarrow>
          (case fst r of
             Some x \<Rightarrow> Some (Ok (x, g\<lparr>buffer_index := snd r\<rparr>))
           | None \<Rightarrow>
               (case fill (snd r) (prng_stream g) of
                  Ok bs \<Rightarrow>
                    prng_get F fill
                      \<lparr>prng_stream = snd bs, prng_buffer = drop (snd r) (prng_buffer g) @ fst bs, buffer_index = 0\<rparr>
                | Err e \<Rightarrow> Some (Err e)
                | Panic \<Rightarrow> Some Panic
                | Diverge \<Rightarrow> Some Diverge))
      | Err e \<Rightarrow> Some (Err e)
      | Panic \<Rightarrow> Some Panic
      | Diverge \<Rightarrow> Some Diverge)"

text \<open>Changing the field keeps the stream and the buffer.\<close>

definition into_new_field :: "'s prng \<Rightarrow> 's prng" where
  "into_new_field g = \<lparr>prng_stream = prng_stream g, prng_buffer = prng_buffer g, buffer_index = buffer_index g\<rparr>"

text \<open>\<open>take(n).collect()\<close> on the iterator.\<close>

fun prng_take :: "'f field_element \<Rightarrow> ('s, 'e) rng \<Rightarrow> nat \<Rightarrow> 's prng \<Rightarrow> ('f list, 'e) outcome" where
  "prng_take F fill 0 g = Ok []"
| "prng_take F fill (Suc n) g =
     and_then (returned (prng_get F fill g)) (\<lambda>(x, g).
       and_then (prng_take F fill n g) (\<lambda>xs. Ok (x # xs)))"

definition into_field_vec :: "'f field_element \<Rightarrow> ('s, 'e) rng \<Rightarrow> 's \<Rightarrow> nat \<Rightarrow> ('f list, 'e) outcome" where
  "into_field_vec F fill s len = and_then (from_seed_stream F fill s) (prng_take F fill len)"

section \<open>Without a buffer\<close>

partial_function (option) generate_random_loop ::
  "'f field_element \<Rightarrow> ('s, 'e) rng \<Rightarrow> 's \<Rightarrow> ('f \<times> 's, 'e) outcome option" where
  "generate_random_loop F fill s =
     (case fill (ENCODED_SIZE F) s of
        Ok bs \<Rightarrow>
          (case from_random_rejection F (fst bs) of
             Ok r \<Rightarrow> (case r of Some x \<Rightarrow> Some (Ok (x, snd bs)) | None \<Rightarrow> generate_random_loop F fill (snd bs))
           | Err e \<Rightarrow> Some (Err e)
           | Panic \<Rightarrow> Some Panic
           | Diverge \<Rightarrow> Some Diverge)
      | Err e \<Rightarrow> Some (Err e)
      | Panic \<Rightarrow> Some Panic
      | Diverge \<Rightarrow> Some Diverge)"

definition generate_random :: "'f field_element \<Rightarrow> ('s, 'e) rng \<Rightarrow> 's \<Rightarrow> ('f \<times> 's, 'e) outcome" where
  "generate_random F fill s =
     (if 64 < ENCODED_SIZE F then Panic else returned (generate_random_loop F fill s))"

text \<open>A sequence of calls of \<open>generate_random\<close> on one stream.\<close>

fun generate_many :: "'f field_element \<Rightarrow> ('s, 'e) rng \<Rightarrow> nat \<Rightarrow> 's \<Rightarrow> ('f list \<times> 's, 'e) outcome" where
  "generate_many F fill 0 s = Ok ([], s)"
| "generate_many F fill (Suc n) s =
     and_then (generate_random F fill s) (\<lambda>(x, s).
       and_then (generate_many F fill n s) (\<lambda>(xs, s). Ok (x # xs, s)))"

section \<open>The sequence both sample from\<close>

text \<open>
  Piece \<open>k\<close> of a byte sequence as an integer; the piece that is accepted is the first below the modulus.
\<close>

definition piece :: "'f field_element \<Rightarrow> (nat \<Rightarrow> byte) \<Rightarrow> nat \<Rightarrow> bytes" where
  "piece F f k = map f [k * ENCODED_SIZE F..<Suc k * ENCODED_SIZE F]"

definition first_accepted :: "'f field_element \<Rightarrow> (nat \<Rightarrow> byte) \<Rightarrow> nat \<Rightarrow> bool" where
  "first_accepted F f k \<longleftrightarrow>
     le_value (piece F f k) < modulus F \<and> (\<forall>i < k. modulus F \<le> le_value (piece F f i))"

text \<open>The first elements of a sequence and the number of pieces they are found in.\<close>

fun sampled :: "'f::field field_element \<Rightarrow> (nat \<Rightarrow> byte) \<Rightarrow> 'f list \<Rightarrow> nat \<Rightarrow> bool" where
  "sampled F f [] m \<longleftrightarrow> True"
| "sampled F f (x # xs) m \<longleftrightarrow>
     (\<exists>k < m. first_accepted F f k \<and> x = of_nat (le_value (piece F f k)) \<and>
       sampled F (\<lambda>i. f (Suc k * ENCODED_SIZE F + i)) xs (m - Suc k))"

lemma length_piece [simp]: "length (piece F f k) = ENCODED_SIZE F"
  by (simp add: piece_def)

lemma piece_shift: "piece F (\<lambda>i. f (n * ENCODED_SIZE F + i)) k = piece F f (n + k)"
  by (rule nth_equalityI) (simp_all add: piece_def add_mult_distrib add.assoc)

lemma first_accepted_shift:
  assumes "\<forall>i < n. modulus F \<le> le_value (piece F f i)" and "n \<le> k"
  shows "first_accepted F (\<lambda>i. f (n * ENCODED_SIZE F + i)) (k - n) \<longleftrightarrow> first_accepted F f k"
proof -
  have "(\<forall>i < k - n. modulus F \<le> le_value (piece F f (n + i))) \<longleftrightarrow> (\<forall>i < k. modulus F \<le> le_value (piece F f i))"
    using assms by (metis le_add_diff_inverse less_diff_conv2 nat_add_left_cancel_less not_less add.commute le_Suc_ex less_diff_conv)
  then show ?thesis using assms(2) by (simp add: first_accepted_def piece_shift)
qed

context prime_field
begin

lemma encoded_size_pos: "0 < ENCODED_SIZE F"
proof (rule ccontr)
  assume "\<not> 0 < ENCODED_SIZE F"
  then have "modulus F < 1" using modulus_bits(2) integer_bits by simp
  with modulus_gt_1 show False by simp
qed

lemma from_random_rejection_piece:
  "length bs = ENCODED_SIZE F \<Longrightarrow> from_random_rejection F bs =
    Ok (if le_value bs < modulus F then Some (of_nat (le_value bs)) else None)"
  by (simp add: from_random_rejection_def try_from_random decode_residue_def)

lemma buffer_piece:
  assumes "\<forall>k < length buf - i. f k = buf ! (i + k)" and "Suc k * ENCODED_SIZE F \<le> length buf - i"
  shows "slice buf (i + k * ENCODED_SIZE F) (i + Suc k * ENCODED_SIZE F) = piece F f k"
  using assms by (intro nth_equalityI) (auto simp: slice_def piece_def add.assoc)

lemma prng_scan_accepts:
  assumes "first_accepted F f k" "\<forall>k < length buf - i. f k = buf ! (i + k)" "Suc k * ENCODED_SIZE F \<le> length buf - i"
  shows "prng_scan F buf i = (Ok (Some (of_nat (le_value (piece F f k))), i + Suc k * ENCODED_SIZE F) :: (_, 'e) outcome)"
  using assms
proof (induction k arbitrary: i f)
  case 0
  then show ?case
    using buffer_piece [OF 0(2,3)] encoded_size_pos
    by (subst prng_scan.simps) (auto simp: from_random_rejection_piece first_accepted_def Let_def)
next
  case (Suc k)
  let ?f = "\<lambda>j. f (1 * ENCODED_SIZE F + j)"
  have rej: "\<forall>j < 1. modulus F \<le> le_value (piece F f j)" using Suc.prems(1) by (simp add: first_accepted_def)
  have "first_accepted F ?f k" using first_accepted_shift [OF rej, of "Suc k"] Suc.prems(1) by simp
  moreover have "\<forall>j < length buf - (i + ENCODED_SIZE F). ?f j = buf ! (i + ENCODED_SIZE F + j)"
    using Suc.prems(2) by (simp add: add.assoc)
  ultimately have "prng_scan F buf (i + ENCODED_SIZE F) =
      (Ok (Some (of_nat (le_value (piece F ?f k))), i + ENCODED_SIZE F + Suc k * ENCODED_SIZE F) :: (_, 'e) outcome)"
    using Suc.prems(3) by (intro Suc.IH) simp_all
  moreover have "slice buf i (i + ENCODED_SIZE F) = piece F f 0"
    using buffer_piece [OF Suc.prems(2), of 0] Suc.prems(3) by simp
  ultimately show ?case
    using rej encoded_size_pos Suc.prems(3) piece_shift [of F f 1 k]
    by (subst prng_scan.simps) (auto simp: from_random_rejection_piece add.assoc Let_def)
qed

lemma prng_scan_exhausted:
  assumes "\<forall>k < c. modulus F \<le> le_value (piece F f k)" "\<forall>k < length buf - i. f k = buf ! (i + k)" "i \<le> length buf"
    and c: "c = (length buf - i) div ENCODED_SIZE F"
  shows "prng_scan F buf i = (Ok (None, i + c * ENCODED_SIZE F) :: (_, 'e) outcome)"
  using assms
proof (induction c arbitrary: i f)
  case 0
  then have "length buf < i + ENCODED_SIZE F" using encoded_size_pos by (simp add: div_eq_0_iff)
  then show ?case using encoded_size_pos by (subst prng_scan.simps) simp
next
  case (Suc c)
  let ?f = "\<lambda>j. f (1 * ENCODED_SIZE F + j)"
  have fits: "i + ENCODED_SIZE F \<le> length buf"
    using Suc.prems(3,4) by (metis Suc_neq_Zero add.commute div_less le_diff_conv2 not_less)
  have "\<forall>k < c. modulus F \<le> le_value (piece F ?f k)" using Suc.prems(1) by (simp only: piece_shift) auto
  moreover have "\<forall>j < length buf - (i + ENCODED_SIZE F). ?f j = buf ! (i + ENCODED_SIZE F + j)"
    using Suc.prems(2) by (simp add: add.assoc)
  moreover have "c = (length buf - (i + ENCODED_SIZE F)) div ENCODED_SIZE F"
  proof -
    have "(length buf - i) div ENCODED_SIZE F = Suc ((length buf - i - ENCODED_SIZE F) div ENCODED_SIZE F)"
      using fits encoded_size_pos by (intro le_div_geq) simp_all
    with Suc.prems(4) show ?thesis by (simp add: diff_diff_left)
  qed
  ultimately have "prng_scan F buf (i + ENCODED_SIZE F) = (Ok (None, i + ENCODED_SIZE F + c * ENCODED_SIZE F) :: (_, 'e) outcome)"
    using fits by (intro Suc.IH) simp_all
  moreover have "slice buf i (i + ENCODED_SIZE F) = piece F f 0"
    using buffer_piece [OF Suc.prems(2), of 0] fits by simp
  moreover have "modulus F \<le> le_value (piece F f 0)" using Suc.prems(1) by simp
  ultimately show ?case
    using encoded_size_pos fits by (subst prng_scan.simps) (auto simp: from_random_rejection_piece add.assoc Let_def)
qed

end

locale sampler = prime_field F + seed_stream fill remaining avail
  for F :: "'f::field field_element" and fill :: "('s, 'e) rng" and remaining avail
begin

lemma generate_random_value:
  assumes "first_accepted F (remaining s) k" and "avail s (Suc k * ENCODED_SIZE F)"
  shows "\<exists>s'. generate_random_loop F fill s = Some (Ok (of_nat (le_value (piece F (remaining s) k)), s')) \<and>
    (\<forall>i. remaining s' i = remaining s (Suc k * ENCODED_SIZE F + i)) \<and>
    (\<forall>m. avail s' m \<longleftrightarrow> avail s (Suc k * ENCODED_SIZE F + m))"
  using assms
proof (induction k arbitrary: s)
  case 0
  then obtain s' where s': "fill (ENCODED_SIZE F) s = Ok (map (remaining s) [0..<ENCODED_SIZE F], s')"
    "\<forall>i. remaining s' i = remaining s (ENCODED_SIZE F + i)" "\<forall>m. avail s' m \<longleftrightarrow> avail s (ENCODED_SIZE F + m)"
    using fill [of s "ENCODED_SIZE F"] by auto
  with 0 show ?case
    by (subst generate_random_loop.simps) (simp add: from_random_rejection_piece first_accepted_def piece_def)
next
  case (Suc k)
  have "avail s (ENCODED_SIZE F)" using Suc.prems(2) by (rule avail_le) simp
  then obtain s1 where s1: "fill (ENCODED_SIZE F) s = Ok (map (remaining s) [0..<ENCODED_SIZE F], s1)"
    "\<And>i. remaining s1 i = remaining s (ENCODED_SIZE F + i)" "\<And>m. avail s1 m \<longleftrightarrow> avail s (ENCODED_SIZE F + m)"
    using fill [of s "ENCODED_SIZE F"] by auto
  have rej: "\<forall>i < 1. modulus F \<le> le_value (piece F (remaining s) i)" using Suc.prems(1) by (simp add: first_accepted_def)
  have rem: "remaining s1 = (\<lambda>i. remaining s (1 * ENCODED_SIZE F + i))" using s1(2) by auto
  have "first_accepted F (remaining s1) k"
    using first_accepted_shift [OF rej, of "Suc k"] Suc.prems(1) unfolding rem by simp
  moreover have "avail s1 (Suc k * ENCODED_SIZE F)" using Suc.prems(2) s1(3) by (simp add: add.commute)
  ultimately obtain s' where s': "generate_random_loop F fill s1 = Some (Ok (of_nat (le_value (piece F (remaining s1) k)), s'))"
    "\<forall>i. remaining s' i = remaining s1 (Suc k * ENCODED_SIZE F + i)" "\<forall>m. avail s' m \<longleftrightarrow> avail s1 (Suc k * ENCODED_SIZE F + m)"
    using Suc.IH by blast
  moreover have "modulus F \<le> le_value (map (remaining s) [0..<ENCODED_SIZE F])"
    using rej by (simp add: piece_def)
  moreover have "piece F (remaining s1) k = piece F (remaining s) (Suc k)" unfolding rem piece_shift by simp
  ultimately show ?case
    using s1 by (subst generate_random_loop.simps) (simp add: from_random_rejection_piece algebra_simps)
qed


text \<open>What a generator has still to hand out: the rest of its buffer, then the stream.\<close>

definition pending :: "'s prng \<Rightarrow> nat \<Rightarrow> byte" where
  "pending g k =
     (let left = length (prng_buffer g) - buffer_index g
      in if k < left then prng_buffer g ! (buffer_index g + k) else remaining (prng_stream g) (k - left))"

definition prng_ok :: "'s prng \<Rightarrow> bool" where
  "prng_ok g \<longleftrightarrow> buffer_index g \<le> length (prng_buffer g) \<and> ENCODED_SIZE F \<le> length (prng_buffer g)"

lemma refill_pending:
  assumes "i \<le> length (prng_buffer g)" "buffer_index g \<le> i"
    and "\<forall>k. remaining s' k = remaining (prng_stream g) (i + k)"
  shows "pending \<lparr>prng_stream = s', prng_buffer = drop i (prng_buffer g) @ map (remaining (prng_stream g)) [0..<i], buffer_index = 0\<rparr> k =
    pending g (i - buffer_index g + k)"
  using assms by (auto simp: pending_def nth_append Let_def intro!: arg_cong [where f = "remaining (prng_stream g)"])

lemma prng_get_value:
  assumes "prng_ok g" "first_accepted F (pending g) k"
    and "avail (prng_stream g) (buffer_index g + Suc k * ENCODED_SIZE F + length (prng_buffer g))"
  shows "\<exists>g'. prng_get F fill g = Some (Ok (of_nat (le_value (piece F (pending g) k)), g')) \<and> prng_ok g' \<and>
    (\<forall>i. pending g' i = pending g (Suc k * ENCODED_SIZE F + i)) \<and> length (prng_buffer g') = length (prng_buffer g) \<and>
    (\<forall>m. avail (prng_stream g) (buffer_index g + Suc k * ENCODED_SIZE F + m) \<longrightarrow> avail (prng_stream g') (buffer_index g' + m))"
  using assms
proof (induction "2 * k + of_bool (length (prng_buffer g) - buffer_index g < ENCODED_SIZE F)" arbitrary: g k rule: less_induct)
  case less
  let ?E = "ENCODED_SIZE F" and ?buf = "prng_buffer g" and ?idx = "buffer_index g"
  define c where "c = (length ?buf - ?idx) div ?E"
  have buf: "\<forall>j < length ?buf - ?idx. pending g j = ?buf ! (?idx + j)" by (simp add: pending_def Let_def)
  have idx: "?idx \<le> length ?buf" "?E \<le> length ?buf" using less.prems(1) by (simp_all add: prng_ok_def)
  have c_le: "c * ?E \<le> length ?buf - ?idx" by (simp add: c_def)
  show ?case
  proof (cases "k < c")
    case True
    then have fits: "Suc k * ?E \<le> length ?buf - ?idx" using c_le by (meson Suc_leI le_trans mult_le_mono1)
    let ?g = "g\<lparr>buffer_index := ?idx + Suc k * ?E\<rparr>"
    have "prng_get F fill g = Some (Ok (of_nat (le_value (piece F (pending g) k)), ?g))"
      using prng_scan_accepts [OF less.prems(2) buf fits, where 'e = 'e] by (subst prng_get.simps) simp
    moreover have "pending ?g i = pending g (Suc k * ?E + i)" for i
      using fits idx by (auto simp: pending_def Let_def add.assoc intro!: arg_cong [where f = "remaining (prng_stream g)"])
    moreover have "prng_ok ?g" using fits idx by (simp add: prng_ok_def)
    ultimately show ?thesis by (intro exI [of _ ?g]) simp
  next
    case False
    have rej: "\<forall>j < c. modulus F \<le> le_value (piece F (pending g) j)"
      using less.prems(2) False by (simp add: first_accepted_def)
    define i where "i = ?idx + c * ?E"
    have i: "i \<le> length ?buf" "?idx \<le> i" "i - ?idx = c * ?E" using c_le idx by (simp_all add: i_def)
    have scan: "prng_scan F ?buf ?idx = (Ok (None, i) :: (_, 'e) outcome)"
      unfolding i_def by (rule prng_scan_exhausted [OF rej buf idx(1) c_def])
    have "avail (prng_stream g) i" using less.prems(3) by (rule avail_le) (use c_le in \<open>simp add: i_def\<close>)
    then obtain s' where s': "fill i (prng_stream g) = Ok (map (remaining (prng_stream g)) [0..<i], s')"
      "\<forall>j. remaining s' j = remaining (prng_stream g) (i + j)" "\<forall>m. avail s' m \<longleftrightarrow> avail (prng_stream g) (i + m)"
      using fill by blast
    define g1 where "g1 = \<lparr>prng_stream = s', prng_buffer = drop i ?buf @ map (remaining (prng_stream g)) [0..<i], buffer_index = 0\<rparr>"
    have pend: "pending g1 = (\<lambda>j. pending g (c * ?E + j))"
      using refill_pending [OF i(1,2) s'(2)] by (auto simp: g1_def i(3))
    have g1: "length (prng_buffer g1) = length ?buf" "prng_ok g1" "buffer_index g1 = 0" using i idx by (auto simp: g1_def prng_ok_def)
    have dist: "c * ?E + Suc (k - c) * ?E = Suc k * ?E" using False by (simp flip: add_mult_distrib)
    have av: "avail (prng_stream g1) (buffer_index g1 + Suc (k - c) * ?E + m) \<longleftrightarrow> avail (prng_stream g) (?idx + Suc k * ?E + m)" for m
      unfolding dist [symmetric] using s'(3) by (simp add: g1_def i_def algebra_simps)
    have "2 * (k - c) + of_bool (length (prng_buffer g1) - buffer_index g1 < ?E) < 2 * k + of_bool (length ?buf - ?idx < ?E)"
    proof (cases "c = 0")
      case True
      then have "length ?buf - ?idx < ?E" using encoded_size_pos by (simp add: c_def div_eq_0_iff)
      then show ?thesis using idx g1 True by simp
    next
      case False
      then show ?thesis using \<open>\<not> k < c\<close> idx g1 by simp
    qed
    moreover have "first_accepted F (pending g1) (k - c)"
      unfolding pend using first_accepted_shift [OF rej, of k] False less.prems(2) by simp
    moreover have "avail (prng_stream g1) (buffer_index g1 + Suc (k - c) * ?E + length (prng_buffer g1))"
      using less.prems(3) unfolding av g1(1) .
    ultimately obtain g' where g': "prng_get F fill g1 = Some (Ok (of_nat (le_value (piece F (pending g1) (k - c))), g'))" "prng_ok g'"
      "\<forall>i. pending g' i = pending g1 (Suc (k - c) * ?E + i)" "length (prng_buffer g') = length (prng_buffer g1)"
      "\<forall>m. avail (prng_stream g1) (buffer_index g1 + Suc (k - c) * ?E + m) \<longrightarrow> avail (prng_stream g') (buffer_index g' + m)"
      using less.hyps g1(2) by blast
    moreover have "prng_get F fill g = prng_get F fill g1"
      by (subst prng_get.simps) (simp add: scan s'(1) g1_def)
    moreover have "piece F (pending g1) (k - c) = piece F (pending g) k"
      unfolding pend piece_shift using False by simp
    moreover have "pending g1 (Suc (k - c) * ?E + j) = pending g (Suc k * ?E + j)" for j
      by (simp only: pend add.assoc [symmetric] dist)
    ultimately show ?thesis using av g1(1) by auto
  qed
qed

text \<open>A generator that starts on a stream hands out the elements that \<open>generate_random\<close> finds, one after the other.\<close>

lemma from_seed_stream_value:
  assumes "avail s (BUFFER_SIZE_IN_ELEMENTS * ENCODED_SIZE F)"
  shows "\<exists>g. from_seed_stream F fill s = Ok g \<and> prng_ok g \<and> pending g = remaining s \<and> buffer_index g = 0 \<and>
    length (prng_buffer g) = BUFFER_SIZE_IN_ELEMENTS * ENCODED_SIZE F \<and>
    (\<forall>m. avail (prng_stream g) m \<longleftrightarrow> avail s (BUFFER_SIZE_IN_ELEMENTS * ENCODED_SIZE F + m))"
proof -
  obtain s' where "fill (BUFFER_SIZE_IN_ELEMENTS * ENCODED_SIZE F) s =
      Ok (map (remaining s) [0..<BUFFER_SIZE_IN_ELEMENTS * ENCODED_SIZE F], s')"
    "\<And>k. remaining s' k = remaining s (BUFFER_SIZE_IN_ELEMENTS * ENCODED_SIZE F + k)"
    "\<forall>m. avail s' m \<longleftrightarrow> avail s (BUFFER_SIZE_IN_ELEMENTS * ENCODED_SIZE F + m)"
    using fill [OF assms] by blast
  then show ?thesis
    by (auto simp: from_seed_stream_def prng_ok_def pending_def fun_eq_iff BUFFER_SIZE_IN_ELEMENTS_def Let_def)
qed


lemma sampled_prng_take:
  assumes "sampled F (pending g) xs m" "prng_ok g"
    and "avail (prng_stream g) (buffer_index g + m * ENCODED_SIZE F + length (prng_buffer g))"
  shows "prng_take F fill (length xs) g = Ok xs"
  using assms
proof (induction xs arbitrary: g m)
  case (Cons x xs)
  then obtain k where k: "first_accepted F (pending g) k" "x = of_nat (le_value (piece F (pending g) k))" "k < m"
    "sampled F (\<lambda>i. pending g (Suc k * ENCODED_SIZE F + i)) xs (m - Suc k)" by auto
  have le: "Suc k * ENCODED_SIZE F \<le> m * ENCODED_SIZE F" using k(3) by (intro mult_le_mono1) simp
  have "avail (prng_stream g) (buffer_index g + Suc k * ENCODED_SIZE F + length (prng_buffer g))"
    using Cons.prems(3) by (rule avail_le) (use le in simp)
  then obtain g' where g': "prng_get F fill g = Some (Ok (x, g'))" "prng_ok g'"
    "\<And>i. pending g' i = pending g (Suc k * ENCODED_SIZE F + i)" "length (prng_buffer g') = length (prng_buffer g)"
    "\<And>m. avail (prng_stream g) (buffer_index g + Suc k * ENCODED_SIZE F + m) \<Longrightarrow> avail (prng_stream g') (buffer_index g' + m)"
    using prng_get_value [OF Cons.prems(2) k(1)] k(2) by blast
  have "pending g' = (\<lambda>i. pending g (Suc k * ENCODED_SIZE F + i))" using g'(3) by blast
  moreover have "avail (prng_stream g') (buffer_index g' + ((m - Suc k) * ENCODED_SIZE F + length (prng_buffer g')))"
    using Cons.prems(3) le g'(4) by (intro g'(5)) (simp add: diff_mult_distrib add.assoc)
  ultimately have "prng_take F fill (length xs) g' = Ok xs"
    using k(4) g'(2) by (intro Cons.IH [of g' "m - Suc k"]) (simp_all add: add.assoc)
  with g'(1) show ?case by simp
qed simp

theorem into_field_vec_sampled:
  assumes "sampled F (remaining s) xs m"
    and "avail s ((m + 2 * BUFFER_SIZE_IN_ELEMENTS) * ENCODED_SIZE F)"
  shows "into_field_vec F fill s (length xs) = Ok xs"
proof -
  have "avail s (BUFFER_SIZE_IN_ELEMENTS * ENCODED_SIZE F)" using assms(2) by (rule avail_le) simp
  then obtain g where g: "from_seed_stream F fill s = Ok g" "prng_ok g" "pending g = remaining s" "buffer_index g = 0"
    "length (prng_buffer g) = BUFFER_SIZE_IN_ELEMENTS * ENCODED_SIZE F"
    "\<forall>m. avail (prng_stream g) m \<longleftrightarrow> avail s (BUFFER_SIZE_IN_ELEMENTS * ENCODED_SIZE F + m)"
    using from_seed_stream_value by blast
  have "(m + 2 * BUFFER_SIZE_IN_ELEMENTS) * ENCODED_SIZE F =
      BUFFER_SIZE_IN_ELEMENTS * ENCODED_SIZE F + (m * ENCODED_SIZE F + BUFFER_SIZE_IN_ELEMENTS * ENCODED_SIZE F)"
    by (simp add: add_mult_distrib)
  with assms g have "prng_take F fill (length xs) g = Ok xs"
    by (intro sampled_prng_take [of g xs m]) simp_all
  with g(1) show ?thesis by (simp add: into_field_vec_def)
qed

theorem generate_many_sampled:
  assumes "sampled F (remaining s) xs m" and "avail s (m * ENCODED_SIZE F)" and "ENCODED_SIZE F \<le> 64"
  shows "\<exists>s'. generate_many F fill (length xs) s = Ok (xs, s')"
  using assms(1,2)
proof (induction xs arbitrary: s m)
  case (Cons x xs)
  then obtain k where k: "first_accepted F (remaining s) k" "x = of_nat (le_value (piece F (remaining s) k))" "k < m"
    "sampled F (\<lambda>i. remaining s (Suc k * ENCODED_SIZE F + i)) xs (m - Suc k)" by auto
  have le: "Suc k * ENCODED_SIZE F \<le> m * ENCODED_SIZE F" using k(3) by (intro mult_le_mono1) simp
  have "avail s (Suc k * ENCODED_SIZE F)" using Cons.prems(2) le by (rule avail_le)
  then obtain s1 where s1: "generate_random_loop F fill s = Some (Ok (x, s1))"
    "\<And>i. remaining s1 i = remaining s (Suc k * ENCODED_SIZE F + i)" "\<And>m. avail s1 m \<longleftrightarrow> avail s (Suc k * ENCODED_SIZE F + m)"
    using generate_random_value [OF k(1)] k(2) by blast
  have "remaining s1 = (\<lambda>i. remaining s (Suc k * ENCODED_SIZE F + i))" using s1(2) by blast
  moreover have "avail s1 ((m - Suc k) * ENCODED_SIZE F)" using Cons.prems(2) le s1(3) by (simp add: diff_mult_distrib)
  ultimately obtain s' where "generate_many F fill (length xs) s1 = Ok (xs, s')"
    using Cons.IH [of s1 "m - Suc k"] k(4) by auto
  with s1(1) assms(3) show ?case by (simp add: generate_random_def)
qed simp

end

interpretation Field64_turboshake: sampler Field64 SeedStreamTurboShake128_fill_bytes reader_remaining "\<lambda>_ _. True"
  by unfold_locales

interpretation Field128_turboshake: sampler Field128 SeedStreamTurboShake128_fill_bytes reader_remaining "\<lambda>_ _. True"
  by unfold_locales

interpretation Field64_fixed_key: sampler Field64 "SeedStreamFixedKeyAes128_fill prim" "fixed_key_remaining prim" fixed_key_avail
  for prim
  by unfold_locales

interpretation Field128_fixed_key: sampler Field128 "SeedStreamFixedKeyAes128_fill prim" "fixed_key_remaining prim" fixed_key_avail
  for prim
  by unfold_locales

section \<open>Properties\<close>

text \<open>
  C34. Rejection sampling returns: if the vector \<open>xs\<close> of elements of the 128-bit field lies in the first \<open>m\<close> pieces of an
  output stream of TurboSHAKE128, with the pieces at or above the modulus left out, then the buffered generator
  (\<open>into_field_vec\<close>) returns \<open>xs\<close> and so do as many calls of \<open>generate_random\<close> without a buffer.
\<close>

theorem sampling_returns:
  assumes "sampled Field128 (reader_remaining r) xs m"
  shows "into_field_vec Field128 SeedStreamTurboShake128_fill_bytes r (length xs) = (Ok xs :: (_, 'e) outcome) \<and>
    (\<exists>r'. generate_many Field128 SeedStreamTurboShake128_fill_bytes (length xs) r = (Ok (xs, r') :: (_, 'e) outcome))"
  using Field128_turboshake.into_field_vec_sampled [OF assms, where 'a = 'e]
    Field128_turboshake.generate_many_sampled [OF assms, where 'a = 'e] by simp


theorem sampling_returns_witness:
  "into_field_vec Field128 SeedStreamTurboShake128_fill_bytes (Reader (\<lambda>i. if i < 16 then 255 else 0) 0) 1 =
    (Ok [0] :: (_, unit) outcome)"
proof -
  let ?r = "Reader (\<lambda>i. if i < 16 then 255 else 0) 0"
  have p: "piece Field128 (reader_remaining ?r) 0 = replicate 16 255" "piece Field128 (reader_remaining ?r) 1 = replicate 16 0"
    by (rule nth_equalityI; auto simp: piece_def reader_remaining_def simp del: upt_rec_numeral)+
  have "Suc (le_value (replicate n 255)) = 256 ^ n" "le_value (replicate n 0) = 0" for n by (induction n) simp_all
  note v = this(1) [of 16] this(2) [of 16]
  have "first_accepted Field128 (reader_remaining ?r) 1"
    using v unfolding first_accepted_def p by (simp add: p modulus_128)
  then have "sampled Field128 (reader_remaining ?r) [0] 2"
    unfolding sampled.simps using p(2) v(2) by (intro exI [of _ 1]) simp
  from sampling_returns [OF this, where 'e = unit] show ?thesis by simp
qed

end
