(* ===== verification/Flp.thy ===== *)
theory Flp
  imports Gadgets
begin

text \<open>
  The fully linear proof system of \<^verbatim>\<open>src/flp.rs\<close>.  A type of measurement comes with a validity circuit
  that calls gadgets; \<open>prove\<close>, \<open>query\<close> and \<open>decide\<close> run the circuit with shims in place of its gadgets,
  which record the inputs of each call and, for the verifier, answer from the proof.

  A value of a type implementing the trait \<open>Type\<close> is a dictionary of its methods, whose first
  component is the dictionary of its field.
\<close>

section \<open>Shims\<close>

datatype 'f shim =
    Plain (inner: "'f gadget")
  | ProveShim (inner: "'f gadget") (f_vals: "'f list list") (ct: nat)
  | QueryShim (inner: "'f gadget") (f_vals: "'f list list") (p_vals: "'f list") (p_at_r: 'f)
      (step: nat) (ct: nat)

definition ProveShim_new :: "'f::field gadget \<Rightarrow> 'f list \<Rightarrow> ('f shim, flp_error) outcome" where
  "ProveShim_new g prove_rand =
     (if length prove_rand < arity g then Panic
      else Ok (ProveShim g (map (\<lambda>i. (replicate (1 + calls g) 0)[0 := prove_rand ! i]) [0..<arity g]) 1))"

definition QueryShim_new ::
  "'f::field field_element \<Rightarrow> 'f gadget \<Rightarrow> 'f \<Rightarrow> 'f list \<Rightarrow> ('f shim, flp_error) outcome" where
  "QueryShim_new F g r proof_data =
     (let gadget_degree = degree g;
          gadget_arity = arity g;
          m = next_power_of_two (1 + calls g);
          p = m * gadget_degree
      in if length proof_data < gadget_arity then Panic
         else
           let fv = map (\<lambda>wire. (replicate (1 + calls g) 0)[0 := proof_data ! wire]) [0..<gadget_arity];
               size = next_power_of_two p
           in and_then (map_err FftErr
                (discrete_fourier_transform F (replicate size 0) (drop gadget_arity proof_data) size)) (\<lambda>pv.
              and_then (log2 (of_nat p)) (\<lambda>lp.
              and_then (log2 (of_nat m)) (\<lambda>lm.
                if lp < lm then Panic
                else Ok (QueryShim g fv pv (poly_eval (drop gadget_arity proof_data) r) (2 ^ (lp - lm)) 1)))))"

text \<open>Recording the inputs of call number \<open>ct\<close>; out-of-range positions panic.\<close>

definition record_wires :: "'f list list \<Rightarrow> nat \<Rightarrow> 'f list \<Rightarrow> ('f list list, flp_error) outcome" where
  "record_wires fv c inp =
     (if length fv < length inp \<or> (\<exists>vals \<in> set (take (length inp) fv). length vals \<le> c) then Panic
      else Ok (map2 (\<lambda>vals x. vals[c := x]) (take (length inp) fv) inp @ drop (length inp) fv))"

fun shim_call :: "'f::field shim \<Rightarrow> 'f list \<Rightarrow> ('f \<times> 'f shim, flp_error) outcome" where
  "shim_call (Plain g) inp = and_then (gadget_call g inp) (\<lambda>y. Ok (y, Plain g))"
| "shim_call (ProveShim g fv c) inp =
     and_then (record_wires fv c inp) (\<lambda>fv.
       and_then (gadget_call g inp) (\<lambda>y. Ok (y, ProveShim g fv (c + 1))))"
| "shim_call (QueryShim g fv pv pr st c) inp =
     and_then (record_wires fv c inp) (\<lambda>fv.
       if length pv \<le> c * st then Panic
       else Ok (pv ! (c * st), QueryShim g fv pv pr st (c + 1)))"

section \<open>Types\<close>

record ('m, 'r, 'f) flp_type =
  flp_field :: "'f field_element"
  encode_measurement :: "'m \<Rightarrow> ('f list, flp_error) outcome"
  decode_result :: "'f list \<Rightarrow> nat \<Rightarrow> ('r, flp_error) outcome"
  gadgets :: "('f gadget list, flp_error) outcome"
  valid :: "'f shim list \<Rightarrow> 'f list \<Rightarrow> 'f list \<Rightarrow> nat \<Rightarrow> ('f \<times> 'f shim list, flp_error) outcome"
  truncate_input :: "'f list \<Rightarrow> ('f list, flp_error) outcome"
  input_len :: nat
  proof_len :: nat
  verifier_len :: nat
  output_len :: nat
  joint_rand_len :: nat
  prove_rand_len :: nat
  query_rand_len :: nat

definition valid_call_check :: "('m, 'r, 'f) flp_type \<Rightarrow> 'f list \<Rightarrow> 'f list \<Rightarrow> (unit, flp_error) outcome" where
  "valid_call_check T input joint_rand =
     (if length input \<noteq> input_len T then Err ValidError
      else if length joint_rand \<noteq> joint_rand_len T then Err ValidError
      else Ok ())"

definition truncate_call_check :: "('m, 'r, 'f) flp_type \<Rightarrow> 'f list \<Rightarrow> (unit, flp_error) outcome" where
  "truncate_call_check T input = (if length input \<noteq> input_len T then Err TruncateError else Ok ())"

section \<open>Proof generation\<close>

definition prove_shims ::
  "'f::field gadget list \<Rightarrow> 'f list \<Rightarrow> ('f shim list \<times> nat, flp_error) outcome" where
  "prove_shims gs prove_rand =
     for_each (\<lambda>g (shims, len).
         if length prove_rand < len + arity g then Err ProveError
         else and_then (ProveShim_new g (slice prove_rand len (len + arity g))) (\<lambda>shim.
                Ok (shims @ [shim], len + arity g))) gs ([], 0)"

text \<open>The wire polynomials of one gadget, and the start of each, which goes into the proof.\<close>

definition wire_polys ::
  "'f::field field_element \<Rightarrow> nat \<Rightarrow> 'f list list \<Rightarrow> ('f list list, flp_error) outcome" where
  "wire_polys F m fvs =
     (if 2 ^ INTEGER_BITS F \<le> m then Panic
      else let m_inv = inverse (from_integer F m)
           in for_each (\<lambda>vals f.
                and_then (map_err FftErr (discrete_fourier_transform F (replicate m 0) vals m)) (\<lambda>coefficients.
                  Ok (f @ [discrete_fourier_transform_inv_finish coefficients m m_inv]))) fvs [])"

definition prove_gadget ::
  "'f::field field_element \<Rightarrow> 'f shim \<Rightarrow> 'f list \<times> nat \<Rightarrow> ('f list \<times> nat, flp_error) outcome" where
  "prove_gadget F shim = (\<lambda>(proof, len).
     (case shim of
        ProveShim g fv c \<Rightarrow>
          let m = wire_poly_len (calls g) in
          if length proof < len + arity g \<or> length fv < arity g then Panic
          else and_then (wire_polys F m (take (arity g) fv)) (\<lambda>f.
            let proof = copy_at proof len (map hd (take (arity g) fv));
                poly_len = gadget_poly_len (degree g) m;
                start = len + arity g;
                stop = start + next_power_of_two poly_len
            in if length proof < stop then Panic
               else and_then (call_poly F g (slice proof start stop) f) (\<lambda>outp.
                 Ok (copy_at proof start outp, len + arity g + poly_len)))
      | _ \<Rightarrow> Panic))"

definition prove ::
  "('m, 'r, 'f::field) flp_type \<Rightarrow> 'f list \<Rightarrow> 'f list \<Rightarrow> 'f list \<Rightarrow> ('f list, flp_error) outcome" where
  "prove T input prove_rand joint_rand =
     (if length input \<noteq> input_len T then Err ProveError
      else if length prove_rand \<noteq> prove_rand_len T then Err ProveError
      else if length joint_rand \<noteq> joint_rand_len T then Err ProveError
      else
        and_then (gadgets T) (\<lambda>gs.
        and_then (prove_shims gs prove_rand) (\<lambda>(shims, len).
        if len \<noteq> prove_rand_len T then Panic
        else
          let data_len = sum_list (map (\<lambda>g. arity g +
                next_power_of_two (gadget_poly_len (degree g) (wire_poly_len (calls g)))) gs);
              proof = replicate data_len 0
          in and_then (valid T shims input joint_rand 1) (\<lambda>(_, shims).
             and_then (for_each (prove_gadget (flp_field T)) shims (proof, 0)) (\<lambda>(proof, len).
               if len \<noteq> proof_len T then Panic else Ok (take len proof))))))"

section \<open>Verification\<close>

definition query_shims ::
  "'f::field field_element \<Rightarrow> 'f gadget list \<Rightarrow> 'f list \<Rightarrow> 'f list \<Rightarrow> ('f shim list, flp_error) outcome" where
  "query_shims F gs proof query_rand =
     and_then
       (for_each (\<lambda>(idx, g) (shims, len).
          let m = next_power_of_two (1 + calls g) in
          if length query_rand \<le> idx \<or> 2 ^ INTEGER_BITS F \<le> m then Panic
          else if fpow F (query_rand ! idx) m = 1 then Err QueryError
          else
            let next_len = arity g + degree g * (m - 1) + 1 in
            if length proof < len + next_len then Panic
            else and_then (QueryShim_new F g (query_rand ! idx) (slice proof len (len + next_len))) (\<lambda>shim.
                   Ok (shims @ [shim], len + next_len)))
          (zip [0..<length gs] gs) ([], 0))
       (\<lambda>(shims, len). Ok shims)"

definition query_gadget ::
  "'f::field field_element \<Rightarrow> 'f \<times> 'f shim \<Rightarrow> 'f list \<Rightarrow> ('f list, flp_error) outcome" where
  "query_gadget F = (\<lambda>(r, shim) verifier.
     (case shim of
        QueryShim g fv pv pr st c \<Rightarrow>
          let m = next_power_of_two (1 + calls g) in
          if length fv < arity g then Panic
          else and_then (wire_polys F m (take (arity g) fv)) (\<lambda>f.
            Ok (verifier @ map (\<lambda>p. poly_eval p r) f @ [pr]))
      | _ \<Rightarrow> Panic))"

definition query ::
  "('m, 'r, 'f::field) flp_type \<Rightarrow> 'f list \<Rightarrow> 'f list \<Rightarrow> 'f list \<Rightarrow> 'f list \<Rightarrow> nat \<Rightarrow> ('f list, flp_error) outcome" where
  "query T input proof query_rand joint_rand num_shares =
     (if length input \<noteq> input_len T then Err QueryError
      else if length proof \<noteq> proof_len T then Err QueryError
      else if length query_rand \<noteq> query_rand_len T then Err QueryError
      else if length joint_rand \<noteq> joint_rand_len T then Err QueryError
      else
        and_then (gadgets T) (\<lambda>gs.
        and_then (query_shims (flp_field T) gs proof query_rand) (\<lambda>shims.
        and_then (valid T shims input joint_rand num_shares) (\<lambda>(validity, shims).
        if length query_rand < length shims then Panic
        else and_then (for_each (query_gadget (flp_field T)) (zip query_rand shims) [validity]) (\<lambda>verifier.
          if length verifier \<noteq> verifier_len T then Panic else Ok verifier)))))"

definition decide :: "('m, 'r, 'f::field) flp_type \<Rightarrow> 'f list \<Rightarrow> (bool, flp_error) outcome" where
  "decide T verifier =
     (if length verifier \<noteq> verifier_len T then Err DecideError
      else if verifier = [] then Panic
      else if verifier ! 0 \<noteq> 0 then Ok False
      else
        and_then (gadgets T) (\<lambda>gs.
        and_then
          (for_each (\<lambda>g (ok, len).
             if \<not> ok then Ok (False, len)
             else
               let next_len = 1 + arity g in
               if length verifier < len + next_len then Panic
               else and_then (gadget_call g (slice verifier len (len + next_len - 1))) (\<lambda>e.
                 Ok (e = verifier ! (len + next_len - 1), len + next_len))) gs (True, 1))
          (\<lambda>(ok, len). Ok ok)))"

section \<open>Recording\<close>

fun run_calls :: "'f::field shim \<Rightarrow> 'f list list \<Rightarrow> ('f list \<times> 'f shim, flp_error) outcome" where
  "run_calls s [] = Ok ([], s)"
| "run_calls s (inp # inps) =
     and_then (shim_call s inp) (\<lambda>(y, s). and_then (run_calls s inps) (\<lambda>(ys, s). Ok (y # ys, s)))"

text \<open>The wire table after the calls with the given inputs: seeds, then the recorded values, then zeros.\<close>

definition wire_table :: "nat \<Rightarrow> nat \<Rightarrow> 'f::field list \<Rightarrow> 'f list list \<Rightarrow> 'f list list" where
  "wire_table n a seeds inps =
     map (\<lambda>i. seeds ! i # map (\<lambda>inp. inp ! i) inps @ replicate (n - length inps) 0) [0..<a]"

lemma wire_table_nth: "i < a \<Longrightarrow> wire_table n a seeds inps ! i =
    seeds ! i # map (\<lambda>inp. inp ! i) inps @ replicate (n - length inps) 0"
  by (simp add: wire_table_def)

lemma length_wire_table [simp]: "length (wire_table n a seeds inps) = a"
  by (simp add: wire_table_def)

lemma record_wire_table:
  assumes "length inp = a" and "length inps < n"
  shows "record_wires (wire_table n a seeds inps) (Suc (length inps)) inp = Ok (wire_table n a seeds (inps @ [inp]))"
proof -
  have rep: "replicate (n - length inps) (0 :: 'a) = 0 # replicate (n - Suc (length inps)) 0"
    using assms(2) by (simp add: Suc_diff_Suc flip: replicate_Suc)
  have "map2 (\<lambda>vals x. vals[Suc (length inps) := x]) (wire_table n a seeds inps) inp =
      wire_table n a seeds (inps @ [inp])"
    using assms by (intro nth_equalityI) (auto simp: wire_table_nth rep list_update_append)
  moreover have "length vals = Suc n" if "vals \<in> set (wire_table n a seeds inps)" for vals
    using that assms(2) by (auto simp: wire_table_def)
  ultimately show ?thesis using assms by (auto simp: record_wires_def)
qed

lemma run_calls_prove:
  assumes "\<forall>inp \<in> set inps. length inp = arity g" and "0 < arity g" and "length prev + length inps \<le> n"
  shows "run_calls (ProveShim g (wire_table n (arity g) seeds prev) (Suc (length prev))) inps =
    Ok (map (gadget_value g) inps,
        ProveShim g (wire_table n (arity g) seeds (prev @ inps)) (Suc (length prev + length inps)))"
  using assms
proof (induction inps arbitrary: prev)
  case (Cons inp inps)
  have "record_wires (wire_table n (arity g) seeds prev) (Suc (length prev)) inp =
      Ok (wire_table n (arity g) seeds (prev @ [inp]))"
    using Cons.prems by (intro record_wire_table) simp_all
  with Cons.IH [of "prev @ [inp]"] Cons.prems show ?case by (simp add: gadget_call_value)
qed simp

lemma run_calls_query:
  assumes "\<forall>inp \<in> set inps. length inp = arity g" and "length prev + length inps \<le> n"
    and "(length prev + length inps) * st < length pv"
  shows "run_calls (QueryShim g (wire_table n (arity g) seeds prev) pv pr st (Suc (length prev))) inps =
    Ok (map (\<lambda>k. pv ! (k * st)) [Suc (length prev)..<Suc (length prev + length inps)],
        QueryShim g (wire_table n (arity g) seeds (prev @ inps)) pv pr st (Suc (length prev + length inps)))"
  using assms
proof (induction inps arbitrary: prev)
  case (Cons inp inps)
  have "record_wires (wire_table n (arity g) seeds prev) (Suc (length prev)) inp =
      Ok (wire_table n (arity g) seeds (prev @ [inp]))"
    using Cons.prems by (intro record_wire_table) simp_all
  moreover have "Suc (length prev) * st \<le> (length prev + length (inp # inps)) * st"
    by (intro mult_le_mono1) simp
  then have "Suc (length prev) * st < length pv" using Cons.prems(3) by linarith
  ultimately show ?case
    using Cons.IH [of "prev @ [inp]"] Cons.prems
    by (simp add: upt_conv_Cons [of "Suc (length prev)"] del: upt_Suc)
qed simp

section \<open>Sizes\<close>

lemma next_power_of_two_from_minimal:
  assumes "p = 2 ^ a" and "a = 0 \<or> 2 ^ (a - 1) < n" and "next_power_of_two_from p n = 2 ^ d"
  shows "d = 0 \<or> 2 ^ (d - 1) < n"
  using assms
proof (induction p n arbitrary: a rule: next_power_of_two_from.induct)
  case (1 p n)
  show ?case
  proof (cases "p < n")
    case True
    then have "next_power_of_two_from (2 * p) n = 2 ^ d"
      using 1(4) 1(2) by (subst (asm) next_power_of_two_from.simps) simp
    with 1(1) [OF _, of "Suc a"] True 1(2) show ?thesis by simp
  next
    case False
    then have "next_power_of_two_from p n = p" by (subst next_power_of_two_from.simps) simp
    then have "a = d" using 1(2,4) by simp
    then show ?thesis using 1(3) by simp
  qed
qed

lemma next_power_of_two_minimal: "next_power_of_two n = 2 ^ d \<Longrightarrow> d = 0 \<or> 2 ^ (d - 1) < n"
  unfolding next_power_of_two_def by (rule next_power_of_two_from_minimal [of 1 0]) simp_all

lemma next_power_of_two_idem: "next_power_of_two (2 ^ e) = 2 ^ e"
proof -
  obtain d where d: "next_power_of_two (2 ^ e) = 2 ^ d" by (rule next_power_of_two_power)
  have "(2 :: nat) ^ e \<le> 2 ^ d" using next_power_of_two_ge [of "2 ^ e"] d by simp
  moreover have "d = 0 \<or> (2 :: nat) ^ (d - 1) < 2 ^ e" using next_power_of_two_minimal [OF d] .
  ultimately show ?thesis using d by (auto simp: power_strict_increasing_iff)
qed

lemma bit_nat_le: "bit (n :: nat) k \<Longrightarrow> 2 ^ k \<le> n"
  by (metis bit_iff_odd div_less even_zero not_le)

lemma nat_less_of_bits: "(\<And>k. bit (n :: nat) k \<Longrightarrow> k < m) \<Longrightarrow> n < 2 ^ m"
proof -
  assume "\<And>k. bit n k \<Longrightarrow> k < m"
  then have "take_bit m n = n" by (intro bit_eqI) (auto simp: bit_simps)
  then show ?thesis by (metis take_bit_nat_less_exp)
qed
lemma log2_value:
  fixes n :: nat
  assumes "0 < n" and "n < 2 ^ 64"
  defines "h \<equiv> 127 - leading_zeros (of_nat n :: u128)"
  shows "2 ^ h \<le> n" "n < 2 ^ Suc h"
    and "log2 (of_nat n) = Ok (h + (if 2 ^ h < n then 1 else 0))"
proof -
  let ?x = "of_nat n :: u128"
  have x: "unat ?x = n" using assms by (simp add: unsigned_of_nat take_bit_nat_eq_self)
  then have "?x \<noteq> 0" using assms(1) by (metis less_not_refl unsigned_0)
  note top = leading_zeros_top [OF this]
  have lz: "leading_zeros ?x < 128" using top(1) by simp
  have bits: "bit n k \<longleftrightarrow> bit ?x k" for k
    using x bit_unsigned_iff [of ?x k, where 'a = nat] by simp
  show h: "2 ^ h \<le> n" using top(2) by (intro bit_nat_le) (simp add: bits h_def)
  show "n < 2 ^ Suc h"
    using bit_below_leading_zeros [of ?x] lz by (intro nat_less_of_bits) (fastforce simp: bits h_def)
  have "h < 128" by (simp add: h_def)
  then have "unat (push_bit h 1 :: u128) = 2 ^ h"
    by (simp add: unsigned_push_bit_eq push_bit_of_1 take_bit_nat_eq_self del: push_bit_of_1)
  then have "push_bit h 1 < ?x \<longleftrightarrow> 2 ^ h < n" by (simp add: word_less_nat_alt x)
  then show "log2 ?x = Ok (h + (if 2 ^ h < n then 1 else 0))"
    using lz unfolding log2_def h_def Let_def by simp
qed

lemma log2_ceiling:
  assumes "next_power_of_two n = 2 ^ d" and "0 < n" and "n < 2 ^ 64"
  shows "log2 (of_nat n) = Ok d"
proof -
  define h where "h = 127 - leading_zeros (of_nat n :: u128)"
  note l = log2_value [OF assms(2,3), folded h_def]
  have ge: "n \<le> 2 ^ d" using next_power_of_two_ge [of n] assms(1) by simp
  have "h + (if 2 ^ h < n then 1 else 0) = d"
  proof (cases "2 ^ h < n")
    case True
    then have "(2 :: nat) ^ h < 2 ^ d" using ge by (rule order_less_le_trans)
    then have "h < d" by simp
    moreover have "(2 :: nat) ^ (d - 1) < 2 ^ Suc h"
      using next_power_of_two_minimal [OF assms(1)] l(2) \<open>h < d\<close> by auto
    then have "d - 1 < Suc h" by (simp only: power_strict_increasing_iff one_less_numeral_iff semiring_norm)
    ultimately show ?thesis using True by simp
  next
    case False
    then have "n = 2 ^ h" using l(1) by simp
    then show ?thesis using assms(1) next_power_of_two_idem [of h] by simp
  qed
  with l(3) show ?thesis by simp
qed

context prime_field
begin

lemma froot_descend: "froot F (e + k) = Some w \<Longrightarrow> froot F e = Some (w ^ 2 ^ k)"
proof (induction k arbitrary: w)
  case (Suc k)
  from Suc.IH [OF froot_Suc] Suc.prems have "froot F e = Some ((w * w) ^ 2 ^ k)" by simp
  then show ?case by (simp add: power_mult flip: power2_eq_square)
qed simp

lemma wire_polys_correct:
  assumes m: "froot F e = Some w" "e \<le> 20" "32 \<le> INTEGER_BITS F"
    and vals: "\<forall>v \<in> set fvs. v \<noteq> []"
  obtains fs where "wire_polys F (2 ^ e) fvs = Ok fs" and "length fs = length fvs"
    and "\<And>i. i < length fvs \<Longrightarrow> length (fs ! i) = 2 ^ e"
    and "\<And>i x. i < length fvs \<Longrightarrow> poly (fs ! i) x = interpolated (2 ^ e) w (coeff (fvs ! i)) x"
proof -
  let ?inv = "inverse (of_nat (2 ^ e) :: 'f)"
  let ?step = "\<lambda>vals f.
      and_then (map_err FftErr (discrete_fourier_transform F (replicate (2 ^ e) 0) vals (2 ^ e))) (\<lambda>coefficients.
        Ok (f @ [discrete_fourier_transform_inv_finish coefficients (2 ^ e) ?inv]))"
  have one: "\<exists>c. discrete_fourier_transform F (replicate (2 ^ e) 0) v (2 ^ e) = Ok c \<and> length c = 2 ^ e \<and>
      (\<forall>x. poly (discrete_fourier_transform_inv_finish c (2 ^ e) ?inv) x = interpolated (2 ^ e) w (coeff v) x)"
    if v: "v \<noteq> []" for v
  proof -
    obtain c where c: "discrete_fourier_transform F (replicate (2 ^ e) 0) v (2 ^ e) = Ok c" "length c = 2 ^ e"
      "is_dft w (2 ^ e) (coeff v) c"
      using dft_correct [OF m(2) _ v, of "replicate (2 ^ e) 0"] m(1) by auto
    then show ?thesis
      using inv_finish_is_dft [OF m(1) c(3)] by (simp add: poly_def interpolated_def)
  qed
  have "\<exists>fs. for_each ?step fvs acc = Ok (acc @ fs) \<and> length fs = length fvs \<and>
      (\<forall>i < length fvs. length (fs ! i) = 2 ^ e \<and> (\<forall>x. poly (fs ! i) x = interpolated (2 ^ e) w (coeff (fvs ! i)) x))" for acc
    using vals
  proof (induction fvs arbitrary: acc)
    case (Cons v vs)
    have "v \<noteq> []" using Cons.prems by simp
    from one [OF this] obtain c where c: "discrete_fourier_transform F (replicate (2 ^ e) 0) v (2 ^ e) = Ok c" "length c = 2 ^ e"
      "\<forall>x. poly (discrete_fourier_transform_inv_finish c (2 ^ e) ?inv) x = interpolated (2 ^ e) w (coeff v) x"
      by blast
    let ?f = "discrete_fourier_transform_inv_finish c (2 ^ e) ?inv"
    obtain fs where fs: "for_each ?step vs (acc @ [?f]) = Ok ((acc @ [?f]) @ fs)" "length fs = length vs"
      "\<forall>i < length vs. length (fs ! i) = 2 ^ e \<and> (\<forall>x. poly (fs ! i) x = interpolated (2 ^ e) w (coeff (vs ! i)) x)"
      using Cons by (metis list.set_intros(2))
    show ?case
      using c fs by (intro exI [of _ "?f # fs"]) (auto simp: nth_Cons split: nat.split)
  qed simp
  from this [of "[]"] obtain fs where fs: "for_each ?step fvs [] = Ok fs" "length fs = length fvs"
    "\<forall>i < length fvs. length (fs ! i) = 2 ^ e \<and> (\<forall>x. poly (fs ! i) x = interpolated (2 ^ e) w (coeff (fvs ! i)) x)"
    by auto
  have "from_integer F (2 ^ e) = of_nat (2 ^ e)" by (rule from_integer [OF small_power_fits [OF m(2,3)]])
  then have "wire_polys F (2 ^ e) fvs = Ok fs"
    using fs(1) small_power_fits [OF m(2,3)] by (simp add: wire_polys_def Let_def)
  with fs that show ?thesis by blast
qed

end

section \<open>Circuits with one gadget\<close>

text \<open>
  The contract of a validity circuit that calls a single gadget on inputs that do not depend on the
  gadget's answers: \<open>wires\<close> are the inputs of the calls and \<open>outcome_of\<close> is the circuit's output as a
  function of the answers.
\<close>

locale circuit = prime_field F for F :: "'f::field field_element" +
  fixes T :: "('m, 'r, 'f) flp_type" and g :: "'f gadget"
    and wires :: "'f list \<Rightarrow> 'f list \<Rightarrow> nat \<Rightarrow> 'f list list"
    and outcome_of :: "'f list \<Rightarrow> 'f list \<Rightarrow> nat \<Rightarrow> 'f list \<Rightarrow> 'f"
  assumes field: "flp_field T = F" and bits: "32 \<le> INTEGER_BITS F"
    and gadgets: "gadgets T = Ok [g]"
    and gadget: "0 < arity g" "0 < degree g"
      "next_power_of_two (wire_poly_len (calls g) * degree g) \<le> 2 ^ 20"
    and wires: "length input = input_len T \<Longrightarrow> length jr = joint_rand_len T \<Longrightarrow> length (wires input jr ns) = calls g"
      "length input = input_len T \<Longrightarrow> length jr = joint_rand_len T \<Longrightarrow> \<forall>w \<in> set (wires input jr ns). length w = arity g"
    and valid: "length input = input_len T \<Longrightarrow> length jr = joint_rand_len T \<Longrightarrow> ns < modulus F \<Longrightarrow>
      valid T [s] input jr ns =
      and_then (run_calls s (wires input jr ns)) (\<lambda>(ys, s). Ok (outcome_of input jr ns ys, [s]))"
    and lens: "prove_rand_len T = arity g" "query_rand_len T = 1" "verifier_len T = arity g + 2"
      "proof_len T = arity g + gadget_poly_len (degree g) (wire_poly_len (calls g))"
begin

abbreviation wire_len :: nat where "wire_len \<equiv> wire_poly_len (calls g)"
abbreviation poly_len :: nat where "poly_len \<equiv> gadget_poly_len (degree g) wire_len"

definition wire_log :: nat where "wire_log = (LEAST e. wire_len = 2 ^ e)"
definition wire_root :: 'f where "wire_root = the (froot F wire_log)"

lemma wire_len_power: "wire_len = 2 ^ wire_log"
  unfolding wire_log_def using next_power_of_two_power [of "1 + calls g"]
  by (metis (mono_tags, lifting) LeastI wire_poly_len_def)

lemma wire_len_le: "wire_len \<le> 2 ^ 20"
proof -
  have "wire_len * 1 \<le> wire_len * degree g" using gadget(2) by (intro mult_le_mono2) simp
  also have "\<dots> \<le> next_power_of_two (wire_len * degree g)" by (rule next_power_of_two_ge)
  finally show ?thesis using gadget(3) by simp
qed

lemma wire_log_le: "wire_log \<le> 20"
  using wire_len_le unfolding wire_len_power by (simp only: power_increasing_iff one_less_numeral_iff semiring_norm)

lemma wire_root: "froot F wire_log = Some wire_root"
  using froot_20 [OF wire_log_le] by (auto simp: wire_root_def)

lemma calls_less: "calls g < wire_len"
  using next_power_of_two_ge [of "1 + calls g"] by (simp add: wire_poly_len_def)

text \<open>The polynomial of wire \<open>i\<close> at \<open>x\<close>, for the given seeds and gadget inputs.\<close>

definition wire_value :: "'f list \<Rightarrow> 'f list list \<Rightarrow> nat \<Rightarrow> 'f \<Rightarrow> 'f" where
  "wire_value seeds inps i x = interpolated wire_len wire_root (coeff (wire_table (calls g) (arity g) seeds inps ! i)) x"

lemma wire_value_node:
  assumes "k < length inps" and "i < arity g" and "length inps = calls g"
  shows "wire_value seeds inps i (wire_root ^ Suc k) = inps ! k ! i"
  using assms calls_less interpolated_node [OF wire_root, of "Suc k"]
  by (simp add: wire_value_def wire_len_power wire_table_nth coeff_def nth_append del: power_Suc)

lemma gadget_nodes:
  assumes "length inps = calls g" and "\<forall>w \<in> set inps. length w = arity g" and "k < calls g"
  shows "map (\<lambda>i. wire_value seeds inps i (wire_root ^ Suc k)) [0..<arity g] = inps ! k"
  using assms by (intro nth_equalityI) (simp_all add: wire_value_node del: power_Suc)

lemma wire_polys_table:
  obtains fs where "wire_polys F wire_len (wire_table (calls g) (arity g) seeds inps) = Ok fs"
    and "length fs = arity g" and "\<And>i. i < arity g \<Longrightarrow> length (fs ! i) = wire_len"
    and "\<And>i x. i < arity g \<Longrightarrow> poly (fs ! i) x = wire_value seeds inps i x"
proof -
  have "\<forall>v \<in> set (wire_table (calls g) (arity g) seeds inps). v \<noteq> []" by (auto simp: wire_table_def)
  from wire_polys_correct [OF wire_root wire_log_le bits this] that show ?thesis
    unfolding wire_value_def wire_len_power length_wire_table by blast
qed

end

context circuit
begin

lemma ProveShim_new_table:
  assumes "length pr = arity g"
  shows "ProveShim_new g pr = Ok (ProveShim g (wire_table (calls g) (arity g) pr []) 1)"
  using assms by (simp add: ProveShim_new_def wire_table_def)

lemma map_hd_wire_table: "length seeds = a \<Longrightarrow> map hd (wire_table n a seeds inps) = seeds"
  using map_nth [of seeds] by (simp add: wire_table_def comp_def)

lemma poly_len_le: "poly_len \<le> wire_len * degree g"
proof -
  have "degree g * (wire_len - 1) + 1 \<le> degree g * (wire_len - 1) + degree g" using gadget(2) by simp
  also have "\<dots> = degree g * Suc (wire_len - 1)" by simp
  also have "Suc (wire_len - 1) = wire_len" using calls_less by simp
  finally show ?thesis by (simp add: gadget_poly_len_def mult.commute)
qed

lemma QueryShim_new_table:
  assumes "length seeds = arity g" and "length P = poly_len"
  obtains pv st where "QueryShim_new F g r (seeds @ P) =
      Ok (QueryShim g (wire_table (calls g) (arity g) seeds []) pv (poly P r) st 1)"
    and "calls g * st < length pv" and "\<And>k. k \<le> calls g \<Longrightarrow> pv ! (k * st) = poly P (wire_root ^ k)"
proof -
  let ?p = "wire_len * degree g"
  obtain D where D: "next_power_of_two ?p = 2 ^ D" "D \<le> 20" using power_of_two_small gadget(3) by metis
  obtain W where W: "froot F D = Some W" using froot_20 [OF D(2)] by blast
  have P: "P \<noteq> []" "length P \<le> 2 ^ D"
    using assms(2) poly_len_le next_power_of_two_ge [of ?p] D(1) by (auto simp: gadget_poly_len_def)
  obtain pv where pv: "discrete_fourier_transform F (replicate (2 ^ D) 0) P (2 ^ D) = Ok pv" "length pv = 2 ^ D"
    "\<And>i. i < 2 ^ D \<Longrightarrow> pv ! i = poly P (W ^ i)"
    using dft_evaluates [OF W D(2) _ P, of "replicate (2 ^ D) 0"] by auto
  have pos: "0 < ?p" using gadget(2) calls_less by simp
  have "?p \<le> 2 ^ 20" using next_power_of_two_ge [of ?p] gadget(3) by linarith
  then have lp: "log2 (of_nat ?p) = (Ok D :: (nat, flp_error) outcome)" using pos by (intro log2_ceiling D(1)) simp_all
  have lm: "log2 (of_nat wire_len) = (Ok wire_log :: (nat, flp_error) outcome)"
    unfolding wire_len_power using wire_log_le by (intro log2_power) simp
  have "wire_len \<le> 2 ^ D" using next_power_of_two_ge [of ?p] D(1) gadget(2) by (metis dual_order.trans less_eq_Suc_le mult.right_neutral mult_le_mono2 One_nat_def)
  then have le: "wire_log \<le> D" unfolding wire_len_power by (simp only: power_increasing_iff one_less_numeral_iff semiring_norm)
  have root: "wire_root = W ^ 2 ^ (D - wire_log)"
    using froot_descend [of wire_log "D - wire_log" W] W wire_root le by simp
  have bound: "k * 2 ^ (D - wire_log) < 2 ^ D" if "k \<le> calls g" for k
  proof -
    have "k * 2 ^ (D - wire_log) < wire_len * 2 ^ (D - wire_log)" using that calls_less by simp
    then show ?thesis unfolding wire_len_power using le by (simp flip: power_add)
  qed
  have "QueryShim_new F g r (seeds @ P) =
      Ok (QueryShim g (wire_table (calls g) (arity g) seeds []) pv (poly P r) (2 ^ (D - wire_log)) 1)"
    using assms(1) pv(1) lp lm le D(1)
    by (simp add: QueryShim_new_def Let_def wire_poly_len_def nth_append wire_table_def cong: map_cong)
  moreover have "pv ! (k * 2 ^ (D - wire_log)) = poly P (wire_root ^ k)" if "k \<le> calls g" for k
    using pv(3) [OF bound [OF that]] by (simp add: root mult.commute flip: power_mult)
  ultimately show ?thesis using that bound [of "calls g"] pv(2) by auto
qed

text \<open>The verifier message for a proof split into seeds and the coefficients of the gadget polynomial.\<close>

definition message :: "'f list \<Rightarrow> 'f list \<Rightarrow> 'f list \<Rightarrow> 'f \<Rightarrow> 'f list \<Rightarrow> nat \<Rightarrow> 'f list" where
  "message input seeds P r jr ns =
     outcome_of input jr ns (map (\<lambda>k. poly P (wire_root ^ k)) [1..<Suc (calls g)]) #
     map (\<lambda>i. wire_value seeds (wires input jr ns) i r) [0..<arity g] @ [poly P r]"

lemma query_gadget_value:
  "query_gadget F (r, QueryShim g (wire_table (calls g) (arity g) seeds inps) pv pr st c) verifier =
     Ok (verifier @ map (\<lambda>i. wire_value seeds inps i r) [0..<arity g] @ [pr])"
proof -
  obtain fs where fs: "wire_polys F wire_len (wire_table (calls g) (arity g) seeds inps) = Ok fs" "length fs = arity g"
    "\<And>i x. i < arity g \<Longrightarrow> poly (fs ! i) x = wire_value seeds inps i x"
    using wire_polys_table by metis
  have "map (\<lambda>p. poly p r) fs = map (\<lambda>i. wire_value seeds inps i r) [0..<arity g]"
    using fs(2,3) by (intro nth_equalityI) simp_all
  with fs(1) show ?thesis by (simp add: query_gadget_def Let_def wire_poly_len_def)
qed

lemma query_value:
  assumes "length input = input_len T" and "length jr = joint_rand_len T" and ns: "ns < modulus F"
    and "length seeds = arity g" and "length P = poly_len" and r: "r ^ wire_len \<noteq> 1"
  shows "query T input (seeds @ P) [r] jr ns = Ok (message input seeds P r jr ns)"
proof -
  let ?inps = "wires input jr ns"
  have w: "length ?inps = calls g" "\<forall>w \<in> set ?inps. length w = arity g" using wires assms by blast+
  obtain pv st where shim: "QueryShim_new F g r (seeds @ P) =
      Ok (QueryShim g (wire_table (calls g) (arity g) seeds []) pv (poly P r) st 1)" "calls g * st < length pv"
    "\<And>k. k \<le> calls g \<Longrightarrow> pv ! (k * st) = poly P (wire_root ^ k)"
    using QueryShim_new_table [OF assms(4,5)] by metis
  have fits: "wire_len < 2 ^ INTEGER_BITS F"
    unfolding wire_len_power by (rule small_power_fits [OF wire_log_le bits])
  have "slice (seeds @ P) 0 (arity g + degree g * (wire_len - 1) + 1) = seeds @ P"
    using assms(4,5) by (simp add: slice_def gadget_poly_len_def)
  then have shims: "query_shims F [g] (seeds @ P) [r] =
      Ok [QueryShim g (wire_table (calls g) (arity g) seeds []) pv (poly P r) st 1]"
    using assms(4,5) r fits shim(1) fpow [OF fits]
    by (simp add: query_shims_def Let_def wire_poly_len_def gadget_poly_len_def)
  have "run_calls (QueryShim g (wire_table (calls g) (arity g) seeds []) pv (poly P r) st 1) ?inps =
      Ok (map (\<lambda>k. poly P (wire_root ^ k)) [1..<Suc (calls g)],
        QueryShim g (wire_table (calls g) (arity g) seeds ?inps) pv (poly P r) st (Suc (calls g)))"
  proof -
    have "map (\<lambda>k. pv ! (k * st)) [1..<Suc (calls g)] = map (\<lambda>k. poly P (wire_root ^ k)) [1..<Suc (calls g)]"
      using shim(3) by (intro map_cong refl) auto
    then show ?thesis
      using run_calls_query [of ?inps g "[]" "calls g" st pv seeds "poly P r"] w shim(2) by (simp del: upt_Suc)
  qed
  then have "valid T [QueryShim g (wire_table (calls g) (arity g) seeds []) pv (poly P r) st 1] input jr ns =
      Ok (outcome_of input jr ns (map (\<lambda>k. poly P (wire_root ^ k)) [1..<Suc (calls g)]),
        [QueryShim g (wire_table (calls g) (arity g) seeds ?inps) pv (poly P r) st (Suc (calls g))])"
    using valid [OF assms(1,2) ns] by simp
  with shims show ?thesis
    using assms(1,2,4,5) by (simp add: query_def lens gadgets field query_gadget_value message_def)
qed

lemma query_rejects_root:
  assumes "length input = input_len T" and "length jr = joint_rand_len T" and "length proof = proof_len T"
    and "r ^ wire_len = 1"
  shows "query T input proof [r] jr ns = Err QueryError"
proof -
  have fits: "wire_len < 2 ^ INTEGER_BITS F"
    unfolding wire_len_power by (rule small_power_fits [OF wire_log_le bits])
  then show ?thesis
    using assms fpow [OF fits] by (simp add: query_def lens gadgets field query_shims_def Let_def wire_poly_len_def)
qed

lemma length_message: "length (message input seeds P r jr ns) = verifier_len T"
  by (simp add: message_def lens)

lemma decide_message:
  "decide T (v # ws @ [y]) = Ok (v = 0 \<and> gadget_value g ws = y)" if "length ws = arity g"
proof -
  have "slice (u # ws @ [y]) 1 (1 + (1 + arity g) - 1) = ws" for u using that by (simp add: slice_def)
  moreover have "(v # ws @ [y]) ! (1 + (1 + arity g) - 1) = y" using that by (simp add: nth_append)
  ultimately show ?thesis
    using that by (simp add: decide_def lens gadgets gadget_call_value gadget(1))
qed

text \<open>The circuit run on its own.\<close>

definition circuit_value :: "'f list \<Rightarrow> 'f list \<Rightarrow> nat \<Rightarrow> 'f" where
  "circuit_value input jr ns = outcome_of input jr ns (map (gadget_value g) (wires input jr ns))"

lemma plain_valid:
  assumes "length input = input_len T" and "length jr = joint_rand_len T" and "ns < modulus F"
  shows "valid T [Plain g] input jr ns = Ok (circuit_value input jr ns, [Plain g])"
proof -
  have "run_calls (Plain g) inps = Ok (map (gadget_value g) inps, Plain g)" if "\<forall>w \<in> set inps. length w = arity g" for inps
    using that by (induction inps) (simp_all add: gadget_call_value gadget(1))
  with wires(2) [OF assms(1,2)] valid [OF assms] show ?thesis by (simp add: circuit_value_def)
qed

end

section \<open>Completeness\<close>

text \<open>
  With a gadget whose polynomial call is correct, an honest proof is accepted exactly when the circuit
  evaluates to zero.
\<close>

locale complete_circuit = circuit +
  assumes wf: "gadget_wf (wire_poly_len (calls g)) g"
begin

lemma prove_gadget_value:
  assumes "length pr = arity g"
  shows "\<exists>p. prove_gadget F (ProveShim g (wire_table (calls g) (arity g) pr inps) c)
      (replicate (arity g + next_power_of_two poly_len) 0, 0) = Ok (pr @ p, arity g + poly_len) \<and>
    length p = next_power_of_two poly_len \<and>
    holds_poly p poly_len (\<lambda>x. gadget_value g (map (\<lambda>i. wire_value pr inps i x) [0..<arity g]))"
proof -
  obtain fs where fs: "wire_polys F wire_len (wire_table (calls g) (arity g) pr inps) = Ok fs" "length fs = arity g"
    "\<And>i. i < arity g \<Longrightarrow> length (fs ! i) = wire_len" "\<And>i x. i < arity g \<Longrightarrow> poly (fs ! i) x = wire_value pr inps i x"
    using wire_polys_table by metis
  let ?n = "next_power_of_two poly_len"
  have "\<forall>f \<in> set fs. length f = wire_len" using fs(2,3) by (auto simp: in_set_conv_nth)
  then obtain p where p: "call_poly F g (replicate ?n 0) fs = Ok p" "gadget_poly_ok g wire_len fs p"
    using call_poly_correct [OF wf _ fs(2), of "replicate ?n 0"] calls_less by auto
  have "map (\<lambda>f. poly f x) fs = map (\<lambda>i. wire_value pr inps i x) [0..<arity g]" for x
    using fs(2,4) by (intro nth_equalityI) simp_all
  then have holds: "length p = ?n" "holds_poly p poly_len (\<lambda>x. gadget_value g (map (\<lambda>i. wire_value pr inps i x) [0..<arity g]))"
    using p(2) by (simp_all add: gadget_poly_ok_def)
  have copy: "copy_at (replicate (arity g + ?n) 0) 0 pr = pr @ replicate ?n 0"
    using assms by (simp add: copy_at_def)
  have slice: "slice (pr @ replicate ?n 0) (arity g) (arity g + ?n) = replicate ?n 0"
    using assms by (simp add: slice_def)
  have stored: "copy_at (pr @ replicate ?n 0) (arity g) p = pr @ p"
    using assms holds(1) by (simp add: copy_at_def)
  show ?thesis
    using fs(1) p(1) holds copy slice stored assms
    by (simp add: prove_gadget_def Let_def map_hd_wire_table)
qed

lemma prove_value:
  assumes "length input = input_len T" and "length jr = joint_rand_len T" and pr: "length pr = arity g"
  shows "\<exists>P. prove T input pr jr = Ok (pr @ P) \<and> length P = poly_len \<and>
    (\<forall>x. poly P x = gadget_value g (map (\<lambda>i. wire_value pr (wires input jr 1) i x) [0..<arity g]))"
proof -
  let ?inps = "wires input jr 1" and ?n = "next_power_of_two poly_len"
  have w: "length ?inps = calls g" "\<forall>w \<in> set ?inps. length w = arity g" using wires assms by blast+
  have "prove_shims [g] pr = Ok ([ProveShim g (wire_table (calls g) (arity g) pr []) 1], arity g)"
    using pr by (simp add: prove_shims_def slice_def ProveShim_new_table)
  moreover have "valid T [ProveShim g (wire_table (calls g) (arity g) pr []) 1] input jr 1 =
      Ok (outcome_of input jr 1 (map (gadget_value g) ?inps),
        [ProveShim g (wire_table (calls g) (arity g) pr ?inps) (Suc (calls g))])"
    using run_calls_prove [OF w(2) gadget(1), of "[]" "calls g" pr] valid [OF assms(1,2) modulus_gt_1] w(1) by simp
  moreover obtain p where p: "prove_gadget F (ProveShim g (wire_table (calls g) (arity g) pr ?inps) (Suc (calls g)))
      (replicate (arity g + ?n) 0, 0) = Ok (pr @ p, arity g + poly_len)" "length p = ?n"
    "holds_poly p poly_len (\<lambda>x. gadget_value g (map (\<lambda>i. wire_value pr ?inps i x) [0..<arity g]))"
    using prove_gadget_value [OF pr] by blast
  ultimately have "prove T input pr jr = Ok (take (arity g + poly_len) (pr @ p))"
    using assms by (simp add: prove_def gadgets field lens Let_def)
  then have "prove T input pr jr = Ok (pr @ take poly_len p)" using pr by simp
  moreover have "poly (take poly_len p) x = poly p x" for x
    using p(3) by (intro poly_truncate) (simp add: holds_poly_def)
  moreover have "length (take poly_len p) = poly_len" using p(2) next_power_of_two_ge [of poly_len] by simp
  ultimately show ?thesis using p(3) by (auto simp: holds_poly_def)
qed

theorem completeness:
  assumes "length input = input_len T" and "length jr = joint_rand_len T" and "length pr = prove_rand_len T"
    and "r ^ wire_len \<noteq> 1"
  shows "and_then (prove T input pr jr) (\<lambda>proof. and_then (query T input proof [r] jr 1) (decide T)) =
    Ok (circuit_value input jr 1 = 0)"
proof -
  have pr: "length pr = arity g" using assms(3) by (simp add: lens)
  obtain P where P: "prove T input pr jr = Ok (pr @ P)" "length P = poly_len"
    "\<And>x. poly P x = gadget_value g (map (\<lambda>i. wire_value pr (wires input jr 1) i x) [0..<arity g])"
    using prove_value [OF assms(1,2) pr] by blast
  let ?inps = "wires input jr 1"
  have w: "length ?inps = calls g" "\<forall>w \<in> set ?inps. length w = arity g" using wires assms by blast+
  have answer: "poly P (wire_root ^ Suc k) = gadget_value g (?inps ! k)" if "k < calls g" for k
    using gadget_nodes [OF w that] by (simp add: P(3) del: power_Suc)
  have "map (\<lambda>k. poly P (wire_root ^ k)) [1..<Suc (calls g)] = map (gadget_value g) ?inps"
    using w(1) answer by (intro nth_equalityI) (simp_all del: upt_Suc power_Suc)
  then show ?thesis
    using query_value [OF assms(1,2) modulus_gt_1 pr P(2) assms(4)] P(1)
    by (simp add: message_def decide_message circuit_value_def P(3))
qed

end

section \<open>Linearity\<close>

lemma vector_sum_Cons: "vector_sum n (v # vs) = map2 (+) v (vector_sum n vs)"
  by (simp add: vector_sum_def)

lemma poly_vector_sum:
  assumes "\<forall>p \<in> set ps. length p = n"
  shows "poly (vector_sum n ps) x = (\<Sum>p\<leftarrow>ps. poly p x)"
  using assms
proof (induction ps)
  case Nil
  then show ?case by (simp add: vector_sum_def poly_zero)
next
  case (Cons p ps)
  then show ?case by (simp add: vector_sum_Cons poly_def sum.distrib distrib_right)
qed

text \<open>
  A circuit that is affine in its input, up to the number of shares: the inputs of the gadget, and the
  output as a function of the gadget's answers, on additive shares add up to those on the sum.
\<close>

locale linear_circuit = circuit F T g wires outcome_of
  for F :: "'f::field field_element" and T :: "('m, 'r, 'f) flp_type" and g wires outcome_of +
  assumes wires_sum: "inputs \<noteq> [] \<Longrightarrow> \<forall>x \<in> set inputs. length x = input_len T \<Longrightarrow> length jr = joint_rand_len T \<Longrightarrow>
      length inputs < modulus F \<Longrightarrow> k < calls g \<Longrightarrow>
      wires (vector_sum (input_len T) inputs) jr 1 ! k =
      vector_sum (arity g) (map (\<lambda>x. wires x jr (length inputs) ! k) inputs)"
    and outcome_sum: "inputs \<noteq> [] \<Longrightarrow> \<forall>x \<in> set inputs. length x = input_len T \<Longrightarrow> length jr = joint_rand_len T \<Longrightarrow>
      length inputs < modulus F \<Longrightarrow>
      length yss = length inputs \<Longrightarrow> \<forall>ys \<in> set yss. length ys = calls g \<Longrightarrow>
      outcome_of (vector_sum (input_len T) inputs) jr 1 (vector_sum (calls g) yss) =
      (\<Sum>(x, ys)\<leftarrow>zip inputs yss. outcome_of x jr (length inputs) ys)"
begin

lemma interpolated_sum:
  "interpolated n w (\<lambda>k. \<Sum>j\<leftarrow>js. a j k) x = (\<Sum>j\<leftarrow>js. interpolated n w (a j) x)"
proof (induction js)
  case Nil
  then show ?case by (simp add: interpolated_def inverse_coeff_def)
qed (simp add: interpolated_add)

lemma wire_value_sum:
  assumes i: "i < arity g" and seeds: "seeds = vector_sum (arity g) (map sd js)" "\<forall>j \<in> set js. length (sd j) = arity g"
    and inps: "length inps = calls g" "\<forall>j \<in> set js. length (ip j) = calls g"
      "\<And>k. k < calls g \<Longrightarrow> inps ! k = vector_sum (arity g) (map (\<lambda>j. ip j ! k) js)"
      "\<forall>j \<in> set js. \<forall>w \<in> set (ip j). length w = arity g"
  shows "wire_value seeds inps i x = (\<Sum>j\<leftarrow>js. wire_value (sd j) (ip j) i x)"
proof -
  have "coeff (wire_table (calls g) (arity g) seeds inps ! i) k =
      (\<Sum>j\<leftarrow>js. coeff (wire_table (calls g) (arity g) (sd j) (ip j) ! i) k)" for k
  proof -
    have row: "coeff (wire_table (calls g) (arity g) sd' ip' ! i) k =
        (case k of 0 \<Rightarrow> sd' ! i | Suc k' \<Rightarrow> if k' < calls g then ip' ! k' ! i else 0)"
      if "length ip' = calls g" for sd' ip'
      using i that by (auto simp: wire_table_nth coeff_def split: nat.split)
    have "(\<Sum>j\<leftarrow>js. coeff (wire_table (calls g) (arity g) (sd j) (ip j) ! i) k) =
        (\<Sum>j\<leftarrow>js. case k of 0 \<Rightarrow> sd j ! i | Suc k' \<Rightarrow> if k' < calls g then ip j ! k' ! i else 0)"
      using inps(2) by (intro arg_cong [where f = sum_list] map_cong refl row) blast
    also have "\<dots> = (case k of 0 \<Rightarrow> seeds ! i | Suc k' \<Rightarrow> if k' < calls g then inps ! k' ! i else 0)"
    proof (cases k)
      case 0
      then show ?thesis using i seeds by (simp add: vector_sum_nth comp_def)
    next
      case (Suc k')
      show ?thesis
      proof (cases "k' < calls g")
        case True
        then have "\<forall>j \<in> set js. length (ip j ! k') = arity g" using inps(2,4) by auto
        then show ?thesis using Suc True i inps(3) [OF True] by (simp add: vector_sum_nth comp_def)
      qed (simp add: Suc)
    qed
    finally show ?thesis using row [OF inps(1)] by simp
  qed
  then have "coeff (wire_table (calls g) (arity g) seeds inps ! i) =
      (\<lambda>k. \<Sum>j\<leftarrow>js. coeff (wire_table (calls g) (arity g) (sd j) (ip j) ! i) k)" ..
  then show ?thesis unfolding wire_value_def by (simp only: interpolated_sum)
qed

text \<open>A share of an input and a proof: the input share, the seeds' share, the polynomial's share.\<close>

definition share_ok :: "'f list \<times> 'f list \<times> 'f list \<Rightarrow> bool" where
  "share_ok = (\<lambda>(x, sd, P). length x = input_len T \<and> length sd = arity g \<and> length P = poly_len)"

lemma message_sum:
  assumes shares: "shares \<noteq> []" "\<forall>s \<in> set shares. share_ok s" and jr: "length jr = joint_rand_len T"
    and n: "length shares < modulus F"
  shows "vector_sum (verifier_len T) (map (\<lambda>(x, sd, P). message x sd P r jr (length shares)) shares) =
    message (vector_sum (input_len T) (map fst shares)) (vector_sum (arity g) (map (fst \<circ> snd) shares))
      (vector_sum poly_len (map (snd \<circ> snd) shares)) r jr 1"
    (is "vector_sum _ ?ms = message ?x ?sd ?P r jr 1")
proof (rule nth_equalityI)
  have len: "\<forall>m \<in> set ?ms. length m = verifier_len T" by (auto simp: length_message)
  then show "length (vector_sum (verifier_len T) ?ms) = length (message ?x ?sd ?P r jr 1)"
    by (simp add: length_message)
  let ?n = "length shares"
  have xs: "map fst shares \<noteq> []" "\<forall>x \<in> set (map fst shares). length x = input_len T" "length (map fst shares) = ?n"
    using shares by (auto simp: share_ok_def)
  have x: "length ?x = input_len T" using xs(2) by simp
  have P: "\<forall>p \<in> set (map (snd \<circ> snd) shares). length p = poly_len" using shares(2) by (auto simp: share_ok_def)
  have wire: "wires ?x jr 1 ! k = vector_sum (arity g) (map (\<lambda>s. wires (fst s) jr ?n ! k) shares)" if "k < calls g" for k
    using wires_sum [OF xs(1,2) jr _ that] n xs(3) by (simp add: comp_def)
  fix i
  assume "i < length (vector_sum (verifier_len T) ?ms)"
  then have i: "i < verifier_len T" using len by simp
  then have lhs: "vector_sum (verifier_len T) ?ms ! i = (\<Sum>s\<leftarrow>shares. (case s of (x, sd, P) \<Rightarrow> message x sd P r jr ?n) ! i)"
    using vector_sum_nth [OF len i] by (simp add: comp_def)
  consider "i = 0" | j where "i = Suc j" "j < arity g" | "i = Suc (arity g)"
    using i unfolding lens by (cases i) (auto simp: less_Suc_eq)
  then show "vector_sum (verifier_len T) ?ms ! i = message ?x ?sd ?P r jr 1 ! i"
  proof cases
    case 1
    define ys where "ys = (\<lambda>s :: 'f list \<times> 'f list \<times> 'f list. map (\<lambda>k. poly (snd (snd s)) (wire_root ^ k)) [1..<Suc (calls g)])"
    have ys: "length (map ys shares) = length (map fst shares)" "\<forall>y \<in> set (map ys shares). length y = calls g"
      by (auto simp: ys_def simp del: upt_Suc)
    have "vector_sum (calls g) (map ys shares) = map (\<lambda>k. poly ?P (wire_root ^ k)) [1..<Suc (calls g)]"
      using ys(2) P by (intro nth_equalityI)
        (simp_all add: vector_sum_nth poly_vector_sum ys_def comp_def del: upt_Suc)
    moreover have "zip (map fst shares) (map ys shares) = map (\<lambda>s. (fst s, ys s)) shares"
      by (simp add: zip_map_map zip_same_conv_map)
    ultimately have "outcome_of ?x jr 1 (map (\<lambda>k. poly ?P (wire_root ^ k)) [1..<Suc (calls g)]) =
        (\<Sum>s\<leftarrow>shares. outcome_of (fst s) jr ?n (ys s))"
      using outcome_sum [OF xs(1,2) jr _ ys] n xs(3) by (simp add: comp_def)
    then show ?thesis
      unfolding lhs using 1 by (simp add: message_def ys_def case_prod_beta del: upt_Suc)
  next
    case 2
    have "wire_value ?sd (wires ?x jr 1) j r = (\<Sum>s\<leftarrow>shares. wire_value (fst (snd s)) (wires (fst s) jr ?n) j r)"
    proof (rule wire_value_sum [OF 2(2)])
      show "?sd = vector_sum (arity g) (map (\<lambda>s. fst (snd s)) shares)" by (simp add: comp_def)
      show "\<forall>s \<in> set shares. length (fst (snd s)) = arity g" using shares(2) by (auto simp: share_ok_def)
      show "length (wires ?x jr 1) = calls g" using wires(1) [OF x jr] .
      show "\<forall>s \<in> set shares. length (wires (fst s) jr ?n) = calls g" using xs(2) wires(1) jr by simp
      show "\<forall>s \<in> set shares. \<forall>w \<in> set (wires (fst s) jr ?n). length w = arity g"
        using xs(2) wires(2) [OF _ jr] by (metis image_eqI list.set_map)
      show "wires ?x jr 1 ! k = vector_sum (arity g) (map (\<lambda>s. wires (fst s) jr ?n ! k) shares)" if "k < calls g" for k
        using wire [OF that] .
    qed
    then show ?thesis
      unfolding lhs using 2 by (simp add: message_def nth_append case_prod_beta del: upt_Suc)
  next
    case 3
    then show ?thesis
      unfolding lhs using P by (simp add: message_def nth_append case_prod_beta poly_vector_sum comp_def del: upt_Suc)
  qed
qed

lemma map_outcome_all: "(\<And>s. s \<in> set ss \<Longrightarrow> f s = Ok (h s)) \<Longrightarrow> map f ss = map Ok (map h ss)"
  by simp

theorem query_linear:
  assumes shares: "shares \<noteq> []" "\<forall>s \<in> set shares. share_ok s" and jr: "length jr = joint_rand_len T"
    and n: "length shares < modulus F" and r: "r ^ wire_len \<noteq> 1"
  shows "\<exists>vs. map (\<lambda>(x, sd, P). query T x (sd @ P) [r] jr (length shares)) shares = map Ok vs \<and>
    query T (vector_sum (input_len T) (map fst shares))
      (vector_sum (arity g) (map (fst \<circ> snd) shares) @ vector_sum poly_len (map (snd \<circ> snd) shares)) [r] jr 1 =
    Ok (vector_sum (verifier_len T) vs)"
proof (intro exI conjI)
  let ?vs = "map (\<lambda>(x, sd, P). message x sd P r jr (length shares)) shares"
  have "query T x (sd @ P) [r] jr (length shares) = Ok (message x sd P r jr (length shares))" if "(x, sd, P) \<in> set shares" for x sd P
    using shares(2) that jr n r by (intro query_value) (auto simp: share_ok_def)
  then show "map (\<lambda>(x, sd, P). query T x (sd @ P) [r] jr (length shares)) shares = map Ok ?vs" by auto
  have "\<forall>x \<in> set (map fst shares). length x = input_len T" "\<forall>x \<in> set (map (fst \<circ> snd) shares). length x = arity g"
    "\<forall>x \<in> set (map (snd \<circ> snd) shares). length x = poly_len" using shares(2) by (auto simp: share_ok_def)
  then show "query T (vector_sum (input_len T) (map fst shares))
      (vector_sum (arity g) (map (fst \<circ> snd) shares) @ vector_sum poly_len (map (snd \<circ> snd) shares)) [r] jr 1 =
    Ok (vector_sum (verifier_len T) ?vs)"
    unfolding message_sum [OF shares jr n] using jr r modulus_gt_1 by (intro query_value) simp_all
qed

end

end
