(* ===== verification/Types.thy ===== *)
theory Types
  imports Flp
begin

text \<open>
  The measurement types of \<^verbatim>\<open>src/flp/types.rs\<close>: \<open>Count\<close>, \<open>Sum\<close>, \<open>Average\<close>, \<open>Histogram\<close> and \<open>SumVec\<close>.  Each
  is a dictionary built from its parameters; its validity circuit satisfies the contracts of the
  proof system, so that honest proofs verify and verification is linear.
\<close>

section \<open>Shared circuits\<close>

definition call_gadget_on_vec_entries :: "'f::field shim \<Rightarrow> 'f list \<Rightarrow> 'f \<Rightarrow> ('f \<times> 'f shim, flp_error) outcome" where
  "call_gadget_on_vec_entries g input rnd =
     and_then
       (for_each (\<lambda>chunk ((range_check, r), g).
          and_then (shim_call g chunk) (\<lambda>(y, g). Ok ((range_check + r * y, r * rnd), g)))
          (chunks 1 input) ((0, rnd), g))
       (\<lambda>((range_check, r), g). Ok (range_check, g))"

definition decode_result_one :: "'f field_element \<Rightarrow> 'f list \<Rightarrow> (nat, flp_error) outcome" where
  "decode_result_one F data =
     (if length data \<noteq> 1 then Err DecodeError else Ok (to_integer F (data ! 0)))"

definition decode_result_vec :: "'f field_element \<Rightarrow> 'f list \<Rightarrow> nat \<Rightarrow> (nat list, flp_error) outcome" where
  "decode_result_vec F data expected_len =
     (if length data \<noteq> expected_len then Err DecodeError else Ok (map (to_integer F) data))"

text \<open>The arguments of the multiplications for one chunk, written over the previous chunk's.\<close>

definition fill_chunk :: "'f::field \<Rightarrow> 'f \<Rightarrow> nat \<Rightarrow> 'f list \<Rightarrow> 'f list \<times> 'f \<Rightarrow> 'f list \<times> 'f" where
  "fill_chunk joint_randomness num_shares_inverse chunk_length chunk state =
     (let (padded, r_power) =
            fold (\<lambda>(i, x) (padded, r_power).
                (padded[2 * i := r_power * x, 2 * i + 1 := x - num_shares_inverse], r_power * joint_randomness))
              (zip [0..<chunk_length] chunk) state
      in (fold (\<lambda>i padded. padded[2 * i := 0, 2 * i + 1 := - num_shares_inverse])
            [length chunk..<chunk_length] padded, r_power))"

definition parallel_sum_range_checks ::
  "'f::field field_element \<Rightarrow> 'f shim \<Rightarrow> 'f list \<Rightarrow> 'f \<Rightarrow> nat \<Rightarrow> nat \<Rightarrow> ('f \<times> 'f shim, flp_error) outcome" where
  "parallel_sum_range_checks F gadget input joint_randomness chunk_length num_shares =
     and_then (map_err FieldErr (valid_integer_try_from F num_shares)) (\<lambda>n.
       let num_shares_inverse = inverse (from_integer F n) in
       if chunk_length = 0 then Panic
       else and_then
         (for_each (\<lambda>chunk (output, st, gadget).
            let (padded_chunk, r_power) = fill_chunk joint_randomness num_shares_inverse chunk_length chunk st
            in and_then (shim_call gadget padded_chunk) (\<lambda>(y, gadget).
                 Ok (output + y, (padded_chunk, r_power), gadget)))
            (chunks chunk_length input) (0, (replicate (2 * chunk_length) 0, joint_randomness), gadget))
         (\<lambda>(output, st, gadget). Ok (output, gadget)))"

section \<open>The types\<close>

definition Count :: "'f::field field_element \<Rightarrow> (bool, nat, 'f) flp_type" where
  "Count F = \<lparr>
     flp_field = F,
     encode_measurement = (\<lambda>value. Ok [select 0 1 value]),
     decode_result = (\<lambda>data _. decode_result_one F data),
     gadgets = and_then (Mul_new F 1) (\<lambda>g. Ok [g]),
     valid = (\<lambda>g input joint_rand _.
       if length input \<noteq> 1 then Err ValidError
       else if length joint_rand \<noteq> 0 then Err ValidError
       else if g = [] then Panic
       else and_then (shim_call (g ! 0) [input ! 0, input ! 0]) (\<lambda>(y, s). Ok (y - input ! 0, g[0 := s]))),
     truncate_input = (\<lambda>input. if length input \<noteq> 1 then Err TruncateError else Ok input),
     input_len = 1, proof_len = 5, verifier_len = 4, output_len = 1, joint_rand_len = 0,
     prove_rand_len = 2, query_rand_len = 1 \<rparr>"

text \<open>\<open>Count::new\<close> also computes a range-check polynomial, which nothing reads.\<close>

definition Count_new :: "'f::field field_element \<Rightarrow> ((bool, nat, 'f) flp_type, flp_error) outcome" where
  "Count_new F = and_then (poly_range_check F 0 2) (\<lambda>range_checker :: 'f list. Ok (Count F))"

text \<open>\<open>Sum\<close> and \<open>Average\<close> share everything but the decoding of the result.\<close>

definition sum_type ::
  "'f::field field_element \<Rightarrow> nat \<Rightarrow> 'f list \<Rightarrow> ('f list \<Rightarrow> nat \<Rightarrow> ('r, flp_error) outcome) \<Rightarrow> (nat, 'r, 'f) flp_type" where
  "sum_type F bits range_checker decode = \<lparr>
     flp_field = F,
     encode_measurement = (\<lambda>summand. map_err FieldErr (encode_as_bitvector F summand bits)),
     decode_result = decode,
     gadgets = and_then (PolyEval_new F range_checker bits) (\<lambda>g. Ok [g]),
     valid = (\<lambda>g input joint_rand _.
       if length input \<noteq> bits then Err ValidError
       else if length joint_rand \<noteq> 1 then Err ValidError
       else if g = [] then Panic
       else and_then (call_gadget_on_vec_entries (g ! 0) input (joint_rand ! 0)) (\<lambda>(v, s). Ok (v, g[0 := s]))),
     truncate_input = (\<lambda>input.
       if length input \<noteq> bits then Err TruncateError
       else and_then (map_err FieldErr (decode_bitvector F input)) (\<lambda>res. Ok [res])),
     input_len = bits,
     proof_len = 2 * (next_power_of_two (1 + bits) - 1) + 2,
     verifier_len = 3, output_len = 1, joint_rand_len = 1, prove_rand_len = 1, query_rand_len = 1 \<rparr>"

definition Sum_new :: "'f::field field_element \<Rightarrow> nat \<Rightarrow> ((nat, nat, 'f) flp_type, flp_error) outcome" where
  "Sum_new F bits =
     (if \<not> valid_integer_bitlength F bits then Err EncodeError
      else and_then (poly_range_check F 0 2) (\<lambda>range_checker.
        Ok (sum_type F bits range_checker (\<lambda>data _. decode_result_one F data))))"

text \<open>The result of \<open>Average\<close> is the pair of operands of the final floating-point division.\<close>

definition average_decode_result :: "'f field_element \<Rightarrow> 'f list \<Rightarrow> nat \<Rightarrow> (nat \<times> nat, flp_error) outcome" where
  "average_decode_result F data num_measurements =
     and_then (decode_result_one F data) (\<lambda>data.
       if 2 ^ 64 \<le> data then Err DecodeError else Ok (data, num_measurements))"

definition Average_new :: "'f::field field_element \<Rightarrow> nat \<Rightarrow> ((nat, nat \<times> nat, 'f) flp_type, flp_error) outcome" where
  "Average_new F bits =
     (if \<not> valid_integer_bitlength F bits then Err EncodeError
      else and_then (poly_range_check F 0 2) (\<lambda>range_checker.
        Ok (sum_type F bits range_checker (average_decode_result F))))"

definition Histogram :: "'f::field field_element \<Rightarrow> nat \<Rightarrow> nat \<Rightarrow> nat \<Rightarrow> (nat, nat list, 'f) flp_type" where
  "Histogram F len chunk_length gadget_calls = \<lparr>
     flp_field = F,
     encode_measurement = (\<lambda>measurement.
       if len \<le> measurement then Panic else Ok ((replicate len 0)[measurement := 1])),
     decode_result = (\<lambda>data _. decode_result_vec F data len),
     gadgets = and_then (Mul_new F gadget_calls) (\<lambda>g. Ok [ParallelSum g chunk_length]),
     valid = (\<lambda>g input joint_rand num_shares.
       if length input \<noteq> len then Err ValidError
       else if length joint_rand \<noteq> 2 then Err ValidError
       else if g = [] then Panic
       else and_then (parallel_sum_range_checks F (g ! 0) input (joint_rand ! 0) chunk_length num_shares) (\<lambda>(range_check, s).
         and_then (map_err FieldErr (valid_integer_try_from F num_shares)) (\<lambda>n.
           let sum_check = fold (\<lambda>val sum_check. sum_check + val) input (- inverse (from_integer F n))
           in Ok (joint_rand ! 1 * range_check + joint_rand ! 1 * joint_rand ! 1 * sum_check, g[0 := s])))),
     truncate_input = (\<lambda>input. if length input \<noteq> len then Err TruncateError else Ok input),
     input_len = len,
     proof_len = chunk_length * 2 + 2 * (next_power_of_two (1 + gadget_calls) - 1) + 1,
     verifier_len = 2 + chunk_length * 2,
     output_len = len, joint_rand_len = 2, prove_rand_len = chunk_length * 2, query_rand_len = 1 \<rparr>"

definition ceil_div :: "nat \<Rightarrow> nat \<Rightarrow> nat" where
  "ceil_div len chunk_length = len div chunk_length + (if len mod chunk_length \<noteq> 0 then 1 else 0)"

definition Histogram_new ::
  "'f::field field_element \<Rightarrow> nat \<Rightarrow> nat \<Rightarrow> ((nat, nat list, 'f) flp_type, flp_error) outcome" where
  "Histogram_new F len chunk_length =
     (if len \<ge> 2 ^ 32 - 1 then Err EncodeError
      else if len = 0 then Err InvalidParameter
      else if chunk_length = 0 then Err InvalidParameter
      else Ok (Histogram F len chunk_length (ceil_div len chunk_length)))"

definition SumVec :: "'f::field field_element \<Rightarrow> nat \<Rightarrow> nat \<Rightarrow> nat \<Rightarrow> nat \<Rightarrow> nat \<Rightarrow> nat \<Rightarrow> (nat list, nat list, 'f) flp_type" where
  "SumVec F len bits flattened_len max_value chunk_length gadget_calls = \<lparr>
     flp_field = F,
     encode_measurement = (\<lambda>measurement.
       if length measurement \<noteq> len then Err EncodeError
       else for_each (\<lambda>summand flattened.
              if summand > max_value then Err EncodeError
              else and_then (map_err FieldErr (encode_as_bitvector F summand bits)) (\<lambda>bs. Ok (flattened @ bs)))
            measurement []),
     decode_result = (\<lambda>data _. decode_result_vec F data len),
     gadgets = and_then (Mul_new F gadget_calls) (\<lambda>g. Ok [ParallelSum g chunk_length]),
     valid = (\<lambda>g input joint_rand num_shares.
       if length input \<noteq> flattened_len then Err ValidError
       else if length joint_rand \<noteq> 1 then Err ValidError
       else if g = [] then Panic
       else and_then (parallel_sum_range_checks F (g ! 0) input (joint_rand ! 0) chunk_length num_shares)
              (\<lambda>(v, s). Ok (v, g[0 := s]))),
     truncate_input = (\<lambda>input.
       if length input \<noteq> flattened_len then Err TruncateError
       else for_each (\<lambda>chunk unflattened.
              and_then (map_err FieldErr (decode_bitvector F chunk)) (\<lambda>x. Ok (unflattened @ [x])))
            (chunks bits input) []),
     input_len = flattened_len,
     proof_len = chunk_length * 2 + 2 * (next_power_of_two (1 + gadget_calls) - 1) + 1,
     verifier_len = 2 + chunk_length * 2,
     output_len = len, joint_rand_len = 1, prove_rand_len = chunk_length * 2, query_rand_len = 1 \<rparr>"

definition SumVec_new ::
  "'f::field field_element \<Rightarrow> nat \<Rightarrow> nat \<Rightarrow> nat \<Rightarrow> ((nat list, nat list, 'f) flp_type, flp_error) outcome" where
  "SumVec_new F bits len chunk_length =
     (if usize_bound \<le> bits * len then Err InvalidParameter
      else if bits > INTEGER_BITS F - 1 then Err InvalidParameter
      else if bits = 0 then Err InvalidParameter
      else if len = 0 then Err InvalidParameter
      else if chunk_length = 0 then Err InvalidParameter
      else let flattened_len = bits * len;
               max_value = 2 ^ bits - 1
           in Ok (SumVec F len bits flattened_len max_value chunk_length (ceil_div flattened_len chunk_length)))"

end
