(* ===== verification/Circuits.thy ===== *)
theory Circuits
  imports Types
begin

text \<open>
  The validity circuits of the measurement types satisfy the contracts of the proof system: for each
  type, the inputs of its gadget and its output in closed form, so that an honest proof of an encoded
  measurement is accepted, verification of additive shares is linear, and truncated inputs aggregate
  to the result of the type.
\<close>

section \<open>Fields of at least 32 bits\<close>

locale large_field = prime_field F for F :: "'f::field field_element" +
  assumes large: "32 \<le> INTEGER_BITS F"

interpretation Field64: large_field Field64
  by unfold_locales (simp add: Field64_def make_field_def)

interpretation Field128: large_field Field128
  by unfold_locales (simp add: Field128_def make_field_def)

interpretation FieldPrio2: large_field FieldPrio2
  by unfold_locales (simp add: FieldPrio2_def make_field_def)

section \<open>Calling the gadget in a loop\<close>

lemma for_each_run_calls:
  "for_each (\<lambda>inp (st, s). and_then (shim_call s inp) (\<lambda>(y, s). Ok (upd y st, s))) inps (st, s) =
     and_then (run_calls s inps) (\<lambda>(ys, s). Ok (fold upd ys st, s))"
proof (induction inps arbitrary: st s)
  case (Cons inp inps)
  show ?case
  proof (cases "shim_call s inp")
    case (Ok r)
    then show ?thesis using Cons.IH by (cases r; cases "run_calls (snd r) inps") auto
  qed simp_all
qed simp

lemma fold_linear_combination:
  "fold (\<lambda>y (acc, r). (acc + r * y, r * rnd)) ys (acc, rnd ^ Suc k) =
     (acc + (\<Sum>i<length ys. rnd ^ Suc (k + i) * ys ! i), rnd ^ Suc (k + length ys) :: 'f::field)"
proof (induction ys arbitrary: acc k)
  case (Cons y ys)
  have "fold (\<lambda>y (acc, r). (acc + r * y, r * rnd)) (y # ys) (acc, rnd ^ Suc k) =
      fold (\<lambda>y (acc, r). (acc + r * y, r * rnd)) ys (acc + rnd ^ Suc k * y, rnd ^ Suc (Suc k))"
    by (simp add: mult.commute)
  also have "\<dots> = (acc + rnd ^ Suc k * y + (\<Sum>i<length ys. rnd ^ Suc (Suc k + i) * ys ! i), rnd ^ Suc (Suc k + length ys))"
    by (rule Cons.IH)
  finally show ?case
    by (simp add: sum.lessThan_Suc_shift add.assoc del: sum.lessThan_Suc power_Suc)
qed simp

lemma call_gadget_run_calls:
  "call_gadget_on_vec_entries s input rnd =
     and_then (run_calls s (map (\<lambda>x. [x]) input)) (\<lambda>(ys, s). Ok (\<Sum>i<length ys. rnd ^ Suc i * ys ! i, s))"
proof -
  have "(\<lambda>chunk ((range_check, r), g). and_then (shim_call g chunk) (\<lambda>(y, g). Ok ((range_check + r * y, r * rnd), g))) =
      (\<lambda>inp (st, s). and_then (shim_call s inp) (\<lambda>(y, s). Ok ((\<lambda>y (acc, r). (acc + r * y, r * rnd)) y st, s)))"
    by (auto simp: fun_eq_iff split: prod.splits)
  then show ?thesis
    using fold_linear_combination [of rnd _ 0 0] unfolding call_gadget_on_vec_entries_def chunks_one
    by (cases "run_calls s (map (\<lambda>x. [x]) input)") (auto simp: for_each_run_calls)
qed

section \<open>Count\<close>

lemma next_power_of_two_small:
  "next_power_of_two 2 = 2" "next_power_of_two 3 = 4" "next_power_of_two 4 = 4" "next_power_of_two (Suc (Suc 0)) = 2"
  by (simp_all add: next_power_of_two_def next_power_of_two_from.simps)

lemmas count_sizes = gadget_poly_fft_mem_len_def gadget_poly_len_def wire_poly_len_def next_power_of_two_small

context large_field
begin

lemma fits_bits: "(n :: nat) \<le> 2 ^ 20 \<Longrightarrow> n < 2 ^ INTEGER_BITS F"
proof -
  assume "n \<le> 2 ^ 20"
  also have "(2 :: nat) ^ 20 < 2 ^ INTEGER_BITS F" using large by (intro power_strict_increasing) simp_all
  finally show ?thesis .
qed

lemma Mul_new_eq:
  assumes "gadget_poly_fft_mem_len 2 k \<le> 2 ^ 20"
  shows "Mul_new F k = Ok (Mul (gadget_poly_fft_mem_len 2 k) (inverse (of_nat (gadget_poly_fft_mem_len 2 k))) k)"
  using fits_bits [OF assms] by (simp add: Mul_new_def Let_def from_integer)

end

definition count_gadget :: "'f::field gadget" where
  "count_gadget = Mul 4 (inverse 4) 1"

definition count_wires :: "'f::field list \<Rightarrow> 'f list \<Rightarrow> nat \<Rightarrow> 'f list list" where
  "count_wires input jr ns = [[input ! 0, input ! 0]]"

definition count_outcome :: "'f::field list \<Rightarrow> 'f list \<Rightarrow> nat \<Rightarrow> 'f list \<Rightarrow> 'f" where
  "count_outcome input jr ns ys = ys ! 0 - input ! 0"

lemmas count_defs = Count_def count_gadget_def count_wires_def count_outcome_def count_sizes

sublocale large_field \<subseteq> count: complete_circuit F "Count F" count_gadget count_wires count_outcome
proof unfold_locales
  show "gadgets (Count F) = Ok [count_gadget]"
    using Mul_new_eq [of 1] by (simp add: count_defs inverse_eq_divide)
  fix input jr :: "'f list" and ns s
  assume "length input = input_len (Count F)" and "length jr = joint_rand_len (Count F)"
  then show "valid (Count F) [s] input jr ns =
      and_then (run_calls s (count_wires input jr ns)) (\<lambda>(ys, s). Ok (count_outcome input jr ns ys, [s]))"
    by (cases "shim_call s [input ! 0, input ! 0]") (auto simp: count_defs)
qed (use large in \<open>simp_all add: count_defs\<close>)

lemma vector_sum_hd: "\<forall>v \<in> set vs. length v = n \<Longrightarrow> 0 < n \<Longrightarrow> vector_sum n vs ! 0 = (\<Sum>v\<leftarrow>vs. v ! 0)"
  by (rule vector_sum_nth)

lemma sum_list_zip_diff:
  "length xs = length ys \<Longrightarrow> (\<Sum>(x, y)\<leftarrow>zip xs ys. f y - h x :: 'f::field) = (\<Sum>y\<leftarrow>ys. f y) - (\<Sum>x\<leftarrow>xs. h x)"
  by (induction xs ys rule: list_induct2) simp_all

sublocale large_field \<subseteq> count: linear_circuit F "Count F" count_gadget count_wires count_outcome
proof unfold_locales
  fix inputs yss :: "'f list list" and jr :: "'f list" and k
  assume in_len: "\<forall>x \<in> set inputs. length x = input_len (Count F)"
  then have len: "\<forall>x \<in> set inputs. length x = 1" by (simp add: Count_def)
  have "vector_sum 2 (map (\<lambda>x. [x ! 0, x ! 0]) inputs) = [(\<Sum>x\<leftarrow>inputs. x ! 0), (\<Sum>x\<leftarrow>inputs. x ! 0)]"
    by (induction inputs) (simp_all add: vector_sum_def numeral_2_eq_2)
  moreover have "vector_sum 1 inputs ! 0 = (\<Sum>x\<leftarrow>inputs. x ! 0)" using vector_sum_nth [OF len] by simp
  ultimately show "k < calls count_gadget \<Longrightarrow> count_wires (vector_sum (input_len (Count F)) inputs) jr 1 ! k =
      vector_sum (arity count_gadget) (map (\<lambda>x. count_wires x jr (length inputs) ! k) inputs)"
    by (simp add: count_defs)
  assume ys: "length yss = length inputs" "\<forall>ys \<in> set yss. length ys = calls count_gadget"
  have "vector_sum 1 yss ! 0 = (\<Sum>y\<leftarrow>yss. y ! 0)" using vector_sum_nth [of yss 1 0] ys(2) by (simp add: count_defs)
  then show "count_outcome (vector_sum (input_len (Count F)) inputs) jr 1 (vector_sum (calls count_gadget) yss) =
      (\<Sum>(x, ys)\<leftarrow>zip inputs yss. count_outcome x jr (length inputs) ys)"
    using sum_list_zip_diff [of inputs yss "\<lambda>y. y ! 0" "\<lambda>x. x ! 0"] ys(1) vector_sum_nth [OF len, of 0]
    by (simp add: count_defs)
qed

section \<open>Sum and Average\<close>

context large_field
begin

lemma range_check_2: "poly_range_check F 0 2 = (Ok [0, - 1, 1] :: ('f list, 'e) outcome)"
proof -
  have bits: "\<not> 2 ^ INTEGER_BITS F \<le> (0 :: nat)" "\<not> 2 ^ INTEGER_BITS F \<le> (1 :: nat)"
    using fits_bits [of 0] fits_bits [of 1] by simp_all
  have ints: "from_integer F 0 = 0" "from_integer F 1 = 1"
    using from_integer [of 0] from_integer [of 1] fits_bits [of 0] fits_bits [of 1] by simp_all
  have "poly_mul [1] [- 0, 1] = (Ok [0, 1] :: ('f list, 'e) outcome)"
    by (simp add: poly_mul_def poly_deg_def Let_def numeral_2_eq_2 upt_conv_Cons)
  moreover have "poly_mul [0, 1] [- 1, 1] = (Ok [0, - 1, 1] :: ('f list, 'e) outcome)"
    by (simp add: poly_mul_def poly_deg_def Let_def numeral_2_eq_2 upt_conv_Cons)
  moreover have "[0..<2] = [0, 1 :: nat]" by (simp add: numeral_2_eq_2)
  ultimately show ?thesis
    unfolding poly_range_check_def by (simp only: for_each.simps and_then.simps bits ints if_False)
qed

end

lemma next_power_of_two_le: "n \<le> 2 ^ k \<Longrightarrow> next_power_of_two n \<le> 2 ^ k"
proof -
  assume n: "n \<le> 2 ^ k"
  obtain d where d: "next_power_of_two n = 2 ^ d" by (rule next_power_of_two_power)
  then consider "d = 0" | "0 < d" "(2 :: nat) ^ (d - 1) < 2 ^ k"
    using next_power_of_two_minimal [OF d] n by fastforce
  then have "d \<le> k" by cases (auto dest: power_less_imp_less_exp [rotated])
  then show ?thesis unfolding d by (intro power_increasing) simp_all
qed

text \<open>Sizes for a gadget of degree two.\<close>

lemma degree_two_sizes:
  assumes "1 + k \<le> 2 ^ 18"
  shows "next_power_of_two (wire_poly_len k * 2) \<le> 2 ^ 20" "gadget_poly_fft_mem_len 2 k \<le> 2 ^ 20"
proof -
  have w: "wire_poly_len k \<le> 2 ^ 18" unfolding wire_poly_len_def using assms by (intro next_power_of_two_le)
  then show "next_power_of_two (wire_poly_len k * 2) \<le> 2 ^ 20" by (intro next_power_of_two_le) simp
  show "gadget_poly_fft_mem_len 2 k \<le> 2 ^ 20"
    unfolding gadget_poly_fft_mem_len_def gadget_poly_len_def using w by (intro next_power_of_two_le) simp
qed

lemma linear_combination_sum:
  fixes c :: "nat \<Rightarrow> 'f::field"
  assumes "\<forall>ys \<in> set yss. length ys = n"
  shows "(\<Sum>i<n. c i * vector_sum n yss ! i) = (\<Sum>ys\<leftarrow>yss. \<Sum>i<n. c i * ys ! i)"
  using assms
proof (induction yss)
  case Nil
  then show ?case by (simp add: vector_sum_def)
next
  case (Cons ys yss)
  then have "length (vector_sum n yss) = n" by simp
  with Cons show ?case by (simp add: vector_sum_Cons distrib_left sum.distrib)
qed

lemma sum_list_zip_snd: "length xs = length ys \<Longrightarrow> (\<Sum>(x, y)\<leftarrow>zip xs ys. f y) = sum_list (map f ys)"
  by (induction xs ys rule: list_induct2) simp_all

definition sum_gadget :: "nat \<Rightarrow> 'f::field gadget" where
  "sum_gadget bits = PolyEval [0, - 1, 1] (gadget_poly_fft_mem_len 2 bits) (inverse (of_nat (gadget_poly_fft_mem_len 2 bits))) bits"

definition sum_wires :: "'f::field list \<Rightarrow> 'f list \<Rightarrow> nat \<Rightarrow> 'f list list" where
  "sum_wires input jr ns = map (\<lambda>x. [x]) input"

definition sum_outcome :: "'f::field list \<Rightarrow> 'f list \<Rightarrow> nat \<Rightarrow> 'f list \<Rightarrow> 'f" where
  "sum_outcome input jr ns ys = (\<Sum>i<length ys. (jr ! 0) ^ Suc i * ys ! i)"

lemmas sum_defs = sum_type_def sum_gadget_def sum_wires_def sum_outcome_def

lemma poly_deg_range_check: "poly_deg [0, - 1, 1 :: 'f::field] = 2"
  by (simp add: poly_deg_def)

locale sum_circuit = large_field F for F :: "'f::field field_element" +
  fixes bits :: nat and decode :: "'f list \<Rightarrow> nat \<Rightarrow> ('r, flp_error) outcome"
  assumes bits: "bits \<le> 128"
begin

abbreviation sum_T :: "(nat, 'r, 'f) flp_type" where
  "sum_T \<equiv> sum_type F bits [0, - 1, 1] decode"

lemma sum_sizes: "next_power_of_two (wire_poly_len bits * 2) \<le> 2 ^ 20" "gadget_poly_fft_mem_len 2 bits \<le> 2 ^ 20"
  using bits by (intro degree_two_sizes; simp)+

lemma sum_gadgets: "gadgets sum_T = Ok [sum_gadget bits]"
  using fits_bits [OF sum_sizes(2)]
  by (simp add: sum_defs PolyEval_new_def Let_def from_integer poly_deg_range_check)

lemma sum_valid:
  assumes "length input = bits" and "length jr = 1"
  shows "valid sum_T [s] input jr ns =
    and_then (run_calls s (sum_wires input jr ns)) (\<lambda>(ys, s). Ok (sum_outcome input jr ns ys, [s]))"
  using assms by (cases "run_calls s (map (\<lambda>x. [x]) input)") (auto simp: sum_defs call_gadget_run_calls)

end

sublocale sum_circuit \<subseteq> sum: complete_circuit F sum_T "sum_gadget bits" sum_wires sum_outcome
proof unfold_locales
  show "gadgets sum_T = Ok [sum_gadget bits]" by (rule sum_gadgets)
  show "next_power_of_two (wire_poly_len (calls (sum_gadget bits)) * degree (sum_gadget bits :: 'f gadget)) \<le> 2 ^ 20"
    using sum_sizes by (simp add: sum_gadget_def poly_deg_range_check)
  show "gadget_wf (wire_poly_len (calls (sum_gadget bits))) (sum_gadget bits :: 'f gadget)"
    using sum_sizes by (simp add: sum_gadget_def poly_deg_range_check gadget_poly_fft_mem_len_def)
  show "valid sum_T [s] input jr ns = and_then (run_calls s (sum_wires input jr ns)) (\<lambda>(ys, s). Ok (sum_outcome input jr ns ys, [s]))"
    if "length input = input_len sum_T" and "length jr = joint_rand_len sum_T" for input jr ns s
    using that by (intro sum_valid) (simp_all add: sum_type_def)
qed (use large in \<open>auto simp: sum_defs poly_deg_range_check gadget_poly_len_def wire_poly_len_def\<close>)

sublocale sum_circuit \<subseteq> sum: linear_circuit F sum_T "sum_gadget bits" sum_wires sum_outcome
proof unfold_locales
  fix inputs yss :: "'f list list" and jr :: "'f list" and k
  assume "\<forall>x \<in> set inputs. length x = input_len sum_T"
  then have len: "\<forall>x \<in> set inputs. length x = bits" by (simp add: sum_type_def)
  show "sum_wires (vector_sum (input_len sum_T) inputs) jr 1 ! k =
      vector_sum (arity (sum_gadget bits)) (map (\<lambda>x. sum_wires x jr (length inputs) ! k) inputs)"
    if "k < calls (sum_gadget bits)"
  proof -
    have k: "k < bits" using that by (simp add: sum_gadget_def)
    have "map (\<lambda>x. sum_wires x jr (length inputs) ! k) inputs = map (\<lambda>x. [x ! k]) inputs"
      using len k by (auto simp: sum_wires_def)
    moreover have "vector_sum 1 (map (\<lambda>x. [x ! k]) xs) = [\<Sum>x\<leftarrow>xs. x ! k]" for xs :: "'f list list"
      by (induction xs) (simp_all add: vector_sum_def)
    moreover have "sum_wires (vector_sum (input_len sum_T) inputs) jr 1 ! k = [\<Sum>x\<leftarrow>inputs. x ! k]"
      using len k vector_sum_nth [OF len k] by (simp add: sum_wires_def sum_type_def)
    ultimately show ?thesis by (simp add: sum_gadget_def cong: map_cong)
  qed
  assume ys: "length yss = length inputs" "\<forall>ys \<in> set yss. length ys = calls (sum_gadget bits)"
  then have "\<forall>ys \<in> set yss. length ys = bits" by (simp add: sum_gadget_def)
  moreover from this have "map (sum_outcome x jr n) yss = map (\<lambda>ys. \<Sum>i<bits. (jr ! 0) ^ Suc i * ys ! i) yss" for x n
    by (simp add: sum_outcome_def)
  ultimately show "sum_outcome (vector_sum (input_len sum_T) inputs) jr 1 (vector_sum (calls (sum_gadget bits)) yss) =
      (\<Sum>(x, ys)\<leftarrow>zip inputs yss. sum_outcome x jr (length inputs) ys)"
    using ys(1) linear_combination_sum [of yss bits "\<lambda>i. (jr ! 0) ^ Suc i"]
    by (simp add: sum_gadget_def sum_list_zip_snd sum_outcome_def cong: map_cong)
qed

section \<open>Range checks in parallel\<close>

text \<open>The multiplications for a chunk whose first power is \<open>r\<close>: entry \<open>2i\<close> is the scaled input, entry \<open>2i + 1\<close> the input less one share of one.\<close>

definition chunk_wires :: "'f::field \<Rightarrow> 'f \<Rightarrow> nat \<Rightarrow> 'f \<Rightarrow> 'f list \<Rightarrow> 'f list" where
  "chunk_wires rnd ninv cl r chunk =
     map (\<lambda>j. if even j then (if j div 2 < length chunk then r * rnd ^ (j div 2) * chunk ! (j div 2) else 0)
              else (if j div 2 < length chunk then chunk ! (j div 2) else 0) - ninv) [0..<2 * cl]"

fun wires_of :: "'f::field \<Rightarrow> 'f \<Rightarrow> nat \<Rightarrow> 'f \<Rightarrow> 'f list list \<Rightarrow> 'f list list" where
  "wires_of rnd ninv cl r [] = []"
| "wires_of rnd ninv cl r (c # cs) = chunk_wires rnd ninv cl r c # wires_of rnd ninv cl (r * rnd ^ length c) cs"

lemma length_chunk_wires [simp]: "length (chunk_wires rnd ninv cl r chunk) = 2 * cl"
  by (simp add: chunk_wires_def)

lemma fill_chunk_used:
  assumes "m \<le> length chunk" "length chunk \<le> cl" "length pad = 2 * cl"
  shows "fold (\<lambda>(i, x) (padded, r_power). (padded[2 * i := r_power * x, 2 * i + 1 := x - ninv], r_power * rnd))
      (zip [0..<m] (take m chunk)) (pad, r) =
    (map (\<lambda>j. if j < 2 * m then chunk_wires rnd ninv cl r chunk ! j else pad ! j) [0..<2 * cl], r * rnd ^ m)"
  using assms
proof (induction m)
  case 0
  then show ?case by (simp add: map_nth flip: assms(3))
next
  case (Suc m)
  let ?w = "chunk_wires rnd ninv cl r chunk"
  have zip: "zip [0..<Suc m] (take (Suc m) chunk) = zip [0..<m] (take m chunk) @ [(m, chunk ! m)]"
    using Suc.prems by (simp add: take_Suc_conv_app_nth)
  have w: "?w ! (2 * m) = r * rnd ^ m * chunk ! m" "?w ! Suc (2 * m) = chunk ! m - ninv"
    using Suc.prems by (simp_all add: chunk_wires_def)
  have "j < 2 * m \<or> j = 2 * m \<or> j = Suc (2 * m) \<or> \<not> j < 2 * Suc m" for j by auto
  then have "(map (\<lambda>j. if j < 2 * m then ?w ! j else pad ! j) [0..<2 * cl])[2 * m := r * rnd ^ m * chunk ! m, 2 * m + 1 := chunk ! m - ninv] =
      map (\<lambda>j. if j < 2 * Suc m then ?w ! j else pad ! j) [0..<2 * cl]"
    using Suc.prems w by (intro nth_equalityI) (auto simp: nth_list_update)
  with Suc show ?case unfolding zip by (simp add: mult.assoc mult.commute)
qed

lemma fill_chunk_unused:
  assumes "length chunk \<le> m" "m \<le> cl" "length pad = 2 * cl"
    and "\<forall>j < 2 * length chunk. pad ! j = chunk_wires rnd ninv cl r chunk ! j"
  shows "fold (\<lambda>i padded. padded[2 * i := 0, 2 * i + 1 := - ninv]) [length chunk..<m] pad =
    map (\<lambda>j. if j < 2 * m then chunk_wires rnd ninv cl r chunk ! j else pad ! j) [0..<2 * cl]"
  using assms(1,2)
proof (induction m rule: dec_induct)
  case base
  then show ?case using assms(3,4) by (auto intro!: nth_equalityI)
next
  case (step m)
  let ?w = "chunk_wires rnd ninv cl r chunk"
  have w: "?w ! (2 * m) = 0" "?w ! Suc (2 * m) = - ninv"
    using step by (simp_all add: chunk_wires_def)
  have "j < 2 * m \<or> j = 2 * m \<or> j = Suc (2 * m) \<or> \<not> j < 2 * Suc m" for j by auto
  then have "(map (\<lambda>j. if j < 2 * m then ?w ! j else pad ! j) [0..<2 * cl])[2 * m := 0, 2 * m + 1 := - ninv] =
      map (\<lambda>j. if j < 2 * Suc m then ?w ! j else pad ! j) [0..<2 * cl]"
    using step w by (intro nth_equalityI) (auto simp: nth_list_update)
  with step show ?case by simp
qed

lemma fill_chunk_value:
  assumes "length chunk \<le> cl" "length pad = 2 * cl"
  shows "fill_chunk rnd ninv cl chunk (pad, r) = (chunk_wires rnd ninv cl r chunk, r * rnd ^ length chunk)"
proof -
  have zip: "zip [0..<cl] chunk = zip [0..<length chunk] (take (length chunk) chunk)"
    using assms(1) by (intro nth_equalityI) simp_all
  let ?pad = "map (\<lambda>j. if j < 2 * length chunk then chunk_wires rnd ninv cl r chunk ! j else pad ! j) [0..<2 * cl]"
  have "fold (\<lambda>i padded. padded[2 * i := 0, 2 * i + 1 := - ninv]) [length chunk..<cl] ?pad = chunk_wires rnd ninv cl r chunk"
    using assms fill_chunk_unused [of chunk cl cl ?pad rnd ninv r]
    by (auto intro!: nth_equalityI)
  then show ?thesis
    using fill_chunk_used [of "length chunk" chunk cl pad ninv rnd r] assms
    by (simp add: fill_chunk_def zip Let_def)
qed

lemma range_checks_run:
  assumes "\<forall>c \<in> set cs. length c \<le> cl" "length pad = 2 * cl"
  shows "and_then (for_each (\<lambda>chunk (outp, st, gadget).
      let (padded_chunk, r_power) = fill_chunk rnd ninv cl chunk st
      in and_then (shim_call gadget padded_chunk) (\<lambda>(y, gadget). Ok (outp + y, (padded_chunk, r_power), gadget)))
      cs (out, (pad, r), s)) (\<lambda>(outp, st, gadget). Ok (outp, gadget)) =
    and_then (run_calls s (wires_of rnd ninv cl r cs)) (\<lambda>(ys, s). Ok (out + sum_list ys, s))"
  using assms
proof (induction cs arbitrary: out pad r s)
  case (Cons c cs)
  then have fill: "fill_chunk rnd ninv cl c (pad, r) = (chunk_wires rnd ninv cl r c, r * rnd ^ length c)"
    by (intro fill_chunk_value) simp_all
  show ?case
  proof (cases "shim_call s (chunk_wires rnd ninv cl r c)")
    case (Ok ys)
    obtain y s' where ys: "ys = (y, s')" by fastforce
    show ?thesis
      using Cons.IH [of "chunk_wires rnd ninv cl r c" "out + y" "r * rnd ^ length c" s'] Cons.prems Ok
      by (cases "run_calls s' (wires_of rnd ninv cl (r * rnd ^ length c) cs)") (auto simp: fill ys add.assoc)
  qed (simp_all add: fill)
qed simp

lemma length_wires_of [simp]: "length (wires_of rnd ninv cl r cs) = length cs"
  by (induction cs arbitrary: r) simp_all

lemma wires_of_nth:
  "k < length cs \<Longrightarrow> wires_of rnd ninv cl r cs ! k = chunk_wires rnd ninv cl (r * rnd ^ length (concat (take k cs))) (cs ! k)"
proof (induction cs arbitrary: r k)
  case (Cons c cs)
  then show ?case by (cases k) (simp_all add: power_add mult.assoc)
qed simp

lemma wires_of_lengths: "w \<in> set (wires_of rnd ninv cl r cs) \<Longrightarrow> length w = 2 * cl"
  by (induction cs arbitrary: r) auto

lemma chunks_bound:
  assumes "0 < n" and "k < ceil_div m n"
  shows "k * n < m"
proof -
  have "k < m div n \<or> (k = m div n \<and> 0 < m mod n)"
    using assms(2) by (auto simp: ceil_div_def split: if_splits)
  then show ?thesis
  proof
    assume "k < m div n"
    then have "k * n < m div n * n" using assms(1) by simp
    also have "\<dots> \<le> m" by simp
    finally show ?thesis .
  next
    assume "k = m div n \<and> 0 < m mod n"
    then show ?thesis using div_mult_mod_eq [of m n] by (metis less_add_same_cancel1)
  qed
qed

lemma chunks_ceil:
  assumes "0 < n"
  shows "length (chunks n xs) = ceil_div (length xs) n"
    and "k < ceil_div (length xs) n \<Longrightarrow> chunks n xs ! k = take n (drop (k * n) xs)"
    and "k < ceil_div (length xs) n \<Longrightarrow> length (concat (take k (chunks n xs))) = k * n"
proof -
  show "length (chunks n xs) = ceil_div (length xs) n"
    using assms
  proof (induction n xs rule: chunks.induct)
    case (1 n xs)
    show ?case
    proof (cases "xs = [] \<or> length xs \<le> n")
      case True
      then show ?thesis using 1 by (auto simp: chunks_step ceil_div_def le_less Suc_leI)
    next
      case False
      then have "ceil_div (length xs) n = Suc (ceil_div (length xs - n) n)"
        using "1.prems" by (simp add: ceil_div_def le_div_geq le_mod_geq)
      with False 1 show ?thesis by (simp add: chunks_step)
    qed
  qed
  have "chunks n xs ! k = take n (drop (k * n) xs) \<and> length (concat (take k (chunks n xs))) = k * n" if "k * n < length xs" for k
    using assms that
  proof (induction n xs arbitrary: k rule: chunks.induct)
    case (1 n xs)
    then have step: "xs \<noteq> []" "chunks n xs = take n xs # chunks n (drop n xs)" by (auto intro: chunks_step)
    show ?case
    proof (cases k)
      case (Suc k')
      then have "k' * n < length (drop n xs)" using "1.prems" by simp
      with 1 step Suc show ?thesis by (auto simp: add.commute)
    qed (simp add: step)
  qed
  with chunks_bound [OF assms] show "k < ceil_div (length xs) n \<Longrightarrow> chunks n xs ! k = take n (drop (k * n) xs)"
    and "k < ceil_div (length xs) n \<Longrightarrow> length (concat (take k (chunks n xs))) = k * n" by blast+
qed


lemma chunk_length_le: "0 < n \<Longrightarrow> c \<in> set (chunks n xs) \<Longrightarrow> length c \<le> n"
proof (induction n xs rule: chunks.induct)
  case (1 n xs)
  then show ?case by (cases "xs = []") (auto simp: chunks_step)
qed

text \<open>The inputs of the gadget in call \<open>k\<close>, over positions of the whole input.\<close>

definition range_wires :: "nat \<Rightarrow> nat \<Rightarrow> 'f::field list \<Rightarrow> 'f list \<Rightarrow> nat \<Rightarrow> 'f list list" where
  "range_wires gc cl input jr ns =
     map (\<lambda>k. map (\<lambda>j. let p = k * cl + j div 2; x = coeff input p in
         if even j then (jr ! 0) ^ Suc p * x else x - inverse (of_nat ns)) [0..<2 * cl]) [0..<gc]"

lemma chunk_wires_slice:
  assumes "k * cl < length input"
  shows "chunk_wires rnd ninv cl (rnd ^ Suc (k * cl)) (take cl (drop (k * cl) input)) =
    map (\<lambda>j. let p = k * cl + j div 2; x = coeff input p in if even j then rnd ^ Suc p * x else x - ninv) [0..<2 * cl]"
proof (rule nth_equalityI)
  fix j
  assume "j < length (chunk_wires rnd ninv cl (rnd ^ Suc (k * cl)) (take cl (drop (k * cl) input)))"
  then have j: "j < 2 * cl" "j div 2 < cl" by auto
  have "(if j div 2 < length (take cl (drop (k * cl) input)) then take cl (drop (k * cl) input) ! (j div 2) else 0) =
      coeff input (k * cl + j div 2)"
    using j by (auto simp: coeff_def)
  with j show "chunk_wires rnd ninv cl (rnd ^ Suc (k * cl)) (take cl (drop (k * cl) input)) ! j =
      map (\<lambda>j. let p = k * cl + j div 2; x = coeff input p in if even j then rnd ^ Suc p * x else x - ninv) [0..<2 * cl] ! j"
    by (auto simp: chunk_wires_def Let_def power_add coeff_def split: if_splits)
qed simp

lemma wires_of_chunks:
  assumes "0 < cl"
  shows "wires_of (jr ! 0) (inverse (of_nat ns)) cl (jr ! 0) (chunks cl input) = range_wires (ceil_div (length input) cl) cl input jr ns"
proof (rule nth_equalityI)
  show "length (wires_of (jr ! 0) (inverse (of_nat ns)) cl (jr ! 0) (chunks cl input)) =
      length (range_wires (ceil_div (length input) cl) cl input jr ns)"
    by (simp add: chunks_ceil(1) [OF assms] range_wires_def)
  fix k
  assume "k < length (wires_of (jr ! 0) (inverse (of_nat ns)) cl (jr ! 0) (chunks cl input))"
  then have k: "k < ceil_div (length input) cl" "k < length (chunks cl input)" by (simp_all add: chunks_ceil(1) [OF assms])
  have "length (concat (take k (chunks cl input))) = k * cl" "chunks cl input ! k = take cl (drop (k * cl) input)"
    using chunks_ceil(2,3) [OF assms k(1)] by simp_all
  moreover have "k * cl < length input" by (rule chunks_bound [OF assms k(1)])
  ultimately show "wires_of (jr ! 0) (inverse (of_nat ns)) cl (jr ! 0) (chunks cl input) ! k =
      range_wires (ceil_div (length input) cl) cl input jr ns ! k"
    using k chunk_wires_slice [of k cl input "jr ! 0" "inverse (of_nat ns)"]
    by (simp add: wires_of_nth range_wires_def)
qed

context large_field
begin

lemma parallel_range_checks:
  assumes "0 < cl" "ns < modulus F"
  shows "parallel_sum_range_checks F s input (jr ! 0) cl ns =
    and_then (run_calls s (range_wires (ceil_div (length input) cl) cl input jr ns)) (\<lambda>(ys, s). Ok (sum_list ys, s))"
proof -
  have ns: "ns < 2 ^ INTEGER_BITS F" using assms(2) modulus_bits(2) by linarith
  then have "valid_integer_try_from F ns = Ok ns" using assms(2) by (simp add: valid_integer_try_from_def)
  then show ?thesis
    using assms range_checks_run [of "chunks cl input" cl "replicate (2 * cl) 0" "jr ! 0" "inverse (of_nat ns)" 0 "jr ! 0" s]
      chunk_length_le [of cl _ input]
    by (simp add: parallel_sum_range_checks_def Let_def from_integer ns wires_of_chunks)
qed

end


section \<open>Histogram and SumVec\<close>

definition range_gadget :: "nat \<Rightarrow> nat \<Rightarrow> 'f::field gadget" where
  "range_gadget gc cl =
     ParallelSum (Mul (gadget_poly_fft_mem_len 2 gc) (inverse (of_nat (gadget_poly_fft_mem_len 2 gc))) gc) cl"

definition histogram_outcome :: "'f::field list \<Rightarrow> 'f list \<Rightarrow> nat \<Rightarrow> 'f list \<Rightarrow> 'f" where
  "histogram_outcome input jr ns ys =
     jr ! 1 * sum_list ys + jr ! 1 * jr ! 1 * (sum_list input - inverse (of_nat ns))"

definition sumvec_outcome :: "'f::field list \<Rightarrow> 'f list \<Rightarrow> nat \<Rightarrow> 'f list \<Rightarrow> 'f" where
  "sumvec_outcome input jr ns ys = sum_list ys"

lemma range_gadget_simps [simp]:
  "arity (range_gadget gc cl) = cl * 2" "degree (range_gadget gc cl) = 2" "calls (range_gadget gc cl) = gc"
  by (simp_all add: range_gadget_def)

lemma length_range_wires [simp]: "length (range_wires gc cl input jr ns) = gc"
  by (simp add: range_wires_def)

lemma range_wires_lengths: "w \<in> set (range_wires gc cl input jr ns) \<Longrightarrow> length w = cl * 2"
  by (auto simp: range_wires_def)

lemma fold_add: "fold (\<lambda>val acc. acc + val) xs a = a + (sum_list xs :: 'f::field)"
  by (induction xs arbitrary: a) (simp_all add: add.assoc)

locale range_circuit = large_field F for F :: "'f::field field_element" +
  fixes ilen cl :: nat
  assumes chunk: "0 < cl" and small: "ilen \<le> 2 ^ 17"
begin

abbreviation gc :: nat where "gc \<equiv> ceil_div ilen cl"

lemma gc_le: "gc \<le> ilen"
proof (cases gc)
  case (Suc k)
  then have "k * cl < ilen" using chunks_bound [OF chunk, of k ilen] by simp
  then have "k < ilen" using chunk by (metis less_le_trans mult.right_neutral mult_le_mono2 not_less Suc_leI One_nat_def)
  then show ?thesis using Suc by simp
qed simp

lemma range_sizes: "next_power_of_two (wire_poly_len gc * 2) \<le> 2 ^ 20" "gadget_poly_fft_mem_len 2 gc \<le> 2 ^ 20"
  using small gc_le by (intro degree_two_sizes; simp)+

lemma range_gadgets: "and_then (Mul_new F gc) (\<lambda>g. Ok [ParallelSum g cl]) = Ok [range_gadget gc cl]"
  using Mul_new_eq [OF range_sizes(2)] by (simp add: range_gadget_def)

lemma share_of_one:
  assumes "0 < n" "n < modulus F"
  shows "(of_nat n :: 'f) \<noteq> 0"
  using assms of_nat_eq_iff [of n 0] by simp

lemma range_wires_sum:
  fixes inputs :: "'f list list"
  assumes "inputs \<noteq> []" "\<forall>x \<in> set inputs. length x = ilen" "length inputs < modulus F" "k < gc"
  shows "range_wires gc cl (vector_sum ilen inputs) jr 1 ! k =
    vector_sum (cl * 2) (map (\<lambda>x. range_wires gc cl x jr (length inputs) ! k) inputs)"
proof (rule nth_equalityI)
  have len: "\<forall>w \<in> set (map (\<lambda>x. range_wires gc cl x jr (length inputs) ! k) inputs). length w = cl * 2"
    using assms(4) by (auto simp: range_wires_def)
  then show "length (range_wires gc cl (vector_sum ilen inputs) jr 1 ! k) =
      length (vector_sum (cl * 2) (map (\<lambda>x. range_wires gc cl x jr (length inputs) ! k) inputs))"
    using assms(4) by (simp add: range_wires_def)
  fix j
  assume "j < length (range_wires gc cl (vector_sum ilen inputs) jr 1 ! k)"
  then have j: "j < cl * 2" "j < 2 * cl" using assms(4) by (simp_all add: range_wires_def)
  let ?p = "k * cl + j div 2" and ?ninv = "inverse (of_nat (length inputs)) :: 'f"
  have x: "coeff (vector_sum ilen inputs) ?p = (\<Sum>x\<leftarrow>inputs. coeff x ?p)"
  proof (cases "?p < ilen")
    case True
    then show ?thesis using vector_sum_nth [OF assms(2), of ?p] length_vector_sum [OF assms(2)] assms(2)
      by (simp add: coeff_def cong: map_cong)
  next
    case False
    then show ?thesis using length_vector_sum [OF assms(2)] assms(2) by (simp add: coeff_def cong: map_cong)
  qed
  have "(\<Sum>x\<leftarrow>inputs. c * coeff x ?p) = c * (\<Sum>x\<leftarrow>inputs. coeff x ?p)" for c by (simp add: sum_list_const_mult)
  moreover have "(\<Sum>x\<leftarrow>inputs. coeff x ?p - ?ninv) = (\<Sum>x\<leftarrow>inputs. coeff x ?p) - 1"
    using share_of_one [of "length inputs"] assms(1,3) by (simp add: sum_list_subtractf sum_list_triv)
  ultimately show "range_wires gc cl (vector_sum ilen inputs) jr 1 ! k ! j =
      vector_sum (cl * 2) (map (\<lambda>x. range_wires gc cl x jr (length inputs) ! k) inputs) ! j"
    unfolding vector_sum_nth [OF len j(1)]
    using assms(4) j by (simp add: comp_def range_wires_def Let_def x)
qed


lemma range_valid:
  assumes "length input = ilen" "ns < modulus F"
  shows "parallel_sum_range_checks F s input (jr ! 0) cl ns =
    and_then (run_calls s (range_wires gc cl input jr ns)) (\<lambda>(ys, s). Ok (sum_list ys, s))"
  using parallel_range_checks [OF chunk assms(2)] assms(1) by simp

lemma sum_list_vector_sum:
  "\<forall>ys \<in> set yss. length ys = n \<Longrightarrow> sum_list (vector_sum n yss) = (\<Sum>ys\<leftarrow>yss. sum_list ys :: 'f)"
  using linear_combination_sum [of yss n "\<lambda>i. 1"]
  by (simp add: sum_list_sum_nth atLeast0LessThan cong: map_cong)

lemma range_gadget_wf:
  "gadget_wf (wire_poly_len gc) (range_gadget gc cl :: 'f gadget) \<longleftrightarrow> FFT_THRESHOLD \<le> wire_poly_len gc \<or> cl = 1"
  using range_sizes chunk by (auto simp: range_gadget_def gadget_poly_fft_mem_len_def)

lemma sum_list_zip_add:
  "length xs = length ys \<Longrightarrow> (\<Sum>(x, y)\<leftarrow>zip xs ys. f x + h y :: 'f) = (\<Sum>x\<leftarrow>xs. f x) + (\<Sum>y\<leftarrow>ys. h y)"
  by (induction xs ys rule: list_induct2) simp_all

lemma histogram_outcome_sum:
  fixes inputs yss :: "'f list list"
  assumes "inputs \<noteq> []" "\<forall>x \<in> set inputs. length x = ilen" "length inputs < modulus F"
    "length yss = length inputs" "\<forall>ys \<in> set yss. length ys = n"
  shows "histogram_outcome (vector_sum ilen inputs) jr 1 (vector_sum n yss) =
    (\<Sum>(x, ys)\<leftarrow>zip inputs yss. histogram_outcome x jr (length inputs) ys)"
proof -
  let ?ninv = "inverse (of_nat (length inputs)) :: 'f"
  have "(\<Sum>x\<leftarrow>inputs. sum_list x - ?ninv) = (\<Sum>x\<leftarrow>inputs. sum_list x) - 1"
    using share_of_one [of "length inputs"] assms(1,3) by (simp add: sum_list_subtractf sum_list_triv)
  moreover have "(\<Sum>(x, ys)\<leftarrow>zip inputs yss. histogram_outcome x jr (length inputs) ys) =
      (\<Sum>x\<leftarrow>inputs. jr ! 1 * jr ! 1 * (sum_list x - ?ninv)) + (\<Sum>ys\<leftarrow>yss. jr ! 1 * sum_list ys)"
    using sum_list_zip_add [of inputs yss "\<lambda>x. jr ! 1 * jr ! 1 * (sum_list x - ?ninv)" "\<lambda>ys. jr ! 1 * sum_list ys"] assms(4)
    by (simp add: histogram_outcome_def add.commute)
  ultimately show ?thesis
    using assms(2,5) by (simp add: histogram_outcome_def sum_list_vector_sum sum_list_const_mult)
qed

end

locale histogram_circuit = range_circuit F ilen cl for F :: "'f::field field_element" and ilen cl
begin

abbreviation histogram_T :: "(nat, nat list, 'f) flp_type" where
  "histogram_T \<equiv> Histogram F ilen cl gc"

lemma histogram_valid:
  assumes "length input = ilen" "length jr = 2" "ns < modulus F"
  shows "valid histogram_T [s] input jr ns =
    and_then (run_calls s (range_wires gc cl input jr ns)) (\<lambda>(ys, s). Ok (histogram_outcome input jr ns ys, [s]))"
proof -
  have ns: "ns < 2 ^ INTEGER_BITS F" using assms(3) modulus_bits(2) by linarith
  then have "valid_integer_try_from F ns = Ok ns" using assms(3) by (simp add: valid_integer_try_from_def)
  then show ?thesis
    using assms ns range_valid [OF assms(1,3)]
    by (cases "run_calls s (range_wires gc cl input jr ns)")
      (auto simp: Histogram_def histogram_outcome_def fold_add from_integer Let_def)
qed

end

sublocale histogram_circuit \<subseteq> histogram: linear_circuit F histogram_T "range_gadget gc cl" "range_wires gc cl" histogram_outcome
proof unfold_locales
  show "gadgets histogram_T = Ok [range_gadget gc cl]" using range_gadgets by (simp add: Histogram_def)
  show "valid histogram_T [s] input jr ns =
      and_then (run_calls s (range_wires gc cl input jr ns)) (\<lambda>(ys, s). Ok (histogram_outcome input jr ns ys, [s]))"
    if "length input = input_len histogram_T" "length jr = joint_rand_len histogram_T" "ns < modulus F" for input jr ns s
    using that by (intro histogram_valid) (simp_all add: Histogram_def)
  show "range_wires gc cl (vector_sum (input_len histogram_T) inputs) jr 1 ! k =
      vector_sum (arity (range_gadget gc cl :: 'f gadget)) (map (\<lambda>x. range_wires gc cl x jr (length inputs) ! k) inputs)"
    if "inputs \<noteq> []" "\<forall>x \<in> set inputs. length x = input_len histogram_T" "length inputs < modulus F"
      "k < calls (range_gadget gc cl :: 'f gadget)" for inputs :: "'f list list" and jr k
    using range_wires_sum [of inputs k jr] that by (simp add: Histogram_def)
  show "histogram_outcome (vector_sum (input_len histogram_T) inputs) jr 1 (vector_sum (calls (range_gadget gc cl :: 'f gadget)) yss) =
      (\<Sum>(x, ys)\<leftarrow>zip inputs yss. histogram_outcome x jr (length inputs) ys)"
    if "inputs \<noteq> []" "\<forall>x \<in> set inputs. length x = input_len histogram_T" "length inputs < modulus F"
      "length yss = length inputs" "\<forall>ys \<in> set yss. length ys = calls (range_gadget gc cl :: 'f gadget)" for inputs :: "'f list list" and jr yss
    using histogram_outcome_sum [of inputs yss gc jr] that by (simp add: Histogram_def)
qed (use large chunk range_sizes in \<open>auto simp: Histogram_def gadget_poly_len_def wire_poly_len_def range_wires_lengths\<close>)

locale sumvec_circuit = range_circuit F "bits * len" cl for F :: "'f::field field_element" and bits len cl
begin

abbreviation sumvec_T :: "(nat list, nat list, 'f) flp_type" where
  "sumvec_T \<equiv> SumVec F len bits (bits * len) (2 ^ bits - 1) cl gc"

lemma sumvec_valid:
  assumes "length input = bits * len" "length jr = 1" "ns < modulus F"
  shows "valid sumvec_T [s] input jr ns =
    and_then (run_calls s (range_wires gc cl input jr ns)) (\<lambda>(ys, s). Ok (sumvec_outcome input jr ns ys, [s]))"
  using assms range_valid [OF assms(1,3)]
  by (cases "run_calls s (range_wires gc cl input jr ns)") (auto simp: SumVec_def sumvec_outcome_def)

end

sublocale sumvec_circuit \<subseteq> sumvec: linear_circuit F sumvec_T "range_gadget gc cl" "range_wires gc cl" sumvec_outcome
proof unfold_locales
  show "gadgets sumvec_T = Ok [range_gadget gc cl]" using range_gadgets by (simp add: SumVec_def)
  show "valid sumvec_T [s] input jr ns =
      and_then (run_calls s (range_wires gc cl input jr ns)) (\<lambda>(ys, s). Ok (sumvec_outcome input jr ns ys, [s]))"
    if "length input = input_len sumvec_T" "length jr = joint_rand_len sumvec_T" "ns < modulus F" for input jr ns s
    using that by (intro sumvec_valid) (simp_all add: SumVec_def)
  show "range_wires gc cl (vector_sum (input_len sumvec_T) inputs) jr 1 ! k =
      vector_sum (arity (range_gadget gc cl :: 'f gadget)) (map (\<lambda>x. range_wires gc cl x jr (length inputs) ! k) inputs)"
    if "inputs \<noteq> []" "\<forall>x \<in> set inputs. length x = input_len sumvec_T" "length inputs < modulus F"
      "k < calls (range_gadget gc cl :: 'f gadget)" for inputs :: "'f list list" and jr k
    using range_wires_sum [of inputs k jr] that by (simp add: SumVec_def)
  show "sumvec_outcome (vector_sum (input_len sumvec_T) inputs) jr 1 (vector_sum (calls (range_gadget gc cl :: 'f gadget)) yss) =
      (\<Sum>(x, ys)\<leftarrow>zip inputs yss. sumvec_outcome x jr (length inputs) ys)"
    if "length yss = length inputs" "\<forall>ys \<in> set yss. length ys = calls (range_gadget gc cl :: 'f gadget)" for inputs :: "'f list list" and jr yss
    using that sum_list_vector_sum [of yss gc] by (simp add: sumvec_outcome_def sum_list_zip_snd)
qed (use large chunk range_sizes in \<open>auto simp: SumVec_def gadget_poly_len_def wire_poly_len_def range_wires_lengths\<close>)

lemma vector_sum_split:
  assumes "\<forall>p \<in> set ps. length p = a + b"
  shows "vector_sum (a + b) ps = vector_sum a (map (take a) ps) @ vector_sum b (map (drop a) ps)"
  using assms
proof (induction ps)
  case Nil
  then show ?case by (simp add: vector_sum_def replicate_add)
next
  case (Cons p ps)
  then have "length (vector_sum a (map (take a) ps)) = a" by (intro length_vector_sum) auto
  moreover have "p = take a p @ drop a p" "length (take a p) = a" using Cons.prems by simp_all
  ultimately show ?case using Cons by (metis (no_types, lifting) list.set_intros(2) list.simps(9) map_append vector_sum_Cons zip_append)
qed

context linear_circuit
begin

lemma query_shares:
  assumes shares: "shares \<noteq> []" "\<forall>(x, p) \<in> set shares. length x = input_len T \<and> length p = proof_len T"
    and jr: "length jr = joint_rand_len T" and n: "length shares < modulus F" and r: "r ^ wire_len \<noteq> 1"
  shows "\<exists>vs. map (\<lambda>(x, p). query T x p [r] jr (length shares)) shares = map Ok vs \<and>
    query T (vector_sum (input_len T) (map fst shares)) (vector_sum (proof_len T) (map snd shares)) [r] jr 1 =
    Ok (vector_sum (verifier_len T) vs)"
proof -
  let ?cut = "map (\<lambda>(x, p). (x, take (arity g) p, drop (arity g) p)) shares"
  have ok: "?cut \<noteq> []" "\<forall>s \<in> set ?cut. share_ok s" "length ?cut < modulus F"
    using shares n by (auto simp: share_ok_def lens)
  have "vector_sum (proof_len T) (map snd shares) =
      vector_sum (arity g) (map (fst \<circ> snd) ?cut) @ vector_sum poly_len (map (snd \<circ> snd) ?cut)"
    unfolding lens(4) using shares(2) by (subst vector_sum_split) (auto simp: lens(4) comp_def case_prod_beta)
  moreover have "map fst ?cut = map fst shares" by (simp add: comp_def case_prod_beta)
  moreover have "map (\<lambda>(x, sd, P). query T x (sd @ P) [r] jr (length ?cut)) ?cut =
      map (\<lambda>(x, p). query T x p [r] jr (length shares)) shares" by auto
  ultimately show ?thesis using query_linear [OF ok(1,2) jr ok(3) r] by (simp only: )
qed

end

locale verifiable_circuit = complete_circuit F T g wires outcome_of + linear_circuit F T g wires outcome_of
  for F :: "'f::field field_element" and T :: "('m, 'r, 'f) flp_type" and g wires outcome_of
begin

theorem shared_verification:
  assumes shares: "shares \<noteq> []" "\<forall>(x, p) \<in> set shares. length x = input_len T \<and> length p = proof_len T"
    and jr: "length jr = joint_rand_len T" and pr: "length pr = prove_rand_len T"
    and n: "length shares < modulus F" and r: "r ^ wire_len \<noteq> 1"
    and honest: "prove T (vector_sum (input_len T) (map fst shares)) pr jr = Ok (vector_sum (proof_len T) (map snd shares))"
  shows "\<exists>vs. map (\<lambda>(x, p). query T x p [r] jr (length shares)) shares = map Ok vs \<and>
    decide T (vector_sum (verifier_len T) vs) = Ok (circuit_value (vector_sum (input_len T) (map fst shares)) jr 1 = 0)"
proof -
  have "length (vector_sum (input_len T) (map fst shares)) = input_len T" using shares(2) by (intro length_vector_sum) auto
  from completeness [OF this jr pr r] query_shares [OF shares jr n r] honest show ?thesis by auto
qed

end

sublocale large_field \<subseteq> count: verifiable_circuit F "Count F" count_gadget count_wires count_outcome
  by unfold_locales

sublocale sum_circuit \<subseteq> sum: verifiable_circuit F sum_T "sum_gadget bits" sum_wires sum_outcome
  by unfold_locales

locale histogram_verifiable = histogram_circuit F ilen cl for F :: "'f::field field_element" and ilen cl +
  assumes clean: "FFT_THRESHOLD \<le> wire_poly_len (ceil_div ilen cl) \<or> cl = 1"

sublocale histogram_verifiable \<subseteq> histogram: verifiable_circuit F histogram_T "range_gadget gc cl" "range_wires gc cl" histogram_outcome
  by unfold_locales (use clean in \<open>simp add: range_gadget_wf\<close>)

locale sumvec_verifiable = sumvec_circuit F bits len cl for F :: "'f::field field_element" and bits len cl +
  assumes clean: "FFT_THRESHOLD \<le> wire_poly_len (ceil_div (bits * len) cl) \<or> cl = 1"

sublocale sumvec_verifiable \<subseteq> sumvec: verifiable_circuit F sumvec_T "range_gadget gc cl" "range_wires gc cl" sumvec_outcome
  by unfold_locales (use clean in \<open>simp add: range_gadget_wf\<close>)

section \<open>What the circuits check\<close>

definition zero_one :: "'f::field list \<Rightarrow> bool" where
  "zero_one xs \<longleftrightarrow> (\<forall>x \<in> set xs. x = 0 \<or> x = 1)"

lemma zero_one_root: "(x :: 'f::field) * x = x \<longleftrightarrow> x = 0 \<or> x = 1"
  by (metis mult_cancel_left1 mult_zero_left)

context large_field
begin

lemma count_circuit_value: "count.circuit_value input jr ns = input ! 0 * input ! 0 - input ! 0"
  unfolding count.circuit_value_def by (simp add: count_defs)

end

context sum_circuit
begin

lemma sum_circuit_value:
  "length input = bits \<Longrightarrow> sum.circuit_value input jr ns = (\<Sum>i<bits. (jr ! 0) ^ Suc i * (input ! i * input ! i - input ! i))"
  unfolding sum.circuit_value_def by (simp add: sum_defs algebra_simps)

lemma sum_accepts: "length input = bits \<Longrightarrow> zero_one input \<Longrightarrow> sum.circuit_value input jr ns = 0"
  by (auto simp: sum_circuit_value zero_one_def intro!: sum.neutral) 

end

lemma chunks_pairs:
  "chunks 2 (map f [0..<2 * n]) = map (\<lambda>i. [f (2 * i), f (Suc (2 * i))]) [0..<n]"
proof (induction n arbitrary: f)
  case (Suc n)
  have "map f [0..<2 * Suc n] = f 0 # f 1 # map (\<lambda>i. f (Suc (Suc i))) [0..<2 * n]"
    by (simp add: upt_conv_Cons map_Suc_upt [symmetric] del: upt_Suc flip: map_Suc_upt)
  then show ?case
    using Suc.IH [of "\<lambda>i. f (Suc (Suc i))"]
    by (simp add: chunks_step numeral_2_eq_2 upt_conv_Cons map_Suc_upt [symmetric] comp_def del: upt_Suc flip: map_Suc_upt)
qed simp

context range_circuit
begin

lemma range_gadget_value:
  assumes "k < gc"
  shows "gadget_value (range_gadget gc cl) (range_wires gc cl input jr 1 ! k) =
    (\<Sum>i<cl. (jr ! 0) ^ Suc (k * cl + i) * (coeff input (k * cl + i) * coeff input (k * cl + i) - coeff input (k * cl + i)))"
proof -
  let ?f = "\<lambda>j. if even j then (jr ! 0) ^ Suc (k * cl + j div 2) * coeff input (k * cl + j div 2)
    else coeff input (k * cl + j div 2) - 1"
  have "range_wires gc cl input jr 1 ! k = map ?f [0..<2 * cl]"
    using assms by (simp add: range_wires_def Let_def)
  moreover have "gadget_value (range_gadget gc cl) (map ?f [0..<2 * cl]) = (\<Sum>i<cl. ?f (2 * i) * ?f (Suc (2 * i)))"
    by (simp add: range_gadget_def chunks_pairs comp_def interv_sum_list_conv_sum_set_nat atLeast0LessThan)
  ultimately show ?thesis by (simp add: algebra_simps)
qed

lemma range_check_value:
  assumes "zero_one input"
  shows "sum_list (map (gadget_value (range_gadget gc cl)) (range_wires gc cl input jr 1)) = 0"
proof -
  have zero: "coeff input p * coeff input p - coeff input p = 0" for p
    using assms by (auto simp: coeff_def zero_one_def)
  have "gadget_value (range_gadget gc cl) (range_wires gc cl input jr 1 ! k) = 0" if "k < gc" for k
    unfolding range_gadget_value [OF that] by (simp only: zero mult_zero_right sum.neutral_const)
  then show ?thesis by (simp add: sum_list_sum_nth)
qed

end

context histogram_circuit
begin

lemma histogram_accepts:
  "zero_one input \<Longrightarrow> sum_list input = 1 \<Longrightarrow> histogram.circuit_value input jr 1 = 0"
  using range_check_value [of input jr] by (simp add: histogram.circuit_value_def histogram_outcome_def)

end

context sumvec_circuit
begin

lemma sumvec_accepts: "zero_one input \<Longrightarrow> sumvec.circuit_value input jr 1 = 0"
  using range_check_value [of input jr] by (simp add: sumvec.circuit_value_def sumvec_outcome_def)

end


section \<open>Measurements\<close>

text \<open>The whole life of a measurement: encoded, proved valid, verified by a single party.\<close>

definition run_flp :: "('m, 'r, 'f::field) flp_type \<Rightarrow> 'm \<Rightarrow> 'f list \<Rightarrow> 'f list \<Rightarrow> 'f \<Rightarrow> (bool, flp_error) outcome" where
  "run_flp T m prove_rand joint_rand r =
     and_then (encode_measurement T m) (\<lambda>input.
     and_then (prove T input prove_rand joint_rand) (\<lambda>proof.
     and_then (query T input proof [r] joint_rand 1) (decide T)))"

lemma run_flp_accepts:
  "encode_measurement T m = Ok x \<Longrightarrow>
    and_then (prove T x pr jr) (\<lambda>proof. and_then (query T x proof [r] jr 1) (decide T)) = Ok (v = 0) \<Longrightarrow>
    v = 0 \<Longrightarrow> run_flp T m pr jr r = Ok True"
  by (simp only: run_flp_def and_then.simps simp_thms)

lemma for_each_cong:
  "(\<And>x s. x \<in> set xs \<Longrightarrow> f x s = g x s) \<Longrightarrow> for_each f xs s = for_each g xs s"
proof (induction xs arbitrary: s)
  case (Cons x xs)
  then have "for_each f xs = for_each g xs" by (intro ext) simp
  with Cons.prems show ?case by simp
qed simp

definition bits_of :: "nat \<Rightarrow> nat \<Rightarrow> 'f::field list" where
  "bits_of bits m = map (of_bool \<circ> bit m) [0..<bits]"

lemma length_bits_of [simp]: "length (bits_of bits m) = bits"
  by (simp add: bits_of_def)

lemma zero_one_bits_of: "zero_one (bits_of bits m)"
  by (auto simp: zero_one_def bits_of_def)

lemma zero_one_append: "zero_one (xs @ ys) \<longleftrightarrow> zero_one xs \<and> zero_one ys"
  by (auto simp: zero_one_def)

lemma for_each_append_results:
  "(\<And>x. x \<in> set xs \<Longrightarrow> f x = Ok (h x)) \<Longrightarrow>
    for_each (\<lambda>x acc. and_then (f x) (\<lambda>y. Ok (acc @ y))) xs acc = Ok (acc @ concat (map h xs))"
  by (induction xs arbitrary: acc) simp_all

lemma chunks_concat:
  "0 < n \<Longrightarrow> \<forall>x \<in> set xs. length x = n \<Longrightarrow> chunks n (concat xs) = xs"
proof (induction xs)
  case (Cons x xs)
  then have "x @ concat xs \<noteq> []" by auto
  with Cons show ?case by (simp add: chunks_step)
qed simp

lemma sum_list_unit: "m < n \<Longrightarrow> sum_list ((replicate n 0)[m := 1]) = (1 :: 'f::field)"
proof (induction n arbitrary: m)
  case (Suc n)
  then show ?case by (cases m) (simp_all add: sum_list_replicate)
qed simp

lemma sum_list_count: "(\<Sum>m\<leftarrow>ms. of_bool (m = b)) = (of_nat (count_list ms b) :: 'f::field)"
  by (induction ms) auto

context large_field
begin

lemma encode_bits:
  assumes "bits < INTEGER_BITS F" "m < 2 ^ bits"
  shows "encode_as_bitvector F m bits = Ok (bits_of bits m)" "decode_bitvector F (bits_of bits m) = Ok (of_nat m)"
proof -
  show "encode_as_bitvector F m bits = Ok (bits_of bits m)" using encode_as_bitvector_Ok [OF assms] by (simp add: bits_of_def)
  with bitvector_roundtrip [OF assms] show "decode_bitvector F (bits_of bits m) = Ok (of_nat m)" by simp
qed

lemma Count_new_eq: "Count_new F = Ok (Count F)"
  using range_check_2 [where 'e = flp_error] by (simp add: Count_new_def)

lemma Sum_new_eq: "bits < INTEGER_BITS F \<Longrightarrow>
    Sum_new F bits = Ok (sum_type F bits [0, - 1, 1] (\<lambda>data _. decode_result_one F data))"
  using range_check_2 [where 'e = flp_error] by (simp add: Sum_new_def valid_integer_bitlength_iff)

lemma Average_new_eq: "bits < INTEGER_BITS F \<Longrightarrow>
    Average_new F bits = Ok (sum_type F bits [0, - 1, 1] (average_decode_result F))"
  using range_check_2 [where 'e = flp_error] by (simp add: Average_new_def valid_integer_bitlength_iff)

lemma run_count:
  assumes "length pr = 2" "r ^ 2 \<noteq> 1"
  shows "run_flp (Count F) b pr [] r = Ok True"
proof -
  have "and_then (prove (Count F) [select 0 1 b] pr []) (\<lambda>proof. and_then (query (Count F) [select 0 1 b] proof [r] [] 1) (decide (Count F))) =
      Ok (count.circuit_value [select 0 1 b] [] 1 = 0)"
    using assms by (intro count.completeness) (simp_all add: count_defs)
  moreover have "count.circuit_value [select 0 1 b] [] 1 = 0" by (simp add: count_circuit_value select_def)
  moreover have "encode_measurement (Count F) b = Ok [select 0 1 b]" by (simp add: Count_def)
  ultimately show ?thesis by (intro run_flp_accepts)
qed

lemma aggregate_nat: "to_integer F (\<Sum>m\<leftarrow>ms. of_nat m) = sum_list ms mod modulus F"
proof -
  have "(\<Sum>m\<leftarrow>ms. of_nat m :: 'f) = of_nat (sum_list ms)" by (induction ms) simp_all
  then show ?thesis by (simp add: to_integer_of_nat)
qed

end

context sum_circuit
begin

lemma run_sum:
  assumes "bits < INTEGER_BITS F" "m < 2 ^ bits" "length pr = 1" "length jr = 1" "r ^ wire_poly_len bits \<noteq> 1"
  shows "run_flp sum_T m pr jr r = Ok True"
proof -
  have "and_then (prove sum_T (bits_of bits m) pr jr) (\<lambda>proof. and_then (query sum_T (bits_of bits m) proof [r] jr 1) (decide sum_T)) =
      Ok (sum.circuit_value (bits_of bits m) jr 1 = 0)"
    using assms by (intro sum.completeness) (simp_all add: sum_defs)
  moreover have "encode_measurement sum_T m = Ok (bits_of bits m)"
    using encode_bits [OF assms(1,2)] by (simp add: sum_type_def)
  moreover have "sum.circuit_value (bits_of bits m) jr 1 = 0" by (simp add: sum_accepts zero_one_bits_of)
  ultimately show ?thesis by (intro run_flp_accepts)
qed

lemma sum_outputs:
  assumes "bits < INTEGER_BITS F" "m < 2 ^ bits"
  shows "and_then (encode_measurement sum_T m) (truncate_input sum_T) = Ok [of_nat m]"
  using encode_bits [OF assms] by (simp add: sum_type_def)

end

context histogram_verifiable
begin

lemma run_histogram:
  assumes "m < ilen" "length pr = cl * 2" "length jr = 2" "r ^ wire_poly_len gc \<noteq> 1"
  shows "run_flp histogram_T m pr jr r = Ok True"
proof -
  let ?x = "(replicate ilen 0)[m := 1] :: 'f list"
  have "and_then (prove histogram_T ?x pr jr) (\<lambda>proof. and_then (query histogram_T ?x proof [r] jr 1) (decide histogram_T)) =
      Ok (histogram.circuit_value ?x jr 1 = 0)"
    using assms by (intro histogram.completeness) (simp_all add: Histogram_def)
  moreover have "zero_one ?x" using set_update_subset_insert [of "replicate ilen 0" m 1] by (auto simp: zero_one_def)
  moreover have "sum_list ?x = 1" using sum_list_unit [OF assms(1)] .
  moreover have "encode_measurement histogram_T m = Ok ?x" using assms(1) by (simp add: Histogram_def)
  ultimately show ?thesis using histogram_accepts by (metis run_flp_accepts)
qed

end

context sumvec_circuit
begin

lemma sumvec_encode:
  assumes "0 < bits" "bits < INTEGER_BITS F" "length m = len" "\<forall>x \<in> set m. x < 2 ^ bits"
  shows "encode_measurement sumvec_T m = Ok (concat (map (bits_of bits) m))"
    and "truncate_input sumvec_T (concat (map (bits_of bits) m)) = Ok (map of_nat m)"
    and "length (concat (map (bits_of bits) m :: 'f list list)) = bits * len"
    and "zero_one (concat (map (bits_of bits) m) :: 'f list)"
proof -
  have e: "x \<le> 2 ^ bits - 1" "encode_as_bitvector F x bits = Ok (bits_of bits x)" "decode_bitvector F (bits_of bits x) = Ok (of_nat x)"
    if "x \<in> set m" for x
    using encode_bits [of bits x] assms that by (simp_all add: Suc_leI le_diff_conv2)
  have "for_each (\<lambda>summand flattened. if 2 ^ bits - 1 < summand then Err EncodeError
        else and_then (map_err FieldErr (encode_as_bitvector F summand bits)) (\<lambda>bs. Ok (flattened @ bs))) m [] =
      for_each (\<lambda>summand flattened. and_then (Ok (bits_of bits summand)) (\<lambda>bs. Ok (flattened @ bs))) m []"
    using e by (intro for_each_cong) (auto simp: not_less)
  then show "encode_measurement sumvec_T m = Ok (concat (map (bits_of bits) m))"
    using assms(3) for_each_append_results [of m "\<lambda>x. Ok (bits_of bits x) :: ('f list, flp_error) outcome" "bits_of bits"] by (simp add: SumVec_def)
  show len: "length (concat (map (bits_of bits) m :: 'f list list)) = bits * len"
    using assms(3) by (simp add: length_concat comp_def sum_list_triv)
  have "chunks bits (concat (map (bits_of bits) m)) = (map (bits_of bits) m :: 'f list list)" using assms(1) by (intro chunks_concat) auto
  moreover have "for_each (\<lambda>chunk unflattened. and_then (map_err FieldErr (decode_bitvector F chunk)) (\<lambda>x. Ok (unflattened @ [x])))
      (map (bits_of bits) m) acc = (Ok (acc @ map of_nat m) :: ('f list, flp_error) outcome)" for acc
    using e(3) by (induction m arbitrary: acc) simp_all
  ultimately show "truncate_input sumvec_T (concat (map (bits_of bits) m)) = Ok (map of_nat m)"
    using len by (simp add: SumVec_def)
  show "zero_one (concat (map (bits_of bits) m) :: 'f list)"
    using zero_one_bits_of by (auto simp: zero_one_def)
qed

end

context sumvec_verifiable
begin

lemma run_sumvec:
  assumes "0 < bits" "bits < INTEGER_BITS F" "length m = len" "\<forall>x \<in> set m. x < 2 ^ bits"
    and "length pr = cl * 2" "length jr = 1" "r ^ wire_poly_len gc \<noteq> 1"
  shows "run_flp sumvec_T m pr jr r = Ok True"
proof -
  let ?x = "concat (map (bits_of bits) m) :: 'f list"
  have "and_then (prove sumvec_T ?x pr jr) (\<lambda>proof. and_then (query sumvec_T ?x proof [r] jr 1) (decide sumvec_T)) =
      Ok (sumvec.circuit_value ?x jr 1 = 0)"
    using assms sumvec_encode(3) [OF assms(1-4)] by (intro sumvec.completeness) (simp_all add: SumVec_def)
  with sumvec_encode(1) [OF assms(1-4)] sumvec_accepts [OF sumvec_encode(4) [OF assms(1-4)]] show ?thesis
    by (intro run_flp_accepts)
qed

end


section \<open>Aggregation\<close>

context large_field
begin

lemma count_aggregate:
  "\<exists>outs. map (\<lambda>m. and_then (encode_measurement (Count F) m) (truncate_input (Count F))) ms = map Ok outs \<and>
    decode_result (Count F) (vector_sum (output_len (Count F)) outs) n = Ok (count_list ms True mod modulus F)"
proof (intro exI conjI)
  let ?outs = "map (\<lambda>m. [select 0 1 m]) ms :: 'f list list"
  show "map (\<lambda>m. and_then (encode_measurement (Count F) m) (truncate_input (Count F))) ms = map Ok ?outs"
    by (simp add: Count_def)
  have "vector_sum 1 ?outs = [of_nat (count_list ms True)]"
    by (induction ms) (auto simp: vector_sum_def select_def)
  then show "decode_result (Count F) (vector_sum (output_len (Count F)) ?outs) n = Ok (count_list ms True mod modulus F)"
    by (simp add: Count_def decode_result_one_def to_integer_of_nat)
qed

lemma vector_sum_singletons: "vector_sum 1 (map (\<lambda>m. [h m]) ms) = [\<Sum>m\<leftarrow>ms. h m :: 'f]"
  by (induction ms) (simp_all add: vector_sum_def)

lemma histogram_aggregate:
  assumes "\<forall>m \<in> set ms. m < len"
  shows "\<exists>outs. map (\<lambda>m. and_then (encode_measurement (Histogram F len cl gc) m) (truncate_input (Histogram F len cl gc))) ms = map Ok outs \<and>
    decode_result (Histogram F len cl gc) (vector_sum len outs) n =
    Ok (map (\<lambda>b. count_list ms b mod modulus F) [0..<len])"
proof (intro exI conjI)
  let ?outs = "map (\<lambda>m. (replicate len 0)[m := 1]) ms :: 'f list list"
  show "map (\<lambda>m. and_then (encode_measurement (Histogram F len cl gc) m) (truncate_input (Histogram F len cl gc))) ms = map Ok ?outs"
    using assms by (auto simp: Histogram_def)
  have len: "\<forall>v \<in> set ?outs. length v = len" by auto
  have "vector_sum len ?outs ! b = of_nat (count_list ms b)" if "b < len" for b
  proof -
    have unit: "(replicate len 0)[m := 1] ! b = (of_bool (m = b) :: 'f)" for m using that by (cases "m = b") simp_all
    have "vector_sum len ?outs ! b = (\<Sum>m\<leftarrow>ms. of_bool (m = b))"
      unfolding vector_sum_nth [OF len that] by (simp add: comp_def unit)
    then show ?thesis by (simp only: sum_list_count)
  qed
  then have "map (to_integer F) (vector_sum len ?outs) = map (\<lambda>b. count_list ms b mod modulus F) [0..<len]"
    using length_vector_sum [OF len] by (intro nth_equalityI) (simp_all add: to_integer_of_nat)
  then show "decode_result (Histogram F len cl gc) (vector_sum len ?outs) n =
      Ok (map (\<lambda>b. count_list ms b mod modulus F) [0..<len])"
    using length_vector_sum [OF len] by (simp add: Histogram_def decode_result_vec_def)
qed

end

context sum_circuit
begin

lemma sum_aggregate:
  assumes "bits < INTEGER_BITS F" "\<forall>m \<in> set ms. m < 2 ^ bits"
  shows "\<exists>outs. map (\<lambda>m. and_then (encode_measurement sum_T m) (truncate_input sum_T)) ms = map Ok outs \<and>
    decode_result_one F (vector_sum 1 outs) = Ok (sum_list ms mod modulus F)"
proof (intro exI conjI)
  let ?outs = "map (\<lambda>m. [of_nat m]) ms :: 'f list list"
  show "map (\<lambda>m. and_then (encode_measurement sum_T m) (truncate_input sum_T)) ms = map Ok ?outs"
    using sum_outputs [OF assms(1)] assms(2) by auto
  show "decode_result_one F (vector_sum 1 ?outs) = Ok (sum_list ms mod modulus F)"
    unfolding vector_sum_singletons by (simp add: decode_result_one_def aggregate_nat)
qed

end

context sumvec_circuit
begin

lemma sumvec_aggregate:
  assumes "0 < bits" "bits < INTEGER_BITS F" "\<forall>m \<in> set ms. length m = len \<and> (\<forall>x \<in> set m. x < 2 ^ bits)"
  shows "\<exists>outs. map (\<lambda>m. and_then (encode_measurement sumvec_T m) (truncate_input sumvec_T)) ms = map Ok outs \<and>
    decode_result sumvec_T (vector_sum len outs) n = Ok (map (\<lambda>i. (\<Sum>m\<leftarrow>ms. m ! i) mod modulus F) [0..<len])"
proof (intro exI conjI)
  let ?outs = "map (map of_nat) ms :: 'f list list"
  have "and_then (encode_measurement sumvec_T m) (truncate_input sumvec_T) = Ok (map of_nat m)" if "m \<in> set ms" for m
    using sumvec_encode(1,2) [OF assms(1,2)] assms(3) that by simp
  then show "map (\<lambda>m. and_then (encode_measurement sumvec_T m) (truncate_input sumvec_T)) ms = map Ok ?outs" by simp
  have len: "\<forall>v \<in> set ?outs. length v = len" using assms(3) by auto
  have "to_integer F (vector_sum len ?outs ! i) = (\<Sum>m\<leftarrow>ms. m ! i) mod modulus F" if "i < len" for i
    unfolding vector_sum_nth [OF len that] using aggregate_nat [of "map (\<lambda>m. m ! i) ms"] assms(3) that
    by (simp add: comp_def cong: map_cong)
  then have "map (to_integer F) (vector_sum len ?outs) = map (\<lambda>i. (\<Sum>m\<leftarrow>ms. m ! i) mod modulus F) [0..<len]"
    using length_vector_sum [OF len] by (intro nth_equalityI) simp_all
  then show "decode_result sumvec_T (vector_sum len ?outs) n = Ok (map (\<lambda>i. (\<Sum>m\<leftarrow>ms. m ! i) mod modulus F) [0..<len])"
    using length_vector_sum [OF len] by (simp add: SumVec_def decode_result_vec_def)
qed

end

section \<open>The circuits over the 128-bit field\<close>

interpretation Sum128: sum_circuit Field128 "min bits 128" decode for bits decode
  by unfold_locales simp

interpretation Histogram128: histogram_verifiable Field128 "min len (2 ^ 17)" 1 for len
  by unfold_locales simp_all

interpretation SumVec128: sumvec_verifiable Field128 "min bits 127" "min len 1024" 1 for bits len
  by unfold_locales (simp_all add: mult_le_mono [of _ 127 _ 1024, THEN order_trans])

section \<open>Properties\<close>

text \<open>
  Verification on shares: when the encoding of a summand and its proof are additively shared among any number of
  verifiers, each can compute its share of the verifier message from its own shares alone, and the sum of those messages
  is accepted exactly if the range check of \<open>Sum\<close>, with powers of the joint random value as weights, is zero.
\<close>

theorem sum_shared:
  fixes shares :: "(field128 list \<times> field128 list) list" and decode :: "field128 list \<Rightarrow> nat \<Rightarrow> ('r, flp_error) outcome"
  assumes "bits \<le> 128"
  defines "T \<equiv> sum_type Field128 bits [0, - 1, 1] decode"
  assumes "shares \<noteq> []" and "\<forall>(x, p) \<in> set shares. length x = bits \<and> length p = proof_len T"
    and "length pr = 1" and "length shares < modulus Field128" and "r ^ wire_poly_len bits \<noteq> 1"
    and "prove T (vector_sum bits (map fst shares)) pr [t] = Ok (vector_sum (proof_len T) (map snd shares))"
  shows "\<exists>vs. map (\<lambda>(x, p). query T x p [r] [t] (length shares)) shares = map Ok vs \<and>
    decide T (vector_sum (verifier_len T) vs) =
    Ok ((\<Sum>i<bits. t ^ Suc i * (vector_sum bits (map fst shares) ! i * vector_sum bits (map fst shares) ! i -
      vector_sum bits (map fst shares) ! i)) = 0)"
proof -
  have "\<forall>v \<in> set (map fst shares). length v = bits" using assms(4) by auto
  then have len: "length (vector_sum bits (map fst shares)) = bits" by simp
  have wl: "wire_poly_len (calls (sum_gadget bits :: field128 gadget)) = wire_poly_len bits" by (simp add: sum_gadget_def)
  have T: "input_len T = bits" "joint_rand_len T = 1" "prove_rand_len T = 1" by (simp_all add: T_def sum_type_def)
  show ?thesis
    using Sum128.sum.shared_verification [of shares bits decode "[t]" pr r] assms(1,3-) len T wl
      Sum128.sum_circuit_value [of "vector_sum bits (map fst shares)" bits "[t]" 1]
    unfolding T_def by simp
qed


theorem sum_shared_witness:
  "\<exists>p vs. prove (sum_type Field128 1 [0, - 1, 1] (\<lambda>data _. decode_result_one Field128 data)) [1] [5] [2] = Ok p \<and>
    map (\<lambda>(x, p). query (sum_type Field128 1 [0, - 1, 1] (\<lambda>data _. decode_result_one Field128 data)) x p [0] [2] 2)
      [([3], replicate 4 1), ([- 2], map (\<lambda>x. x - 1) p)] = map Ok vs \<and>
    decide (sum_type Field128 1 [0, - 1, 1] (\<lambda>data _. decode_result_one Field128 data)) (vector_sum 3 vs) = Ok True"
proof -
  let ?T = "sum_type Field128 1 [0, - 1, 1] (\<lambda>data _. decode_result_one Field128 data)"
  have n: "next_power_of_two 2 = 2" "wire_poly_len (Suc 0) = 2" by code_simp+
  have len: "input_len ?T = 1" "joint_rand_len ?T = 1" "prove_rand_len ?T = 1" "proof_len ?T = 4" "verifier_len ?T = 3"
    by (simp_all add: sum_type_def n numeral_2_eq_2 [symmetric])
  obtain p where p: "prove ?T [1] [5] [2] = Ok p" "length p = 4"
    using Sum128.sum.prove_value [of "[1]" 1 "\<lambda>data _. decode_result_one Field128 data" "[2]" "[5]"] len
    by (auto simp: sum_gadget_def gadget_poly_len_def n poly_deg_range_check)
  let ?shares = "[([3], replicate 4 1), ([- 2], map (\<lambda>x. x - 1) p)] :: (field128 list \<times> field128 list) list"
  have x: "vector_sum 1 (map fst ?shares) = [1]" by (simp add: vector_sum_def)
  have "vector_sum 4 (map snd ?shares) = p"
    using p(2) by (intro nth_equalityI) (simp_all add: vector_sum_def)
  with sum_shared [of 1 ?shares "\<lambda>data _. decode_result_one Field128 data" "[5]" 0 2] x p len n
  have "\<exists>vs. map (\<lambda>(x, p). query ?T x p [0] [2] (length ?shares)) ?shares = map Ok vs \<and> decide ?T (vector_sum 3 vs) = Ok True"
    by (simp add: modulus_128)
  moreover have "length ?shares = 2" by simp
  ultimately show ?thesis using p(1) by metis
qed

text \<open>
  C23. \<open>Count\<close> over the 64-bit field decides its input exactly: for every one-element input and all random values except those
  that \<open>query\<close> refuses, the proof made by \<open>prove\<close> is accepted if and only if the input is zero or one.
\<close>

theorem count_decides:
  assumes "length pr = 2" and "r ^ 2 \<noteq> 1"
  shows "and_then (prove (Count Field64) [x] pr []) (\<lambda>proof. and_then (query (Count Field64) [x] proof [r] [] 1) (decide (Count Field64))) =
    Ok (x = 0 \<or> x = 1)"
proof -
  have w: "wire_poly_len (calls (count_gadget :: field64 gadget)) = 2" by (simp add: count_gadget_def wire_poly_len_def next_power_of_two_small)
  have len: "length [x] = input_len (Count Field64)" "length [] = joint_rand_len (Count Field64)"
    "length pr = prove_rand_len (Count Field64)" using assms(1) by (simp_all add: Count_def)
  have v: "Field64.count.circuit_value [x] [] 1 = x * x - x" by (simp add: Field64.count_circuit_value)
  show ?thesis
    using Field64.count.completeness [OF len, of r] assms(2) zero_one_root [of x] unfolding w v by simp
qed


theorem count_decides_witness:
  "and_then (prove (Count Field64) [2] [3, 4] []) (\<lambda>proof. and_then (query (Count Field64) [2] proof [0] [] 1) (decide (Count Field64))) =
    Ok ((2 :: field64) = 0 \<or> (2 :: field64) = 1)"
  by (rule count_decides) simp_all

text \<open>
  Completeness of \<open>Histogram\<close> over the 128-bit field: the proof for a measurement below the number of buckets is
  accepted, for all random values except those that \<open>query\<close> refuses, for every length up to \<open>2\<^sup>1\<^sup>7\<close> and every chunk length
  for which the wire polynomials reach the length from which the transform is used, or chunks of one entry.
\<close>

theorem histogram_complete:
  assumes "m < len" and "0 < cl" and "len \<le> 2 ^ 17" and "FFT_THRESHOLD \<le> wire_poly_len (ceil_div len cl) \<or> cl = 1"
    and "length pr = cl * 2" and "length jr = 2" and "r ^ wire_poly_len (ceil_div len cl) \<noteq> 1"
  shows "and_then (Histogram_new Field128 len cl) (\<lambda>T. run_flp T m pr jr r) = Ok True"
proof -
  have "histogram_verifiable Field128 len cl" using assms by unfold_locales simp_all
  from histogram_verifiable.run_histogram [OF this, of m pr jr r] assms show ?thesis
    by (simp add: Histogram_new_def)
qed


theorem histogram_complete_witness:
  "and_then (Histogram_new Field128 60 2) (\<lambda>T. run_flp T 41 [1, 2, 3, 4] [5, 6] 0) = Ok True"
proof (rule histogram_complete)
  have "wire_poly_len (ceil_div 60 2) = 32" by code_simp
  then show "FFT_THRESHOLD \<le> wire_poly_len (ceil_div 60 2) \<or> (2 :: nat) = 1"
    and "(0 :: field128) ^ wire_poly_len (ceil_div 60 2) \<noteq> 1" by (simp_all add: FFT_THRESHOLD_def)
qed simp_all




text \<open>
  C25. A query point that is a root of unity of the order of the wire polynomials would reveal entries of the input; \<open>query\<close>
  refuses it for every input and every proof of \<open>Sum\<close>.
\<close>

theorem sum_query_refuses_roots:
  assumes "bits \<le> 128" and "length input = bits" and "length jr = 1"
    and "length proof = proof_len (sum_type Field128 bits [0, - 1, 1] decode)" and "r ^ wire_poly_len bits = 1"
  shows "query (sum_type Field128 bits [0, - 1, 1] decode) input proof [r] jr num_shares = Err QueryError"
  using Sum128.sum.query_rejects_root [of input bits decode jr "proof" r num_shares] assms
  by (simp add: sum_type_def sum_gadget_def)


theorem sum_query_refuses_roots_witness:
  "query (sum_type Field128 2 [0, - 1, 1] (\<lambda>data _. decode_result_one Field128 data)) [1, 0] (replicate 8 9) [1] [3] 2 = Err QueryError"
proof (rule sum_query_refuses_roots)
  have "next_power_of_two 3 = 4" by code_simp
  then show "length (replicate 8 9) = proof_len (sum_type Field128 2 [0, - 1, 1] (\<lambda>data _. decode_result_one Field128 data))"
    by (simp add: sum_type_def numeral_3_eq_3)
qed simp_all




end
