(* ===== verification/Szk.thy ===== *)
theory Szk
  imports VdafError Prng Circuits
begin

text \<open>
  The wrapper of the proof system that Mastic uses, \<^verbatim>\<open>src/flp/szk.rs\<close>: measurement and proof are shared between a
  leader and a helper, and all coins are derived from seeds with an extendable-output function.
\<close>

section \<open>Data\<close>

definition DST_PROVE_RANDOMNESS :: nat where "DST_PROVE_RANDOMNESS = 0"

definition DST_PROOF_SHARE :: nat where "DST_PROOF_SHARE = 1"

definition DST_QUERY_RANDOMNESS :: nat where "DST_QUERY_RANDOMNESS = 2"

definition DST_JOINT_RAND_SEED :: nat where "DST_JOINT_RAND_SEED = 3"

definition DST_JOINT_RAND_PART :: nat where "DST_JOINT_RAND_PART = 4"

definition DST_JOINT_RANDOMNESS :: nat where "DST_JOINT_RANDOMNESS = 5"

definition MASTIC_VERSION :: byte where "MASTIC_VERSION = 0"

datatype szk_error = SzkDecide | SzkQuery | SzkFlp flp_error | SzkPrng | SzkCodec codec_error

text \<open>The leader's share: the proof share, its blind and the helper's part.  The helper's: its seed and the leader's part.\<close>

datatype 'f szk_proof_share =
    is_SzkLeader: SzkLeader (uncompressed_proof_share: "'f list") (leader_blind_and_helper_joint_rand_part: "(seed \<times> seed) option")
  | SzkHelper (proof_share_seed_and_blind: seed) (leader_joint_rand_part: "seed option")

record 'f szk_query_share =
  query_joint_rand_part :: "seed option"
  query_verifier :: "'f list"

record szk_query_state =
  query_joint_rand_seed :: "seed option"

record ('m, 'r, 'f, 'x, 's) szk =
  szk_typ :: "('m, 'r, 'f) flp_type"
  szk_xof :: "('x, 's, szk_error) xof"
  szk_algorithm_id :: u32

section \<open>Derivations\<close>

definition szk_domain_separation_tag :: "('m, 'r, 'f, 'x, 's) szk \<Rightarrow> nat \<Rightarrow> bytes" where
  "szk_domain_separation_tag S usage = [MASTIC_VERSION, 0] @ be_bytes 4 (unat (szk_algorithm_id S)) @ be_bytes 2 usage"

definition szk_derive_prove_rand :: "('m, 'r, 'f, 'x, 's) szk \<Rightarrow> seed \<Rightarrow> ('f list, szk_error) outcome" where
  "szk_derive_prove_rand S prove_rand_seed =
     and_then (xof_seed_stream (szk_xof S) prove_rand_seed (szk_domain_separation_tag S DST_PROVE_RANDOMNESS) []) (\<lambda>s.
       into_field_vec (flp_field (szk_typ S)) (fill_bytes (szk_xof S)) s (prove_rand_len (szk_typ S)))"

definition szk_derive_joint_rand_part ::
  "('m, 'r, 'f, 'x, 's) szk \<Rightarrow> seed \<Rightarrow> 'f list \<Rightarrow> bytes \<Rightarrow> (seed, szk_error) outcome" where
  "szk_derive_joint_rand_part S aggregator_blind measurement_share nonce =
     and_then (init (szk_xof S) aggregator_blind (szk_domain_separation_tag S DST_JOINT_RAND_PART)) (\<lambda>xof.
     and_then (for_each (\<lambda>field_elem xof.
         and_then (map_err SzkCodec (field_encode (flp_field (szk_typ S)) field_elem [])) (\<lambda>encoding_buffer.
           Ok (update (szk_xof S) encoding_buffer xof)))
         measurement_share (update (szk_xof S) nonce xof))
       (into_seed (szk_xof S)))"

definition szk_derive_joint_rand_seed :: "('m, 'r, 'f, 'x, 's) szk \<Rightarrow> seed \<Rightarrow> seed \<Rightarrow> (seed, szk_error) outcome" where
  "szk_derive_joint_rand_seed S leader_part helper_part =
     and_then (init (szk_xof S) (replicate (SEED_SIZE (szk_xof S)) 0) (szk_domain_separation_tag S DST_JOINT_RAND_SEED)) (\<lambda>xof.
       into_seed (szk_xof S) (update (szk_xof S) helper_part (update (szk_xof S) leader_part xof)))"

definition szk_derive_joint_rand_and_seed ::
  "('m, 'r, 'f, 'x, 's) szk \<Rightarrow> seed \<Rightarrow> seed \<Rightarrow> (seed \<times> 'f list, szk_error) outcome" where
  "szk_derive_joint_rand_and_seed S leader_part helper_part =
     and_then (szk_derive_joint_rand_seed S leader_part helper_part) (\<lambda>joint_rand_seed.
     and_then (xof_seed_stream (szk_xof S) joint_rand_seed (szk_domain_separation_tag S DST_JOINT_RANDOMNESS) []) (\<lambda>s.
     and_then (into_field_vec (flp_field (szk_typ S)) (fill_bytes (szk_xof S)) s (joint_rand_len (szk_typ S))) (\<lambda>joint_rand.
       Ok (joint_rand_seed, joint_rand))))"

definition szk_derive_helper_proof_share :: "('m, 'r, 'f, 'x, 's) szk \<Rightarrow> seed \<Rightarrow> ('f list, szk_error) outcome" where
  "szk_derive_helper_proof_share S proof_share_seed =
     and_then (xof_seed_stream (szk_xof S) proof_share_seed (szk_domain_separation_tag S DST_PROOF_SHARE) []) (\<lambda>s.
     and_then (from_seed_stream (flp_field (szk_typ S)) (fill_bytes (szk_xof S)) s) (\<lambda>g.
       prng_take (flp_field (szk_typ S)) (fill_bytes (szk_xof S)) (proof_len (szk_typ S)) g))"

definition szk_derive_query_rand :: "('m, 'r, 'f, 'x, 's) szk \<Rightarrow> bytes \<Rightarrow> bytes \<Rightarrow> ('f list, szk_error) outcome" where
  "szk_derive_query_rand S verify_key nonce =
     and_then (init (szk_xof S) verify_key (szk_domain_separation_tag S DST_QUERY_RANDOMNESS)) (\<lambda>xof.
       into_field_vec (flp_field (szk_typ S)) (fill_bytes (szk_xof S))
         (into_seed_stream (szk_xof S) (update (szk_xof S) nonce xof)) (query_rand_len (szk_typ S)))"

definition szk_has_joint_rand :: "('m, 'r, 'f, 'x, 's) szk \<Rightarrow> bool" where
  "szk_has_joint_rand S \<longleftrightarrow> 0 < joint_rand_len (szk_typ S)"

section \<open>Prover\<close>

definition szk_prove ::
  "('m, 'r, 'f::field, 'x, 's) szk \<Rightarrow> 'f list \<Rightarrow> 'f list \<Rightarrow> 'f list \<Rightarrow> seed \<times> seed \<Rightarrow> seed option \<Rightarrow> bytes \<Rightarrow>
   ('f szk_proof_share \<times> 'f szk_proof_share, szk_error) outcome" where
  "szk_prove S leader_input_share helper_input_share encoded_measurement rand_seeds leader_seed_opt nonce =
     (let (prove_rand_seed, helper_seed) = rand_seeds in
      and_then
        (case leader_seed_opt of
           Some leader_seed \<Rightarrow>
             and_then (szk_derive_joint_rand_part S leader_seed leader_input_share nonce) (\<lambda>leader_part.
             and_then (szk_derive_joint_rand_part S helper_seed helper_input_share nonce) (\<lambda>helper_part.
             and_then (szk_derive_joint_rand_and_seed S leader_part helper_part) (\<lambda>(_, joint_rand).
               Ok (Some (leader_seed, helper_part), Some leader_part, joint_rand))))
         | None \<Rightarrow> Ok (None, None, []))
        (\<lambda>(leader_blind_and_helper_part, leader_part, joint_rand).
           and_then (szk_derive_prove_rand S prove_rand_seed) (\<lambda>prove_rand.
           and_then (map_err SzkFlp (prove (szk_typ S) encoded_measurement prove_rand joint_rand)) (\<lambda>leader_proof_share.
           and_then (szk_derive_helper_proof_share S helper_seed) (\<lambda>helper.
             Ok (SzkLeader (map2 (-) leader_proof_share helper @ drop (length helper) leader_proof_share)
                   leader_blind_and_helper_part,
                 SzkHelper helper_seed leader_part))))))"

section \<open>Verifier\<close>

definition szk_query ::
  "('m, 'r, 'f::field, 'x, 's) szk \<Rightarrow> 'f list \<Rightarrow> 'f szk_proof_share \<Rightarrow> bytes \<Rightarrow> bytes \<Rightarrow>
   ('f szk_query_share \<times> szk_query_state, szk_error) outcome" where
  "szk_query S input_share proof_share verify_key nonce =
     and_then (szk_derive_query_rand S verify_key nonce) (\<lambda>query_rand.
     and_then
       (case proof_share of
          SzkLeader uncompressed _ \<Rightarrow> Ok uncompressed
        | SzkHelper seed_and_blind _ \<Rightarrow> szk_derive_helper_proof_share S seed_and_blind) (\<lambda>flp_proof_share.
     and_then
       (if szk_has_joint_rand S then
          and_then
            (case proof_share of
               SzkLeader _ blind_and_part \<Rightarrow>
                 (case blind_and_part of
                    Some (blind, helper_part) \<Rightarrow>
                      and_then (szk_derive_joint_rand_part S blind input_share nonce) (\<lambda>leader_part.
                      and_then (szk_derive_joint_rand_and_seed S leader_part helper_part) (\<lambda>r. Ok (r, leader_part)))
                  | None \<Rightarrow> Err SzkQuery)
             | SzkHelper seed_and_blind leader_part_opt \<Rightarrow>
                 (case leader_part_opt of
                    Some leader_part \<Rightarrow>
                      and_then (szk_derive_joint_rand_part S seed_and_blind input_share nonce) (\<lambda>helper_part.
                      and_then (szk_derive_joint_rand_and_seed S leader_part helper_part) (\<lambda>r. Ok (r, helper_part)))
                  | None \<Rightarrow> Err SzkQuery))
            (\<lambda>((joint_rand_seed, joint_rand), host_part). Ok (joint_rand, Some joint_rand_seed, Some host_part))
        else Ok ([], None, None))
       (\<lambda>(joint_rand, joint_rand_seed, joint_rand_part).
          and_then (map_err SzkFlp (query (szk_typ S) input_share flp_proof_share query_rand joint_rand 2)) (\<lambda>verifier_share.
            Ok (\<lparr>query_joint_rand_part = joint_rand_part, query_verifier = verifier_share\<rparr>,
                \<lparr>query_joint_rand_seed = joint_rand_seed\<rparr>)))))"

definition szk_decide ::
  "('m, 'r, 'f::field, 'x, 's) szk \<Rightarrow> 'f list \<Rightarrow> seed option \<Rightarrow> seed option \<Rightarrow> seed option \<Rightarrow> (bool, szk_error) outcome" where
  "szk_decide S verifier leader_part_opt helper_part_opt joint_rand_seed_opt =
     and_then (map_err SzkFlp (decide (szk_typ S) verifier)) (\<lambda>check_flp_proof.
       if \<not> check_flp_proof then Ok False
       else
         (case (joint_rand_seed_opt, leader_part_opt, helper_part_opt) of
            (Some joint_rand_seed, Some leader_part, Some helper_part) \<Rightarrow>
              and_then (szk_derive_joint_rand_seed S leader_part helper_part) (\<lambda>expected.
                Ok (joint_rand_seed = expected))
          | (None, None, None) \<Rightarrow> Ok True
          | _ \<Rightarrow> Err SzkDecide))"

section \<open>Completeness\<close>

lemma length_prng_take: "prng_take F fill n g = Ok xs \<Longrightarrow> length xs = n"
  by (induction n arbitrary: g xs) auto

lemma length_into_field_vec: "into_field_vec F fill s n = Ok xs \<Longrightarrow> length xs = n"
  by (auto simp: into_field_vec_def dest: length_prng_take)

lemma length_helper_proof_share: "szk_derive_helper_proof_share S sd = Ok h \<Longrightarrow> length h = proof_len (szk_typ S)"
  by (auto simp: szk_derive_helper_proof_share_def dest: length_prng_take)

lemma length_joint_rand: "szk_derive_joint_rand_and_seed S a b = Ok (s, jr) \<Longrightarrow> length jr = joint_rand_len (szk_typ S)"
  by (auto simp: szk_derive_joint_rand_and_seed_def dest: length_into_field_vec)

text \<open>
  What a successful run of the prover fixes: the joint randomness both verifiers will derive, the parts of it, and
  proof shares that add up to the proof.
\<close>

lemma szk_proveE:
  assumes "szk_prove S x0 x1 x (ps, hs) leader_seed_opt nonce = Ok (l, h)"
  obtains pr jr p helper where "szk_derive_prove_rand S ps = Ok pr" "prove (szk_typ S) x pr jr = Ok p"
    "szk_derive_helper_proof_share S hs = Ok helper"
    "uncompressed_proof_share l = map2 (-) p helper @ drop (length helper) p" "is_SzkLeader l"
    "proof_share_seed_and_blind h = hs" "\<not> is_SzkLeader h"
    "case leader_seed_opt of
       None \<Rightarrow> jr = [] \<and> leader_blind_and_helper_joint_rand_part l = None \<and> leader_joint_rand_part h = None
     | Some ls \<Rightarrow> \<exists>lp hp sd. szk_derive_joint_rand_part S ls x0 nonce = Ok lp \<and> szk_derive_joint_rand_part S hs x1 nonce = Ok hp \<and>
         szk_derive_joint_rand_and_seed S lp hp = Ok (sd, jr) \<and>
         leader_blind_and_helper_joint_rand_part l = Some (ls, hp) \<and> leader_joint_rand_part h = Some lp"
  using assms by (cases leader_seed_opt) (fastforce simp: szk_prove_def)+

context verifiable_circuit
begin

lemma two_shares:
  assumes "length x0 = input_len T" "length x1 = input_len T" "length jr = joint_rand_len T" "length pr = prove_rand_len T"
    and r: "r ^ wire_len \<noteq> 1" and two: "2 < modulus F"
    and p: "prove T (map2 (+) x0 x1) pr jr = Ok p" and h: "length h = proof_len T"
  shows "\<exists>v0 v1. query T x0 (map2 (-) p h) [r] jr 2 = Ok v0 \<and> query T x1 h [r] jr 2 = Ok v1 \<and>
    decide T (map2 (+) v0 v1) = Ok (circuit_value (map2 (+) x0 x1) jr 1 = 0)"
proof -
  have "length pr = arity g" using assms(4) by (simp add: lens)
  with prove_value [of "map2 (+) x0 x1" jr pr] assms(1-3) p have len: "length p = proof_len T" by (auto simp: lens)
  have zero: "map2 (+) xs (replicate n 0) = xs" if "length xs = n" for xs :: "'f list" and n
    using that by (intro nth_equalityI) simp_all
  have sum: "vector_sum n [a, b] = map2 (+) a b" if "length a = n" "length b = n" for n and a b :: "'f list"
    using that by (simp add: vector_sum_def zero)
  have p': "map2 (+) (map2 (-) p h) h = p" using len h by (intro nth_equalityI) simp_all
  let ?shares = "[(x0, map2 (-) p h), (x1, h)]"
  have "\<exists>vs. map (\<lambda>(x, p). query T x p [r] jr (length ?shares)) ?shares = map Ok vs \<and>
      decide T (vector_sum (verifier_len T) vs) = Ok (circuit_value (vector_sum (input_len T) (map fst ?shares)) jr 1 = 0)"
    using assms len two by (intro shared_verification [OF _ _ assms(3,4) _ r]) (simp_all add: sum p')
  then obtain vs where "map (\<lambda>(x, p). query T x p [r] jr (length ?shares)) ?shares = map Ok vs"
    "decide T (vector_sum (verifier_len T) vs) = Ok (circuit_value (vector_sum (input_len T) (map fst ?shares)) jr 1 = 0)" by blast
  then obtain v0 v1 where v: "vs = [v0, v1]" "query T x0 (map2 (-) p h) [r] jr 2 = Ok v0" "query T x1 h [r] jr 2 = Ok v1"
    and d: "decide T (vector_sum (verifier_len T) vs) = Ok (circuit_value (map2 (+) x0 x1) jr 1 = 0)"
    using assms(1,2) by (auto simp: sum numeral_2_eq_2)
  have "length v = verifier_len T" if "query T x q [r] jr 2 = Ok v" for x q v
    using that by (auto simp: query_def split: if_splits)
  then have "vector_sum (verifier_len T) vs = map2 (+) v0 v1" using v by (simp add: sum)
  with v d show ?thesis by simp
qed

text \<open>Honest shares are accepted exactly when the circuit accepts the measurement.\<close>

theorem szk_complete:
  assumes S: "szk_typ S = T" and x: "length x0 = input_len T" "length x1 = input_len T"
    and prv: "szk_prove S x0 x1 (map2 (+) x0 x1) seeds leader_seed_opt nonce = Ok (l, h)"
    and qr: "szk_derive_query_rand S verify_key nonce = Ok [r]" "r ^ wire_len \<noteq> 1" and two: "2 < modulus F"
  shows "\<exists>q0 st0 q1 st1 jr. szk_query S x0 l verify_key nonce = Ok (q0, st0) \<and> szk_query S x1 h verify_key nonce = Ok (q1, st1) \<and>
    st0 = st1 \<and> length jr = joint_rand_len T \<and>
    szk_decide S (map2 (+) (query_verifier q0) (query_verifier q1)) (query_joint_rand_part q0) (query_joint_rand_part q1)
      (query_joint_rand_seed st0) = Ok (circuit_value (map2 (+) x0 x1) jr 1 = 0)"
proof -
  obtain ps hs where sd: "seeds = (ps, hs)" by fastforce
  obtain pr jr p helper where o: "szk_derive_prove_rand S ps = Ok pr" "prove T (map2 (+) x0 x1) pr jr = Ok p"
    "szk_derive_helper_proof_share S hs = Ok helper"
    and l: "uncompressed_proof_share l = map2 (-) p helper @ drop (length helper) p" "is_SzkLeader l"
    and h: "proof_share_seed_and_blind h = hs" "\<not> is_SzkLeader h"
    and c: "case leader_seed_opt of
       None \<Rightarrow> jr = [] \<and> leader_blind_and_helper_joint_rand_part l = None \<and> leader_joint_rand_part h = None
     | Some ls \<Rightarrow> \<exists>lp hp sd. szk_derive_joint_rand_part S ls x0 nonce = Ok lp \<and> szk_derive_joint_rand_part S hs x1 nonce = Ok hp \<and>
         szk_derive_joint_rand_and_seed S lp hp = Ok (sd, jr) \<and>
         leader_blind_and_helper_joint_rand_part l = Some (ls, hp) \<and> leader_joint_rand_part h = Some lp"
    by (rule szk_proveE [OF prv [unfolded sd]]) (simp add: S)
  have lens': "length jr = joint_rand_len T" "length pr = prove_rand_len T" using o(2) by (auto simp: prove_def split: if_splits)
  have helper: "length helper = proof_len T" using length_helper_proof_share [OF o(3)] by (simp add: S)
  obtain v0 v1 where v: "query T x0 (map2 (-) p helper) [r] jr 2 = Ok v0" "query T x1 helper [r] jr 2 = Ok v1"
    "decide T (map2 (+) v0 v1) = Ok (circuit_value (map2 (+) x0 x1) jr 1 = 0)"
    using two_shares [OF x lens' qr(2) two o(2) helper] by blast
  have "length pr = arity g" using lens'(2) by (simp add: lens)
  with prove_value [of "map2 (+) x0 x1" jr pr] x lens'(1) o(2) have "length p = proof_len T" by (auto simp: lens)
  then have l': "l = SzkLeader (map2 (-) p helper) (leader_blind_and_helper_joint_rand_part l)"
    and h': "h = SzkHelper hs (leader_joint_rand_part h)" using l h helper by (cases l; cases h; simp)+
  show ?thesis
  proof (cases "szk_has_joint_rand S")
    case True
    then have "jr \<noteq> []" using lens'(1) by (auto simp: szk_has_joint_rand_def S)
    with c obtain ls lp hp s where j: "szk_derive_joint_rand_part S ls x0 nonce = Ok lp" "szk_derive_joint_rand_part S hs x1 nonce = Ok hp"
        "szk_derive_joint_rand_and_seed S lp hp = Ok (s, jr)" and l'': "l = SzkLeader (map2 (-) p helper) (Some (ls, hp))"
        and h'': "h = SzkHelper hs (Some lp)"
      using l' h' by (auto split: option.splits)
    have s: "szk_derive_joint_rand_seed S lp hp = Ok s" using j(3) by (auto simp: szk_derive_joint_rand_and_seed_def)
    have "szk_query S x0 l verify_key nonce = Ok (\<lparr>query_joint_rand_part = Some lp, query_verifier = v0\<rparr>, \<lparr>query_joint_rand_seed = Some s\<rparr>)"
      "szk_query S x1 h verify_key nonce = Ok (\<lparr>query_joint_rand_part = Some hp, query_verifier = v1\<rparr>, \<lparr>query_joint_rand_seed = Some s\<rparr>)"
      using True j v o(3) by (simp_all add: szk_query_def l'' h'' qr(1) S)
    with v(3) s lens'(1) show ?thesis by (auto simp: szk_decide_def S)
  next
    case False
    then have jr: "jr = []" using lens'(1) by (simp add: szk_has_joint_rand_def S)
    have "szk_query S x0 l verify_key nonce = Ok (\<lparr>query_joint_rand_part = None, query_verifier = v0\<rparr>, \<lparr>query_joint_rand_seed = None\<rparr>)"
      by (subst l') (use False v jr in \<open>simp add: szk_query_def qr(1) S\<close>)
    moreover have "szk_query S x1 h verify_key nonce = Ok (\<lparr>query_joint_rand_part = None, query_verifier = v1\<rparr>, \<lparr>query_joint_rand_seed = None\<rparr>)"
      by (subst h') (use False v jr o(3) in \<open>simp add: szk_query_def qr(1) S\<close>)
    ultimately show ?thesis using v(3) lens'(1) jr by (auto simp: szk_decide_def S)
  qed
qed

end

text \<open>A verifier accepts only if the seed it used is the one derived from the parts that were sent.\<close>

lemma szk_decide_TrueD:
  assumes "szk_decide S verifier lp hp sd = Ok True"
  shows "decide (szk_typ S) verifier = Ok True \<and>
    (case (sd, lp, hp) of (Some s, Some l, Some h) \<Rightarrow> szk_derive_joint_rand_seed S l h = Ok s | (None, None, None) \<Rightarrow> True | _ \<Rightarrow> False)"
  using assms by (auto simp: szk_decide_def split: if_splits option.splits)

end
