(* ===== verification/Vdaf.thy ===== *)
theory Vdaf
  imports VdafError Prng
begin

text \<open>
  The interfaces of \<^verbatim>\<open>src/vdaf.rs\<close>: shares and their wire format, the role of an aggregator as a dictionary of its
  methods, and output and aggregate shares that are vectors of field elements.
\<close>

section \<open>Shares\<close>

datatype 'f share = LeaderShare "'f list" | HelperShare seed

datatype share_decoding_parameter = LeaderParameter nat | HelperParameter

text \<open>\<open>SEED_SIZE\<close> is an argument.\<close>

fun share_decode :: "nat \<Rightarrow> 'f field_element \<Rightarrow> share_decoding_parameter \<Rightarrow> 'f share decoder" where
  "share_decode seed_size F (LeaderParameter share_length) c =
     and_then (decode_count (field_decode F) share_length c) (\<lambda>(data, c). Ok (LeaderShare data, c))"
| "share_decode seed_size F HelperParameter c =
     and_then (seed_decode seed_size c) (\<lambda>(s, c). Ok (HelperShare s, c))"

fun share_encode :: "'f field_element \<Rightarrow> 'f share encoder" where
  "share_encode F (LeaderShare share_data) bs = for_each (field_encode F) share_data bs"
| "share_encode F (HelperShare share_seed) bs = seed_encode share_seed bs"

definition domain_separation_tag :: "u32 \<Rightarrow> nat \<Rightarrow> bytes" where
  "domain_separation_tag algorithm_id usage = [VERSION, 0] @ be_bytes 4 (unat algorithm_id) @ be_bytes 2 usage"

section \<open>Aggregators\<close>

datatype ('st, 'sh, 'out) prepare_transition = Continue 'st 'sh | Finish 'out

text \<open>The methods of \<open>Aggregator\<close> that preparation uses, and the codecs of its messages, whose decoders take a state.\<close>

record ('ap, 'pub, 'inp, 'st, 'sh, 'msg, 'out) aggregator =
  prepare_init :: "bytes \<Rightarrow> nat \<Rightarrow> 'ap \<Rightarrow> bytes \<Rightarrow> 'pub \<Rightarrow> 'inp \<Rightarrow> ('st \<times> 'sh, vdaf_error) outcome"
  prepare_shares_to_prepare_message :: "'ap \<Rightarrow> 'sh list \<Rightarrow> ('msg, vdaf_error) outcome"
  prepare_next :: "'st \<Rightarrow> 'msg \<Rightarrow> (('st, 'sh, 'out) prepare_transition, vdaf_error) outcome"
  prep_share_encode :: "'sh encoder"
  prep_share_decode :: "'st \<Rightarrow> 'sh decoder"
  prep_msg_encode :: "'msg encoder"
  prep_msg_decode :: "'st \<Rightarrow> 'msg decoder"

section \<open>Vectors of field elements as output and aggregate shares\<close>

definition output_share_encode :: "'f field_element \<Rightarrow> 'f list encoder" where
  "output_share_encode F v bs = encode_fieldvec F v bs"

definition agg_share_sum :: "'f::field list \<Rightarrow> 'f list \<Rightarrow> ('f list, vdaf_error) outcome" where
  "agg_share_sum agg other = map_err VdafField (merge_vector agg other)"

definition agg_share_merge :: "'f::field list \<Rightarrow> 'f list \<Rightarrow> ('f list, vdaf_error) outcome" where
  "agg_share_merge agg agg_share = agg_share_sum agg agg_share"

definition agg_share_accumulate :: "'f::field list \<Rightarrow> 'f list \<Rightarrow> ('f list, vdaf_error) outcome" where
  "agg_share_accumulate agg output_share = agg_share_sum agg output_share"

definition agg_share_encode :: "'f field_element \<Rightarrow> 'f list encoder" where
  "agg_share_encode F v bs = encode_fieldvec F v bs"

section \<open>Wire format of shares\<close>

fun share_wire :: "'f field_element \<Rightarrow> 'f share \<Rightarrow> bytes" where
  "share_wire F (LeaderShare xs) = concat (map (to_bytes F) xs)"
| "share_wire F (HelperShare s) = s"

fun share_fits :: "nat \<Rightarrow> share_decoding_parameter \<Rightarrow> 'f share \<Rightarrow> bool" where
  "share_fits seed_size (LeaderParameter n) (LeaderShare xs) \<longleftrightarrow> length xs = n"
| "share_fits seed_size HelperParameter (HelperShare s) \<longleftrightarrow> length s = seed_size"
| "share_fits seed_size _ _ \<longleftrightarrow> False"

interpretation seed: codec seed_encode "seed_decode n" "\<lambda>s. length s = n" "\<lambda>s. s" for n
  by unfold_locales (simp_all add: seed_encode_def seed_decode_def read_exact_def)

sublocale prime_field \<subseteq> share: codec "share_encode F" "share_decode n F par" "share_fits n par" "share_wire F" for n par
proof unfold_locales
  fix x :: "'f share" and bs pre post
  assume "share_fits n par x"
  then show "share_encode F x bs = Ok (bs @ share_wire F x)"
    by (cases x) (simp_all add: for_each_enc seed_encode_def)
next
  fix x :: "'f share" and pre post
  assume fits: "share_fits n par x" and len: "length (pre @ share_wire F x @ post) < usize_bound"
  show "share_decode n F par (Cursor (pre @ share_wire F x @ post) (length pre)) =
      Ok (x, Cursor (pre @ share_wire F x @ post) (length pre + length (share_wire F x)))"
  proof (cases x)
    case (LeaderShare xs)
    then have "par = LeaderParameter (length xs)" using fits by (cases par) simp_all
    with LeaderShare len show ?thesis by (simp add: decode_count_wire)
  next
    case (HelperShare s)
    then have "par = HelperParameter" "length s = n" using fits by (cases par; simp)+
    with HelperShare len seed.dec_wire [of s n pre post] show ?thesis by simp
  qed
qed

text \<open>Accumulating output shares is addition, element by element.\<close>

lemma accumulate_all:
  assumes "\<forall>v \<in> set vs. length v = length agg"
  shows "for_each (\<lambda>v agg. agg_share_accumulate agg v) vs agg = Ok (map2 (+) agg (vector_sum (length agg) vs))"
  using assms
proof (induction vs arbitrary: agg)
  case Nil
  show ?case by (auto simp: vector_sum_def intro: nth_equalityI)
next
  case (Cons v vs)
  then show ?case
    by (auto simp: agg_share_accumulate_def agg_share_sum_def merge_vector_def vector_sum_def add.assoc intro!: nth_equalityI)
qed

end
