(* ===== verification/PingPong.thy ===== *)
theory PingPong
  imports Vdaf
begin

text \<open>
  The ping-pong topology of \<^verbatim>\<open>src/topology/ping_pong.rs\<close>: messages and their wire format, the four entry points, and
  the preparation of a report by a leader and a helper as a step relation.  The relation refines the plain
  preparation, in which both aggregators see each prepare message at the same time.
\<close>

section \<open>Errors and messages\<close>

datatype ping_pong_error =
    VdafPrepareInit vdaf_error
  | VdafPrepareSharesToPrepareMessage vdaf_error
  | VdafPrepareNext vdaf_error
  | CodecPrepShare codec_error
  | CodecPrepMessage codec_error
  | HostStateMismatch string string
  | PeerMessageMismatch string string
  | InternalError string

datatype ping_pong_message =
    InitializeMessage (prep_share: bytes)
  | ContinueMessage (prep_msg: bytes) (prep_share: bytes)
  | FinishMessage (prep_msg: bytes)

fun variant :: "ping_pong_message \<Rightarrow> string" where
  "variant (InitializeMessage _) = ''Initialize''"
| "variant (ContinueMessage _ _) = ''Continue''"
| "variant (FinishMessage _) = ''Finish''"

fun message_encode :: "ping_pong_message encoder" where
  "message_encode (InitializeMessage s) bs =
     and_then (u8_encode 0 bs) (\<lambda>bs. encode_u32_items u8_encode bs s)"
| "message_encode (ContinueMessage m s) bs =
     and_then (u8_encode 1 bs) (\<lambda>bs.
     and_then (encode_u32_items u8_encode bs m) (\<lambda>bs. encode_u32_items u8_encode bs s))"
| "message_encode (FinishMessage m) bs =
     and_then (u8_encode 2 bs) (\<lambda>bs. encode_u32_items u8_encode bs m)"

definition message_decode :: "(nat \<Rightarrow> nat decoder) \<Rightarrow> ping_pong_message decoder" where
  "message_decode rd c =
     and_then (u8_decode c) (\<lambda>(message_type, c).
       if message_type = 0 then
         and_then (decode_u32_items rd u8_decode c) (\<lambda>(s, c). Ok (InitializeMessage s, c))
       else if message_type = 1 then
         and_then (decode_u32_items rd u8_decode c) (\<lambda>(m, c).
         and_then (decode_u32_items rd u8_decode c) (\<lambda>(s, c). Ok (ContinueMessage m s, c)))
       else if message_type = 2 then
         and_then (decode_u32_items rd u8_decode c) (\<lambda>(m, c). Ok (FinishMessage m, c))
       else Err UnexpectedValue)"

section \<open>States and transitions\<close>

record ('st, 'msg) ping_pong_transition =
  previous_prepare_state :: 'st
  current_prepare_message :: 'msg

datatype ('st, 'out) ping_pong_state = Continued 'st | Finished 'out

datatype ('st, 'msg, 'out) ping_pong_continued_value =
    WithMessage "('st, 'msg) ping_pong_transition"
  | FinishedNoMessage 'out

definition evaluate ::
  "('ap, 'pub, 'inp, 'st, 'sh, 'msg, 'out) aggregator \<Rightarrow> ('st, 'msg) ping_pong_transition \<Rightarrow>
   (('st, 'out) ping_pong_state \<times> ping_pong_message, ping_pong_error) outcome" where
  "evaluate A t =
     and_then (map_err CodecPrepMessage (get_encoded_with_param (prep_msg_encode A) (current_prepare_message t))) (\<lambda>msg.
     and_then (map_err VdafPrepareNext (prepare_next A (previous_prepare_state t) (current_prepare_message t))) (\<lambda>transition.
       case transition of
         Continue st sh \<Rightarrow>
           and_then (map_err CodecPrepShare (get_encoded_with_param (prep_share_encode A) sh)) (\<lambda>sh.
             Ok (Continued st, ContinueMessage msg sh))
       | Finish out \<Rightarrow> Ok (Finished out, FinishMessage msg)))"

definition transition_encode :: "'st encoder \<Rightarrow> 'msg encoder \<Rightarrow> ('st, 'msg) ping_pong_transition encoder" where
  "transition_encode enc_st enc_msg t bs =
     and_then (enc_st (previous_prepare_state t) bs) (enc_msg (current_prepare_message t))"

definition transition_decode :: "'st decoder \<Rightarrow> ('st \<Rightarrow> 'msg decoder) \<Rightarrow> ('st, 'msg) ping_pong_transition decoder" where
  "transition_decode dec_st dec_msg c =
     and_then (dec_st c) (\<lambda>(st, c).
     and_then (dec_msg st c) (\<lambda>(m, c).
       Ok (\<lparr>previous_prepare_state = st, current_prepare_message = m\<rparr>, c)))"

section \<open>Entry points\<close>

definition leader_initialized ::
  "('ap, 'pub, 'inp, 'st, 'sh, 'msg, 'out) aggregator \<Rightarrow> bytes \<Rightarrow> 'ap \<Rightarrow> bytes \<Rightarrow> 'pub \<Rightarrow> 'inp \<Rightarrow>
   (('st, 'out) ping_pong_state \<times> ping_pong_message, ping_pong_error) outcome" where
  "leader_initialized A verify_key agg_param nonce public_share input_share =
     and_then (map_err VdafPrepareInit (prepare_init A verify_key 0 agg_param nonce public_share input_share)) (\<lambda>(st, sh).
     and_then (map_err CodecPrepShare (get_encoded_with_param (prep_share_encode A) sh)) (\<lambda>sh.
       Ok (Continued st, InitializeMessage sh)))"

definition helper_initialized ::
  "('ap, 'pub, 'inp, 'st, 'sh, 'msg, 'out) aggregator \<Rightarrow> bytes \<Rightarrow> 'ap \<Rightarrow> bytes \<Rightarrow> 'pub \<Rightarrow> 'inp \<Rightarrow> ping_pong_message \<Rightarrow>
   (('st, 'msg) ping_pong_transition, ping_pong_error) outcome" where
  "helper_initialized A verify_key agg_param nonce public_share input_share inbound =
     and_then (map_err VdafPrepareInit (prepare_init A verify_key 1 agg_param nonce public_share input_share)) (\<lambda>(st, sh).
     and_then
       (case inbound of
          InitializeMessage s \<Rightarrow> map_err CodecPrepShare (get_decoded_with_param (prep_share_decode A st) s)
        | _ \<Rightarrow> Err (PeerMessageMismatch (variant inbound) ''initialize'')) (\<lambda>inbound_share.
     and_then (map_err VdafPrepareSharesToPrepareMessage
         (prepare_shares_to_prepare_message A agg_param [inbound_share, sh])) (\<lambda>m.
       Ok \<lparr>previous_prepare_state = st, current_prepare_message = m\<rparr>)))"

definition continued ::
  "('ap, 'pub, 'inp, 'st, 'sh, 'msg, 'out) aggregator \<Rightarrow> bool \<Rightarrow> ('st, 'out) ping_pong_state \<Rightarrow> 'ap \<Rightarrow> ping_pong_message \<Rightarrow>
   (('st, 'msg, 'out) ping_pong_continued_value, ping_pong_error) outcome" where
  "continued A is_leader host_state agg_param inbound =
     (case host_state of
        Finished _ \<Rightarrow> Err (HostStateMismatch ''finished'' ''continue'')
      | Continued host_prep_state \<Rightarrow>
          and_then
            (case inbound of
               InitializeMessage _ \<Rightarrow> Err (PeerMessageMismatch (variant inbound) ''continue'')
             | ContinueMessage m s \<Rightarrow> Ok (m, Some s)
             | FinishMessage m \<Rightarrow> Ok (m, None)) (\<lambda>(m, next_peer_prep_share).
          and_then (map_err CodecPrepMessage (get_decoded_with_param (prep_msg_decode A host_prep_state) m)) (\<lambda>m.
          and_then (map_err VdafPrepareNext (prepare_next A host_prep_state m)) (\<lambda>host_prep_transition.
          case (host_prep_transition, next_peer_prep_share) of
            (Continue next_prep_state next_host_prep_share, Some s) \<Rightarrow>
              and_then (map_err CodecPrepShare (get_decoded_with_param (prep_share_decode A next_prep_state) s)) (\<lambda>s.
              let prep_shares = [s, next_host_prep_share];
                  prep_shares = (if is_leader then rev prep_shares else prep_shares)
              in and_then (map_err VdafPrepareSharesToPrepareMessage
                     (prepare_shares_to_prepare_message A agg_param prep_shares)) (\<lambda>m.
                   Ok (WithMessage \<lparr>previous_prepare_state = next_prep_state, current_prepare_message = m\<rparr>)))
          | (Finish out, None) \<Rightarrow> Ok (FinishedNoMessage out)
          | (Continue _ _, None) \<Rightarrow> Err (PeerMessageMismatch (variant inbound) ''continue'')
          | (Finish _, Some _) \<Rightarrow> Err (PeerMessageMismatch (variant inbound) ''finish'')))))"

definition leader_continued ::
  "('ap, 'pub, 'inp, 'st, 'sh, 'msg, 'out) aggregator \<Rightarrow> ('st, 'out) ping_pong_state \<Rightarrow> 'ap \<Rightarrow> ping_pong_message \<Rightarrow>
   (('st, 'msg, 'out) ping_pong_continued_value, ping_pong_error) outcome" where
  "leader_continued A leader_state agg_param inbound = continued A True leader_state agg_param inbound"

definition helper_continued ::
  "('ap, 'pub, 'inp, 'st, 'sh, 'msg, 'out) aggregator \<Rightarrow> ('st, 'out) ping_pong_state \<Rightarrow> 'ap \<Rightarrow> ping_pong_message \<Rightarrow>
   (('st, 'msg, 'out) ping_pong_continued_value, ping_pong_error) outcome" where
  "helper_continued A helper_state agg_param inbound = continued A False helper_state agg_param inbound"

section \<open>Wire format of messages\<close>

definition short :: "bytes \<Rightarrow> bool" where
  "short bs \<longleftrightarrow> length bs < 2 ^ 32"

fun message_valid :: "ping_pong_message \<Rightarrow> bool" where
  "message_valid (InitializeMessage s) \<longleftrightarrow> short s"
| "message_valid (ContinueMessage m s) \<longleftrightarrow> short m \<and> short s"
| "message_valid (FinishMessage m) \<longleftrightarrow> short m"

definition opaque :: "bytes \<Rightarrow> bytes" where
  "opaque bs = be_bytes 4 (length bs) @ bs"

fun message_wire :: "ping_pong_message \<Rightarrow> bytes" where
  "message_wire (InitializeMessage s) = 0 # opaque s"
| "message_wire (ContinueMessage m s) = 1 # opaque m @ opaque s"
| "message_wire (FinishMessage m) = 2 # opaque m"

sublocale byteorder \<subseteq> byte_vector: vector_codec rd u8_encode u8_decode "\<lambda>_. True" "\<lambda>x. [x]"
  by unfold_locales

context byteorder
begin

lemma concat_singletons: "concat (map (\<lambda>x. [x]) bs) = bs"
  by (induction bs) simp_all

lemma opaque_enc: "short s \<Longrightarrow> encode_u32_items u8_encode bs s = Ok (bs @ opaque s)"
  using byte_vector.u32_items.enc_wire [of s bs] by (simp add: byte_vector.fits_def concat_singletons short_def opaque_def)

lemma opaque_dec:
  assumes "short s" and "length (pre @ opaque s @ post) < usize_bound"
  shows "decode_u32_items rd u8_decode (Cursor (pre @ opaque s @ post) (length pre)) =
    Ok (s, Cursor (pre @ opaque s @ post) (length pre + length (opaque s)))"
  using byte_vector.u32_items.dec_wire [of s pre post] assms
  by (simp add: byte_vector.fits_def concat_singletons short_def opaque_def)

lemma opaque_dec2:
  assumes "short m" "short s" and "length (pre @ opaque m @ opaque s @ post) < usize_bound"
  shows "and_then (decode_u32_items rd u8_decode (Cursor (pre @ opaque m @ opaque s @ post) (length pre))) (\<lambda>(m, c).
      and_then (decode_u32_items rd u8_decode c) (\<lambda>(s, c). Ok (ContinueMessage m s, c))) =
    Ok (ContinueMessage m s, Cursor (pre @ opaque m @ opaque s @ post) (length pre + length (opaque m) + length (opaque s)))"
  using opaque_dec [of m pre "opaque s @ post"] opaque_dec [of s "pre @ opaque m" post] assms by simp

end

sublocale byteorder \<subseteq> message: codec message_encode "message_decode rd" message_valid message_wire
proof unfold_locales
  fix x bs
  assume "message_valid x"
  then show "message_encode x bs = Ok (bs @ message_wire x)"
    by (cases x) (simp_all add: opaque_enc u8.enc_wire)
next
  fix x pre post
  assume v: "message_valid x" and len: "length (pre @ message_wire x @ post) < usize_bound"
  show "message_decode rd (Cursor (pre @ message_wire x @ post) (length pre)) =
      Ok (x, Cursor (pre @ message_wire x @ post) (length pre + length (message_wire x)))"
  proof (cases x)
    case (InitializeMessage s)
    then show ?thesis
      using v len u8.dec_wire [of pre 0 "opaque s @ post"] opaque_dec [of s "pre @ [0]" post] by (simp add: message_decode_def)
  next
    case (ContinueMessage m s)
    then show ?thesis
      using v len u8.dec_wire [of pre 1 "opaque m @ opaque s @ post"] opaque_dec2 [of m s "pre @ [1]" post]
      by (simp add: message_decode_def add.assoc)
  next
    case (FinishMessage m)
    then show ?thesis
      using v len u8.dec_wire [of pre 2 "opaque m @ post"] opaque_dec [of m "pre @ [2]" post] by (simp add: message_decode_def)
  qed
qed

section \<open>Plain preparation\<close>

text \<open>Both aggregators take part in a round at the same time: their shares are combined and both see the message.\<close>

datatype ('st, 'sh, 'out) plain = Preparing 'st 'sh 'st 'sh | Prepared 'out 'out

inductive plain_step ::
  "('ap, 'pub, 'inp, 'st, 'sh, 'msg, 'out) aggregator \<Rightarrow> 'ap \<Rightarrow> ('st, 'sh, 'out) plain \<Rightarrow> ('st, 'sh, 'out) plain \<Rightarrow> bool"
  for A ap where
  plain_next: "prepare_shares_to_prepare_message A ap [sl, sh] = Ok m \<Longrightarrow> prepare_next A l m = Ok (Continue l' sl') \<Longrightarrow>
    prepare_next A h m = Ok (Continue h' sh') \<Longrightarrow> plain_step A ap (Preparing l sl h sh) (Preparing l' sl' h' sh')"
| plain_finish: "prepare_shares_to_prepare_message A ap [sl, sh] = Ok m \<Longrightarrow> prepare_next A l m = Ok (Finish lo) \<Longrightarrow>
    prepare_next A h m = Ok (Finish ho) \<Longrightarrow> plain_step A ap (Preparing l sl h sh) (Prepared lo ho)"

inductive_cases plain_step_PreparingE: "plain_step A ap (Preparing l sl h sh) c"
inductive_cases plain_step_PreparedE: "plain_step A ap (Prepared lo ho) c"

lemma plain_step_Preparing:
  assumes "plain_step A ap (Preparing l sl h sh) c"
  obtains (more) m l' sl' h' sh' where "c = Preparing l' sl' h' sh'" "prepare_shares_to_prepare_message A ap [sl, sh] = Ok m"
      "prepare_next A l m = Ok (Continue l' sl')" "prepare_next A h m = Ok (Continue h' sh')"
  | (last) m lo ho where "c = Prepared lo ho" "prepare_shares_to_prepare_message A ap [sl, sh] = Ok m"
      "prepare_next A l m = Ok (Finish lo)" "prepare_next A h m = Ok (Finish ho)"
  using assms by (auto elim!: plain_step_PreparingE intro: that)

section \<open>The exchange of messages\<close>

text \<open>
  The leader is initialised and its message is under way; a message is under way to the leader or to the helper;
  or one of them has finished without a message to send.
\<close>

datatype ('st, 'out) exchange =
    Opening "('st, 'out) ping_pong_state" ping_pong_message
  | ToLeader "('st, 'out) ping_pong_state" "('st, 'out) ping_pong_state" ping_pong_message
  | ToHelper "('st, 'out) ping_pong_state" "('st, 'out) ping_pong_state" ping_pong_message
  | Stopped "('st, 'out) ping_pong_state" "('st, 'out) ping_pong_state"

inductive pp_step ::
  "('ap, 'pub, 'inp, 'st, 'sh, 'msg, 'out) aggregator \<Rightarrow> bytes \<Rightarrow> 'ap \<Rightarrow> bytes \<Rightarrow> 'pub \<Rightarrow> 'inp \<Rightarrow>
   ('st, 'out) exchange \<Rightarrow> ('st, 'out) exchange \<Rightarrow> bool"
  for A vk ap nonce pub inp where
  pp_open: "helper_initialized A vk ap nonce pub inp msg = Ok t \<Longrightarrow> evaluate A t = Ok (hs, msg') \<Longrightarrow>
    pp_step A vk ap nonce pub inp (Opening ls msg) (ToLeader ls hs msg')"
| pp_leader: "leader_continued A ls ap msg = Ok (WithMessage t) \<Longrightarrow> evaluate A t = Ok (ls', msg') \<Longrightarrow>
    pp_step A vk ap nonce pub inp (ToLeader ls hs msg) (ToHelper ls' hs msg')"
| pp_leader_stop: "leader_continued A ls ap msg = Ok (FinishedNoMessage lo) \<Longrightarrow>
    pp_step A vk ap nonce pub inp (ToLeader ls hs msg) (Stopped (Finished lo) hs)"
| pp_helper: "helper_continued A hs ap msg = Ok (WithMessage t) \<Longrightarrow> evaluate A t = Ok (hs', msg') \<Longrightarrow>
    pp_step A vk ap nonce pub inp (ToHelper ls hs msg) (ToLeader ls hs' msg')"
| pp_helper_stop: "helper_continued A hs ap msg = Ok (FinishedNoMessage ho) \<Longrightarrow>
    pp_step A vk ap nonce pub inp (ToHelper ls hs msg) (Stopped ls (Finished ho))"

text \<open>
  What a preparation needs of its codecs: in every round each share can be encoded and is decoded to the same share
  with the peer's state, and the prepare message is decoded to the same message with either state.
\<close>

locale lossless_preparation =
  fixes A :: "('ap, 'pub, 'inp, 'st, 'sh, 'msg, 'out) aggregator" and ap :: 'ap and start :: "('st, 'sh, 'out) plain"
  assumes leader_share: "(plain_step A ap)\<^sup>*\<^sup>* start (Preparing l sl h sh) \<Longrightarrow>
      \<exists>b. get_encoded_with_param (prep_share_encode A) sl = Ok b \<and> get_decoded_with_param (prep_share_decode A h) b = Ok sl"
    and helper_share: "(plain_step A ap)\<^sup>*\<^sup>* start (Preparing l sl h sh) \<Longrightarrow>
      \<exists>b. get_encoded_with_param (prep_share_encode A) sh = Ok b \<and> get_decoded_with_param (prep_share_decode A l) b = Ok sh"
    and message: "(plain_step A ap)\<^sup>*\<^sup>* start (Preparing l sl h sh) \<Longrightarrow>
      prepare_shares_to_prepare_message A ap [sl, sh] = Ok m \<Longrightarrow>
      \<exists>b. get_encoded_with_param (prep_msg_encode A) m = Ok b \<and> get_decoded_with_param (prep_msg_decode A l) b = Ok m \<and>
        get_decoded_with_param (prep_msg_decode A h) b = Ok m"
begin

abbreviation plain_run where "plain_run \<equiv> (plain_step A ap)\<^sup>*\<^sup>*"

text \<open>What a party has sent after it took its part in a round: its new state and message.\<close>

definition sent :: "'st \<Rightarrow> 'msg \<Rightarrow> ('st, 'out) ping_pong_state \<Rightarrow> ping_pong_message \<Rightarrow> bool" where
  "sent st m s msg \<longleftrightarrow> evaluate A \<lparr>previous_prepare_state = st, current_prepare_message = m\<rparr> = Ok (s, msg)"

lemma sent_cases:
  assumes "sent st m s msg"
  obtains b st' sh sb where "get_encoded_with_param (prep_msg_encode A) m = Ok b" "prepare_next A st m = Ok (Continue st' sh)"
      "get_encoded_with_param (prep_share_encode A) sh = Ok sb" "s = Continued st'" "msg = ContinueMessage b sb"
  | b out where "get_encoded_with_param (prep_msg_encode A) m = Ok b" "prepare_next A st m = Ok (Finish out)"
      "s = Finished out" "msg = FinishMessage b"
proof -
  from assms obtain b tr where t: "get_encoded_with_param (prep_msg_encode A) m = Ok b" "prepare_next A st m = Ok tr"
    by (auto simp: sent_def evaluate_def)
  show ?thesis
  proof (cases tr)
    case (Continue st' sh)
    with t assms obtain sb where "get_encoded_with_param (prep_share_encode A) sh = Ok sb" "s = Continued st'" "msg = ContinueMessage b sb"
      by (auto simp: sent_def evaluate_def)
    with t Continue show ?thesis by (intro that(1)) simp_all
  next
    case (Finish out)
    with t assms show ?thesis by (intro that(2)) (auto simp: sent_def evaluate_def)
  qed
qed

text \<open>A party receives what its peer sent in the same round.\<close>

lemma continued_sent:
  assumes run: "plain_run start (Preparing l sl h sh)" and m: "prepare_shares_to_prepare_message A ap [sl, sh] = Ok m"
  shows "sent h m hs msg \<Longrightarrow> leader_continued A (Continued l) ap msg = Ok r \<Longrightarrow>
      (\<exists>lo ho. r = FinishedNoMessage lo \<and> hs = Finished ho \<and> plain_run start (Prepared lo ho)) \<or>
      (\<exists>l' sl' h' sh' m'. r = WithMessage \<lparr>previous_prepare_state = l', current_prepare_message = m'\<rparr> \<and> hs = Continued h' \<and>
        plain_run start (Preparing l' sl' h' sh') \<and> prepare_shares_to_prepare_message A ap [sl', sh'] = Ok m')"
    and "sent l m ls msg \<Longrightarrow> helper_continued A (Continued h) ap msg = Ok r \<Longrightarrow>
      (\<exists>lo ho. r = FinishedNoMessage ho \<and> ls = Finished lo \<and> plain_run start (Prepared lo ho)) \<or>
      (\<exists>l' sl' h' sh' m'. r = WithMessage \<lparr>previous_prepare_state = h', current_prepare_message = m'\<rparr> \<and> ls = Continued l' \<and>
        plain_run start (Preparing l' sl' h' sh') \<and> prepare_shares_to_prepare_message A ap [sl', sh'] = Ok m')"
proof -
  obtain b where b: "get_encoded_with_param (prep_msg_encode A) m = Ok b" "get_decoded_with_param (prep_msg_decode A l) b = Ok m"
    "get_decoded_with_param (prep_msg_decode A h) b = Ok m" using message [OF run m] by blast
  have nxt: "plain_run start (Preparing l' sl' h' sh')"
    if "prepare_next A l m = Ok (Continue l' sl')" "prepare_next A h m = Ok (Continue h' sh')" for l' sl' h' sh'
    using rtranclp.rtrancl_into_rtrancl [OF run plain_next [OF m that]] .
  have fin: "plain_run start (Prepared lo ho)" if "prepare_next A l m = Ok (Finish lo)" "prepare_next A h m = Ok (Finish ho)" for lo ho
    using rtranclp.rtrancl_into_rtrancl [OF run plain_finish [OF m that]] .
  show "(\<exists>lo ho. r = FinishedNoMessage lo \<and> hs = Finished ho \<and> plain_run start (Prepared lo ho)) \<or>
      (\<exists>l' sl' h' sh' m'. r = WithMessage \<lparr>previous_prepare_state = l', current_prepare_message = m'\<rparr> \<and> hs = Continued h' \<and>
        plain_run start (Preparing l' sl' h' sh') \<and> prepare_shares_to_prepare_message A ap [sl', sh'] = Ok m')"
    if "sent h m hs msg" "leader_continued A (Continued l) ap msg = Ok r"
    using that(1)
  proof (cases rule: sent_cases)
    case (1 b' h' sh' sb)
    from that(2) b 1 obtain tr where tr: "prepare_next A l m = Ok tr" by (auto simp: leader_continued_def continued_def)
    with that(2) b 1 obtain l' sl' where l': "prepare_next A l m = Ok (Continue l' sl')"
      by (cases tr) (auto simp: leader_continued_def continued_def)
    from helper_share [OF nxt [OF l' 1(2)]] 1(3) have "get_decoded_with_param (prep_share_decode A l') sb = Ok sh'" by auto
    with that(2) b 1 l' nxt [OF l' 1(2)] show ?thesis
      by (auto simp: leader_continued_def continued_def)
  next
    case (2 b' out)
    from that(2) b 2 obtain tr where tr: "prepare_next A l m = Ok tr" by (auto simp: leader_continued_def continued_def)
    with that(2) b fin 2 show ?thesis by (cases tr) (auto simp: leader_continued_def continued_def)
  qed
  show "(\<exists>lo ho. r = FinishedNoMessage ho \<and> ls = Finished lo \<and> plain_run start (Prepared lo ho)) \<or>
      (\<exists>l' sl' h' sh' m'. r = WithMessage \<lparr>previous_prepare_state = h', current_prepare_message = m'\<rparr> \<and> ls = Continued l' \<and>
        plain_run start (Preparing l' sl' h' sh') \<and> prepare_shares_to_prepare_message A ap [sl', sh'] = Ok m')"
    if "sent l m ls msg" "helper_continued A (Continued h) ap msg = Ok r"
    using that(1)
  proof (cases rule: sent_cases)
    case (1 b' l' sl' sb)
    from that(2) b 1 obtain tr where tr: "prepare_next A h m = Ok tr" by (auto simp: helper_continued_def continued_def)
    with that(2) b 1 obtain h' sh' where h': "prepare_next A h m = Ok (Continue h' sh')"
      by (cases tr) (auto simp: helper_continued_def continued_def)
    from leader_share [OF nxt [OF 1(2) h']] 1(3) have "get_decoded_with_param (prep_share_decode A h') sb = Ok sl'" by auto
    with that(2) b 1 h' nxt [OF 1(2) h'] show ?thesis
      by (auto simp: helper_continued_def continued_def)
  next
    case (2 b' out)
    from that(2) b 2 obtain tr where tr: "prepare_next A h m = Ok tr" by (auto simp: helper_continued_def continued_def)
    with that(2) b fin 2 show ?thesis by (cases tr) (auto simp: helper_continued_def continued_def)
  qed
qed

text \<open>The invariant of the exchange, which ties it to a run of the plain preparation.\<close>

fun linked :: "('st, 'out) exchange \<Rightarrow> bool" where
  "linked (Opening ls msg) \<longleftrightarrow> (\<exists>l sl h sh b. ls = Continued l \<and> msg = InitializeMessage b \<and> start = Preparing l sl h sh \<and>
     get_encoded_with_param (prep_share_encode A) sl = Ok b)"
| "linked (ToLeader ls hs msg) \<longleftrightarrow> (\<exists>l sl h sh m. ls = Continued l \<and> plain_run start (Preparing l sl h sh) \<and>
     prepare_shares_to_prepare_message A ap [sl, sh] = Ok m \<and> sent h m hs msg)"
| "linked (ToHelper ls hs msg) \<longleftrightarrow> (\<exists>l sl h sh m. hs = Continued h \<and> plain_run start (Preparing l sl h sh) \<and>
     prepare_shares_to_prepare_message A ap [sl, sh] = Ok m \<and> sent l m ls msg)"
| "linked (Stopped ls hs) \<longleftrightarrow> (\<exists>lo ho. ls = Finished lo \<and> hs = Finished ho \<and> plain_run start (Prepared lo ho))"

lemma linked_step:
  assumes "pp_step A vk ap nonce pub inp c c'" and "linked c"
    and start: "\<forall>l sl h sh. start = Preparing l sl h sh \<longrightarrow> prepare_init A vk 1 ap nonce pub inp = Ok (h, sh)"
  shows "linked c'"
  using assms(1,2)
proof cases
  case (pp_open msg t hs msg' ls)
  with assms(2) obtain l sl h sh b where o: "ls = Continued l" "msg = InitializeMessage b" "start = Preparing l sl h sh"
    "get_encoded_with_param (prep_share_encode A) sl = Ok b" by auto
  have run: "plain_run start (Preparing l sl h sh)" by (simp add: o(3))
  from leader_share [OF run] o(4) have "get_decoded_with_param (prep_share_decode A h) b = Ok sl" by auto
  with pp_open(3) start [rule_format, OF o(3)] o(2) obtain m where "prepare_shares_to_prepare_message A ap [sl, sh] = Ok m"
    "t = \<lparr>previous_prepare_state = h, current_prepare_message = m\<rparr>" by (auto simp: helper_initialized_def)
  with pp_open o(1) run show ?thesis by (auto simp: sent_def)
next
  case (pp_leader ls msg t ls' msg' hs)
  with assms(2) obtain l sl h sh m where o: "ls = Continued l" "plain_run start (Preparing l sl h sh)"
    "prepare_shares_to_prepare_message A ap [sl, sh] = Ok m" "sent h m hs msg" by auto
  from continued_sent(1) [OF o(2,3,4)] pp_leader(3) o(1) obtain l' sl' h' sh' m' where
    "t = \<lparr>previous_prepare_state = l', current_prepare_message = m'\<rparr>" "hs = Continued h'"
    "plain_run start (Preparing l' sl' h' sh')" "prepare_shares_to_prepare_message A ap [sl', sh'] = Ok m'" by blast
  with pp_leader show ?thesis by (auto simp: sent_def)
next
  case (pp_leader_stop ls msg lo hs)
  with assms(2) continued_sent(1) show ?thesis by fastforce
next
  case (pp_helper hs msg t hs' msg' ls)
  with assms(2) obtain l sl h sh m where o: "hs = Continued h" "plain_run start (Preparing l sl h sh)"
    "prepare_shares_to_prepare_message A ap [sl, sh] = Ok m" "sent l m ls msg" by auto
  from continued_sent(2) [OF o(2,3,4)] pp_helper(3) o(1) obtain l' sl' h' sh' m' where
    "t = \<lparr>previous_prepare_state = h', current_prepare_message = m'\<rparr>" "ls = Continued l'"
    "plain_run start (Preparing l' sl' h' sh')" "prepare_shares_to_prepare_message A ap [sl', sh'] = Ok m'" by blast
  with pp_helper show ?thesis by (auto simp: sent_def)
next
  case (pp_helper_stop hs msg ho ls)
  with assms(2) continued_sent(2) show ?thesis by fastforce
qed

lemma linked_run:
  assumes "(pp_step A vk ap nonce pub inp)\<^sup>*\<^sup>* c c'" and "linked c"
    and "\<forall>l sl h sh. start = Preparing l sl h sh \<longrightarrow> prepare_init A vk 1 ap nonce pub inp = Ok (h, sh)"
  shows "linked c'"
  using assms(1,2) by (induction rule: rtranclp_induct) (auto dest: linked_step [OF _ _ assms(3)])

text \<open>Conversely, whatever the plain preparation reaches the exchange reaches.\<close>

lemma evaluate_continue:
  assumes "plain_run start (Preparing l sl h sh)" "prepare_shares_to_prepare_message A ap [sl, sh] = Ok m"
    and "plain_run start (Preparing l' sl' h' sh')"
  shows "prepare_next A h m = Ok (Continue h' sh') \<Longrightarrow> \<exists>msg. sent h m (Continued h') msg"
    and "prepare_next A l m = Ok (Continue l' sl') \<Longrightarrow> \<exists>msg. sent l m (Continued l') msg"
    and "prepare_next A h m = Ok (Finish out) \<Longrightarrow> \<exists>msg. sent h m (Finished out) msg"
    and "prepare_next A l m = Ok (Finish out) \<Longrightarrow> \<exists>msg. sent l m (Finished out) msg"
  using message [OF assms(1,2)] leader_share [OF assms(3)] helper_share [OF assms(3)]
  by (auto simp: sent_def evaluate_def)

lemma can_send:
  assumes run: "plain_run start (Preparing l sl h sh)" and step: "plain_step A ap (Preparing l sl h sh) c"
    and m: "prepare_shares_to_prepare_message A ap [sl, sh] = Ok m"
  shows "(\<exists>s msg. sent l m s msg) \<and> (\<exists>s msg. sent h m s msg)"
  using step
proof (cases rule: plain_step_Preparing)
  case (more m' l' sl' h' sh')
  have "plain_run start (Preparing l' sl' h' sh')" using run step more(1) by (metis rtranclp.rtrancl_into_rtrancl)
  from evaluate_continue(1,2) [OF run m this] more m show ?thesis by auto
next
  case (last m' lo ho)
  from evaluate_continue(3,4) [OF run m run] last m show ?thesis by auto
qed

lemma receives:
  assumes run: "plain_run start (Preparing l sl h sh)" and m: "prepare_shares_to_prepare_message A ap [sl, sh] = Ok m"
  shows "prepare_next A l m = Ok (Finish lo) \<Longrightarrow> prepare_next A h m = Ok (Finish ho) \<Longrightarrow> sent h m hs msg \<Longrightarrow>
      leader_continued A (Continued l) ap msg = Ok (FinishedNoMessage lo) \<and> hs = Finished ho"
    and "prepare_next A l m = Ok (Finish lo) \<Longrightarrow> prepare_next A h m = Ok (Finish ho) \<Longrightarrow> sent l m ls msg \<Longrightarrow>
      helper_continued A (Continued h) ap msg = Ok (FinishedNoMessage ho) \<and> ls = Finished lo"
    and "prepare_next A l m = Ok (Continue l' sl') \<Longrightarrow> prepare_next A h m = Ok (Continue h' sh') \<Longrightarrow>
      prepare_shares_to_prepare_message A ap [sl', sh'] = Ok m' \<Longrightarrow> sent h m hs msg \<Longrightarrow>
      leader_continued A (Continued l) ap msg = Ok (WithMessage \<lparr>previous_prepare_state = l', current_prepare_message = m'\<rparr>) \<and> hs = Continued h'"
    and "prepare_next A l m = Ok (Continue l' sl') \<Longrightarrow> prepare_next A h m = Ok (Continue h' sh') \<Longrightarrow>
      prepare_shares_to_prepare_message A ap [sl', sh'] = Ok m' \<Longrightarrow> sent l m ls msg \<Longrightarrow>
      helper_continued A (Continued h) ap msg = Ok (WithMessage \<lparr>previous_prepare_state = h', current_prepare_message = m'\<rparr>) \<and> ls = Continued l'"
proof -
  obtain b where b: "get_encoded_with_param (prep_msg_encode A) m = Ok b" "get_decoded_with_param (prep_msg_decode A l) b = Ok m"
    "get_decoded_with_param (prep_msg_decode A h) b = Ok m" using message [OF run m] by blast
  show "leader_continued A (Continued l) ap msg = Ok (FinishedNoMessage lo) \<and> hs = Finished ho"
    if "prepare_next A l m = Ok (Finish lo)" "prepare_next A h m = Ok (Finish ho)" "sent h m hs msg"
    using that b by (auto simp: sent_def evaluate_def leader_continued_def continued_def)
  show "helper_continued A (Continued h) ap msg = Ok (FinishedNoMessage ho) \<and> ls = Finished lo"
    if "prepare_next A l m = Ok (Finish lo)" "prepare_next A h m = Ok (Finish ho)" "sent l m ls msg"
    using that b by (auto simp: sent_def evaluate_def helper_continued_def continued_def)
  show "leader_continued A (Continued l) ap msg = Ok (WithMessage \<lparr>previous_prepare_state = l', current_prepare_message = m'\<rparr>) \<and> hs = Continued h'"
    if n: "prepare_next A l m = Ok (Continue l' sl')" "prepare_next A h m = Ok (Continue h' sh')"
      "prepare_shares_to_prepare_message A ap [sl', sh'] = Ok m'" "sent h m hs msg"
    using helper_share [OF rtranclp.rtrancl_into_rtrancl [OF run plain_next [OF m n(1,2)]]] n b
    by (auto simp: sent_def evaluate_def leader_continued_def continued_def)
  show "helper_continued A (Continued h) ap msg = Ok (WithMessage \<lparr>previous_prepare_state = h', current_prepare_message = m'\<rparr>) \<and> ls = Continued l'"
    if n: "prepare_next A l m = Ok (Continue l' sl')" "prepare_next A h m = Ok (Continue h' sh')"
      "prepare_shares_to_prepare_message A ap [sl', sh'] = Ok m'" "sent l m ls msg"
    using leader_share [OF rtranclp.rtrancl_into_rtrancl [OF run plain_next [OF m n(1,2)]]] n b
    by (auto simp: sent_def evaluate_def helper_continued_def continued_def)
qed

lemma progress:
  assumes "plain_run c (Prepared lo ho)" "plain_run start c" "c = Preparing l sl h sh"
    "prepare_shares_to_prepare_message A ap [sl, sh] = Ok m"
  shows "(\<forall>hs msg. sent h m hs msg \<longrightarrow>
      (pp_step A vk ap nonce pub inp)\<^sup>*\<^sup>* (ToLeader (Continued l) hs msg) (Stopped (Finished lo) (Finished ho))) \<and>
    (\<forall>ls msg. sent l m ls msg \<longrightarrow>
      (pp_step A vk ap nonce pub inp)\<^sup>*\<^sup>* (ToHelper ls (Continued h) msg) (Stopped (Finished lo) (Finished ho)))"
  using assms
proof (induction arbitrary: l sl h sh m rule: converse_rtranclp_induct)
  case base
  then show ?case by simp
next
  case (step c c')
  have run: "plain_run start (Preparing l sl h sh)" using step.prems by simp
  have st: "plain_step A ap (Preparing l sl h sh) c'" using step.hyps(1) step.prems(2) by simp
  have run': "plain_run start c'" using run st by (rule rtranclp.rtrancl_into_rtrancl)
  show ?case
    using st
  proof (cases rule: plain_step_Preparing)
    case (more m1 l' sl' h' sh')
    then have n: "prepare_next A l m = Ok (Continue l' sl')" "prepare_next A h m = Ok (Continue h' sh')" using step.prems(3) by simp_all
    from step.hyps(2) obtain c'' where c'': "plain_step A ap (Preparing l' sl' h' sh') c''"
      unfolding more(1) by (cases rule: converse_rtranclpE) auto
    then obtain m' where m': "prepare_shares_to_prepare_message A ap [sl', sh'] = Ok m'"
      by (cases rule: plain_step_Preparing) auto
    note ih = step.IH [OF run' more(1) m']
    from can_send [OF run' [unfolded more(1)] c'' m'] obtain sl'' ml sh'' mh where
      s: "sent l' m' sl'' ml" "sent h' m' sh'' mh" by blast
    show ?thesis
    proof (intro conjI allI impI)
      fix hs msg
      assume "sent h m hs msg"
      from receives(3) [OF run step.prems(3) n m' this] s(1)
      have "pp_step A vk ap nonce pub inp (ToLeader (Continued l) hs msg) (ToHelper sl'' (Continued h') ml)"
        by (auto intro!: pp_leader simp: sent_def)
      with ih s(1) show "(pp_step A vk ap nonce pub inp)\<^sup>*\<^sup>* (ToLeader (Continued l) hs msg) (Stopped (Finished lo) (Finished ho))"
        by (meson converse_rtranclp_into_rtranclp)
    next
      fix ls msg
      assume "sent l m ls msg"
      from receives(4) [OF run step.prems(3) n m' this] s(2)
      have "pp_step A vk ap nonce pub inp (ToHelper ls (Continued h) msg) (ToLeader (Continued l') sh'' mh)"
        by (auto intro!: pp_helper simp: sent_def)
      with ih s(2) show "(pp_step A vk ap nonce pub inp)\<^sup>*\<^sup>* (ToHelper ls (Continued h) msg) (Stopped (Finished lo) (Finished ho))"
        by (meson converse_rtranclp_into_rtranclp)
    qed
  next
    case (last m1 lo' ho')
    then have n: "prepare_next A l m = Ok (Finish lo')" "prepare_next A h m = Ok (Finish ho')" using step.prems(3) by simp_all
    have eq: "lo' = lo" "ho' = ho"
      using step.hyps(2) unfolding last(1) by (auto elim: converse_rtranclpE plain_step_PreparedE)
    show ?thesis
    proof (intro conjI allI impI)
      fix hs msg
      assume "sent h m hs msg"
      from receives(1) [OF run step.prems(3) n this] eq
      show "(pp_step A vk ap nonce pub inp)\<^sup>*\<^sup>* (ToLeader (Continued l) hs msg) (Stopped (Finished lo) (Finished ho))"
        by (auto intro!: r_into_rtranclp pp_leader_stop)
    next
      fix ls msg
      assume "sent l m ls msg"
      from receives(2) [OF run step.prems(3) n this] eq
      show "(pp_step A vk ap nonce pub inp)\<^sup>*\<^sup>* (ToHelper ls (Continued h) msg) (Stopped (Finished lo) (Finished ho))"
        by (auto intro!: r_into_rtranclp pp_helper_stop)
    qed
  qed
qed

text \<open>The exchange of a report ends with exactly the outputs of its plain preparation.\<close>

theorem exchange_outputs:
  assumes l: "prepare_init A vk 0 ap nonce pub linp = Ok (l, sl)" and h: "prepare_init A vk 1 ap nonce pub hinp = Ok (h, sh)"
    and start: "start = Preparing l sl h sh"
    and init: "leader_initialized A vk ap nonce pub linp = Ok (ls, msg)"
  shows "(pp_step A vk ap nonce pub hinp)\<^sup>*\<^sup>* (Opening ls msg) (Stopped (Finished lo) (Finished ho)) \<longleftrightarrow>
    plain_run start (Prepared lo ho)"
    and "(pp_step A vk ap nonce pub hinp)\<^sup>*\<^sup>* (Opening ls msg) (Stopped ls' hs') \<Longrightarrow> \<exists>lo ho. ls' = Finished lo \<and> hs' = Finished ho"
proof -
  have "\<exists>b. ls = Continued l \<and> msg = InitializeMessage b \<and> get_encoded_with_param (prep_share_encode A) sl = Ok b"
    using init l by (auto simp: leader_initialized_def)
  then have lk: "linked (Opening ls msg)" unfolding linked.simps using start by blast
  have hinit: "\<forall>l' sl' h' sh'. start = Preparing l' sl' h' sh' \<longrightarrow> prepare_init A vk 1 ap nonce pub hinp = Ok (h', sh')"
    using h start by simp
  show "\<exists>lo ho. ls' = Finished lo \<and> hs' = Finished ho"
    if "(pp_step A vk ap nonce pub hinp)\<^sup>*\<^sup>* (Opening ls msg) (Stopped ls' hs')" for ls' hs'
    using linked_run [OF that lk hinit] by auto
  show "(pp_step A vk ap nonce pub hinp)\<^sup>*\<^sup>* (Opening ls msg) (Stopped (Finished lo) (Finished ho)) \<longleftrightarrow> plain_run start (Prepared lo ho)"
  proof
    assume "(pp_step A vk ap nonce pub hinp)\<^sup>*\<^sup>* (Opening ls msg) (Stopped (Finished lo) (Finished ho))"
    from linked_run [OF this lk hinit] show "plain_run start (Prepared lo ho)" by simp
  next
    assume run: "plain_run start (Prepared lo ho)"
    then obtain c where c: "plain_step A ap (Preparing l sl h sh) c" unfolding start by (cases rule: converse_rtranclpE) auto
    then obtain m where m: "prepare_shares_to_prepare_message A ap [sl, sh] = Ok m" by (cases rule: plain_step_Preparing) auto
    have r: "plain_run start (Preparing l sl h sh)" by (simp add: start)
    from can_send [OF r c m] obtain hs msg' where s: "sent h m hs msg'" by blast
    from init l obtain b where b: "ls = Continued l" "msg = InitializeMessage b" "get_encoded_with_param (prep_share_encode A) sl = Ok b"
      by (auto simp: leader_initialized_def)
    have "pp_step A vk ap nonce pub hinp (Opening ls msg) (ToLeader ls hs msg')"
      using s leader_share [OF r] b h m by (intro pp_open) (auto simp: helper_initialized_def sent_def)
    moreover have "(pp_step A vk ap nonce pub hinp)\<^sup>*\<^sup>* (ToLeader ls hs msg') (Stopped (Finished lo) (Finished ho))"
      using progress [OF run _ start m] s b(1) by simp
    ultimately show "(pp_step A vk ap nonce pub hinp)\<^sup>*\<^sup>* (Opening ls msg) (Stopped (Finished lo) (Finished ho))"
      by (rule converse_rtranclp_into_rtranclp)
  qed
qed

end

section \<open>Properties\<close>

context byteorder
begin

lemma message_get_roundtrip:
  assumes "message_valid m"
  shows "and_then (get_encoded_with_param message_encode m) (get_decoded_with_param (message_decode rd)) = Ok m"
proof (rule message.get_roundtrip [OF assms])
  show "length (message_wire m) < usize_bound"
    using assms by (cases m) (auto simp: short_def opaque_def usize_bound_def)
qed

end

text \<open>
  Every ping-pong message whose opaque fields fit their 32-bit length prefixes survives a round trip.
\<close>

theorem message_roundtrip:
  assumes "byteorder rd" and "message_valid m"
  shows "and_then (get_encoded_with_param message_encode m) (get_decoded_with_param (message_decode rd)) = Ok m"
  using assms by (rule byteorder.message_get_roundtrip)


theorem message_roundtrip_witness:
  "and_then (get_encoded_with_param message_encode (ContinueMessage [1, 2] [3]))
    (get_decoded_with_param (message_decode read_be)) = Ok (ContinueMessage [1, 2] [3])"
  by (rule message_roundtrip [OF be.byteorder_axioms]) (simp add: short_def)

end
