(* ===== verification/Prio3.thy ===== *)
theory Prio3
  imports Szk PingPong
begin

text \<open>
  The VDAF of \<^verbatim>\<open>src/vdaf/prio3.rs\<close>: a client splits an encoded measurement and its proofs among any number of
  aggregators, which check the proofs together and add up what they accept.  The measurement type and the extendable-output
  function are components of the instance.
\<close>

section \<open>Instances\<close>

definition DST_MEASUREMENT_SHARE :: nat where "DST_MEASUREMENT_SHARE = 1"

definition prio3_DST_PROOF_SHARE :: nat where "prio3_DST_PROOF_SHARE = 2"

definition prio3_DST_JOINT_RANDOMNESS :: nat where "prio3_DST_JOINT_RANDOMNESS = 3"

definition prio3_DST_PROVE_RANDOMNESS :: nat where "prio3_DST_PROVE_RANDOMNESS = 4"

definition prio3_DST_QUERY_RANDOMNESS :: nat where "prio3_DST_QUERY_RANDOMNESS = 5"

definition prio3_DST_JOINT_RAND_SEED :: nat where "prio3_DST_JOINT_RAND_SEED = 6"

definition prio3_DST_JOINT_RAND_PART :: nat where "prio3_DST_JOINT_RAND_PART = 7"

record ('m, 'r, 'f, 'x, 's) prio3 =
  prio3_num_aggregators :: byte
  prio3_num_proofs :: byte
  prio3_algorithm_id :: u32
  prio3_typ :: "('m, 'r, 'f) flp_type"
  prio3_xof :: "('x, 's, vdaf_error) xof"

abbreviation prio3_field :: "('m, 'r, 'f, 'x, 's) prio3 \<Rightarrow> 'f field_element" where
  "prio3_field V \<equiv> flp_field (prio3_typ V)"

abbreviation prio3_fill :: "('m, 'r, 'f, 'x, 's) prio3 \<Rightarrow> ('s, vdaf_error) rng" where
  "prio3_fill V \<equiv> fill_bytes (prio3_xof V)"

definition check_num_aggregators :: "byte \<Rightarrow> (unit, vdaf_error) outcome" where
  "check_num_aggregators num_aggregators =
     (if num_aggregators = 0 then Err Uncategorized
      else if num_aggregators > 254 then Err Uncategorized
      else Ok ())"

definition prio3_new ::
  "('x, 's, vdaf_error) xof \<Rightarrow> byte \<Rightarrow> byte \<Rightarrow> u32 \<Rightarrow> ('m, 'r, 'f) flp_type \<Rightarrow> (('m, 'r, 'f, 'x, 's) prio3, vdaf_error) outcome" where
  "prio3_new P num_aggregators num_proofs algorithm_id T =
     and_then (check_num_aggregators num_aggregators) (\<lambda>_.
       if num_proofs = 0 then Err Uncategorized
       else Ok \<lparr>prio3_num_aggregators = num_aggregators, prio3_num_proofs = num_proofs,
                prio3_algorithm_id = algorithm_id, prio3_typ = T, prio3_xof = P\<rparr>)"

text \<open>The constructors evaluate the measurement type, and its errors, before they check the number of aggregators.\<close>

definition new_count :: "primitives \<Rightarrow> byte \<Rightarrow> ((bool, nat, field64, turboshake128_state, reader) prio3, vdaf_error) outcome" where
  "new_count prim num_aggregators =
     and_then (map_err VdafFlp (Count_new Field64)) (prio3_new (XofTurboShake128 prim) num_aggregators 1 0x00000000)"

definition new_sum_vec ::
  "primitives \<Rightarrow> byte \<Rightarrow> nat \<Rightarrow> nat \<Rightarrow> nat \<Rightarrow> ((nat list, nat list, field128, turboshake128_state, reader) prio3, vdaf_error) outcome" where
  "new_sum_vec prim num_aggregators bits len chunk_length =
     and_then (map_err VdafFlp (SumVec_new Field128 bits len chunk_length))
       (prio3_new (XofTurboShake128 prim) num_aggregators 1 0x00000002)"

definition new_sum :: "primitives \<Rightarrow> byte \<Rightarrow> nat \<Rightarrow> ((nat, nat, field128, turboshake128_state, reader) prio3, vdaf_error) outcome" where
  "new_sum prim num_aggregators bits =
     (if bits > 64 then Err Uncategorized
      else and_then (map_err VdafFlp (Sum_new Field128 bits)) (prio3_new (XofTurboShake128 prim) num_aggregators 1 0x00000001))"

definition new_histogram ::
  "primitives \<Rightarrow> byte \<Rightarrow> nat \<Rightarrow> nat \<Rightarrow> ((nat, nat list, field128, turboshake128_state, reader) prio3, vdaf_error) outcome" where
  "new_histogram prim num_aggregators len chunk_length =
     and_then (map_err VdafFlp (Histogram_new Field128 len chunk_length))
       (prio3_new (XofTurboShake128 prim) num_aggregators 1 0x00000003)"

definition new_average ::
  "primitives \<Rightarrow> byte \<Rightarrow> nat \<Rightarrow> ((nat, nat \<times> nat, field128, turboshake128_state, reader) prio3, vdaf_error) outcome" where
  "new_average prim num_aggregators bits =
     and_then (check_num_aggregators num_aggregators) (\<lambda>_.
       if bits > 64 then Err Uncategorized
       else and_then (map_err VdafFlp (Average_new Field128 bits)) (\<lambda>T.
         Ok \<lparr>prio3_num_aggregators = num_aggregators, prio3_num_proofs = 1,
             prio3_algorithm_id = 0xFFFF0000, prio3_typ = T, prio3_xof = XofTurboShake128 prim\<rparr>))"

definition prio3_output_len :: "('m, 'r, 'f, 'x, 's) prio3 \<Rightarrow> nat" where
  "prio3_output_len V = output_len (prio3_typ V)"

definition prio3_verifier_len :: "('m, 'r, 'f, 'x, 's) prio3 \<Rightarrow> nat" where
  "prio3_verifier_len V = verifier_len (prio3_typ V)"

definition num_proofs :: "('m, 'r, 'f, 'x, 's) prio3 \<Rightarrow> nat" where
  "num_proofs V = unat (prio3_num_proofs V)"

definition num_aggregators :: "('m, 'r, 'f, 'x, 's) prio3 \<Rightarrow> nat" where
  "num_aggregators V = unat (prio3_num_aggregators V)"

section \<open>Data\<close>

record prio3_public_share =
  joint_rand_parts :: "seed list option"

record 'f prio3_input_share =
  measurement_share :: "'f share"
  proofs_share :: "'f share"
  joint_rand_blind :: "seed option"

record 'f prio3_prepare_share =
  verifiers :: "'f list"
  joint_rand_part :: "seed option"

record prio3_prepare_message =
  message_joint_rand_seed :: "seed option"

record 'f prio3_prepare_state =
  state_measurement_share :: "'f share"
  state_joint_rand_seed :: "seed option"
  state_agg_id :: byte
  verifiers_len :: nat

record prio3_helper_share =
  helper_measurement_share :: seed
  helper_proofs_share :: seed
  helper_joint_rand_blind :: "seed option"

definition from_seeds :: "bytes \<Rightarrow> bytes \<Rightarrow> bytes option \<Rightarrow> prio3_helper_share" where
  "from_seeds measurement_seed proof_seed blind =
     \<lparr>helper_measurement_share = measurement_seed, helper_proofs_share = proof_seed, helper_joint_rand_blind = blind\<rparr>"

section \<open>Derivations\<close>

definition prio3_dst :: "('m, 'r, 'f, 'x, 's) prio3 \<Rightarrow> nat \<Rightarrow> bytes" where
  "prio3_dst V usage = domain_separation_tag (prio3_algorithm_id V) usage"

definition derive_prove_rands :: "('m, 'r, 'f, 'x, 's) prio3 \<Rightarrow> seed \<Rightarrow> ('f list, vdaf_error) outcome" where
  "derive_prove_rands V prove_rand_seed =
     and_then (xof_seed_stream (prio3_xof V) prove_rand_seed (prio3_dst V prio3_DST_PROVE_RANDOMNESS) [prio3_num_proofs V]) (\<lambda>s.
       into_field_vec (prio3_field V) (prio3_fill V) s (prove_rand_len (prio3_typ V) * num_proofs V))"

definition derive_joint_rand_seed :: "('m, 'r, 'f, 'x, 's) prio3 \<Rightarrow> seed list \<Rightarrow> (seed, vdaf_error) outcome" where
  "derive_joint_rand_seed V parts =
     and_then (init (prio3_xof V) (replicate (SEED_SIZE (prio3_xof V)) 0) (prio3_dst V prio3_DST_JOINT_RAND_SEED)) (\<lambda>xof.
       into_seed (prio3_xof V) (fold (update (prio3_xof V)) parts xof))"

definition derive_joint_rands :: "('m, 'r, 'f, 'x, 's) prio3 \<Rightarrow> seed list \<Rightarrow> (seed \<times> 'f list, vdaf_error) outcome" where
  "derive_joint_rands V parts =
     and_then (derive_joint_rand_seed V parts) (\<lambda>joint_rand_seed.
     and_then (xof_seed_stream (prio3_xof V) joint_rand_seed (prio3_dst V prio3_DST_JOINT_RANDOMNESS) [prio3_num_proofs V]) (\<lambda>s.
     and_then (into_field_vec (prio3_field V) (prio3_fill V) s (joint_rand_len (prio3_typ V) * num_proofs V)) (\<lambda>joint_rands.
       Ok (joint_rand_seed, joint_rands))))"

definition derive_helper_proofs_share :: "('m, 'r, 'f, 'x, 's) prio3 \<Rightarrow> seed \<Rightarrow> byte \<Rightarrow> ('s prng, vdaf_error) outcome" where
  "derive_helper_proofs_share V proofs_share_seed agg_id =
     and_then (xof_seed_stream (prio3_xof V) proofs_share_seed (prio3_dst V prio3_DST_PROOF_SHARE) [prio3_num_proofs V, agg_id])
       (from_seed_stream (prio3_field V) (prio3_fill V))"

definition derive_query_rands :: "('m, 'r, 'f, 'x, 's) prio3 \<Rightarrow> bytes \<Rightarrow> bytes \<Rightarrow> ('f list, vdaf_error) outcome" where
  "derive_query_rands V verify_key nonce =
     and_then (init (prio3_xof V) verify_key (prio3_dst V prio3_DST_QUERY_RANDOMNESS)) (\<lambda>xof.
       into_field_vec (prio3_field V) (prio3_fill V)
         (into_seed_stream (prio3_xof V) (update (prio3_xof V) nonce (update (prio3_xof V) [prio3_num_proofs V] xof)))
         (query_rand_len (prio3_typ V) * num_proofs V))"

text \<open>An aggregator's contribution to the joint randomness, as \<open>shard_with_random\<close> and \<open>prepare_init\<close> both compute it.\<close>

definition derive_joint_rand_part ::
  "('m, 'r, 'f, 'x, 's) prio3 \<Rightarrow> seed \<Rightarrow> byte \<Rightarrow> bytes \<Rightarrow> 'f list \<Rightarrow> (seed, vdaf_error) outcome" where
  "derive_joint_rand_part V blind agg_id nonce share =
     and_then (init (prio3_xof V) blind (prio3_dst V prio3_DST_JOINT_RAND_PART)) (\<lambda>xof.
     and_then (for_each (\<lambda>x xof.
         and_then (map_err (\<lambda>_. Uncategorized) (field_encode (prio3_field V) x [])) (\<lambda>encoding_buffer.
           Ok (update (prio3_xof V) encoding_buffer xof)))
         share (update (prio3_xof V) nonce (update (prio3_xof V) [agg_id] xof)))
       (into_seed (prio3_xof V)))"

text \<open>The subtraction of one from the number of aggregators panics on zero.\<close>

definition random_size :: "('m, 'r, 'f, 'x, 's) prio3 \<Rightarrow> (nat, vdaf_error) outcome" where
  "random_size V =
     (if prio3_num_aggregators V = 0 then Panic
      else if joint_rand_len (prio3_typ V) = 0
      then Ok ((unat (prio3_num_aggregators V - 1) * 2 + 1) * SEED_SIZE (prio3_xof V))
      else Ok ((unat (prio3_num_aggregators V - 1) * 2 + 1 + unat (prio3_num_aggregators V)) * SEED_SIZE (prio3_xof V)))"

section \<open>Sharding\<close>

text \<open>\<open>random_seeds.next().unwrap()\<close>, and \<open>xs[i..j]\<close>.\<close>

fun next_seed :: "seed list \<Rightarrow> (seed \<times> seed list, vdaf_error) outcome" where
  "next_seed [] = Panic"
| "next_seed (s # ss) = Ok (s, ss)"

definition get_slice :: "'a list \<Rightarrow> nat \<Rightarrow> nat \<Rightarrow> ('a list, 'e) outcome" where
  "get_slice xs i j = (if i \<le> j \<and> j \<le> length xs then Ok (slice xs i j) else Panic)"

definition chunks_exact :: "nat \<Rightarrow> 'a list \<Rightarrow> 'a list list" where
  "chunks_exact n xs = filter (\<lambda>c. length c = n) (chunks n xs)"

type_synonym 'f shard_state = "seed list \<times> 'f list \<times> prio3_helper_share list \<times> seed list option"

text \<open>The body of the loop over the helpers.\<close>

definition shard_helper ::
  "('m, 'r, 'f::field, 'x, 's) prio3 \<Rightarrow> bytes \<Rightarrow> nat \<Rightarrow> 'f shard_state \<Rightarrow> ('f shard_state, vdaf_error) outcome" where
  "shard_helper V nonce agg_id = (\<lambda>(random_seeds, leader_measurement_share, helper_shares, helper_joint_rand_parts).
     and_then (next_seed random_seeds) (\<lambda>(measurement_share_seed, random_seeds).
     and_then (next_seed random_seeds) (\<lambda>(proof_share_seed, random_seeds).
     and_then (xof_seed_stream (prio3_xof V) measurement_share_seed (prio3_dst V DST_MEASUREMENT_SHARE) [of_nat agg_id]) (\<lambda>s.
     and_then (from_seed_stream (prio3_field V) (prio3_fill V) s) (\<lambda>measurement_share_prng.
     and_then
       (case helper_joint_rand_parts of
          Some parts \<Rightarrow>
            and_then (next_seed random_seeds) (\<lambda>(blind, random_seeds).
            and_then (prng_take (prio3_field V) (prio3_fill V) (length leader_measurement_share) measurement_share_prng) (\<lambda>share.
            and_then (derive_joint_rand_part V blind (of_nat agg_id) nonce share) (\<lambda>part.
              Ok (random_seeds, map2 (-) leader_measurement_share share, Some blind, Some (parts @ [part])))))
        | None \<Rightarrow>
            and_then (prng_take (prio3_field V) (prio3_fill V) (length leader_measurement_share) measurement_share_prng) (\<lambda>share.
              Ok (random_seeds, map2 (-) leader_measurement_share share, None, None)))
       (\<lambda>(random_seeds, leader_measurement_share, blind, parts).
          Ok (random_seeds, leader_measurement_share,
              helper_shares @ [from_seeds measurement_share_seed proof_share_seed blind], parts)))))))"

definition shard_proofs ::
  "('m, 'r, 'f::field, 'x, 's) prio3 \<Rightarrow> 'f list \<Rightarrow> 'f list \<Rightarrow> 'f list \<Rightarrow> ('f list, vdaf_error) outcome" where
  "shard_proofs V encoded_measurement prove_rands joint_rands =
     for_each (\<lambda>p leader_proofs_share.
       and_then (get_slice prove_rands (p * prove_rand_len (prio3_typ V)) ((p + 1) * prove_rand_len (prio3_typ V))) (\<lambda>prove_rand.
       and_then (get_slice joint_rands (p * joint_rand_len (prio3_typ V)) ((p + 1) * joint_rand_len (prio3_typ V))) (\<lambda>joint_rand.
       and_then (map_err VdafFlp (prove (prio3_typ V) encoded_measurement prove_rand joint_rand)) (\<lambda>proof.
         Ok (leader_proofs_share @ proof))))) [0..<num_proofs V] []"

text \<open>The leader's share of the proofs: what remains when the helpers' shares are taken away.\<close>

definition subtract_helper_proofs ::
  "('m, 'r, 'f::field, 'x, 's) prio3 \<Rightarrow> prio3_helper_share list \<Rightarrow> 'f list \<Rightarrow> ('f list, vdaf_error) outcome" where
  "subtract_helper_proofs V helper_shares leader_proofs_share =
     for_each (\<lambda>(j, helper) leader_proofs_share.
       and_then (derive_helper_proofs_share V (helper_proofs_share helper) (of_nat j + 1)) (\<lambda>prng.
       and_then (prng_take (prio3_field V) (prio3_fill V)
           (min (length leader_proofs_share) (proof_len (prio3_typ V) * num_proofs V)) prng) (\<lambda>share.
         Ok (map2 (-) leader_proofs_share share @ drop (length share) leader_proofs_share))))
       (enumerate 0 helper_shares) leader_proofs_share"

definition shard_with_random ::
  "('m, 'r, 'f::field, 'x, 's) prio3 \<Rightarrow> 'm \<Rightarrow> bytes \<Rightarrow> bytes \<Rightarrow>
   (prio3_public_share \<times> 'f prio3_input_share list, vdaf_error) outcome" where
  "shard_with_random V measurement nonce random =
     and_then (random_size V) (\<lambda>size.
     if length random \<noteq> size then Err Uncategorized
     else if SEED_SIZE (prio3_xof V) = 0 then Panic
     else
       let random_seeds = chunks_exact (SEED_SIZE (prio3_xof V)) random in
       and_then (map_err VdafFlp (encode_measurement (prio3_typ V) measurement)) (\<lambda>encoded_measurement.
       and_then (for_each (shard_helper V nonce) [1..<num_aggregators V]
           (random_seeds, encoded_measurement, [], if 0 < joint_rand_len (prio3_typ V) then Some [] else None))
         (\<lambda>(random_seeds, leader_measurement_share, helper_shares, helper_joint_rand_parts).
       and_then
         (case helper_joint_rand_parts of
            Some helper_parts \<Rightarrow>
              and_then (next_seed random_seeds) (\<lambda>(leader_blind, random_seeds).
              and_then (derive_joint_rand_part V leader_blind 0 nonce leader_measurement_share) (\<lambda>leader_part.
                Ok (random_seeds, Some leader_blind, Some (leader_part # helper_parts))))
          | None \<Rightarrow> Ok (random_seeds, None, None)) (\<lambda>(random_seeds, leader_blind_opt, parts).
       and_then
         (case parts of
            Some parts \<Rightarrow> and_then (derive_joint_rands V parts) (\<lambda>(_, joint_rands). Ok joint_rands)
          | None \<Rightarrow> Ok []) (\<lambda>joint_rands.
       and_then (next_seed random_seeds) (\<lambda>(prove_rand_seed, _).
       and_then (derive_prove_rands V prove_rand_seed) (\<lambda>prove_rands.
       and_then (shard_proofs V encoded_measurement prove_rands joint_rands) (\<lambda>proofs.
       and_then (subtract_helper_proofs V helper_shares proofs) (\<lambda>leader_proofs_share.
         Ok (\<lparr>joint_rand_parts = parts\<rparr>,
             \<lparr>measurement_share = LeaderShare leader_measurement_share, proofs_share = LeaderShare leader_proofs_share,
              joint_rand_blind = leader_blind_opt\<rparr> #
             map (\<lambda>helper. \<lparr>measurement_share = HelperShare (helper_measurement_share helper),
                 proofs_share = HelperShare (helper_proofs_share helper),
                 joint_rand_blind = helper_joint_rand_blind helper\<rparr>) helper_shares))))))))))"

text \<open>\<open>getrandom\<close> fills a buffer of the given size or fails.\<close>

definition prio3_shard ::
  "(nat \<Rightarrow> bytes option) \<Rightarrow> ('m, 'r, 'f::field, 'x, 's) prio3 \<Rightarrow> 'm \<Rightarrow> bytes \<Rightarrow>
   (prio3_public_share \<times> 'f prio3_input_share list, vdaf_error) outcome" where
  "prio3_shard getrandom V measurement nonce =
     and_then (random_size V) (\<lambda>size.
       case getrandom size of
         Some random \<Rightarrow> shard_with_random V measurement nonce random
       | None \<Rightarrow> Err VdafGetRandom)"

section \<open>Preparation\<close>

definition role_try_from :: "('m, 'r, 'f, 'x, 's) prio3 \<Rightarrow> nat \<Rightarrow> (byte, vdaf_error) outcome" where
  "role_try_from V agg_id = (if agg_id \<ge> num_aggregators V then Err Uncategorized else Ok (of_nat agg_id))"

text \<open>The measurement share that a share of either kind stands for.\<close>

definition expand_measurement_share ::
  "('m, 'r, 'f, 'x, 's) prio3 \<Rightarrow> byte \<Rightarrow> 'f share \<Rightarrow> ('f list, vdaf_error) outcome" where
  "expand_measurement_share V agg_id share =
     (case share of
        LeaderShare data \<Rightarrow> Ok data
      | HelperShare seed \<Rightarrow>
          and_then (xof_seed_stream (prio3_xof V) seed (prio3_dst V DST_MEASUREMENT_SHARE) [agg_id]) (\<lambda>s.
            into_field_vec (prio3_field V) (prio3_fill V) s (input_len (prio3_typ V))))"

definition expand_proofs_share ::
  "('m, 'r, 'f, 'x, 's) prio3 \<Rightarrow> byte \<Rightarrow> 'f share \<Rightarrow> ('f list, vdaf_error) outcome" where
  "expand_proofs_share V agg_id share =
     (case share of
        LeaderShare data \<Rightarrow> Ok data
      | HelperShare seed \<Rightarrow>
          and_then (derive_helper_proofs_share V seed agg_id)
            (prng_take (prio3_field V) (prio3_fill V) (proof_len (prio3_typ V) * num_proofs V)))"

text \<open>The own part replaces the one that the client sent; the parts of a missing list are none.\<close>

definition corrected_joint_rand_parts :: "seed list option \<Rightarrow> nat \<Rightarrow> seed \<Rightarrow> seed list" where
  "corrected_joint_rand_parts parts agg_id own =
     (let sent = (case parts of Some ps \<Rightarrow> ps | None \<Rightarrow> [])
      in take agg_id sent @ [own] @ drop (agg_id + 1) sent)"

definition query_proofs ::
  "('m, 'r, 'f::field, 'x, 's) prio3 \<Rightarrow> 'f list \<Rightarrow> 'f list \<Rightarrow> 'f list \<Rightarrow> 'f list \<Rightarrow> ('f list, vdaf_error) outcome" where
  "query_proofs V share proofs query_rands joint_rands =
     for_each (\<lambda>p verifiers_share.
       and_then (get_slice query_rands (p * query_rand_len (prio3_typ V)) ((p + 1) * query_rand_len (prio3_typ V))) (\<lambda>query_rand.
       and_then (get_slice joint_rands (p * joint_rand_len (prio3_typ V)) ((p + 1) * joint_rand_len (prio3_typ V))) (\<lambda>joint_rand.
       and_then (get_slice proofs (p * proof_len (prio3_typ V)) ((p + 1) * proof_len (prio3_typ V))) (\<lambda>proof_share.
       and_then (map_err VdafFlp
           (query (prio3_typ V) share proof_share query_rand joint_rand (num_aggregators V))) (\<lambda>verifier_share.
         Ok (verifiers_share @ verifier_share)))))) [0..<num_proofs V] []"

definition prio3_prepare_init ::
  "('m, 'r, 'f::field, 'x, 's) prio3 \<Rightarrow> bytes \<Rightarrow> nat \<Rightarrow> bytes \<Rightarrow> prio3_public_share \<Rightarrow> 'f prio3_input_share \<Rightarrow>
   ('f prio3_prepare_state \<times> 'f prio3_prepare_share, vdaf_error) outcome" where
  "prio3_prepare_init V verify_key agg_id nonce public_share msg =
     and_then (role_try_from V agg_id) (\<lambda>agg_id.
     and_then (expand_measurement_share V agg_id (measurement_share msg)) (\<lambda>share.
     and_then (expand_proofs_share V agg_id (proofs_share msg)) (\<lambda>proofs.
     and_then
       (if 0 < joint_rand_len (prio3_typ V) then
          (case joint_rand_blind msg of
             None \<Rightarrow> Panic
           | Some blind \<Rightarrow>
               and_then (derive_joint_rand_part V blind agg_id nonce share) (\<lambda>own.
               and_then (derive_joint_rands V (corrected_joint_rand_parts (joint_rand_parts public_share) (unat agg_id) own))
                 (\<lambda>(joint_rand_seed, joint_rands). Ok (Some joint_rand_seed, Some own, joint_rands))))
        else Ok (None, None, [])) (\<lambda>(joint_rand_seed, part, joint_rands).
     and_then (derive_query_rands V verify_key nonce) (\<lambda>query_rands.
     and_then (query_proofs V share proofs query_rands joint_rands) (\<lambda>verifiers_share.
       Ok (\<lparr>state_measurement_share = measurement_share msg, state_joint_rand_seed = joint_rand_seed,
            state_agg_id = agg_id, verifiers_len = length verifiers_share\<rparr>,
           \<lparr>verifiers = verifiers_share, joint_rand_part = part\<rparr>)))))))"

text \<open>The 8-bit counter of the shares panics when it overflows.\<close>

definition prio3_prepare_shares_to_prepare_message ::
  "('m, 'r, 'f::field, 'x, 's) prio3 \<Rightarrow> 'f prio3_prepare_share list \<Rightarrow> (prio3_prepare_message, vdaf_error) outcome" where
  "prio3_prepare_shares_to_prepare_message V inputs =
     and_then
       (for_each (\<lambda>share (count, acc, parts).
          if count = - 1 then Panic
          else if length (verifiers share) \<noteq> length acc then Err Uncategorized
          else and_then
            (if 0 < joint_rand_len (prio3_typ V)
             then (case joint_rand_part share of None \<Rightarrow> Panic | Some part \<Rightarrow> Ok (parts @ [part]))
             else Ok parts) (\<lambda>parts.
            Ok (count + 1, map2 (+) acc (verifiers share), parts)))
         inputs (0, replicate (verifier_len (prio3_typ V) * num_proofs V) 0, []))
       (\<lambda>(count, acc, parts).
          if count \<noteq> prio3_num_aggregators V then Err Uncategorized
          else if verifier_len (prio3_typ V) = 0 then Panic
          else and_then
            (for_each (\<lambda>verifier _.
               and_then (map_err VdafFlp (decide (prio3_typ V) verifier)) (\<lambda>ok.
                 if \<not> ok then Err Uncategorized else Ok ()))
              (chunks (verifier_len (prio3_typ V)) acc) ()) (\<lambda>_.
            if 0 < joint_rand_len (prio3_typ V)
            then and_then (derive_joint_rand_seed V parts) (\<lambda>s. Ok \<lparr>message_joint_rand_seed = Some s\<rparr>)
            else Ok \<lparr>message_joint_rand_seed = None\<rparr>))"

definition prio3_prepare_next ::
  "('m, 'r, 'f, 'x, 's) prio3 \<Rightarrow> 'f prio3_prepare_state \<Rightarrow> prio3_prepare_message \<Rightarrow>
   (('f prio3_prepare_state, 'f prio3_prepare_share, 'f list) prepare_transition, vdaf_error) outcome" where
  "prio3_prepare_next V st msg =
     and_then
       (if 0 < joint_rand_len (prio3_typ V) then
          (case (state_joint_rand_seed st, message_joint_rand_seed msg) of
             (Some s, Some s') \<Rightarrow> if s \<noteq> s' then Err Uncategorized else Ok ()
           | _ \<Rightarrow> Panic)
        else Ok ()) (\<lambda>_.
     and_then (expand_measurement_share V (state_agg_id st) (state_measurement_share st)) (\<lambda>share.
     and_then (map_err VdafFlp (truncate_input (prio3_typ V) share)) (\<lambda>data. Ok (Finish data))))"

section \<open>Aggregation and collection\<close>

definition prio3_aggregate :: "('m, 'r, 'f::field, 'x, 's) prio3 \<Rightarrow> 'f list list \<Rightarrow> ('f list, vdaf_error) outcome" where
  "prio3_aggregate V output_shares =
     for_each (\<lambda>output_share agg_share. agg_share_accumulate agg_share output_share) output_shares
       (replicate (output_len (prio3_typ V)) 0)"

definition prio3_unshard :: "('m, 'r, 'f::field, 'x, 's) prio3 \<Rightarrow> 'f list list \<Rightarrow> nat \<Rightarrow> ('r, vdaf_error) outcome" where
  "prio3_unshard V agg_shares num_measurements =
     and_then (for_each (\<lambda>agg_share agg. agg_share_merge agg agg_share) agg_shares (replicate (output_len (prio3_typ V)) 0)) (\<lambda>agg.
       map_err VdafFlp (decode_result (prio3_typ V) agg num_measurements))"

section \<open>Wire format\<close>

definition prio3_public_share_encode :: "prio3_public_share encoder" where
  "prio3_public_share_encode public_share bs =
     (case joint_rand_parts public_share of
        Some parts \<Rightarrow> for_each seed_encode parts bs
      | None \<Rightarrow> Ok bs)"

definition prio3_public_share_decode :: "('m, 'r, 'f, 'x, 's) prio3 \<Rightarrow> prio3_public_share decoder" where
  "prio3_public_share_decode V c =
     (if 0 < joint_rand_len (prio3_typ V)
      then and_then (decode_count (seed_decode (SEED_SIZE (prio3_xof V))) (num_aggregators V) c) (\<lambda>(parts, c).
        Ok (\<lparr>joint_rand_parts = Some parts\<rparr>, c))
      else Ok (\<lparr>joint_rand_parts = None\<rparr>, c))"

text \<open>An optional seed at the end of a message.\<close>

definition opt_seed_encode :: "seed option encoder" where
  "opt_seed_encode opt bs = (case opt of Some s \<Rightarrow> seed_encode s bs | None \<Rightarrow> Ok bs)"

definition opt_seed_decode :: "nat \<Rightarrow> bool \<Rightarrow> seed option decoder" where
  "opt_seed_decode seed_size present c =
     (if present then and_then (seed_decode seed_size c) (\<lambda>(s, c). Ok (Some s, c)) else Ok (None, c))"

definition input_share_encode :: "'f field_element \<Rightarrow> 'f prio3_input_share encoder" where
  "input_share_encode F share bs =
     (case (measurement_share share, proofs_share share) of
        (LeaderShare _, HelperShare _) \<Rightarrow> Panic
      | (HelperShare _, LeaderShare _) \<Rightarrow> Panic
      | _ \<Rightarrow>
          and_then (share_encode F (measurement_share share) bs) (\<lambda>bs.
          and_then (share_encode F (proofs_share share) bs) (opt_seed_encode (joint_rand_blind share))))"

definition input_share_decode :: "('m, 'r, 'f, 'x, 's) prio3 \<Rightarrow> nat \<Rightarrow> 'f prio3_input_share decoder" where
  "input_share_decode V agg_id c =
     and_then (map_err (\<lambda>_. Other BoxedVdaf) (role_try_from V agg_id)) (\<lambda>agg_id.
     let (input_decoder, proof_decoder) =
           (if agg_id = 0
            then (LeaderParameter (input_len (prio3_typ V)), LeaderParameter (proof_len (prio3_typ V) * num_proofs V))
            else (HelperParameter, HelperParameter))
     in and_then (share_decode (SEED_SIZE (prio3_xof V)) (prio3_field V) input_decoder c) (\<lambda>(measurement, c).
        and_then (share_decode (SEED_SIZE (prio3_xof V)) (prio3_field V) proof_decoder c) (\<lambda>(proofs, c).
        and_then (opt_seed_decode (SEED_SIZE (prio3_xof V)) (0 < joint_rand_len (prio3_typ V)) c) (\<lambda>(blind, c).
          Ok (\<lparr>measurement_share = measurement, proofs_share = proofs, joint_rand_blind = blind\<rparr>, c)))))"

definition prepare_share_encode :: "'f field_element \<Rightarrow> 'f prio3_prepare_share encoder" where
  "prepare_share_encode F share bs =
     and_then (for_each (field_encode F) (verifiers share) bs) (opt_seed_encode (joint_rand_part share))"

text \<open>The decoders of the messages of preparation take the seed size and the state.\<close>

definition prepare_share_decode :: "nat \<Rightarrow> 'f field_element \<Rightarrow> 'f prio3_prepare_state \<Rightarrow> 'f prio3_prepare_share decoder" where
  "prepare_share_decode seed_size F st c =
     and_then (decode_count (field_decode F) (verifiers_len st) c) (\<lambda>(vs, c).
     and_then (opt_seed_decode seed_size (state_joint_rand_seed st \<noteq> None) c) (\<lambda>(part, c).
       Ok (\<lparr>verifiers = vs, joint_rand_part = part\<rparr>, c)))"

definition prepare_message_encode :: "prio3_prepare_message encoder" where
  "prepare_message_encode msg bs = opt_seed_encode (message_joint_rand_seed msg) bs"

definition prepare_message_decode :: "nat \<Rightarrow> 'f prio3_prepare_state \<Rightarrow> prio3_prepare_message decoder" where
  "prepare_message_decode seed_size st c =
     and_then (opt_seed_decode seed_size (state_joint_rand_seed st \<noteq> None) c) (\<lambda>(s, c).
       Ok (\<lparr>message_joint_rand_seed = s\<rparr>, c))"

definition prepare_state_encode :: "'f field_element \<Rightarrow> 'f prio3_prepare_state encoder" where
  "prepare_state_encode F st bs =
     and_then (share_encode F (state_measurement_share st) bs) (opt_seed_encode (state_joint_rand_seed st))"

definition prepare_state_decode :: "('m, 'r, 'f, 'x, 's) prio3 \<Rightarrow> nat \<Rightarrow> 'f prio3_prepare_state decoder" where
  "prepare_state_decode V agg_id c =
     and_then (map_err (\<lambda>_. Other BoxedVdaf) (role_try_from V agg_id)) (\<lambda>agg_id.
     let share_decoder = (if agg_id = 0 then LeaderParameter (input_len (prio3_typ V)) else HelperParameter)
     in and_then (share_decode (SEED_SIZE (prio3_xof V)) (prio3_field V) share_decoder c) (\<lambda>(measurement, c).
        and_then (opt_seed_decode (SEED_SIZE (prio3_xof V)) (0 < joint_rand_len (prio3_typ V)) c) (\<lambda>(s, c).
          Ok (\<lparr>state_measurement_share = measurement, state_joint_rand_seed = s, state_agg_id = agg_id,
               verifiers_len = verifier_len (prio3_typ V) * num_proofs V\<rparr>, c))))"

definition prio3_output_share_decode :: "('m, 'r, 'f, 'x, 's) prio3 \<Rightarrow> 'f list decoder" where
  "prio3_output_share_decode V c = decode_fieldvec (prio3_field V) (prio3_output_len V) c"

definition prio3_aggregate_share_decode :: "('m, 'r, 'f, 'x, 's) prio3 \<Rightarrow> 'f list decoder" where
  "prio3_aggregate_share_decode V c = decode_fieldvec (prio3_field V) (prio3_output_len V) c"

text \<open>The lengths that \<open>encoded_len\<close> announces.\<close>

definition public_share_encoded_len :: "('m, 'r, 'f, 'x, 's) prio3 \<Rightarrow> prio3_public_share \<Rightarrow> nat" where
  "public_share_encoded_len V public_share =
     (case joint_rand_parts public_share of Some parts \<Rightarrow> SEED_SIZE (prio3_xof V) * length parts | None \<Rightarrow> 0)"

section \<open>Equality\<close>

text \<open>The comparisons in constant time; \<open>subtle\<close> compares slices of different lengths as unequal.\<close>

definition option_ct_eq :: "('a \<Rightarrow> 'a \<Rightarrow> choice) \<Rightarrow> 'a option \<Rightarrow> 'a option \<Rightarrow> choice" where
  "option_ct_eq eq left right =
     (case (left, right) of (Some l, Some r) \<Rightarrow> eq l r | (None, None) \<Rightarrow> True | _ \<Rightarrow> False)"

definition slice_ct_eq :: "('a \<Rightarrow> 'a \<Rightarrow> choice) \<Rightarrow> 'a list \<Rightarrow> 'a list \<Rightarrow> choice" where
  "slice_ct_eq eq xs ys =
     (if length xs \<noteq> length ys then False else fold (\<lambda>(x, y) c. c \<and> eq x y) (zip xs ys) True)"

abbreviation seed_ct_eq :: "seed \<Rightarrow> seed \<Rightarrow> choice" where
  "seed_ct_eq \<equiv> slice_ct_eq (=)"

fun share_ct_eq :: "'f share \<Rightarrow> 'f share \<Rightarrow> choice" where
  "share_ct_eq (LeaderShare l) (LeaderShare r) = slice_ct_eq (=) l r"
| "share_ct_eq (HelperShare l) (HelperShare r) = seed_ct_eq l r"
| "share_ct_eq _ _ = False"

definition public_share_ct_eq :: "prio3_public_share \<Rightarrow> prio3_public_share \<Rightarrow> choice" where
  "public_share_ct_eq a b = option_ct_eq (slice_ct_eq seed_ct_eq) (joint_rand_parts a) (joint_rand_parts b)"

definition input_share_ct_eq :: "'f prio3_input_share \<Rightarrow> 'f prio3_input_share \<Rightarrow> choice" where
  "input_share_ct_eq a b \<longleftrightarrow>
     option_ct_eq seed_ct_eq (joint_rand_blind a) (joint_rand_blind b) \<and>
     share_ct_eq (measurement_share a) (measurement_share b) \<and> share_ct_eq (proofs_share a) (proofs_share b)"

definition prepare_share_ct_eq :: "'f prio3_prepare_share \<Rightarrow> 'f prio3_prepare_share \<Rightarrow> choice" where
  "prepare_share_ct_eq a b \<longleftrightarrow>
     option_ct_eq seed_ct_eq (joint_rand_part a) (joint_rand_part b) \<and> slice_ct_eq (=) (verifiers a) (verifiers b)"

definition prepare_message_ct_eq :: "prio3_prepare_message \<Rightarrow> prio3_prepare_message \<Rightarrow> choice" where
  "prepare_message_ct_eq a b = option_ct_eq seed_ct_eq (message_joint_rand_seed a) (message_joint_rand_seed b)"

definition prepare_state_ct_eq :: "'f prio3_prepare_state \<Rightarrow> 'f prio3_prepare_state \<Rightarrow> choice" where
  "prepare_state_ct_eq a b =
     (if state_agg_id a \<noteq> state_agg_id b \<or> verifiers_len a \<noteq> verifiers_len b then False
      else option_ct_eq seed_ct_eq (state_joint_rand_seed a) (state_joint_rand_seed b) \<and>
           share_ct_eq (state_measurement_share a) (state_measurement_share b))"

section \<open>The aggregator\<close>

definition prio3_aggregator ::
  "('m, 'r, 'f::field, 'x, 's) prio3 \<Rightarrow>
   (unit, prio3_public_share, 'f prio3_input_share, 'f prio3_prepare_state, 'f prio3_prepare_share, prio3_prepare_message, 'f list)
     aggregator" where
  "prio3_aggregator V = \<lparr>
     prepare_init = (\<lambda>verify_key agg_id _. prio3_prepare_init V verify_key agg_id),
     prepare_shares_to_prepare_message = (\<lambda>_. prio3_prepare_shares_to_prepare_message V),
     prepare_next = prio3_prepare_next V,
     prep_share_encode = prepare_share_encode (prio3_field V),
     prep_share_decode = prepare_share_decode (SEED_SIZE (prio3_xof V)) (prio3_field V),
     prep_msg_encode = prepare_message_encode,
     prep_msg_decode = prepare_message_decode (SEED_SIZE (prio3_xof V)) \<rparr>"

section \<open>Chunk lengths\<close>

text \<open>\<open>usize::leading_zeros\<close>.\<close>

definition usize_leading_zeros :: "nat \<Rightarrow> nat" where
  "usize_leading_zeros n = length (takeWhile (\<lambda>i. \<not> bit n i) (rev [0..<64]))"

definition ilog2 :: "nat \<Rightarrow> (nat, vdaf_error) outcome" where
  "ilog2 input = (if input = 0 then Panic else Ok (64 - 1 - usize_leading_zeros input))"

definition checked_usize :: "nat \<Rightarrow> (nat, vdaf_error) outcome" where
  "checked_usize n = (if n < usize_bound then Ok n else Panic)"

text \<open>A candidate is the number of gadget calls and the chunk length; its key is the length of the proof but one.\<close>

definition chunk_candidate :: "nat \<Rightarrow> nat \<Rightarrow> (nat \<times> nat, vdaf_error) outcome" where
  "chunk_candidate measurement_length k2 =
     (let gadget_calls = 2 ^ k2 - 1 in
      and_then (checked_usize (measurement_length + gadget_calls)) (\<lambda>s.
        if gadget_calls = 0 then Panic else Ok (gadget_calls, (s - 1) div gadget_calls)))"

definition candidate_key :: "nat \<times> nat \<Rightarrow> (nat, vdaf_error) outcome" where
  "candidate_key c = checked_usize (snd c * 2 + 2 * (next_power_of_two (1 + fst c) - 1))"

text \<open>\<open>min_by_key\<close> keeps the first of equal elements.\<close>

definition min_by_key_step ::
  "nat \<Rightarrow> nat \<Rightarrow> (nat \<times> nat \<times> nat) option \<Rightarrow> ((nat \<times> nat \<times> nat) option, vdaf_error) outcome" where
  "min_by_key_step measurement_length k2 best =
     and_then (chunk_candidate measurement_length k2) (\<lambda>c.
     and_then (candidate_key c) (\<lambda>k.
       Ok (case best of
             None \<Rightarrow> Some (k, c)
           | Some (k', c') \<Rightarrow> if k < k' then Some (k, c) else Some (k', c'))))"

definition optimal_chunk_length :: "nat \<Rightarrow> (nat, vdaf_error) outcome" where
  "optimal_chunk_length measurement_length =
     (if measurement_length \<le> 1 then Ok 1
      else
        and_then (checked_usize (measurement_length + 1)) (\<lambda>n.
        and_then (ilog2 n) (\<lambda>max_log2.
        and_then (for_each (min_by_key_step measurement_length) (rev [1..<max_log2 + 1]) None) (\<lambda>best.
          case best of None \<Rightarrow> Panic | Some (_, _, chunk_length) \<Rightarrow> Ok chunk_length))))"

end
