(* ===== verification/Prio3Correct.thy ===== *)
theory Prio3Correct
  imports Prio3
begin

text \<open>
  Correctness of Prio3: what a client shares out adds up to the measurement and its proofs, the aggregators together accept
  exactly what the validity circuit accepts, and the sum of the outputs is the aggregate.
\<close>

section \<open>Loops\<close>

lemma for_each_concat:
  assumes "for_each (\<lambda>p acc. and_then (f p) (\<lambda>y. Ok (acc @ y))) ps acc = Ok r"
  obtains ys where "map f ps = map Ok ys" "r = acc @ concat ys"
proof -
  have "\<exists>ys. map f ps = map Ok ys \<and> r = acc @ concat ys" using assms
  proof (induction ps arbitrary: acc)
    case (Cons p ps)
    then obtain y where y: "f p = Ok y" "for_each (\<lambda>p acc. and_then (f p) (\<lambda>y. Ok (acc @ y))) ps (acc @ y) = Ok r" by auto
    from Cons.IH [OF y(2)] obtain ys where "map f ps = map Ok ys" "r = (acc @ y) @ concat ys" by blast
    with y(1) show ?case by (intro exI [of _ "y # ys"]) simp
  qed simp
  with that show thesis by blast
qed

lemma for_each_concat_Ok:
  "map f ps = map Ok ys \<Longrightarrow> for_each (\<lambda>p acc. and_then (f p) (\<lambda>y. Ok (acc @ y))) ps acc = Ok (acc @ concat ys)"
proof (induction ps arbitrary: ys acc)
  case (Cons p ps)
  then obtain z zs where "ys = z # zs" "f p = Ok z" "map f ps = map Ok zs" by (cases ys) auto
  with Cons.IH [of zs "acc @ z"] show ?case by simp
qed simp

text \<open>Moving a vector from the first share to a new one keeps the sum.\<close>

lemma vector_sum_move:
  assumes "length l = n" "length y = n" "\<forall>v \<in> set ys. length v = n"
  shows "vector_sum n (map2 (-) l y # ys @ [y]) = vector_sum n (l # ys)"
  using assms by (intro nth_equalityI) (simp_all add: vector_sum_nth)

lemma slice_concat:
  "\<forall>y \<in> set ys. length y = n \<Longrightarrow> p < length ys \<Longrightarrow> slice (concat ys) (p * n) ((p + 1) * n) = ys ! p"
proof (induction ys arbitrary: p)
  case (Cons y ys)
  then show ?case
    by (cases p) (simp_all add: slice_def)
qed simp

lemma length_concat_const: "\<forall>y \<in> set ys. length y = n \<Longrightarrow> length (concat ys) = length ys * n"
  by (induction ys) simp_all

lemma get_slice_in: "(p + 1) * n \<le> length xs \<Longrightarrow> get_slice xs (p * n) ((p + 1) * n) = Ok (slice xs (p * n) ((p + 1) * n))"
  by (simp add: get_slice_def)

section \<open>Sharing out\<close>

text \<open>
  The state of the loop over the helpers: \<open>ys\<close> are the measurement shares that the helpers will expand.
\<close>

definition shared_out ::
  "('m, 'r, 'f::field, 'x, 's) prio3 \<Rightarrow> bytes \<Rightarrow> 'f list \<Rightarrow> 'f list list \<Rightarrow> 'f list \<Rightarrow> prio3_helper_share list \<Rightarrow> seed list option \<Rightarrow> bool" where
  "shared_out V nonce x ys leader helpers parts \<longleftrightarrow>
     length ys = length helpers \<and> length leader = input_len (prio3_typ V) \<and> (\<forall>y \<in> set ys. length y = input_len (prio3_typ V)) \<and>
     vector_sum (input_len (prio3_typ V)) (leader # ys) = x \<and>
     (\<forall>i < length helpers. expand_measurement_share V (of_nat (Suc i)) (HelperShare (helper_measurement_share (helpers ! i))) = Ok (ys ! i)) \<and>
     (case parts of
        None \<Rightarrow> \<forall>h \<in> set helpers. helper_joint_rand_blind h = None
      | Some ps \<Rightarrow> length ps = length helpers \<and> (\<forall>i < length helpers. \<exists>b. helper_joint_rand_blind (helpers ! i) = Some b \<and>
          derive_joint_rand_part V b (of_nat (Suc i)) nonce (ys ! i) = Ok (ps ! i)))"

lemma shard_helper_shared_out:
  assumes "shard_helper V nonce (Suc (length hs)) (rs, l, hs, parts) = Ok (rs', l', hs', parts')"
    and "shared_out V nonce x ys l hs parts"
  shows "\<exists>y h. hs' = hs @ [h] \<and> (parts' = None \<longleftrightarrow> parts = None) \<and> shared_out V nonce x (ys @ [y]) l' hs' parts'"
proof -
  from assms(2) have inv: "length ys = length hs" "length l = input_len (prio3_typ V)" "\<forall>y \<in> set ys. length y = input_len (prio3_typ V)"
    "vector_sum (input_len (prio3_typ V)) (l # ys) = x"
    "\<And>i. i < length hs \<Longrightarrow> expand_measurement_share V (of_nat (Suc i)) (HelperShare (helper_measurement_share (hs ! i))) = Ok (ys ! i)"
    by (auto simp: shared_out_def)
  from assms(1) obtain h y where h: "hs' = hs @ [h]" "l' = map2 (-) l y"
    "expand_measurement_share V (of_nat (Suc (length hs))) (HelperShare (helper_measurement_share h)) = Ok y"
    "case parts of None \<Rightarrow> parts' = None \<and> helper_joint_rand_blind h = None
     | Some ps \<Rightarrow> \<exists>b p. helper_joint_rand_blind h = Some b \<and> derive_joint_rand_part V b (of_nat (Suc (length hs))) nonce y = Ok p \<and>
         parts' = Some (ps @ [p])"
    using inv(2)
    by (cases parts) (fastforce simp: shard_helper_def expand_measurement_share_def into_field_vec_def from_seeds_def simp del: of_nat_Suc)+
  have y: "length y = input_len (prio3_typ V)"
    using h(3) by (auto simp: expand_measurement_share_def dest: length_into_field_vec)
  have "shared_out V nonce x (ys @ [y]) l' hs' parts'"
    using assms(2) h inv y vector_sum_move [OF inv(2) y inv(3)]
    by (auto simp: shared_out_def nth_append less_Suc_eq split: option.splits simp del: of_nat_Suc)
  moreover have "parts' = None \<longleftrightarrow> parts = None" using h(4) by (auto split: option.splits)
  ultimately show ?thesis using h(1) by blast
qed

lemma shard_helpers_shared_out:
  assumes "for_each (shard_helper V nonce) [1..<Suc k] (rs, x, [], parts0) = Ok (rs', l, hs, parts)"
    and "length x = input_len (prio3_typ V)" and "parts0 = (if b then Some [] else None)"
  shows "\<exists>ys. length hs = k \<and> (parts = None \<longleftrightarrow> \<not> b) \<and> shared_out V nonce x ys l hs parts"
  using assms(1)
proof (induction k arbitrary: rs' l hs parts)
  case 0
  have "vector_sum (length x) [x] = x" by (intro nth_equalityI) (simp_all add: vector_sum_nth)
  with 0 assms(2,3) show ?case by (intro exI [of _ "[]"]) (auto simp: shared_out_def)
next
  case (Suc k)
  have "[1..<Suc (Suc k)] = [1..<Suc k] @ [Suc k]" by simp
  with Suc.prems obtain rs1 l1 hs1 parts1 where
    r: "for_each (shard_helper V nonce) [1..<Suc k] (rs, x, [], parts0) = Ok (rs1, l1, hs1, parts1)"
    and st: "shard_helper V nonce (Suc k) (rs1, l1, hs1, parts1) = Ok (rs', l, hs, parts)"
    by (auto simp: for_each_snoc simp del: upt_Suc)
  from Suc.IH [OF r] obtain ys where ih: "length hs1 = k" "parts1 = None \<longleftrightarrow> \<not> b" "shared_out V nonce x ys l1 hs1 parts1" by blast
  from shard_helper_shared_out [OF st [folded ih(1)] ih(3)] ih show ?case by fastforce
qed

lemma length_derive_proofs_share: "expand_proofs_share V a (HelperShare s) = Ok z \<Longrightarrow> length z = proof_len (prio3_typ V) * num_proofs V"
  by (auto simp: expand_proofs_share_def dest: length_prng_take)

lemma subtract_helper_proofs_shares:
  assumes "subtract_helper_proofs V hs proofs = Ok l" and "length proofs = proof_len (prio3_typ V) * num_proofs V"
  shows "\<exists>zs. length zs = length hs \<and> (\<forall>z \<in> set zs. length z = length proofs) \<and> length l = length proofs \<and>
    vector_sum (length proofs) (l # zs) = proofs \<and>
    (\<forall>i < length hs. expand_proofs_share V (of_nat (Suc i)) (HelperShare (helper_proofs_share (hs ! i))) = Ok (zs ! i))"
  using assms(1)
proof (induction hs arbitrary: l rule: rev_induct)
  case Nil
  have "vector_sum (length proofs) [proofs] = proofs" by (intro nth_equalityI) (simp_all add: vector_sum_nth)
  with Nil show ?case by (auto simp: subtract_helper_proofs_def)
next
  case (snoc h hs)
  from snoc.prems obtain l1 where l1: "subtract_helper_proofs V hs proofs = Ok l1"
    and st: "and_then (derive_helper_proofs_share V (helper_proofs_share h) (of_nat (length hs) + 1)) (\<lambda>prng.
       and_then (prng_take (prio3_field V) (prio3_fill V) (min (length l1) (proof_len (prio3_typ V) * num_proofs V)) prng) (\<lambda>share.
         Ok (map2 (-) l1 share @ drop (length share) l1))) = Ok l"
    by (auto simp: subtract_helper_proofs_def enumerate_append_eq for_each_snoc)
  from snoc.IH [OF l1] obtain zs where ih: "length zs = length hs" "\<forall>z \<in> set zs. length z = length proofs" "length l1 = length proofs"
    "vector_sum (length proofs) (l1 # zs) = proofs"
    "\<And>i. i < length hs \<Longrightarrow> expand_proofs_share V (of_nat (Suc i)) (HelperShare (helper_proofs_share (hs ! i))) = Ok (zs ! i)" by blast
  have n: "min (length l1) (proof_len (prio3_typ V) * num_proofs V) = proof_len (prio3_typ V) * num_proofs V"
    using ih(3) assms(2) by simp
  obtain z where z: "expand_proofs_share V (of_nat (Suc (length hs))) (HelperShare (helper_proofs_share h)) = Ok z"
    and l: "l = map2 (-) l1 z @ drop (length z) l1"
    using st unfolding n by (auto simp: expand_proofs_share_def add.commute)
  have len: "length z = length proofs" using length_derive_proofs_share [OF z] assms(2) by simp
  then have "l = map2 (-) l1 z" using l ih(3) by simp
  with len ih z vector_sum_move [OF ih(3) len ih(2)] show ?case
    by (intro exI [of _ "zs @ [z]"]) (auto simp: nth_append less_Suc_eq simp del: of_nat_Suc)
qed

lemma shard_proofs_concat:
  assumes "shard_proofs V x prs jrs = Ok proofs"
  shows "\<exists>ps. length ps = num_proofs V \<and> proofs = concat ps \<and> (\<forall>p < num_proofs V.
    prove (prio3_typ V) x (slice prs (p * prove_rand_len (prio3_typ V)) ((p + 1) * prove_rand_len (prio3_typ V)))
      (slice jrs (p * joint_rand_len (prio3_typ V)) ((p + 1) * joint_rand_len (prio3_typ V))) = Ok (ps ! p))"
proof -
  let ?f = "\<lambda>p. and_then (get_slice prs (p * prove_rand_len (prio3_typ V)) ((p + 1) * prove_rand_len (prio3_typ V))) (\<lambda>prove_rand.
       and_then (get_slice jrs (p * joint_rand_len (prio3_typ V)) ((p + 1) * joint_rand_len (prio3_typ V))) (\<lambda>joint_rand.
         map_err VdafFlp (prove (prio3_typ V) x prove_rand joint_rand)))"
  have "for_each (\<lambda>p acc. and_then (?f p) (\<lambda>y. Ok (acc @ y))) [0..<num_proofs V] [] = Ok proofs"
    using assms by (simp add: shard_proofs_def and_then_assoc)
  then obtain ps where ps: "map ?f [0..<num_proofs V] = map Ok ps" "proofs = [] @ concat ps" by (rule for_each_concat)
  from arg_cong [OF ps(1), of length] have len: "length ps = num_proofs V" by simp
  have "prove (prio3_typ V) x (slice prs (p * prove_rand_len (prio3_typ V)) ((p + 1) * prove_rand_len (prio3_typ V)))
      (slice jrs (p * joint_rand_len (prio3_typ V)) ((p + 1) * joint_rand_len (prio3_typ V))) = Ok (ps ! p)" if "p < num_proofs V" for p
  proof -
    have "?f p = Ok (ps ! p)" using arg_cong [OF ps(1), of "\<lambda>l. l ! p"] that len by simp
    then show ?thesis unfolding get_slice_def by (simp split: if_splits)
  qed
  then show ?thesis using ps(2) len by (intro exI [of _ ps]) simp
qed

text \<open>
  What the client has shared out: \<open>xs\<close> and \<open>zs\<close> are the shares of the measurement \<open>x\<close> and of its proofs \<open>ps\<close> that the
  aggregators will expand, \<open>jrs\<close> the joint randomness of the proofs and \<open>sd\<close> the seed it comes from.
\<close>

definition honest_report ::
  "('m, 'r, 'f::field, 'x, 's) prio3 \<Rightarrow> bytes \<Rightarrow> prio3_public_share \<Rightarrow> 'f prio3_input_share list \<Rightarrow> 'f list \<Rightarrow> 'f list list \<Rightarrow>
   'f list list \<Rightarrow> 'f list list \<Rightarrow> 'f list \<Rightarrow> seed option \<Rightarrow> bool" where
  "honest_report V nonce pub inps x xs ps zs jrs sd \<longleftrightarrow>
     (let T = prio3_typ V; n = num_aggregators V in
      0 < n \<and> length inps = n \<and> length xs = n \<and> length zs = n \<and> length ps = num_proofs V \<and>
      (\<forall>y \<in> set xs. length y = input_len T) \<and> vector_sum (input_len T) xs = x \<and>
      (\<forall>z \<in> set zs. length z = proof_len T * num_proofs V) \<and> vector_sum (proof_len T * num_proofs V) zs = concat ps \<and>
      (\<forall>p \<in> set ps. length p = proof_len T) \<and> length jrs = joint_rand_len T * num_proofs V \<and>
      (\<forall>p < num_proofs V. \<exists>pr. length pr = prove_rand_len T \<and>
        prove T x pr (slice jrs (p * joint_rand_len T) ((p + 1) * joint_rand_len T)) = Ok (ps ! p)) \<and>
      (\<forall>i < n. expand_measurement_share V (of_nat i) (measurement_share (inps ! i)) = Ok (xs ! i) \<and>
        expand_proofs_share V (of_nat i) (proofs_share (inps ! i)) = Ok (zs ! i)) \<and>
      (if 0 < joint_rand_len T
       then \<exists>parts s. joint_rand_parts pub = Some parts \<and> length parts = n \<and> derive_joint_rands V parts = Ok (s, jrs) \<and> sd = Some s \<and>
         (\<forall>i < n. \<exists>b. joint_rand_blind (inps ! i) = Some b \<and> derive_joint_rand_part V b (of_nat i) nonce (xs ! i) = Ok (parts ! i))
       else jrs = [] \<and> sd = None))"

lemma length_derived:
  "derive_prove_rands V s = Ok prs \<Longrightarrow> length prs = prove_rand_len (prio3_typ V) * num_proofs V"
  "derive_joint_rands V parts = Ok (s', jrs) \<Longrightarrow> length jrs = joint_rand_len (prio3_typ V) * num_proofs V"
  "derive_query_rands V vk nonce = Ok qrs \<Longrightarrow> length qrs = query_rand_len (prio3_typ V) * num_proofs V"
  by (auto simp: derive_prove_rands_def derive_joint_rands_def derive_query_rands_def dest!: length_into_field_vec)

text \<open>The steps of a run of \<open>shard_with_random\<close> that succeeds.\<close>

lemma shard_with_randomE:
  assumes "shard_with_random V m nonce random = Ok (pub, inps)"
  obtains x rs k rs' l hs hparts rs'' lblind jrs sd prs proofs lproofs where
    "num_aggregators V = Suc k" "encode_measurement (prio3_typ V) m = Ok x"
    "for_each (shard_helper V nonce) [1..<Suc k] (rs, x, [], if 0 < joint_rand_len (prio3_typ V) then Some [] else None) = Ok (rs', l, hs, hparts)"
    "case hparts of
       Some hp \<Rightarrow> \<exists>b lp s. lblind = Some b \<and> sd = Some s \<and> derive_joint_rand_part V b 0 nonce l = Ok lp \<and>
         joint_rand_parts pub = Some (lp # hp) \<and> derive_joint_rands V (lp # hp) = Ok (s, jrs)
     | None \<Rightarrow> lblind = None \<and> sd = None \<and> joint_rand_parts pub = None \<and> jrs = []"
    "derive_prove_rands V rs'' = Ok prs" "shard_proofs V x prs jrs = Ok proofs" "subtract_helper_proofs V hs proofs = Ok lproofs"
    "inps = \<lparr>measurement_share = LeaderShare l, proofs_share = LeaderShare lproofs, joint_rand_blind = lblind\<rparr> #
       map (\<lambda>h. \<lparr>measurement_share = HelperShare (helper_measurement_share h), proofs_share = HelperShare (helper_proofs_share h),
         joint_rand_blind = helper_joint_rand_blind h\<rparr>) hs"
proof -
  from assms have "prio3_num_aggregators V \<noteq> 0" by (auto simp: shard_with_random_def random_size_def split: if_splits)
  then obtain k where k: "num_aggregators V = Suc k" by (metis num_aggregators_def not0_implies_Suc unat_eq_zero)
  from assms obtain x rs' l hs hparts where st: "encode_measurement (prio3_typ V) m = Ok x"
    "for_each (shard_helper V nonce) [1..<Suc k] (chunks_exact (SEED_SIZE (prio3_xof V)) random, x, [],
        if 0 < joint_rand_len (prio3_typ V) then Some [] else None) = Ok (rs', l, hs, hparts)"
    by (auto simp: shard_with_random_def Let_def k split: if_splits)
  show thesis
  proof (cases hparts)
    case None
    with assms st obtain rs'' prs proofs lproofs where j: "joint_rand_parts pub = None"
      and r: "derive_prove_rands V rs'' = Ok prs" "shard_proofs V x prs [] = Ok proofs" "subtract_helper_proofs V hs proofs = Ok lproofs"
      "inps = \<lparr>measurement_share = LeaderShare l, proofs_share = LeaderShare lproofs, joint_rand_blind = None\<rparr> #
         map (\<lambda>h. \<lparr>measurement_share = HelperShare (helper_measurement_share h), proofs_share = HelperShare (helper_proofs_share h),
           joint_rand_blind = helper_joint_rand_blind h\<rparr>) hs"
      by (auto simp: shard_with_random_def Let_def k split: if_splits)
    show thesis by (rule that [OF k st _ r, of None]) (simp add: None j)
  next
    case (Some hp)
    with assms st obtain b lp s jrs rs'' prs proofs lproofs where j: "derive_joint_rand_part V b 0 nonce l = Ok lp"
      "joint_rand_parts pub = Some (lp # hp)" "derive_joint_rands V (lp # hp) = Ok (s, jrs)"
      and r: "derive_prove_rands V rs'' = Ok prs" "shard_proofs V x prs jrs = Ok proofs" "subtract_helper_proofs V hs proofs = Ok lproofs"
      "inps = \<lparr>measurement_share = LeaderShare l, proofs_share = LeaderShare lproofs, joint_rand_blind = Some b\<rparr> #
         map (\<lambda>h. \<lparr>measurement_share = HelperShare (helper_measurement_share h), proofs_share = HelperShare (helper_proofs_share h),
           joint_rand_blind = helper_joint_rand_blind h\<rparr>) hs"
      by (auto simp: shard_with_random_def Let_def k split: if_splits)
    show thesis by (rule that [OF k st _ r, of "Some s"]) (simp add: Some j)
  qed
qed

lemma honest_shard:
  assumes shard: "shard_with_random V m nonce random = Ok (pub, inps)" and np: "0 < num_proofs V"
    and len: "\<And>x pr jr p. prove (prio3_typ V) x pr jr = Ok p \<Longrightarrow> length p = proof_len (prio3_typ V)"
  shows "\<exists>x xs ps zs jrs sd. encode_measurement (prio3_typ V) m = Ok x \<and> honest_report V nonce pub inps x xs ps zs jrs sd"
proof -
  let ?T = "prio3_typ V"
  let ?jr = "\<lambda>jrs p. slice jrs (p * joint_rand_len ?T) ((p + 1) * joint_rand_len ?T)"
  from shard obtain x rs k rs' l hs hparts rs'' lblind jrs sd prs proofs lproofs where
    s: "num_aggregators V = Suc k" "encode_measurement ?T m = Ok x"
    "for_each (shard_helper V nonce) [1..<Suc k] (rs, x, [], if 0 < joint_rand_len ?T then Some [] else None) = Ok (rs', l, hs, hparts)"
    and parts: "case hparts of
       Some hp \<Rightarrow> \<exists>b lp s. lblind = Some b \<and> sd = Some s \<and> derive_joint_rand_part V b 0 nonce l = Ok lp \<and>
         joint_rand_parts pub = Some (lp # hp) \<and> derive_joint_rands V (lp # hp) = Ok (s, jrs)
     | None \<Rightarrow> lblind = None \<and> sd = None \<and> joint_rand_parts pub = None \<and> jrs = []"
    and pr: "derive_prove_rands V rs'' = Ok prs" and sp: "shard_proofs V x prs jrs = Ok proofs"
    and sub: "subtract_helper_proofs V hs proofs = Ok lproofs"
    and inps: "inps = \<lparr>measurement_share = LeaderShare l, proofs_share = LeaderShare lproofs, joint_rand_blind = lblind\<rparr> #
       map (\<lambda>h. \<lparr>measurement_share = HelperShare (helper_measurement_share h), proofs_share = HelperShare (helper_proofs_share h),
         joint_rand_blind = helper_joint_rand_blind h\<rparr>) hs"
    by (rule shard_with_randomE)
  from shard_proofs_concat [OF sp] obtain ps where ps: "length ps = num_proofs V" "proofs = concat ps"
    "\<And>p. p < num_proofs V \<Longrightarrow> prove ?T x (slice prs (p * prove_rand_len ?T) ((p + 1) * prove_rand_len ?T)) (?jr jrs p) = Ok (ps ! p)"
    by blast
  have pl: "\<forall>p \<in> set ps. length p = proof_len ?T"
    using ps(1) len [OF ps(3)] by (auto simp: in_set_conv_nth)
  then have proofs: "length proofs = proof_len ?T * num_proofs V" using length_concat_const [OF pl] ps(1,2) by simp
  have x: "length x = input_len ?T" using ps(3) [OF np] by (auto simp: prove_def split: if_splits)
  from shard_helpers_shared_out [OF s(3) x refl] obtain ys where
    ys: "length hs = k" "hparts = None \<longleftrightarrow> \<not> 0 < joint_rand_len ?T" "shared_out V nonce x ys l hs hparts" by blast
  from subtract_helper_proofs_shares [OF sub proofs] obtain zs where
    zs: "length zs = length hs" "\<forall>z \<in> set zs. length z = length proofs" "length lproofs = length proofs"
      "vector_sum (length proofs) (lproofs # zs) = proofs"
      "\<And>i. i < length hs \<Longrightarrow> expand_proofs_share V (of_nat (Suc i)) (HelperShare (helper_proofs_share (hs ! i))) = Ok (zs ! i)" by blast
  have prs: "\<exists>pr. length pr = prove_rand_len ?T \<and> prove ?T x pr (?jr jrs p) = Ok (ps ! p)" if "p < num_proofs V" for p
    using ps(3) [OF that] by (intro exI [of _ "slice prs (p * prove_rand_len ?T) ((p + 1) * prove_rand_len ?T)"])
      (auto simp: prove_def split: if_splits)
  have jrs: "length jrs = joint_rand_len ?T * num_proofs V"
    using parts ys(2) by (auto split: option.splits dest: length_derived(2))
  have e: "expand_measurement_share V (of_nat i) (measurement_share (inps ! i)) = Ok ((l # ys) ! i) \<and>
      expand_proofs_share V (of_nat i) (proofs_share (inps ! i)) = Ok ((lproofs # zs) ! i)" if "i < Suc k" for i
    using that ys(1,3) zs(5) by (cases i) (simp_all add: inps shared_out_def expand_measurement_share_def expand_proofs_share_def del: of_nat_Suc)
  have j: "if 0 < joint_rand_len ?T
       then \<exists>parts s. joint_rand_parts pub = Some parts \<and> length parts = Suc k \<and> derive_joint_rands V parts = Ok (s, jrs) \<and> sd = Some s \<and>
         (\<forall>i < Suc k. \<exists>b. joint_rand_blind (inps ! i) = Some b \<and> derive_joint_rand_part V b (of_nat i) nonce ((l # ys) ! i) = Ok (parts ! i))
       else jrs = [] \<and> sd = None"
    using parts ys
    by (auto simp: inps shared_out_def less_Suc_eq_0_disj split: option.splits simp del: of_nat_Suc) (force simp del: of_nat_Suc)?
  have li: "length inps = Suc k" and sh: "length (l # ys) = Suc k" "\<forall>y \<in> set (l # ys). length y = input_len ?T"
    "vector_sum (input_len ?T) (l # ys) = x" and lz: "length (lproofs # zs) = Suc k"
    "\<forall>z \<in> set (lproofs # zs). length z = proof_len ?T * num_proofs V"
    "vector_sum (proof_len ?T * num_proofs V) (lproofs # zs) = concat ps"
    using inps ys zs proofs ps(2) by (simp_all add: shared_out_def)
  have "honest_report V nonce pub inps x (l # ys) ps (lproofs # zs) jrs sd"
    unfolding honest_report_def Let_def s(1) by (intro conjI allI impI) (rule zero_less_Suc li sh lz ps(1) pl jrs prs e j conjunct1 [OF e] conjunct2 [OF e] | assumption)+
  with s(2) show ?thesis by blast
qed

section \<open>Preparation\<close>

lemma slice_vector_sum:
  assumes "\<forall>z \<in> set zs. length z = m" "i \<le> j" "j \<le> m"
  shows "slice (vector_sum m zs) i j = vector_sum (j - i) (map (\<lambda>z. slice z i j) zs)"
  using assms by (intro nth_equalityI) (simp_all add: slice_def vector_sum_nth comp_def cong: map_cong)

lemma vector_sum_concat:
  assumes "\<And>p i. p < k \<Longrightarrow> i \<in> set is \<Longrightarrow> length (v p i) = n"
  shows "vector_sum (k * n) (map (\<lambda>i. concat (map (\<lambda>p. v p i) [0..<k])) is) =
    concat (map (\<lambda>p. vector_sum n (map (v p) is)) [0..<k])"
  using assms
proof (induction k)
  case 0
  have "vector_sum 0 vs = []" for vs :: "'b list list" by (induction vs) (simp_all add: vector_sum_def)
  then show ?case by simp
next
  case (Suc k)
  have len: "length (concat (map (\<lambda>p. v p i) [0..<k])) = k * n" if "i \<in> set is" for i
    using Suc.prems that length_concat_const [of "map (\<lambda>p. v p i) [0..<k]" n] by simp
  have "vector_sum (k * n + n) (map (\<lambda>i. concat (map (\<lambda>p. v p i) [0..<k]) @ v k i) is) =
      vector_sum (k * n) (map (\<lambda>i. concat (map (\<lambda>p. v p i) [0..<k])) is) @ vector_sum n (map (v k) is)"
    using len Suc.prems by (subst vector_sum_split) (simp_all add: comp_def cong: map_cong)
  with Suc show ?case by (simp add: add.commute)
qed

lemma fold_map2_add:
  assumes "\<forall>v \<in> set vs. length v = length acc"
  shows "fold (\<lambda>v acc. map2 (+) acc v) vs acc = map2 (+) acc (vector_sum (length acc) vs)"
  using assms
proof (induction vs arbitrary: acc)
  case Nil
  show ?case by (auto simp: vector_sum_def intro: nth_equalityI)
next
  case (Cons v vs)
  then show ?case by (auto simp: vector_sum_def add.assoc intro!: nth_equalityI)
qed

lemma decide_all:
  assumes "\<And>p. p \<in> set ps \<Longrightarrow> decide T (w p) = Ok (b p)"
  shows "for_each (\<lambda>verifier _. and_then (map_err VdafFlp (decide T verifier)) (\<lambda>ok. if \<not> ok then Err Uncategorized else Ok ())) (map w ps) () =
    (if \<forall>p \<in> set ps. b p then Ok () else Err Uncategorized)"
  using assms by (induction ps) auto

text \<open>Summing up the verifier shares of as many messages as the counter can hold.\<close>

lemma collect_shares:
  assumes "c + length shs \<le> 255" and "\<forall>s \<in> set shs. length (verifiers s) = length acc"
    and "joint \<longrightarrow> map joint_rand_part shs = map Some ps"
  shows "for_each (\<lambda>share (count :: byte, acc, parts).
        if count = - 1 then Panic
        else if length (verifiers share) \<noteq> length acc then Err Uncategorized
        else and_then
          (if joint then (case joint_rand_part share of None \<Rightarrow> Panic | Some part \<Rightarrow> Ok (parts @ [part])) else Ok parts) (\<lambda>parts.
          Ok (count + 1, map2 (+) acc (verifiers share), parts)))
      shs (of_nat c, acc, parts) =
    Ok (of_nat (c + length shs), fold (\<lambda>v acc. map2 (+) acc v) (map verifiers shs) acc, parts @ (if joint then ps else []))"
  using assms
proof (induction shs arbitrary: c acc parts ps)
  case Nil
  then show ?case by simp
next
  case (Cons s shs)
  have "(of_nat c :: byte) \<noteq> - 1"
  proof
    assume "(of_nat c :: byte) = - 1"
    then have "unat (of_nat c :: byte) = unat (- 1 :: byte)" by simp
    then show False using Cons.prems(1) by (simp add: unsigned_minus_1_eq_mask mask_eq_exp_minus_1 unat_of_nat take_bit_nat_eq_self)
  qed
  moreover have "of_nat c + 1 = (of_nat (Suc c) :: byte)" by simp
  moreover obtain p ps' where "joint \<longrightarrow> ps = p # ps' \<and> joint_rand_part s = Some p \<and> map joint_rand_part shs = map Some ps'"
    using Cons.prems(3) by (cases ps) auto
  ultimately show ?case
    using Cons.prems Cons.IH [of "Suc c" "map2 (+) acc (verifiers s)" ps' "parts @ (if joint then [p] else [])"]
    by (cases joint) (simp_all del: of_nat_Suc)
qed

lemma num_aggregators_byte: "i < num_aggregators V \<Longrightarrow> unat (of_nat i :: byte) = i"
  using unsigned_less [of "prio3_num_aggregators V", where 'a = nat]
  by (simp add: num_aggregators_def unat_of_nat take_bit_nat_eq_self)

lemma query_length: "query T x q qr jr ns = Ok v \<Longrightarrow> length v = verifier_len T"
  by (auto simp: query_def split: if_splits)

context verifiable_circuit
begin

lemma prove_length:
  assumes "prove T x pr jr = Ok p"
  shows "length p = proof_len T"
proof -
  have "length x = input_len T" "length jr = joint_rand_len T" "length pr = arity g"
    using assms by (auto simp: prove_def lens split: if_splits)
  from prove_value [OF this] assms this(3) show ?thesis by (auto simp: lens)
qed

text \<open>The verifier shares of one proof: they can be computed, and their sum is accepted exactly if the circuit accepts.\<close>

lemma shared_proof:
  assumes V: "prio3_typ V = T" and h: "honest_report V nonce pub inps x xs ps zs jrs sd" and n: "num_aggregators V < modulus F"
    and p: "p < num_proofs V" and r: "r ^ wire_len \<noteq> 1"
  shows "\<exists>v. (\<forall>i < num_aggregators V. query T (xs ! i) (slice (zs ! i) (p * proof_len T) ((p + 1) * proof_len T)) [r]
        (slice jrs (p * joint_rand_len T) ((p + 1) * joint_rand_len T)) (num_aggregators V) = Ok (v i)) \<and>
    decide T (vector_sum (verifier_len T) (map v [0..<num_aggregators V])) =
      Ok (circuit_value x (slice jrs (p * joint_rand_len T) ((p + 1) * joint_rand_len T)) 1 = 0)"
proof -
  let ?jr = "slice jrs (p * joint_rand_len T) ((p + 1) * joint_rand_len T)"
  let ?cut = "\<lambda>z. slice z (p * proof_len T) ((p + 1) * proof_len T)"
  let ?shares = "map (\<lambda>i. (xs ! i, ?cut (zs ! i))) [0..<num_aggregators V]"
  from h have n0: "0 < num_aggregators V" and xs: "length xs = num_aggregators V" "\<forall>y \<in> set xs. length y = input_len T" "vector_sum (input_len T) xs = x"
    and zs: "length zs = num_aggregators V" "\<forall>z \<in> set zs. length z = proof_len T * num_proofs V"
      "vector_sum (proof_len T * num_proofs V) zs = concat ps"
    and ps: "length ps = num_proofs V" "\<forall>q \<in> set ps. length q = proof_len T" and jrs: "length jrs = joint_rand_len T * num_proofs V"
    by (auto simp: honest_report_def Let_def V)
  from h p obtain pr where pr: "length pr = prove_rand_len T" "prove T x pr ?jr = Ok (ps ! p)"
    by (auto simp: honest_report_def Let_def V)
  have "(p + 1) * k \<le> k * num_proofs V" for k using p by (metis Suc_eq_plus1 Suc_leI mult.commute mult_le_mono1)
  note le = this
  have cut: "vector_sum (proof_len T) (map ?cut zs) = ps ! p"
    using slice_vector_sum [OF zs(2), of "p * proof_len T" "(p + 1) * proof_len T"] le [of "proof_len T"] zs(3)
      slice_concat [OF ps(2), of p] p ps(1) by simp
  have eq: "map fst ?shares = xs" "map snd ?shares = map ?cut zs"
    using xs(1) zs(1) by (auto intro: nth_equalityI)
  have "\<exists>vs. map (\<lambda>(x, p). query T x p [r] ?jr (length ?shares)) ?shares = map Ok vs \<and>
      decide T (vector_sum (verifier_len T) vs) = Ok (circuit_value (vector_sum (input_len T) (map fst ?shares)) ?jr 1 = 0)"
  proof (rule shared_verification [OF _ _ _ pr(1)])
    show "?shares \<noteq> []" using n0 by simp
    show "\<forall>(x, p) \<in> set ?shares. length x = input_len T \<and> length p = proof_len T"
      using xs(1,2) zs(1,2) le [of "proof_len T"] by auto
    show "length ?jr = joint_rand_len T" using jrs le [of "joint_rand_len T"] by simp
  qed (use n r pr(2) xs(3) cut eq in simp_all)
  then obtain vs where vs: "map (\<lambda>(x, p). query T x p [r] ?jr (num_aggregators V)) ?shares = map Ok vs"
    "decide T (vector_sum (verifier_len T) vs) = Ok (circuit_value x ?jr 1 = 0)" using eq xs(3) by auto
  from arg_cong [OF vs(1), of length] have len: "length vs = num_aggregators V" by simp
  then have "map (\<lambda>i. vs ! i) [0..<num_aggregators V] = vs" by (metis map_nth)
  moreover have "query T (xs ! i) (?cut (zs ! i)) [r] ?jr (num_aggregators V) = Ok (vs ! i)" if "i < num_aggregators V" for i
    using arg_cong [OF vs(1), of "\<lambda>l. l ! i"] that len by simp
  ultimately show ?thesis using vs(2) by (intro exI [of _ "\<lambda>i. vs ! i"]) simp
qed

lemma query_proofs_Ok:
  assumes V: "prio3_typ V = T" and h: "honest_report V nonce pub inps x xs ps zs jrs sd" and i: "i < num_aggregators V"
    and qrs: "length qrs = num_proofs V"
    and v: "\<And>p. p < num_proofs V \<Longrightarrow> query T (xs ! i) (slice (zs ! i) (p * proof_len T) ((p + 1) * proof_len T)) [qrs ! p]
        (slice jrs (p * joint_rand_len T) ((p + 1) * joint_rand_len T)) (num_aggregators V) = Ok (v p)"
  shows "query_proofs V (xs ! i) (zs ! i) qrs jrs = Ok (concat (map v [0..<num_proofs V]))"
proof -
  let ?f = "\<lambda>p. and_then (get_slice qrs (p * query_rand_len T) ((p + 1) * query_rand_len T)) (\<lambda>query_rand.
       and_then (get_slice jrs (p * joint_rand_len T) ((p + 1) * joint_rand_len T)) (\<lambda>joint_rand.
       and_then (get_slice (zs ! i) (p * proof_len T) ((p + 1) * proof_len T)) (\<lambda>proof_share.
         map_err VdafFlp (query T (xs ! i) proof_share query_rand joint_rand (num_aggregators V)))))"
  from h i have zs: "length (zs ! i) = proof_len T * num_proofs V" and jrs: "length jrs = joint_rand_len T * num_proofs V"
    by (auto simp: honest_report_def Let_def V)
  have "?f p = Ok (v p)" if p: "p < num_proofs V" for p
  proof -
    have le: "(p + 1) * k \<le> k * num_proofs V" for k using p by (metis Suc_eq_plus1 Suc_leI mult.commute mult_le_mono1)
    have "slice qrs (p * 1) ((p + 1) * 1) = [qrs ! p]" using p qrs by (simp add: slice_def take_Suc_conv_app_nth Cons_nth_drop_Suc [symmetric])
    then show ?thesis
      using v [OF p] le [of 1] le [of "joint_rand_len T"] le [of "proof_len T"] zs jrs qrs by (simp add: lens get_slice_def)
  qed
  then have "map ?f [0..<num_proofs V] = map Ok (map v [0..<num_proofs V])" by simp
  from for_each_concat_Ok [OF this, of "[]"] show ?thesis by (simp add: query_proofs_def V and_then_assoc)
qed

text \<open>
  The states and messages of honest aggregators.  Everyone derives the same joint randomness, since the own part of each
  is the part in the public share.
\<close>

lemma prepare_init_Ok:
  assumes V: "prio3_typ V = T" and h: "honest_report V nonce pub inps x xs ps zs jrs sd" and i: "i < num_aggregators V"
    and q: "derive_query_rands V vk nonce = Ok qrs" and v: "query_proofs V (xs ! i) (zs ! i) qrs jrs = Ok vs"
  shows "prio3_prepare_init V vk i nonce pub (inps ! i) =
    Ok (\<lparr>state_measurement_share = measurement_share (inps ! i), state_joint_rand_seed = sd, state_agg_id = of_nat i, verifiers_len = length vs\<rparr>,
        \<lparr>verifiers = vs, joint_rand_part = (if 0 < joint_rand_len T then Some (the (joint_rand_parts pub) ! i) else None)\<rparr>)"
proof -
  from h i have e: "expand_measurement_share V (of_nat i) (measurement_share (inps ! i)) = Ok (xs ! i)"
    "expand_proofs_share V (of_nat i) (proofs_share (inps ! i)) = Ok (zs ! i)" by (auto simp: honest_report_def Let_def)
  have role: "role_try_from V i = Ok (of_nat i)" using i by (simp add: role_try_from_def)
  show ?thesis
  proof (cases "0 < joint_rand_len T")
    case True
    with h i obtain parts s b where j: "joint_rand_parts pub = Some parts" "length parts = num_aggregators V"
      "derive_joint_rands V parts = Ok (s, jrs)" "sd = Some s" "joint_rand_blind (inps ! i) = Some b"
      "derive_joint_rand_part V b (of_nat i) nonce (xs ! i) = Ok (parts ! i)"
      by (auto simp: honest_report_def Let_def V)
    have "take i parts @ [parts ! i] @ drop (i + 1) parts = parts" using i j(2) by (simp add: id_take_nth_drop [symmetric])
    then have "corrected_joint_rand_parts (Some parts) (unat (of_nat i :: byte)) (parts ! i) = parts"
      using num_aggregators_byte [OF i] by (simp add: corrected_joint_rand_parts_def)
    with True role e j q v show ?thesis by (simp add: prio3_prepare_init_def V)
  next
    case False
    with h have "jrs = []" "sd = None" by (auto simp: honest_report_def Let_def V)
    with False role e q v show ?thesis by (simp add: prio3_prepare_init_def V)
  qed
qed

lemma honest_parts:
  assumes V: "prio3_typ V = T" and h: "honest_report V nonce pub inps x xs ps zs jrs sd" and jr: "0 < joint_rand_len T"
  obtains s where "length (the (joint_rand_parts pub)) = num_aggregators V" "sd = Some s"
    "derive_joint_rand_seed V (the (joint_rand_parts pub)) = Ok s"
  using assms by (auto simp: honest_report_def Let_def derive_joint_rands_def)

lemma combine_shares:
  assumes V: "prio3_typ V = T" and h: "honest_report V nonce pub inps x xs ps zs jrs sd"
    and vl: "\<And>p i. p < num_proofs V \<Longrightarrow> i < num_aggregators V \<Longrightarrow> length (v p i) = verifier_len T"
    and d: "\<And>p. p < num_proofs V \<Longrightarrow> decide T (vector_sum (verifier_len T) (map (v p) [0..<num_aggregators V])) = Ok (b p)"
  shows "prio3_prepare_shares_to_prepare_message V
      (map (\<lambda>i. \<lparr>verifiers = concat (map (\<lambda>p. v p i) [0..<num_proofs V]),
         joint_rand_part = (if 0 < joint_rand_len T then Some (the (joint_rand_parts pub) ! i) else None)\<rparr>) [0..<num_aggregators V]) =
    (if \<forall>p < num_proofs V. b p then Ok \<lparr>message_joint_rand_seed = sd\<rparr> else Err Uncategorized)"
proof -
  let ?n = "num_aggregators V" and ?k = "num_proofs V" and ?vl = "verifier_len T" and ?parts = "the (joint_rand_parts pub)"
  let ?joint = "0 < joint_rand_len T"
  let ?shs = "map (\<lambda>i. \<lparr>verifiers = concat (map (\<lambda>p. v p i) [0..<?k]),
         joint_rand_part = (if ?joint then Some (?parts ! i) else None)\<rparr>) [0..<?n]"
  let ?sums = "map (\<lambda>p. vector_sum ?vl (map (v p) [0..<?n])) [0..<?k]"
  have len: "length (concat (map (\<lambda>p. v p i) [0..<?k])) = ?vl * ?k" if "i < ?n" for i
    using vl [OF _ that] length_concat_const [of "map (\<lambda>p. v p i) [0..<?k]" ?vl] by (simp add: mult.commute)
  have n: "?n \<le> 255" and cnt: "(of_nat ?n :: byte) = prio3_num_aggregators V"
    using unsigned_less [of "prio3_num_aggregators V", where 'a = nat] by (simp_all add: num_aggregators_def)
  have parts: "?joint \<longrightarrow> map joint_rand_part ?shs = map Some ?parts"
  proof
    assume j: ?joint
    have "length ?parts = ?n" by (rule honest_parts [OF V h j])
    with j show "map joint_rand_part ?shs = map Some ?parts" by (intro nth_equalityI) simp_all
  qed
  have acc: "fold (\<lambda>v acc. map2 (+) acc v) (map verifiers ?shs) (replicate (?vl * ?k) 0) = concat ?sums"
  proof -
    have l: "\<forall>w \<in> set (map verifiers ?shs). length w = length (replicate (?vl * ?k) (0 :: 'f))" using len by auto
    then have "length (vector_sum (?vl * ?k) (map verifiers ?shs)) = ?vl * ?k" by simp
    then have "map2 (+) (replicate (?vl * ?k) 0) (vector_sum (?vl * ?k) (map verifiers ?shs)) = vector_sum (?vl * ?k) (map verifiers ?shs)"
      by (intro nth_equalityI) simp_all
    moreover have "vector_sum (?vl * ?k) (map verifiers ?shs) = concat ?sums"
      using vector_sum_concat [of ?k "[0..<?n]" v ?vl] vl by (simp add: comp_def mult.commute)
    ultimately show ?thesis using fold_map2_add [OF l] by simp
  qed
  have pos: "0 < ?vl" by (simp add: lens)
  have "length (vector_sum ?vl (map (v p) [0..<?n])) = ?vl" if "p < ?k" for p using vl [OF that] by simp
  then have ch: "chunks ?vl (concat ?sums) = ?sums" by (intro chunks_concat [OF pos]) auto
  have dec: "for_each (\<lambda>verifier _. and_then (map_err VdafFlp (decide T verifier)) (\<lambda>ok. if \<not> ok then Err Uncategorized else Ok ())) ?sums () =
      (if \<forall>p < ?k. b p then Ok () else Err Uncategorized)"
    using decide_all [of "[0..<?k]" T "\<lambda>p. vector_sum ?vl (map (v p) [0..<?n])" b] d by simp
  have shl: "\<forall>s \<in> set ?shs. length (verifiers s) = length (replicate (?vl * ?k) (0 :: 'f))" using len by auto
  have cl: "0 + length ?shs \<le> 255" using n by simp
  have coll: "for_each (\<lambda>share (count :: byte, acc, parts).
        if count = - 1 then Panic
        else if length (verifiers share) \<noteq> length acc then Err Uncategorized
        else and_then
          (if ?joint then (case joint_rand_part share of None \<Rightarrow> Panic | Some part \<Rightarrow> Ok (parts @ [part])) else Ok parts) (\<lambda>parts.
          Ok (count + 1, map2 (+) acc (verifiers share), parts)))
      ?shs (0, replicate (?vl * ?k) 0, []) = Ok (prio3_num_aggregators V, concat ?sums, if ?joint then ?parts else [])"
    using collect_shares [OF cl shl parts, of "[]"] by (simp only: acc length_map length_upt add_0 diff_zero cnt semiring_1_class.of_nat_0 append_Nil)
  show ?thesis
  proof (cases ?joint)
    case True
    then obtain s where "sd = Some s" "derive_joint_rand_seed V ?parts = Ok s" by (rule honest_parts [OF V h])
    with True pos show ?thesis unfolding prio3_prepare_shares_to_prepare_message_def V coll by (simp add: ch dec)
  next
    case False
    with h have "sd = None" by (auto simp: honest_report_def Let_def V)
    with False pos show ?thesis unfolding prio3_prepare_shares_to_prepare_message_def V coll by (simp add: ch dec)
  qed
qed

text \<open>
  Honest aggregators finish the initialisation, combine their messages if and only if the circuit accepts the measurement at
  the joint randomness of every proof, and then obtain their shares of the truncated measurement.
\<close>

theorem preparation:
  assumes V: "prio3_typ V = T" and h: "honest_report V nonce pub inps x xs ps zs jrs sd" and n: "num_aggregators V < modulus F"
    and q: "derive_query_rands V vk nonce = Ok qrs" "\<forall>r \<in> set qrs. r ^ wire_len \<noteq> 1"
  shows "\<exists>sts shs. length sts = num_aggregators V \<and> length shs = num_aggregators V \<and>
    (\<forall>i < num_aggregators V. prio3_prepare_init V vk i nonce pub (inps ! i) = Ok (sts ! i, shs ! i) \<and>
      length (verifiers (shs ! i)) = verifiers_len (sts ! i) \<and> state_joint_rand_seed (sts ! i) = sd) \<and>
    prio3_prepare_shares_to_prepare_message V shs =
      (if \<forall>p < num_proofs V. circuit_value x (slice jrs (p * joint_rand_len T) ((p + 1) * joint_rand_len T)) 1 = 0
       then Ok \<lparr>message_joint_rand_seed = sd\<rparr> else Err Uncategorized) \<and>
    (\<forall>i < num_aggregators V. prio3_prepare_next V (sts ! i) \<lparr>message_joint_rand_seed = sd\<rparr> =
      and_then (map_err VdafFlp (truncate_input T (xs ! i))) (\<lambda>d. Ok (Finish d)))"
proof -
  let ?n = "num_aggregators V" and ?k = "num_proofs V"
  let ?jr = "\<lambda>p. slice jrs (p * joint_rand_len T) ((p + 1) * joint_rand_len T)"
  have qrs: "length qrs = ?k" using length_derived(3) [OF q(1)] by (simp add: V lens)
  then have r: "(qrs ! p) ^ wire_len \<noteq> 1" if "p < ?k" for p using q(2) that by simp
  have "\<exists>v. \<forall>p < ?k. (\<forall>i < ?n. query T (xs ! i) (slice (zs ! i) (p * proof_len T) ((p + 1) * proof_len T)) [qrs ! p] (?jr p) ?n = Ok (v p i)) \<and>
      decide T (vector_sum (verifier_len T) (map (v p) [0..<?n])) = Ok (circuit_value x (?jr p) 1 = 0)"
    by (intro choice allI) (use shared_proof [OF V h n _ r] in blast)
  then obtain v where v: "\<And>p i. p < ?k \<Longrightarrow> i < ?n \<Longrightarrow>
      query T (xs ! i) (slice (zs ! i) (p * proof_len T) ((p + 1) * proof_len T)) [qrs ! p] (?jr p) ?n = Ok (v p i)"
    and d: "\<And>p. p < ?k \<Longrightarrow> decide T (vector_sum (verifier_len T) (map (v p) [0..<?n])) = Ok (circuit_value x (?jr p) 1 = 0)"
    by blast
  let ?vs = "\<lambda>i. concat (map (\<lambda>p. v p i) [0..<?k])"
  let ?st = "\<lambda>i. \<lparr>state_measurement_share = measurement_share (inps ! i), state_joint_rand_seed = sd, state_agg_id = of_nat i, verifiers_len = length (?vs i)\<rparr>"
  let ?sh = "\<lambda>i. \<lparr>verifiers = ?vs i, joint_rand_part = (if 0 < joint_rand_len T then Some (the (joint_rand_parts pub) ! i) else None)\<rparr>"
  have init: "prio3_prepare_init V vk i nonce pub (inps ! i) = Ok (?st i, ?sh i)" if "i < ?n" for i
    by (rule prepare_init_Ok [OF V h that q(1) query_proofs_Ok [OF V h that qrs v [OF _ that]]])
  have msg: "prio3_prepare_shares_to_prepare_message V (map ?sh [0..<?n]) =
      (if \<forall>p < ?k. circuit_value x (?jr p) 1 = 0 then Ok \<lparr>message_joint_rand_seed = sd\<rparr> else Err Uncategorized)"
    by (rule combine_shares [OF V h query_length [OF v] d])
  have seed: "0 < joint_rand_len T \<Longrightarrow> \<exists>s. sd = Some s" using h by (auto simp: honest_report_def Let_def V)
  have nxt: "prio3_prepare_next V (?st i) \<lparr>message_joint_rand_seed = sd\<rparr> =
      and_then (map_err VdafFlp (truncate_input T (xs ! i))) (\<lambda>d. Ok (Finish d))" if "i < ?n" for i
  proof -
    have "expand_measurement_share V (of_nat i) (measurement_share (inps ! i)) = Ok (xs ! i)"
      using h that by (auto simp: honest_report_def Let_def)
    with seed show ?thesis by (cases "0 < joint_rand_len T") (auto simp: prio3_prepare_next_def V)
  qed
  show ?thesis
    by (rule exI [of _ "map ?st [0..<?n]"], rule exI [of _ "map ?sh [0..<?n]"]) (use init msg nxt in simp)
qed

end

end

