(* ===== verification/Prio3Wire.thy ===== *)
theory Prio3Wire
  imports Prio3Correct
begin

text \<open>
  The wire formats of Prio3 satisfy the contract of an encoder and its decoder, and the comparisons in constant time decide
  equality.
\<close>

section \<open>Equality\<close>

lemma option_ct_eq_iff: "(\<And>x y. eq x y \<longleftrightarrow> x = y) \<Longrightarrow> option_ct_eq eq a b \<longleftrightarrow> a = b"
  by (auto simp: option_ct_eq_def split: option.splits)

lemma slice_ct_eq_iff:
  assumes "\<And>x y. eq x y \<longleftrightarrow> x = y"
  shows "slice_ct_eq eq xs ys \<longleftrightarrow> xs = ys"
proof -
  have "fold (\<lambda>(x, y) c. c \<and> eq x y) ps b \<longleftrightarrow> b \<and> (\<forall>(x, y) \<in> set ps. x = y)" for ps b
    using assms by (induction ps arbitrary: b) auto
  then show ?thesis by (auto simp: slice_ct_eq_def list_eq_iff_zip_eq)
qed

lemma share_ct_eq_iff: "share_ct_eq a b \<longleftrightarrow> a = b"
  by (cases a; cases b) (simp_all add: slice_ct_eq_iff)

lemmas ct_eq_iff = option_ct_eq_iff slice_ct_eq_iff share_ct_eq_iff

section \<open>Optional seeds\<close>

fun opt_seed_wire :: "seed option \<Rightarrow> bytes" where
  "opt_seed_wire None = []"
| "opt_seed_wire (Some s) = s"

fun opt_seed_fits :: "nat \<Rightarrow> bool \<Rightarrow> seed option \<Rightarrow> bool" where
  "opt_seed_fits n present None \<longleftrightarrow> \<not> present"
| "opt_seed_fits n present (Some s) \<longleftrightarrow> present \<and> length s = n"

interpretation opt_seed: codec opt_seed_encode "opt_seed_decode n present" "opt_seed_fits n present" opt_seed_wire for n present
proof unfold_locales
  show "opt_seed_encode s bs = Ok (bs @ opt_seed_wire s)" if "opt_seed_fits n present s" for s bs
    by (cases s) (simp_all add: opt_seed_encode_def seed_encode_def)
  show "opt_seed_decode n present (Cursor (pre @ opt_seed_wire s @ post) (length pre)) =
      Ok (s, Cursor (pre @ opt_seed_wire s @ post) (length pre + length (opt_seed_wire s)))"
    if "opt_seed_fits n present s" "length (pre @ opt_seed_wire s @ post) < usize_bound" for s pre post
    using that seed.dec_wire [of _ n pre post] by (cases s) (simp_all add: opt_seed_decode_def)
qed

section \<open>Messages\<close>

fun public_share_wire :: "prio3_public_share \<Rightarrow> bytes" where
  "public_share_wire p = (case joint_rand_parts p of None \<Rightarrow> [] | Some parts \<Rightarrow> concat parts)"

definition public_share_fits :: "('m, 'r, 'f, 'x, 's) prio3 \<Rightarrow> prio3_public_share \<Rightarrow> bool" where
  "public_share_fits V p \<longleftrightarrow>
     (case joint_rand_parts p of
        None \<Rightarrow> joint_rand_len (prio3_typ V) = 0
      | Some parts \<Rightarrow> 0 < joint_rand_len (prio3_typ V) \<and> length parts = num_aggregators V \<and>
          (\<forall>s \<in> set parts. length s = SEED_SIZE (prio3_xof V)))"

interpretation public_share: codec prio3_public_share_encode "prio3_public_share_decode V" "public_share_fits V" public_share_wire for V
proof unfold_locales
  show "prio3_public_share_encode p bs = Ok (bs @ public_share_wire p)" if "public_share_fits V p" for p bs
    using that seed.for_each_enc [of _ "SEED_SIZE (prio3_xof V)" bs]
    by (auto simp: prio3_public_share_encode_def public_share_fits_def split: option.splits)
  show "prio3_public_share_decode V (Cursor (pre @ public_share_wire p @ post) (length pre)) =
      Ok (p, Cursor (pre @ public_share_wire p @ post) (length pre + length (public_share_wire p)))"
    if "public_share_fits V p" "length (pre @ public_share_wire p @ post) < usize_bound" for p pre post
  proof (cases "joint_rand_parts p")
    case None
    with that(1) show ?thesis by (cases p) (simp add: prio3_public_share_decode_def public_share_fits_def)
  next
    case (Some parts)
    with that seed.decode_count_wire [of parts "SEED_SIZE (prio3_xof V)" pre post] show ?thesis
      by (cases p) (simp add: prio3_public_share_decode_def public_share_fits_def)
  qed
qed

definition input_share_wire :: "'f field_element \<Rightarrow> 'f prio3_input_share \<Rightarrow> bytes" where
  "input_share_wire F s = share_wire F (measurement_share s) @ share_wire F (proofs_share s) @ opt_seed_wire (joint_rand_blind s)"

definition input_share_fits :: "('m, 'r, 'f, 'x, 's) prio3 \<Rightarrow> nat \<Rightarrow> 'f prio3_input_share \<Rightarrow> bool" where
  "input_share_fits V i s \<longleftrightarrow> i < num_aggregators V \<and>
     share_fits (SEED_SIZE (prio3_xof V)) (if i = 0 then LeaderParameter (input_len (prio3_typ V)) else HelperParameter) (measurement_share s) \<and>
     share_fits (SEED_SIZE (prio3_xof V)) (if i = 0 then LeaderParameter (proof_len (prio3_typ V) * num_proofs V) else HelperParameter) (proofs_share s) \<and>
     opt_seed_fits (SEED_SIZE (prio3_xof V)) (0 < joint_rand_len (prio3_typ V)) (joint_rand_blind s)"

definition prepare_share_wire :: "'f field_element \<Rightarrow> 'f prio3_prepare_share \<Rightarrow> bytes" where
  "prepare_share_wire F s = concat (map (to_bytes F) (verifiers s)) @ opt_seed_wire (joint_rand_part s)"

definition prepare_share_fits :: "nat \<Rightarrow> 'f prio3_prepare_state \<Rightarrow> 'f prio3_prepare_share \<Rightarrow> bool" where
  "prepare_share_fits n st s \<longleftrightarrow> length (verifiers s) = verifiers_len st \<and> opt_seed_fits n (state_joint_rand_seed st \<noteq> None) (joint_rand_part s)"

interpretation prepare_message: codec prepare_message_encode "prepare_message_decode n st"
  "\<lambda>m. opt_seed_fits n (state_joint_rand_seed st \<noteq> None) (message_joint_rand_seed m)" "\<lambda>m. opt_seed_wire (message_joint_rand_seed m)" for n st
proof unfold_locales
  show "prepare_message_encode m bs = Ok (bs @ opt_seed_wire (message_joint_rand_seed m))"
    if "opt_seed_fits n (state_joint_rand_seed st \<noteq> None) (message_joint_rand_seed m)" for m bs
    using that by (simp add: prepare_message_encode_def opt_seed.enc_wire)
  show "prepare_message_decode n st (Cursor (pre @ opt_seed_wire (message_joint_rand_seed m) @ post) (length pre)) =
      Ok (m, Cursor (pre @ opt_seed_wire (message_joint_rand_seed m) @ post) (length pre + length (opt_seed_wire (message_joint_rand_seed m))))"
    if "opt_seed_fits n (state_joint_rand_seed st \<noteq> None) (message_joint_rand_seed m)"
      "length (pre @ opt_seed_wire (message_joint_rand_seed m) @ post) < usize_bound" for m pre post
    using opt_seed.dec_wire [OF that] by (simp add: prepare_message_decode_def)
qed

definition prepare_state_wire :: "'f field_element \<Rightarrow> 'f prio3_prepare_state \<Rightarrow> bytes" where
  "prepare_state_wire F st = share_wire F (state_measurement_share st) @ opt_seed_wire (state_joint_rand_seed st)"

definition prepare_state_fits :: "('m, 'r, 'f, 'x, 's) prio3 \<Rightarrow> nat \<Rightarrow> 'f prio3_prepare_state \<Rightarrow> bool" where
  "prepare_state_fits V i st \<longleftrightarrow> i < num_aggregators V \<and> state_agg_id st = of_nat i \<and>
     verifiers_len st = verifier_len (prio3_typ V) * num_proofs V \<and>
     share_fits (SEED_SIZE (prio3_xof V)) (if i = 0 then LeaderParameter (input_len (prio3_typ V)) else HelperParameter) (state_measurement_share st) \<and>
     opt_seed_fits (SEED_SIZE (prio3_xof V)) (0 < joint_rand_len (prio3_typ V)) (state_joint_rand_seed st)"

lemma role_of: "i < num_aggregators V \<Longrightarrow> role_try_from V i = Ok (of_nat i)" "i < num_aggregators V \<Longrightarrow> (of_nat i :: byte) = 0 \<longleftrightarrow> i = 0"
  using num_aggregators_byte [of i V] by (auto simp: role_try_from_def)

context prime_field
begin

lemma input_share_enc_wire:
  assumes "input_share_fits V i s"
  shows "input_share_encode F s bs = Ok (bs @ input_share_wire F s)"
proof -
  let ?n = "SEED_SIZE (prio3_xof V)"
  from assms obtain par par' where f: "share_fits ?n par (measurement_share s)" "share_fits ?n par' (proofs_share s)"
    "opt_seed_fits ?n (0 < joint_rand_len (prio3_typ V)) (joint_rand_blind s)" by (auto simp: input_share_fits_def)
  have "input_share_encode F s bs = and_then (share_encode F (measurement_share s) bs) (\<lambda>bs.
      and_then (share_encode F (proofs_share s) bs) (opt_seed_encode (joint_rand_blind s)))"
    using assms by (cases "measurement_share s"; cases "proofs_share s"; cases "i = 0") (auto simp: input_share_fits_def input_share_encode_def)
  then show ?thesis using f by (simp add: share.enc_wire opt_seed.enc_wire input_share_wire_def)
qed

lemma input_share_dec_wire:
  assumes V: "prio3_field V = F" and fits: "input_share_fits V i s" and len: "length (pre @ input_share_wire F s @ post) < usize_bound"
  shows "input_share_decode V i (Cursor (pre @ input_share_wire F s @ post) (length pre)) =
    Ok (s, Cursor (pre @ input_share_wire F s @ post) (length pre + length (input_share_wire F s)))"
proof -
  let ?m = "share_wire F (measurement_share s)" and ?p = "share_wire F (proofs_share s)" and ?b = "opt_seed_wire (joint_rand_blind s)"
  from fits have f: "i < num_aggregators V"
    "share_fits (SEED_SIZE (prio3_xof V)) (if i = 0 then LeaderParameter (input_len (prio3_typ V)) else HelperParameter) (measurement_share s)"
    "share_fits (SEED_SIZE (prio3_xof V)) (if i = 0 then LeaderParameter (proof_len (prio3_typ V) * num_proofs V) else HelperParameter) (proofs_share s)"
    "opt_seed_fits (SEED_SIZE (prio3_xof V)) (0 < joint_rand_len (prio3_typ V)) (joint_rand_blind s)"
    by (auto simp: input_share_fits_def)
  show ?thesis
    using len V share.dec_wire [OF f(2), of pre "?p @ ?b @ post"] share.dec_wire [OF f(3), of "pre @ ?m" "?b @ post"]
      opt_seed.dec_wire [OF f(4), of "pre @ ?m @ ?p" post] role_of [OF f(1)]
    by (cases "i = 0") (simp_all add: input_share_decode_def input_share_wire_def add.assoc del: share_decode.simps)
qed

lemma prepare_share_dec_wire:
  assumes fits: "prepare_share_fits n st s" and len: "length (pre @ prepare_share_wire F s @ post) < usize_bound"
  shows "prepare_share_decode n F st (Cursor (pre @ prepare_share_wire F s @ post) (length pre)) =
    Ok (s, Cursor (pre @ prepare_share_wire F s @ post) (length pre + length (prepare_share_wire F s)))"
proof -
  let ?v = "concat (map (to_bytes F) (verifiers s))" and ?b = "opt_seed_wire (joint_rand_part s)"
  from fits have f: "length (verifiers s) = verifiers_len st" "opt_seed_fits n (state_joint_rand_seed st \<noteq> None) (joint_rand_part s)"
    by (auto simp: prepare_share_fits_def)
  show ?thesis
    using len f(1) decode_count_wire [of "verifiers s" pre "?b @ post"] opt_seed.dec_wire [OF f(2), of "pre @ ?v" post]
    by (simp add: prepare_share_decode_def prepare_share_wire_def add.assoc)
qed

lemma prepare_state_dec_wire:
  assumes V: "prio3_field V = F" and fits: "prepare_state_fits V i st" and len: "length (pre @ prepare_state_wire F st @ post) < usize_bound"
  shows "prepare_state_decode V i (Cursor (pre @ prepare_state_wire F st @ post) (length pre)) =
    Ok (st, Cursor (pre @ prepare_state_wire F st @ post) (length pre + length (prepare_state_wire F st)))"
proof -
  let ?m = "share_wire F (state_measurement_share st)" and ?b = "opt_seed_wire (state_joint_rand_seed st)"
  from fits have f: "i < num_aggregators V"
    "share_fits (SEED_SIZE (prio3_xof V)) (if i = 0 then LeaderParameter (input_len (prio3_typ V)) else HelperParameter) (state_measurement_share st)"
    "opt_seed_fits (SEED_SIZE (prio3_xof V)) (0 < joint_rand_len (prio3_typ V)) (state_joint_rand_seed st)"
    "state_agg_id st = of_nat i" "verifiers_len st = verifier_len (prio3_typ V) * num_proofs V"
    by (auto simp: prepare_state_fits_def)
  show ?thesis
    using len V f(4,5) share.dec_wire [OF f(2), of pre "?b @ post"] opt_seed.dec_wire [OF f(3), of "pre @ ?m" post] role_of [OF f(1)]
    by (cases "i = 0") (simp_all add: prepare_state_decode_def prepare_state_wire_def add.assoc del: share_decode.simps)
qed

end

sublocale prime_field \<subseteq> prepare_share: codec "prepare_share_encode F" "prepare_share_decode n F st" "prepare_share_fits n st" "prepare_share_wire F" for n st
proof (unfold_locales, goal_cases)
  case (1 s bs)
  then show ?case by (auto simp: prepare_share_encode_def prepare_share_wire_def prepare_share_fits_def for_each_enc opt_seed.enc_wire)
qed (rule prepare_share_dec_wire)

end
