(* ===== verification/VdafRun.thy ===== *)
theory VdafRun
  imports Vdaf
begin

text \<open>
  The end-to-end execution of a VDAF in \<open>test_utils\<close> of \<^verbatim>\<open>src/vdaf.rs\<close>: every message is encoded by its sender and decoded
  by its receiver.  The traits \<open>Vdaf\<close>, \<open>Client\<close> and \<open>Collector\<close> extend the dictionary of the aggregator.  Messages are
  decoded before they are combined.
\<close>

record ('ap, 'pub, 'inp, 'st, 'sh, 'msg, 'out, 'agg, 'res) vdaf = "('ap, 'pub, 'inp, 'st, 'sh, 'msg, 'out) aggregator" +
  vdaf_num_aggregators :: nat
  pub_encode :: "'pub encoder"
  pub_decode :: "'pub decoder"
  inp_encode :: "'inp encoder"
  inp_decode :: "nat \<Rightarrow> 'inp decoder"
  out_encode :: "'out encoder"
  out_decode :: "'ap \<Rightarrow> 'out decoder"
  agg_encode :: "'agg encoder"
  agg_decode :: "'ap \<Rightarrow> 'agg decoder"
  agg_from :: "'out \<Rightarrow> 'agg"
  agg_merge :: "'agg \<Rightarrow> 'agg \<Rightarrow> ('agg, vdaf_error) outcome"
  unshard :: "'ap \<Rightarrow> 'agg list \<Rightarrow> nat \<Rightarrow> ('res, vdaf_error) outcome"

text \<open>\<open>unwrap\<close> and \<open>expect\<close> panic on an error.\<close>

fun unwrap :: "('a, 'd) outcome \<Rightarrow> ('a, 'e) outcome" where
  "unwrap (Ok x) = Ok x"
| "unwrap (Err e) = Panic"
| "unwrap Panic = Panic"
| "unwrap Diverge = Diverge"

lemma unwrap_eq_Ok_iff [simp]: "unwrap m = Ok x \<longleftrightarrow> m = Ok x"
  by (cases m) simp_all

section \<open>Preparation of a report\<close>

definition combine_messages ::
  "('ap, 'pub, 'inp, 'st, 'sh, 'msg, 'out, 'agg, 'res) vdaf \<Rightarrow> 'ap \<Rightarrow> 'st list \<Rightarrow> bytes list \<Rightarrow> (bytes, vdaf_error) outcome" where
  "combine_messages V ap states outbound =
     and_then (for_each (\<lambda>encoded shares.
         if states = [] then Panic
         else and_then (unwrap (get_decoded_with_param (prep_share_decode V (states ! 0)) encoded)) (\<lambda>share.
           Ok (shares @ [share]))) outbound []) (\<lambda>shares.
     and_then (prepare_shares_to_prepare_message V ap shares) (\<lambda>msg.
       unwrap (get_encoded_with_param (prep_msg_encode V) msg)))"

text \<open>One pass of the loop: the new states, the messages sent and the outputs.\<close>

definition prepare_round ::
  "('ap, 'pub, 'inp, 'st, 'sh, 'msg, 'out, 'agg, 'res) vdaf \<Rightarrow> bytes \<Rightarrow> 'st list \<Rightarrow> 'out list \<Rightarrow>
   ('st list \<times> bytes list \<times> 'out list, vdaf_error) outcome" where
  "prepare_round V inbound states out_shares =
     for_each (\<lambda>state (states, outbound, out_shares).
       and_then (unwrap (get_decoded_with_param (prep_msg_decode V state) inbound)) (\<lambda>msg.
       and_then (prepare_next V state msg) (\<lambda>transition.
       case transition of
         Continue new_state share \<Rightarrow>
           and_then (unwrap (get_encoded_with_param (prep_share_encode V) share)) (\<lambda>encoded.
             Ok (states @ [new_state], outbound @ [encoded], out_shares))
       | Finish out_share \<Rightarrow> Ok (states @ [state], outbound, out_shares @ [out_share]))))
       states ([], [], out_shares)"

partial_function (option) prepare_rounds ::
  "('ap, 'pub, 'inp, 'st, 'sh, 'msg, 'out, 'agg, 'res) vdaf \<Rightarrow> 'ap \<Rightarrow> bytes \<Rightarrow> 'st list \<Rightarrow> 'out list \<Rightarrow>
   ('out list, vdaf_error) outcome option" where
  "prepare_rounds V ap inbound states out_shares =
     (case prepare_round V inbound states out_shares of
        Ok r \<Rightarrow>
          (if length (fst (snd r)) = vdaf_num_aggregators V
           then (case combine_messages V ap (fst r) (fst (snd r)) of
                   Ok inbound \<Rightarrow> prepare_rounds V ap inbound (fst r) (snd (snd r))
                 | Err e \<Rightarrow> Some (Err e)
                 | Panic \<Rightarrow> Some Panic
                 | Diverge \<Rightarrow> Some Diverge)
           else if fst (snd r) = [] then Some (Ok (snd (snd r)))
           else Some Panic)
      | Err e \<Rightarrow> Some (Err e)
      | Panic \<Rightarrow> Some Panic
      | Diverge \<Rightarrow> Some Diverge)"

definition run_vdaf_prepare ::
  "('ap, 'pub, 'inp, 'st, 'sh, 'msg, 'out, 'agg, 'res) vdaf \<Rightarrow> bytes \<Rightarrow> 'ap \<Rightarrow> bytes \<Rightarrow> 'pub \<Rightarrow> 'inp list \<Rightarrow>
   ('out list, vdaf_error) outcome" where
  "run_vdaf_prepare V verify_key ap nonce public_share input_shares =
     and_then (unwrap (get_encoded_with_param (pub_encode V) public_share)) (\<lambda>encoded.
     and_then (unwrap (get_decoded_with_param (pub_decode V) encoded)) (\<lambda>public_share.
     and_then (for_each (\<lambda>(agg_id, input_share) (states, outbound).
         and_then (unwrap (get_encoded_with_param (inp_encode V) input_share)) (\<lambda>encoded.
         and_then (unwrap (get_decoded_with_param (inp_decode V agg_id) encoded)) (\<lambda>input_share.
         and_then (prepare_init V verify_key agg_id ap nonce public_share input_share) (\<lambda>(state, msg).
         and_then (unwrap (get_encoded_with_param (prep_share_encode V) msg)) (\<lambda>encoded.
           Ok (states @ [state], outbound @ [encoded]))))))
       (enumerate 0 input_shares) ([], [])) (\<lambda>(states, outbound).
     and_then (combine_messages V ap states outbound) (\<lambda>inbound.
       returned (prepare_rounds V ap inbound states [])))))"

section \<open>Aggregation of reports\<close>

text \<open>Encoding, decoding and encoding again must give the same bytes.\<close>

definition assert_round_trip :: "'a encoder \<Rightarrow> 'a decoder \<Rightarrow> 'a \<Rightarrow> (unit, vdaf_error) outcome" where
  "assert_round_trip enc dec x =
     and_then (unwrap (get_encoded_with_param enc x)) (\<lambda>encoded.
     and_then (unwrap (get_decoded_with_param dec encoded)) (\<lambda>y.
     and_then (unwrap (get_encoded_with_param enc y)) (\<lambda>encoded'.
       if encoded' = encoded then Ok () else Panic)))"

definition add_out_shares ::
  "('ap, 'pub, 'inp, 'st, 'sh, 'msg, 'out, 'agg, 'res) vdaf \<Rightarrow> 'ap \<Rightarrow> 'out list \<Rightarrow> 'agg option list \<Rightarrow>
   ('agg option list, vdaf_error) outcome" where
  "add_out_shares V ap out_shares agg_shares =
     and_then (for_each (\<lambda>(out_share, agg_share) done_shares.
         and_then (assert_round_trip (out_encode V) (out_decode V ap) out_share) (\<lambda>_.
         and_then
           (case agg_share of
              Some agg \<Rightarrow> agg_merge V agg (agg_from V out_share)
            | None \<Rightarrow> Ok (agg_from V out_share)) (\<lambda>agg. Ok (done_shares @ [Some agg]))))
       (zip out_shares agg_shares) []) (\<lambda>done_shares. Ok (done_shares @ drop (length out_shares) agg_shares))"

definition run_vdaf_sharded ::
  "('ap, 'pub, 'inp, 'st, 'sh, 'msg, 'out, 'agg, 'res) vdaf \<Rightarrow> bytes \<Rightarrow> 'ap \<Rightarrow> ('pub \<times> bytes \<times> 'inp list) list \<Rightarrow>
   ('res, vdaf_error) outcome" where
  "run_vdaf_sharded V verify_key ap sharded_measurements =
     and_then (for_each (\<lambda>(public_share, nonce, input_shares) (agg_shares, num_measurements).
         and_then (run_vdaf_prepare V verify_key ap nonce public_share input_shares) (\<lambda>out_shares.
         and_then (add_out_shares V ap out_shares agg_shares) (\<lambda>agg_shares.
           Ok (agg_shares, num_measurements + 1))))
       sharded_measurements (replicate (vdaf_num_aggregators V) None, 0)) (\<lambda>(agg_shares, num_measurements).
     and_then (for_each (\<lambda>agg_share aggs.
         case agg_share of
           None \<Rightarrow> Panic
         | Some agg \<Rightarrow> and_then (assert_round_trip (agg_encode V) (agg_decode V ap) agg) (\<lambda>_. Ok (aggs @ [agg])))
       agg_shares []) (\<lambda>aggs.
       unshard V ap aggs num_measurements))"

text \<open>The client's \<open>shard\<close>, with its own randomness, and the nonces are arguments.\<close>

definition run_vdaf ::
  "('m \<Rightarrow> bytes \<Rightarrow> ('pub \<times> 'inp list, vdaf_error) outcome) \<Rightarrow> ('ap, 'pub, 'inp, 'st, 'sh, 'msg, 'out, 'agg, 'res) vdaf \<Rightarrow>
   bytes \<Rightarrow> 'ap \<Rightarrow> ('m \<times> bytes) list \<Rightarrow> ('res, vdaf_error) outcome" where
  "run_vdaf shard V verify_key ap measurements =
     and_then (for_each (\<lambda>(measurement, nonce) sharded_measurements.
         and_then (shard measurement nonce) (\<lambda>(public_share, input_shares).
           Ok (sharded_measurements @ [(public_share, nonce, input_shares)]))) measurements [])
       (run_vdaf_sharded V verify_key ap)"

section \<open>Executions of one round\<close>

lemma assert_round_trip_Ok:
  "and_then (get_encoded_with_param enc x) (get_decoded_with_param dec) = Ok x \<Longrightarrow> assert_round_trip enc dec x = Ok ()"
  by (auto simp: assert_round_trip_def)

lemma for_each_collect_pure:
  assumes "\<And>x. x \<in> set xs \<Longrightarrow> f x = Ok (h x)"
  shows "for_each (\<lambda>x acc. and_then (f x) (\<lambda>y. Ok (acc @ [y]))) xs acc = Ok (acc @ map h xs)"
  using assms by (induction xs arbitrary: acc) auto

text \<open>Preparation in which the messages survive their encodings and everyone finishes at once.\<close>

lemma run_one_round:
  assumes n: "vdaf_num_aggregators V = length inps" "inps \<noteq> []"
    and pub: "and_then (get_encoded_with_param (pub_encode V) pub) (get_decoded_with_param (pub_decode V)) = Ok pub"
    and inp: "\<And>i. i < length inps \<Longrightarrow>
      and_then (get_encoded_with_param (inp_encode V) (inps ! i)) (get_decoded_with_param (inp_decode V i)) = Ok (inps ! i)"
    and init: "\<And>i. i < length inps \<Longrightarrow> prepare_init V vk i ap nonce pub (inps ! i) = Ok (st i, sh i)"
    and sh: "\<And>i. i < length inps \<Longrightarrow>
      and_then (get_encoded_with_param (prep_share_encode V) (sh i)) (get_decoded_with_param (prep_share_decode V (st 0))) = Ok (sh i)"
    and m: "prepare_shares_to_prepare_message V ap (map sh [0..<length inps]) = Ok msg"
    and msg: "\<And>i. i < length inps \<Longrightarrow>
      and_then (get_encoded_with_param (prep_msg_encode V) msg) (get_decoded_with_param (prep_msg_decode V (st i))) = Ok msg"
    and fin: "\<And>i. i < length inps \<Longrightarrow> prepare_next V (st i) msg = Ok (Finish (out i))"
  shows "run_vdaf_prepare V vk ap nonce pub inps = Ok (map out [0..<length inps])"
proof -
  let ?k = "length inps"
  obtain e where e: "\<And>i. i < ?k \<Longrightarrow> get_encoded_with_param (prep_share_encode V) (sh i) = Ok (e i) \<and>
      get_decoded_with_param (prep_share_decode V (st 0)) (e i) = Ok (sh i)"
  proof -
    have "\<exists>e. \<forall>i. i < ?k \<longrightarrow> get_encoded_with_param (prep_share_encode V) (sh i) = Ok (e i) \<and>
      get_decoded_with_param (prep_share_decode V (st 0)) (e i) = Ok (sh i)"
      by (intro choice allI) (use sh in fastforce)
    with that show thesis by blast
  qed
  obtain me where me: "get_encoded_with_param (prep_msg_encode V) msg = Ok me" using msg [of 0] n(2) by auto
  have me2: "get_decoded_with_param (prep_msg_decode V (st i)) me = Ok msg" if "i < ?k" for i using msg [OF that] me by simp
  let ?init = "\<lambda>(agg_id, input_share) (states, outbound).
         and_then (unwrap (get_encoded_with_param (inp_encode V) input_share)) (\<lambda>encoded.
         and_then (unwrap (get_decoded_with_param (inp_decode V agg_id) encoded)) (\<lambda>input_share.
         and_then (prepare_init V vk agg_id ap nonce pub input_share) (\<lambda>(state, msg).
         and_then (unwrap (get_encoded_with_param (prep_share_encode V) msg)) (\<lambda>encoded.
           Ok (states @ [state], outbound @ [encoded])))))"
  have inits: "for_each ?init (enumerate 0 (take j inps)) ([], []) = Ok (map st [0..<j], map e [0..<j])" if "j \<le> ?k" for j
    using that
  proof (induction j)
    case (Suc j)
    then have j: "j < ?k" by simp
    from Suc inp [OF j] init [OF j] e [OF j] show ?case
      by (auto simp: take_Suc_conv_app_nth enumerate_append_eq for_each_snoc)
  qed simp
  have comb: "combine_messages V ap (map st [0..<?k]) (map e [0..<?k]) = Ok me"
  proof -
    have "for_each (\<lambda>encoded shares.
         if map st [0..<?k] = [] then Panic
         else and_then (unwrap (get_decoded_with_param (prep_share_decode V (map st [0..<?k] ! 0)) encoded)) (\<lambda>share.
           Ok (shares @ [share]))) (map e [0..<j]) [] = (Ok (map sh [0..<j]) :: (_, vdaf_error) outcome)" if "j \<le> ?k" for j
      using that n(2) e by (induction j) (auto simp: for_each_snoc)
    from this [of ?k] m me show ?thesis by (simp add: combine_messages_def)
  qed
  have "prepare_round V me (map st [0..<j]) [] = Ok (map st [0..<j], [], map out [0..<j])" if "j \<le> ?k" for j
    using that me2 fin by (induction j) (auto simp: prepare_round_def for_each_snoc)
  from this [of ?k] have "prepare_rounds V ap me (map st [0..<?k]) [] = Some (Ok (map out [0..<?k]))"
    using n by (subst prepare_rounds.simps) simp
  with inits [of ?k] comb pub show ?thesis by (auto simp: run_vdaf_prepare_def)
qed

text \<open>The aggregate shares after the outputs of all reports have been added.\<close>

lemma add_out_shares_Ok:
  assumes "length outs = length aggs"
    and "\<And>i. i < length outs \<Longrightarrow> assert_round_trip (out_encode V) (out_decode V ap) (outs ! i) = Ok ()"
    and "\<And>i. i < length outs \<Longrightarrow>
      (case aggs ! i of Some agg \<Rightarrow> agg_merge V agg (agg_from V (outs ! i)) | None \<Rightarrow> Ok (agg_from V (outs ! i))) = Ok (new i)"
  shows "add_out_shares V ap outs aggs = Ok (map (\<lambda>i. Some (new i)) [0..<length outs])"
proof -
  have "for_each (\<lambda>(out_share, agg_share) done_shares.
         and_then (assert_round_trip (out_encode V) (out_decode V ap) out_share) (\<lambda>_.
         and_then
           (case agg_share of
              Some agg \<Rightarrow> agg_merge V agg (agg_from V out_share)
            | None \<Rightarrow> Ok (agg_from V out_share)) (\<lambda>agg. Ok (done_shares @ [Some agg]))))
       (take j (zip outs aggs)) [] = Ok (map (\<lambda>i. Some (new i)) [0..<j])" if "j \<le> length outs" for j
    using that assms by (induction j) (simp_all add: take_Suc_conv_app_nth for_each_snoc)
  from this [of "length outs"] assms(1) show ?thesis by (simp add: add_out_shares_def)
qed

end
