(* ===== verification/Aggregation.thy ===== *)
theory Aggregation
  imports Prio3Wire VdafRun
begin

text \<open>
  Types whose truncation is linear, so that truncated shares can be added up: all of \<^verbatim>\<open>src/flp/types.rs\<close>.
\<close>

locale aggregating_circuit = verifiable_circuit F T g wires outcome_of
  for F :: "'f::field field_element" and T :: "('m, 'r, 'f) flp_type" and g wires outcome_of +
  fixes trunc :: "'f list \<Rightarrow> 'f list"
  assumes truncate: "length x = input_len T \<Longrightarrow> truncate_input T x = Ok (trunc x)"
    and length_trunc: "length x = input_len T \<Longrightarrow> length (trunc x) = output_len T"
    and trunc_sum: "\<forall>x \<in> set xs. length x = input_len T \<Longrightarrow>
      trunc (vector_sum (input_len T) xs) = vector_sum (output_len T) (map trunc xs)"

lemma horner_vector_sum:
  "\<forall>v \<in> set vs. length v = n \<Longrightarrow> horner_sum id 2 (vector_sum n vs) = (\<Sum>v\<leftarrow>vs. horner_sum id (2 :: 'f::field) v)"
proof (induction vs)
  case Nil
  have "horner_sum id (2 :: 'f) (replicate n 0) = 0" by (induction n) simp_all
  then show ?case by (simp add: vector_sum_def id_def)
next
  case (Cons v vs)
  have "horner_sum id (2 :: 'f) (map2 (+) a b) = horner_sum id 2 a + horner_sum id 2 b" if "length a = length b" for a b
    using that by (induction a b rule: list_induct2) (simp_all add: algebra_simps)
  from this [of v "vector_sum n vs"] Cons show ?case by (simp add: vector_sum_Cons id_def)
qed

lemma chunks_slices:
  "length xs = k * n \<Longrightarrow> 0 < n \<Longrightarrow> chunks n xs = map (\<lambda>i. slice xs (i * n) ((i + 1) * n)) [0..<k]"
proof (induction k arbitrary: xs)
  case (Suc k)
  have "chunks n xs = take n xs # map (\<lambda>i. slice (drop n xs) (i * n) ((i + 1) * n)) [0..<k]"
    using Suc by (subst chunks_step) auto
  also have "\<dots> = map (\<lambda>i. slice xs (i * n) ((i + 1) * n)) (0 # map Suc [0..<k])"
    by (simp add: slice_def add.commute)
  finally show ?case by (simp only: map_Suc_upt upt_conv_Cons [symmetric] zero_less_Suc)
qed simp

sublocale large_field \<subseteq> count: aggregating_circuit F "Count F" count_gadget count_wires count_outcome "\<lambda>x. x"
  by unfold_locales (simp_all add: Count_def)

locale sum_aggregating = sum_circuit F bits decode for F :: "'f::field field_element" and bits decode +
  assumes narrow: "bits < INTEGER_BITS F"

sublocale sum_aggregating \<subseteq> sum: aggregating_circuit F sum_T "sum_gadget bits" sum_wires sum_outcome "\<lambda>x. [horner_sum id 2 x]"
proof unfold_locales
  show "[horner_sum id 2 (vector_sum (input_len sum_T) xs)] = vector_sum (output_len sum_T) (map (\<lambda>x. [horner_sum id 2 x]) xs)"
    if "\<forall>x \<in> set xs. length x = input_len sum_T" for xs :: "'f list list"
    using horner_vector_sum [OF that] vector_sum_singletons [of "horner_sum id 2" xs] by (simp add: sum_type_def)
qed (use narrow in \<open>simp_all add: sum_type_def decode_bitvector_horner\<close>)

sublocale histogram_verifiable \<subseteq> histogram: aggregating_circuit F histogram_T "range_gadget gc cl" "range_wires gc cl" histogram_outcome "\<lambda>x. x"
  by unfold_locales (simp_all add: Histogram_def)

locale sumvec_aggregating = sumvec_verifiable F bits len cl for F :: "'f::field field_element" and bits len cl +
  assumes narrow: "0 < bits" "bits < INTEGER_BITS F"
begin

abbreviation entries :: "'f list \<Rightarrow> 'f list" where
  "entries x \<equiv> map (\<lambda>i. horner_sum id 2 (slice x (i * bits) ((i + 1) * bits))) [0..<len]"

lemma sumvec_truncate:
  assumes "length x = bits * len"
  shows "truncate_input sumvec_T x = Ok (entries x)"
proof -
  let ?c = "map (\<lambda>i. slice x (i * bits) ((i + 1) * bits)) [0..<len]"
  have c: "chunks bits x = ?c" using chunks_slices [of x len bits] assms narrow(1) by (simp add: mult.commute)
  have le: "(i + 1) * bits \<le> bits * len" if "i < len" for i using that by (metis Suc_eq_plus1 Suc_leI mult.commute mult_le_mono1)
  have "map_err FieldErr (decode_bitvector F c) = Ok (horner_sum id 2 c)" if "c \<in> set ?c" for c
    using that assms narrow(2) le by (auto simp: decode_bitvector_horner)
  from for_each_collect_pure [of ?c _ "horner_sum id 2" "[]", OF this] c assms show ?thesis by (simp add: SumVec_def comp_def)
qed

end

sublocale sumvec_aggregating \<subseteq> sumvec: aggregating_circuit F sumvec_T "range_gadget gc cl" "range_wires gc cl" sumvec_outcome entries
proof unfold_locales
  show "truncate_input sumvec_T x = Ok (entries x)" if "length x = input_len sumvec_T" for x :: "'f list"
    using that by (intro sumvec_truncate) (simp add: SumVec_def)
  show "length (entries x) = output_len sumvec_T" if "length x = input_len sumvec_T" for x :: "'f list"
    by (simp add: SumVec_def)
  show "entries (vector_sum (input_len sumvec_T) xs) = vector_sum (output_len sumvec_T) (map entries xs)"
    if "\<forall>x \<in> set xs. length x = input_len sumvec_T" for xs :: "'f list list"
  proof (intro nth_equalityI)
    have xs: "\<forall>x \<in> set xs. length x = bits * len" using that by (simp add: SumVec_def)
    show "length (entries (vector_sum (input_len sumvec_T) xs)) = length (vector_sum (output_len sumvec_T) (map entries xs))"
      by (subst length_vector_sum) (auto simp: SumVec_def)
    fix i
    assume "i < length (entries (vector_sum (input_len sumvec_T) xs))"
    then have i: "i < len" by simp
    have le: "(i + 1) * bits \<le> bits * len" using i by (metis Suc_eq_plus1 Suc_leI mult.commute mult_le_mono1)
    have "vector_sum len (map entries xs) ! i = (\<Sum>x\<leftarrow>xs. entries x ! i)"
      using i by (subst vector_sum_nth) (auto simp: comp_def)
    moreover have "slice (vector_sum (bits * len) xs) (i * bits) ((i + 1) * bits) = vector_sum bits (map (\<lambda>x. slice x (i * bits) ((i + 1) * bits)) xs)"
      using slice_vector_sum [OF xs _ le, of "i * bits"] by simp
    moreover have "\<forall>v \<in> set (map (\<lambda>x. slice x (i * bits) ((i + 1) * bits)) xs). length v = bits" using xs le by auto
    note horner_vector_sum [OF this]
    ultimately show "entries (vector_sum (input_len sumvec_T) xs) ! i = vector_sum (output_len sumvec_T) (map entries xs) ! i"
      using i by (simp add: SumVec_def comp_def)
  qed
qed

end
