(* ===== verification/Prio3Run.thy ===== *)
theory Prio3Run
  imports Aggregation
begin

text \<open>
  Complete executions of Prio3: every message that honest parties exchange survives its encoding, the aggregators obtain
  shares of the measurement, and the collector obtains the aggregate of the measurements.
\<close>

section \<open>Lengths of seeds\<close>

text \<open>What Prio3 relies on in an extendable-output function: a read returns as many bytes as asked for.\<close>

locale fixed_length_xof =
  fixes P :: "('x, 's, 'e) xof"
  assumes length_fill: "fill_bytes P n s = Ok (bs, s') \<Longrightarrow> length bs = n"
begin

lemma length_into_seed: "into_seed P x = Ok s \<Longrightarrow> length s = SEED_SIZE P"
  by (auto simp: into_seed_def dest: length_fill)

end

interpretation turboshake_xof: fixed_length_xof "XofTurboShake128 prim" for prim
  by unfold_locales (auto simp: XofTurboShake128_def SeedStreamTurboShake128_fill_bytes_def reader_read_def)

lemma for_each_invariant:
  "for_each f xs s = Ok s' \<Longrightarrow> P s \<Longrightarrow> (\<And>x s s'. x \<in> set xs \<Longrightarrow> P s \<Longrightarrow> f x s = Ok s' \<Longrightarrow> P s') \<Longrightarrow> P s'"
proof (induction xs arbitrary: s)
  case (Cons x xs)
  then obtain t where "f x s = Ok t" "for_each f xs t = Ok s'" by auto
  with Cons.IH [of t] Cons.prems show ?case by (meson list.set_intros)
qed simp

definition helper_fits :: "nat \<Rightarrow> bool \<Rightarrow> prio3_helper_share \<Rightarrow> bool" where
  "helper_fits n joint h \<longleftrightarrow> length (helper_measurement_share h) = n \<and> length (helper_proofs_share h) = n \<and>
     opt_seed_fits n joint (helper_joint_rand_blind h)"

fun seeds_fit :: "nat \<Rightarrow> bool \<Rightarrow> 'f shard_state \<Rightarrow> bool" where
  "seeds_fit n joint (rs, l, hs, parts) \<longleftrightarrow> (\<forall>s \<in> set rs. length s = n) \<and> (\<forall>h \<in> set hs. helper_fits n joint h) \<and>
     (case parts of None \<Rightarrow> \<not> joint | Some ps \<Rightarrow> joint \<and> (\<forall>s \<in> set ps. length s = n))"

lemma length_next_seed: "next_seed ss = Ok (s, ss') \<Longrightarrow> \<forall>s \<in> set ss. length s = n \<Longrightarrow> length s = n \<and> (\<forall>s \<in> set ss'. length s = n)"
  by (cases ss) auto

lemma length_joint_rand_part:
  "fixed_length_xof (prio3_xof V) \<Longrightarrow> derive_joint_rand_part V b i nonce x = Ok p \<Longrightarrow> length p = SEED_SIZE (prio3_xof V)"
  by (auto simp: derive_joint_rand_part_def dest: fixed_length_xof.length_into_seed)

lemma shard_helper_seeds:
  assumes "shard_helper V nonce i (rs, l, hs, parts) = Ok st'"
  obtains ms ps rs' where "rs = ms # ps # rs'"
proof (cases rs)
  case Nil
  with assms show thesis by (simp add: shard_helper_def)
next
  case (Cons ms rs1)
  with assms that show thesis by (cases rs1) (simp_all add: shard_helper_def)
qed

lemma shard_helper_fits:
  assumes P: "fixed_length_xof (prio3_xof V)" and step: "shard_helper V nonce i st = Ok st'" and fit: "seeds_fit (SEED_SIZE (prio3_xof V)) joint st"
  shows "seeds_fit (SEED_SIZE (prio3_xof V)) joint st'"
proof -
  obtain rs l hs parts where st: "st = (rs, l, hs, parts)" by (metis prod.exhaust)
  from step obtain ms ps rs2 where rs: "rs = ms # ps # rs2" unfolding st by (rule shard_helper_seeds)
  show ?thesis
  proof (cases parts)
    case None
    with step fit show ?thesis by (auto simp: st rs shard_helper_def from_seeds_def helper_fits_def)
  next
    case (Some pts)
    show ?thesis
    proof (cases rs2)
      case Nil
      with step Some show ?thesis by (simp add: st rs shard_helper_def)
    next
      case (Cons b rs3)
      with step Some obtain share l' p where p: "derive_joint_rand_part V b (of_nat i) nonce share = Ok p"
        "st' = (rs3, l', hs @ [from_seeds ms ps (Some b)], Some (pts @ [p]))"
        by (auto simp: st rs shard_helper_def)
      from length_joint_rand_part [OF P p(1)] fit Some Cons show ?thesis
        by (auto simp: p(2) st rs from_seeds_def helper_fits_def)
    qed
  qed
qed

lemma shard_fits:
  assumes P: "fixed_length_xof (prio3_xof V)" and shard: "shard_with_random V m nonce random = Ok (pub, inps)"
    and h: "honest_report V nonce pub inps x xs ps zs jrs sd"
  shows "public_share_fits V pub" and "i < num_aggregators V \<Longrightarrow> input_share_fits V i (inps ! i)"
    and "opt_seed_fits (SEED_SIZE (prio3_xof V)) (0 < joint_rand_len (prio3_typ V)) sd"
proof -
  let ?n = "SEED_SIZE (prio3_xof V)" and ?joint = "0 < joint_rand_len (prio3_typ V)"
  let ?init = "\<lambda>x. (chunks_exact ?n random, x, [], if ?joint then Some [] else None)"
  from shard obtain x rs l hs hparts lproofs lblind rs' where
    loop: "for_each (shard_helper V nonce) [1..<num_aggregators V] (?init x) = Ok (rs, l, hs, hparts)"
    and inps: "inps = \<lparr>measurement_share = LeaderShare l, proofs_share = LeaderShare lproofs, joint_rand_blind = lblind\<rparr> #
       map (\<lambda>h. \<lparr>measurement_share = HelperShare (helper_measurement_share h), proofs_share = HelperShare (helper_proofs_share h),
         joint_rand_blind = helper_joint_rand_blind h\<rparr>) hs"
    and parts: "case hparts of None \<Rightarrow> lblind = None \<and> joint_rand_parts pub = None
      | Some hp \<Rightarrow> \<exists>b lp. next_seed rs = Ok (b, rs') \<and> lblind = Some b \<and> derive_joint_rand_part V b 0 nonce l = Ok lp \<and>
          joint_rand_parts pub = Some (lp # hp)"
    by (auto simp: shard_with_random_def Let_def split: if_splits option.splits)
  have "seeds_fit ?n ?joint (?init x)" by (simp add: chunks_exact_def)
  then have fit: "seeds_fit ?n ?joint (rs, l, hs, hparts)"
    by (rule for_each_invariant [OF loop]) (rule shard_helper_fits [OF P])
  from h have lens: "0 < num_aggregators V" "length inps = num_aggregators V" "length xs = num_aggregators V" "length zs = num_aggregators V"
    "\<forall>y \<in> set xs. length y = input_len (prio3_typ V)" "\<forall>z \<in> set zs. length z = proof_len (prio3_typ V) * num_proofs V"
    and ex: "expand_measurement_share V (of_nat 0) (measurement_share (inps ! 0)) = Ok (xs ! 0)"
      "expand_proofs_share V (of_nat 0) (proofs_share (inps ! 0)) = Ok (zs ! 0)"
    by (auto simp: honest_report_def Let_def)
  then have l: "length l = input_len (prio3_typ V)" "length lproofs = proof_len (prio3_typ V) * num_proofs V"
    by (auto simp: inps expand_measurement_share_def expand_proofs_share_def)
  have lb: "opt_seed_fits ?n ?joint lblind"
    using parts fit by (auto split: option.splits dest: length_next_seed)
  show "public_share_fits V pub"
    using parts fit lens(2) length_joint_rand_part [OF P]
    by (auto simp: public_share_fits_def inps split: option.splits) (use h in \<open>auto simp: honest_report_def Let_def\<close>)
  show "input_share_fits V i (inps ! i)" if "i < num_aggregators V"
  proof (cases i)
    case 0
    with that l lb show ?thesis by (simp add: input_share_fits_def inps)
  next
    case (Suc j)
    with that lens(2) have j: "j < length hs" by (simp add: inps)
    with fit have "helper_fits ?n ?joint (hs ! j)" by auto
    with Suc that j show ?thesis by (simp add: input_share_fits_def inps helper_fits_def)
  qed
  show "opt_seed_fits ?n ?joint sd"
    using h by (auto simp: honest_report_def Let_def derive_joint_rands_def derive_joint_rand_seed_def
        dest!: fixed_length_xof.length_into_seed [OF P] split: if_splits)
qed

section \<open>Executions\<close>

definition prio3_vdaf ::
  "('m, 'r, 'f::field, 'x, 's) prio3 \<Rightarrow>
   (unit, prio3_public_share, 'f prio3_input_share, 'f prio3_prepare_state, 'f prio3_prepare_share, prio3_prepare_message, 'f list,
     'f list, 'r) vdaf" where
  "prio3_vdaf V = \<lparr>
     prepare_init = prepare_init (prio3_aggregator V),
     prepare_shares_to_prepare_message = prepare_shares_to_prepare_message (prio3_aggregator V),
     prepare_next = prepare_next (prio3_aggregator V),
     prep_share_encode = prep_share_encode (prio3_aggregator V), prep_share_decode = prep_share_decode (prio3_aggregator V),
     prep_msg_encode = prep_msg_encode (prio3_aggregator V), prep_msg_decode = prep_msg_decode (prio3_aggregator V),
     vdaf_num_aggregators = num_aggregators V,
     pub_encode = prio3_public_share_encode, pub_decode = prio3_public_share_decode V,
     inp_encode = input_share_encode (prio3_field V), inp_decode = input_share_decode V,
     out_encode = output_share_encode (prio3_field V), out_decode = (\<lambda>_. prio3_output_share_decode V),
     agg_encode = agg_share_encode (prio3_field V), agg_decode = (\<lambda>_. prio3_aggregate_share_decode V),
     agg_from = (\<lambda>out. out), agg_merge = agg_share_merge, unshard = (\<lambda>_. prio3_unshard V) \<rparr>"

text \<open>A bound on the length of every message.\<close>

definition wire_bound :: "('m, 'r, 'f, 'x, 's) prio3 \<Rightarrow> nat" where
  "wire_bound V = (num_aggregators V + 2) * SEED_SIZE (prio3_xof V) +
     (input_len (prio3_typ V) + (proof_len (prio3_typ V) + verifier_len (prio3_typ V)) * num_proofs V + output_len (prio3_typ V)) *
       ENCODED_SIZE (prio3_field V)"

lemma length_opt_seed_wire: "opt_seed_fits n joint s \<Longrightarrow> length (opt_seed_wire s) \<le> n"
  by (cases s) auto

lemma wire_roundtrip:
  assumes "enc x [] = Ok w" and "dec (Cursor w 0) = Ok (x, Cursor w (length w))"
  shows "and_then (get_encoded_with_param enc x) (get_decoded_with_param dec) = Ok x"
  using assms by (simp add: get_encoded_with_param_def get_decoded_with_param_def)

context prime_field
begin

lemma length_elements: "length (concat (map (to_bytes F) xs)) = length xs * ENCODED_SIZE F"
  by (induction xs) simp_all

lemma length_share_wire: "share_fits n par s \<Longrightarrow> length (share_wire F s) \<le> (case par of LeaderParameter k \<Rightarrow> k * ENCODED_SIZE F | HelperParameter \<Rightarrow> n)"
  by (cases s; cases par) (auto simp: length_elements)

lemma public_share_roundtrip:
  assumes "prio3_field V = F" "wire_bound V < usize_bound" "public_share_fits V p"
  shows "and_then (get_encoded_with_param prio3_public_share_encode p) (get_decoded_with_param (prio3_public_share_decode V)) = Ok p"
proof (rule public_share.get_roundtrip [OF assms(3)])
  have "length (concat parts) = num_aggregators V * SEED_SIZE (prio3_xof V)" if "joint_rand_parts p = Some parts" for parts
    using assms(3) that length_concat_const [of parts "SEED_SIZE (prio3_xof V)"] by (auto simp: public_share_fits_def)
  then show "length (public_share_wire p) < usize_bound"
    using assms(2) by (auto simp: wire_bound_def usize_bound_def add_mult_distrib split: option.splits)
qed

lemma input_share_roundtrip:
  assumes V: "prio3_field V = F" and bound: "wire_bound V < usize_bound" and fits: "input_share_fits V i s"
  shows "and_then (get_encoded_with_param (input_share_encode F) s) (get_decoded_with_param (input_share_decode V i)) = Ok s"
proof (rule wire_roundtrip)
  let ?n = "SEED_SIZE (prio3_xof V)" and ?T = "prio3_typ V"
  from fits have "length (share_wire F (measurement_share s)) \<le> (if i = 0 then input_len ?T * ENCODED_SIZE F else ?n)"
    "length (share_wire F (proofs_share s)) \<le> (if i = 0 then proof_len ?T * num_proofs V * ENCODED_SIZE F else ?n)"
    "length (opt_seed_wire (joint_rand_blind s)) \<le> ?n" "0 < num_aggregators V"
    using length_share_wire [of ?n _ "measurement_share s"] length_share_wire [of ?n _ "proofs_share s"]
    by (fastforce simp: input_share_fits_def length_opt_seed_wire split: if_splits)+
  then have "length (input_share_wire F s) \<le> wire_bound V"
    by (cases "i = 0"; cases "num_aggregators V") (simp_all add: wire_bound_def input_share_wire_def V add_mult_distrib)
  with bound have len: "length ([] @ input_share_wire F s @ []) < usize_bound" by simp
  show "input_share_encode F s [] = Ok (input_share_wire F s)" using input_share_enc_wire [OF fits, of "[]"] by simp
  show "input_share_decode V i (Cursor (input_share_wire F s) 0) = Ok (s, Cursor (input_share_wire F s) (length (input_share_wire F s)))"
    using input_share_dec_wire [OF V fits len] by simp
qed

lemma prepare_share_roundtrip:
  assumes V: "prio3_field V = F" and bound: "wire_bound V < usize_bound" and fits: "prepare_share_fits (SEED_SIZE (prio3_xof V)) st s"
    and "verifiers_len st = verifier_len (prio3_typ V) * num_proofs V"
  shows "and_then (get_encoded_with_param (prepare_share_encode F) s) (get_decoded_with_param (prepare_share_decode (SEED_SIZE (prio3_xof V)) F st)) = Ok s"
proof (rule prepare_share.get_roundtrip [OF fits])
  have "length (opt_seed_wire (joint_rand_part s)) \<le> SEED_SIZE (prio3_xof V)" "length (verifiers s) = verifier_len (prio3_typ V) * num_proofs V"
    using fits assms(4) by (auto simp: prepare_share_fits_def length_opt_seed_wire)
  then have "length (prepare_share_wire F s) \<le> wire_bound V"
    by (simp add: wire_bound_def prepare_share_wire_def V add_mult_distrib length_elements)
  with bound show "length (prepare_share_wire F s) < usize_bound" by simp
qed

lemma prepare_message_roundtrip:
  assumes "wire_bound V < usize_bound" and fits: "opt_seed_fits (SEED_SIZE (prio3_xof V)) (state_joint_rand_seed st \<noteq> None) (message_joint_rand_seed m)"
  shows "and_then (get_encoded_with_param prepare_message_encode m) (get_decoded_with_param (prepare_message_decode (SEED_SIZE (prio3_xof V)) st)) = Ok m"
proof (rule prepare_message.get_roundtrip [OF fits])
  show "length (opt_seed_wire (message_joint_rand_seed m)) < usize_bound"
    using assms(1) length_opt_seed_wire [OF fits] by (simp add: wire_bound_def add_mult_distrib)
qed

lemma output_roundtrip:
  assumes V: "prio3_field V = F" and "ENCODED_SIZE F \<le> 64" and "length v = output_len (prio3_typ V)"
  shows "and_then (get_encoded_with_param (output_share_encode F) v) (get_decoded_with_param (prio3_output_share_decode V)) = Ok v"
    and "and_then (get_encoded_with_param (agg_share_encode F) v) (get_decoded_with_param (prio3_aggregate_share_decode V)) = Ok v"
proof -
  note d = decode_fieldvec_wire [OF assms(2), of v "[]" "[]"]
  show "and_then (get_encoded_with_param (output_share_encode F) v) (get_decoded_with_param (prio3_output_share_decode V)) = Ok v"
    by (rule wire_roundtrip [of _ _ "concat (map (to_bytes F) v)"])
      (use V assms(3) d in \<open>simp_all add: output_share_encode_def encode_fieldvec_wire prio3_output_share_decode_def prio3_output_len_def\<close>)
  show "and_then (get_encoded_with_param (agg_share_encode F) v) (get_decoded_with_param (prio3_aggregate_share_decode V)) = Ok v"
    by (rule wire_roundtrip [of _ _ "concat (map (to_bytes F) v)"])
      (use V assms(3) d in \<open>simp_all add: agg_share_encode_def encode_fieldvec_wire prio3_aggregate_share_decode_def prio3_output_len_def\<close>)
qed

end

lemmas prio3_methods = prio3_vdaf_def prio3_aggregator_def

lemma query_proofs_length:
  assumes "query_proofs V x p qrs jrs = Ok vs"
  shows "length vs = verifier_len (prio3_typ V) * num_proofs V"
proof -
  have "length acc' = length acc + verifier_len (prio3_typ V) * k"
    if "for_each (\<lambda>p verifiers_share.
       and_then (get_slice qrs (p * query_rand_len (prio3_typ V)) ((p + 1) * query_rand_len (prio3_typ V))) (\<lambda>query_rand.
       and_then (get_slice jrs (p * joint_rand_len (prio3_typ V)) ((p + 1) * joint_rand_len (prio3_typ V))) (\<lambda>joint_rand.
       and_then (get_slice q (p * proof_len (prio3_typ V)) ((p + 1) * proof_len (prio3_typ V))) (\<lambda>proof_share.
       and_then (map_err VdafFlp
           (query (prio3_typ V) x proof_share query_rand joint_rand (num_aggregators V))) (\<lambda>verifier_share.
         Ok (verifiers_share @ verifier_share)))))) [0..<k] acc = Ok acc'" for k acc acc' q
    using that by (induction k arbitrary: acc') (fastforce simp: for_each_snoc dest: query_length)+
  from this [where acc = "[]"] assms show ?thesis by (simp add: query_proofs_def)
qed

lemma prepare_init_shape:
  assumes "prio3_prepare_init V vk i nonce pub inp = Ok (st, sh)"
  shows "verifiers_len st = verifier_len (prio3_typ V) * num_proofs V" "length (verifiers sh) = verifiers_len st"
    "fixed_length_xof (prio3_xof V) \<Longrightarrow> opt_seed_fits (SEED_SIZE (prio3_xof V)) (0 < joint_rand_len (prio3_typ V)) (joint_rand_part sh)"
  using assms
  by (auto simp: prio3_prepare_init_def dest!: query_proofs_length split: if_splits option.splits intro: length_joint_rand_part)

context aggregating_circuit
begin

text \<open>Preparation of an honest report of a valid measurement: the outputs add up to the truncated measurement.\<close>

lemma honest_preparation:
  assumes V: "prio3_typ V = T" and P: "fixed_length_xof (prio3_xof V)" and np: "0 < num_proofs V" and n: "num_aggregators V < modulus F"
    and shard: "shard_with_random V m nonce random = Ok (pub, inps)"
    and q: "derive_query_rands V vk nonce = Ok qrs" "\<forall>r \<in> set qrs. r ^ wire_len \<noteq> 1"
    and valid: "\<And>x jr. encode_measurement T m = Ok x \<Longrightarrow> length jr = joint_rand_len T \<Longrightarrow> circuit_value x jr 1 = 0"
  obtains x xs sts shs sd where "encode_measurement T m = Ok x" "length x = input_len T" "length inps = num_aggregators V" "0 < num_aggregators V"
    "length xs = num_aggregators V" "\<forall>y \<in> set xs. length y = input_len T" "vector_sum (output_len T) (map trunc xs) = trunc x"
    "length sts = num_aggregators V" "length shs = num_aggregators V"
    "\<And>i. i < num_aggregators V \<Longrightarrow> prio3_prepare_init V vk i nonce pub (inps ! i) = Ok (sts ! i, shs ! i)"
    "\<And>i. i < num_aggregators V \<Longrightarrow> state_joint_rand_seed (sts ! i) = sd"
    "prio3_prepare_shares_to_prepare_message V shs = Ok \<lparr>message_joint_rand_seed = sd\<rparr>"
    "\<And>i. i < num_aggregators V \<Longrightarrow> prio3_prepare_next V (sts ! i) \<lparr>message_joint_rand_seed = sd\<rparr> = Ok (Finish (trunc (xs ! i)))"
    "public_share_fits V pub" "\<And>i. i < num_aggregators V \<Longrightarrow> input_share_fits V i (inps ! i)"
    "opt_seed_fits (SEED_SIZE (prio3_xof V)) (0 < joint_rand_len T) sd"
proof -
  let ?n = "num_aggregators V"
  have "\<exists>x xs ps zs jrs sd. encode_measurement T m = Ok x \<and> honest_report V nonce pub inps x xs ps zs jrs sd"
    by (rule honest_shard [OF shard np, unfolded V]) (rule prove_length)
  then obtain x xs ps zs jrs sd where
    x: "encode_measurement T m = Ok x" and h: "honest_report V nonce pub inps x xs ps zs jrs sd" by blast
  from h have xs: "0 < ?n" "length inps = ?n" "length xs = ?n" "\<forall>y \<in> set xs. length y = input_len T" "vector_sum (input_len T) xs = x"
    and jrs: "length jrs = joint_rand_len T * num_proofs V" by (auto simp: honest_report_def Let_def V)
  from preparation [OF V h n q] obtain sts shs where len: "length sts = ?n" "length shs = ?n"
    and init: "\<And>i. i < ?n \<Longrightarrow> prio3_prepare_init V vk i nonce pub (inps ! i) = Ok (sts ! i, shs ! i)"
    and sd: "\<And>i. i < ?n \<Longrightarrow> state_joint_rand_seed (sts ! i) = sd"
    and msg: "prio3_prepare_shares_to_prepare_message V shs =
      (if \<forall>p < num_proofs V. circuit_value x (slice jrs (p * joint_rand_len T) ((p + 1) * joint_rand_len T)) 1 = 0
       then Ok \<lparr>message_joint_rand_seed = sd\<rparr> else Err Uncategorized)"
    and nxt: "\<And>i. i < ?n \<Longrightarrow> prio3_prepare_next V (sts ! i) \<lparr>message_joint_rand_seed = sd\<rparr> =
      and_then (map_err VdafFlp (truncate_input T (xs ! i))) (\<lambda>d. Ok (Finish d))"
    by (elim exE conjE) simp
  have "length (slice jrs (p * joint_rand_len T) ((p + 1) * joint_rand_len T)) = joint_rand_len T" if "p < num_proofs V" for p
  proof -
    have "(p + 1) * joint_rand_len T \<le> length jrs" using that jrs by (metis Suc_eq_plus1 Suc_leI mult.commute mult_le_mono1)
    then show ?thesis by simp
  qed
  with valid [OF x] have m: "prio3_prepare_shares_to_prepare_message V shs = Ok \<lparr>message_joint_rand_seed = sd\<rparr>"
    unfolding msg by simp
  have fin: "prio3_prepare_next V (sts ! i) \<lparr>message_joint_rand_seed = sd\<rparr> = Ok (Finish (trunc (xs ! i)))" if "i < ?n" for i
    using nxt [OF that] xs(3,4) that truncate [of "xs ! i"] by simp
  have lx: "length x = input_len T" "vector_sum (output_len T) (map trunc xs) = trunc x" using trunc_sum [OF xs(4)] xs(4,5) by auto
  show thesis
    by (rule that [OF x lx(1) xs(2,1,3,4) lx(2) len init sd m fin shard_fits [OF P shard h, unfolded V]])
qed

text \<open>The same with every message encoded and decoded.\<close>

lemma report_prepared:
  assumes V: "prio3_typ V = T" and P: "fixed_length_xof (prio3_xof V)" and np: "0 < num_proofs V" and n: "num_aggregators V < modulus F"
    and bound: "wire_bound V < usize_bound"
    and shard: "shard_with_random V m nonce random = Ok (pub, inps)"
    and q: "derive_query_rands V vk nonce = Ok qrs" "\<forall>r \<in> set qrs. r ^ wire_len \<noteq> 1"
    and valid: "\<And>x jr. encode_measurement T m = Ok x \<Longrightarrow> length jr = joint_rand_len T \<Longrightarrow> circuit_value x jr 1 = 0"
  shows "\<exists>x outs. encode_measurement T m = Ok x \<and> length x = input_len T \<and>
    run_vdaf_prepare (prio3_vdaf V) vk () nonce pub inps = Ok outs \<and> length outs = num_aggregators V \<and>
    (\<forall>y \<in> set outs. length y = output_len T) \<and> vector_sum (output_len T) outs = trunc x"
proof -
  let ?n = "num_aggregators V" and ?seed = "SEED_SIZE (prio3_xof V)"
  obtain x xs sts shs sd where x: "encode_measurement T m = Ok x" "length x = input_len T" and inps: "length inps = ?n" "0 < ?n"
    and xs: "length xs = ?n" "\<forall>y \<in> set xs. length y = input_len T" "vector_sum (output_len T) (map trunc xs) = trunc x"
    and len: "length sts = ?n" "length shs = ?n"
    and init: "\<And>i. i < ?n \<Longrightarrow> prio3_prepare_init V vk i nonce pub (inps ! i) = Ok (sts ! i, shs ! i)"
    and sd: "\<And>i. i < ?n \<Longrightarrow> state_joint_rand_seed (sts ! i) = sd"
    and m: "prio3_prepare_shares_to_prepare_message V shs = Ok \<lparr>message_joint_rand_seed = sd\<rparr>"
    and fin: "\<And>i. i < ?n \<Longrightarrow> prio3_prepare_next V (sts ! i) \<lparr>message_joint_rand_seed = sd\<rparr> = Ok (Finish (trunc (xs ! i)))"
    and fits: "public_share_fits V pub" "\<And>i. i < ?n \<Longrightarrow> input_share_fits V i (inps ! i)" "opt_seed_fits ?seed (0 < joint_rand_len T) sd"
    by (rule honest_preparation [OF V P np n shard q valid]) blast+
  have F: "prio3_field V = F" by (simp add: V field)
  have sdj: "(sd \<noteq> None) = (0 < joint_rand_len T)" using fits(3) by (cases sd) auto
  let ?V = "prio3_vdaf V"
  have "run_vdaf_prepare ?V vk () nonce pub inps = Ok (map (\<lambda>i. trunc (xs ! i)) [0..<length inps])"
  proof (rule run_one_round [where st = "\<lambda>i. sts ! i" and sh = "\<lambda>i. shs ! i" and msg = "\<lparr>message_joint_rand_seed = sd\<rparr>"])
    show "vdaf_num_aggregators ?V = length inps" "inps \<noteq> []" using inps by (auto simp: prio3_methods)
    show "and_then (get_encoded_with_param (pub_encode ?V) pub) (get_decoded_with_param (pub_decode ?V)) = Ok pub"
      using public_share_roundtrip [OF F bound fits(1)] by (simp add: prio3_methods)
    show "prepare_shares_to_prepare_message ?V () (map ((!) shs) [0..<length inps]) = Ok \<lparr>message_joint_rand_seed = sd\<rparr>"
      using m len(2) inps(1) map_nth [of shs] by (simp add: prio3_methods)
    fix i
    assume "i < length inps"
    then have i: "i < ?n" using inps(1) by simp
    show "and_then (get_encoded_with_param (inp_encode ?V) (inps ! i)) (get_decoded_with_param (inp_decode ?V i)) = Ok (inps ! i)"
      using input_share_roundtrip [OF F bound fits(2) [OF i]] F by (simp add: prio3_methods)
    show "prepare_init ?V vk i () nonce pub (inps ! i) = Ok (sts ! i, shs ! i)" using init [OF i] by (simp add: prio3_methods)
    have "prepare_share_fits ?seed (sts ! 0) (shs ! i)"
      using prepare_init_shape(1) [OF init [OF inps(2)]] prepare_init_shape [OF init [OF i]] P sd [OF inps(2)] sdj
      by (simp add: prepare_share_fits_def V)
    from prepare_share_roundtrip [OF F bound this prepare_init_shape(1) [OF init [OF inps(2)]]]
    show "and_then (get_encoded_with_param (prep_share_encode ?V) (shs ! i)) (get_decoded_with_param (prep_share_decode ?V (sts ! 0))) = Ok (shs ! i)"
      by (simp add: prio3_methods F)
    show "and_then (get_encoded_with_param (prep_msg_encode ?V) \<lparr>message_joint_rand_seed = sd\<rparr>) (get_decoded_with_param (prep_msg_decode ?V (sts ! i))) =
        Ok \<lparr>message_joint_rand_seed = sd\<rparr>"
      using prepare_message_roundtrip [OF bound, of "sts ! i" "\<lparr>message_joint_rand_seed = sd\<rparr>"] fits(3) sd [OF i] sdj by (simp add: prio3_methods V)
    show "prepare_next ?V (sts ! i) \<lparr>message_joint_rand_seed = sd\<rparr> = Ok (Finish (trunc (xs ! i)))"
      using fin [OF i] by (simp add: prio3_methods)
  qed
  moreover have "map (\<lambda>i. trunc (xs ! i)) [0..<length inps] = map trunc xs"
    using inps(1) xs(1) by (intro nth_equalityI) simp_all
  moreover have "\<forall>y \<in> set (map trunc xs). length y = output_len T" using length_trunc xs(2) by auto
  ultimately show ?thesis using x xs(1,3) by (intro exI [of _ x] exI [of _ "map trunc xs"]) simp
qed

end

section \<open>Aggregation\<close>

lemma vector_sum_snoc:
  "\<forall>v \<in> set vs. length v = n \<Longrightarrow> length y = n \<Longrightarrow> vector_sum n (vs @ [y]) = map2 (+) (vector_sum n vs) y"
  by (intro nth_equalityI) (simp_all add: vector_sum_nth)

lemma vector_sum_add:
  assumes "length as = length bs" "\<forall>v \<in> set as. length v = n" "\<forall>v \<in> set bs. length v = n"
  shows "vector_sum n (map2 (map2 (+)) as bs) = map2 (+) (vector_sum n as) (vector_sum n bs)"
  using assms
proof (induction as bs rule: list_induct2)
  case Nil
  show ?case by (intro nth_equalityI) (simp_all add: vector_sum_def)
next
  case (Cons a as b bs)
  then have "length (vector_sum n as) = n" "length (vector_sum n bs) = n" by simp_all
  with Cons show ?case by (intro nth_equalityI) (simp_all add: vector_sum_Cons ac_simps)
qed

text \<open>The aggregate shares hold the sum of the outputs for the measurements \<open>ys\<close>.\<close>

definition aggregated :: "nat \<Rightarrow> nat \<Rightarrow> 'f::field list list \<Rightarrow> 'f list option list \<Rightarrow> bool" where
  "aggregated n ol ys aggs \<longleftrightarrow>
     (if ys = [] then aggs = replicate n None
      else \<exists>as. aggs = map Some as \<and> length as = n \<and> (\<forall>a \<in> set as. length a = ol) \<and> vector_sum ol as = vector_sum ol ys)"

context prime_field
begin

lemma add_outputs:
  assumes V: "prio3_field V = F" "ENCODED_SIZE F \<le> 64"
    and agg: "aggregated (num_aggregators V) (output_len (prio3_typ V)) ys aggs" and ys: "\<forall>y \<in> set ys. length y = output_len (prio3_typ V)"
    and outs: "length outs = num_aggregators V" "\<forall>out \<in> set outs. length out = output_len (prio3_typ V)"
    and y: "vector_sum (output_len (prio3_typ V)) outs = y"
  shows "\<exists>aggs'. add_out_shares (prio3_vdaf V) () outs aggs = Ok aggs' \<and>
    aggregated (num_aggregators V) (output_len (prio3_typ V)) (ys @ [y]) aggs'"
proof -
  let ?ol = "output_len (prio3_typ V)" and ?n = "num_aggregators V"
  have trip: "assert_round_trip (out_encode (prio3_vdaf V)) (out_decode (prio3_vdaf V) ()) (outs ! i) = Ok ()" if "i < length outs" for i
    using output_roundtrip(1) [OF V, of "outs ! i"] that outs(2) by (intro assert_round_trip_Ok) (simp add: prio3_methods V(1))
  have ylen: "length y = ?ol" using outs(2) y by auto
  show ?thesis
  proof (cases "ys = []")
    case True
    then have aggs: "aggs = replicate ?n None" using agg by (simp add: aggregated_def)
    have "add_out_shares (prio3_vdaf V) () outs aggs = Ok (map (\<lambda>i. Some (outs ! i)) [0..<length outs])"
      by (rule add_out_shares_Ok [OF _ trip]) (simp_all add: aggs outs(1) prio3_methods)
    moreover have "map (\<lambda>i. Some (outs ! i)) [0..<length outs] = map Some outs" by (intro nth_equalityI) simp_all
    moreover have "vector_sum ?ol [y] = y" using ylen by (intro nth_equalityI) (simp_all add: vector_sum_nth)
    ultimately show ?thesis using True outs y by (auto simp: aggregated_def)
  next
    case False
    then obtain as where as: "aggs = map Some as" "length as = ?n" "\<forall>a \<in> set as. length a = ?ol" "vector_sum ?ol as = vector_sum ?ol ys"
      using agg by (auto simp: aggregated_def)
    have "agg_share_merge (as ! i) (outs ! i) = Ok (map2 (+) (as ! i) (outs ! i))" if "i < length outs" for i
      using that as outs by (simp add: agg_share_merge_def agg_share_sum_def merge_vector_def)
    then have "add_out_shares (prio3_vdaf V) () outs aggs = Ok (map (\<lambda>i. Some (map2 (+) (as ! i) (outs ! i))) [0..<length outs])"
      using as(1,2) outs(1) by (intro add_out_shares_Ok [OF _ trip]) (simp_all add: prio3_methods)
    moreover have "map (\<lambda>i. Some (map2 (+) (as ! i) (outs ! i))) [0..<length outs] = map Some (map2 (map2 (+)) as outs)"
      using as(2) outs(1) by (intro nth_equalityI) simp_all
    moreover have "vector_sum ?ol (map2 (map2 (+)) as outs) = vector_sum ?ol (ys @ [y])"
      using vector_sum_add [OF _ as(3) outs(2)] as(2,4) outs(1) y vector_sum_snoc [OF ys ylen] by simp
    moreover have "\<forall>a \<in> set (map2 (map2 (+)) as outs). length a = ?ol"
      using as(2,3) outs by (auto simp: set_zip)
    ultimately show ?thesis using as(2) outs(1)
      by (intro exI [of _ "map Some (map2 (map2 (+)) as outs)"]) (simp add: aggregated_def exI [of _ "map2 (map2 (+)) as outs"])
  qed
qed

lemma sharded_result:
  assumes V: "prio3_field V = F" "ENCODED_SIZE F \<le> 64" and ne: "reports \<noteq> []"
    and reports: "\<And>pub nonce inps. (pub, nonce, inps) \<in> set reports \<Longrightarrow> \<exists>outs. run_vdaf_prepare (prio3_vdaf V) vk () nonce pub inps = Ok outs \<and>
      length outs = num_aggregators V \<and> (\<forall>y \<in> set outs. length y = output_len (prio3_typ V)) \<and>
      vector_sum (output_len (prio3_typ V)) outs = f (pub, nonce, inps)"
  shows "run_vdaf_sharded (prio3_vdaf V) vk () reports =
    map_err VdafFlp (decode_result (prio3_typ V) (vector_sum (output_len (prio3_typ V)) (map f reports)) (length reports))"
proof -
  let ?ol = "output_len (prio3_typ V)" and ?n = "num_aggregators V" and ?V = "prio3_vdaf V"
  let ?step = "\<lambda>(public_share, nonce, input_shares) (agg_shares, num_measurements).
         and_then (run_vdaf_prepare ?V vk () nonce public_share input_shares) (\<lambda>out_shares.
         and_then (add_out_shares ?V () out_shares agg_shares) (\<lambda>agg_shares.
           Ok (agg_shares, num_measurements + 1)))"
  have flen: "length (f r) = ?ol" if "r \<in> set reports" for r
    using reports [of "fst r" "fst (snd r)" "snd (snd r)"] that by (auto dest!: length_vector_sum)
  have "\<exists>aggs. for_each ?step (take k reports) (replicate ?n None, 0) = Ok (aggs, k) \<and> aggregated ?n ?ol (map f (take k reports)) aggs"
    if "k \<le> length reports" for k
    using that
  proof (induction k)
    case 0
    show ?case by (simp add: aggregated_def)
  next
    case (Suc k)
    then obtain aggs where aggs: "for_each ?step (take k reports) (replicate ?n None, 0) = Ok (aggs, k)"
      "aggregated ?n ?ol (map f (take k reports)) aggs" by auto
    obtain pub nonce inps where r: "reports ! k = (pub, nonce, inps)" by (metis prod.exhaust)
    then have "(pub, nonce, inps) \<in> set reports" using Suc.prems by (metis Suc_le_lessD nth_mem)
    from reports [OF this] obtain outs where o: "run_vdaf_prepare ?V vk () nonce pub inps = Ok outs" "length outs = ?n"
      "\<forall>y \<in> set outs. length y = ?ol" "vector_sum ?ol outs = f (reports ! k)" by (auto simp: r)
    have ys: "\<forall>y \<in> set (map f (take k reports)). length y = ?ol" using flen by (auto dest: in_set_takeD)
    obtain aggs' where "add_out_shares ?V () outs aggs = Ok aggs'" "aggregated ?n ?ol (map f (take k reports) @ [f (reports ! k)]) aggs'"
      using add_outputs [OF V aggs(2) ys o(2-4)] by blast
    with aggs(1) o(1) Suc.prems r show ?case by (simp add: take_Suc_conv_app_nth for_each_snoc)
  qed
  from this [of "length reports"] obtain aggs where aggs: "for_each ?step reports (replicate ?n None, 0) = Ok (aggs, length reports)"
    "aggregated ?n ?ol (map f reports) aggs" by auto
  with ne obtain as where as: "aggs = map Some as" "length as = ?n" "\<forall>a \<in> set as. length a = ?ol"
    "vector_sum ?ol as = vector_sum ?ol (map f reports)" by (auto simp: aggregated_def)
  have "for_each (\<lambda>agg_share aggs.
         case agg_share of
           None \<Rightarrow> Panic
         | Some agg \<Rightarrow> and_then (assert_round_trip (agg_encode ?V) (agg_decode ?V ()) agg) (\<lambda>_. Ok (aggs @ [agg])))
       (map Some as) acc = Ok (acc @ as)" for acc
    using as(3)
  proof (induction as arbitrary: acc)
    case (Cons a as)
    have "assert_round_trip (agg_encode ?V) (agg_decode ?V ()) a = Ok ()"
      using output_roundtrip(2) [OF V, of a] Cons.prems by (intro assert_round_trip_Ok) (simp add: prio3_methods V(1))
    with Cons show ?case by simp
  qed simp
  moreover have "for_each (\<lambda>agg_share agg. agg_share_merge agg agg_share) as (replicate ?ol 0) = Ok (vector_sum ?ol as)"
  proof -
    have "map2 (+) (replicate ?ol 0) (vector_sum ?ol as) = vector_sum ?ol as" using as(3) by (intro nth_equalityI) simp_all
    then show ?thesis using accumulate_all [of as "replicate ?ol 0"] as(3) by (simp add: agg_share_merge_def agg_share_accumulate_def)
  qed
  ultimately show ?thesis
    using aggs(1) as by (simp add: run_vdaf_sharded_def) (simp add: prio3_methods prio3_unshard_def)
qed

end

section \<open>End to end\<close>

text \<open>The client's \<open>shard\<close> with the randomness of each measurement beside it.\<close>

abbreviation sharding :: "('m, 'r, 'f::field, 'x, 's) prio3 \<Rightarrow> 'm \<times> bytes \<Rightarrow> bytes \<Rightarrow> (prio3_public_share \<times> 'f prio3_input_share list, vdaf_error) outcome" where
  "sharding V \<equiv> \<lambda>(m, random) nonce. shard_with_random V m nonce random"

lemma shard_all:
  assumes "\<And>m nonce. (m, nonce) \<in> set ms \<Longrightarrow> is_Ok (shard m nonce)"
  obtains shs where "map (\<lambda>(m, nonce). shard m nonce) ms = map Ok shs"
    "run_vdaf shard V vk ap ms = run_vdaf_sharded V vk ap (map (\<lambda>((m, nonce), (pub, inps)). (pub, nonce, inps)) (zip ms shs))"
proof -
  have "\<exists>shs. map (\<lambda>(m, nonce). shard m nonce) ms = map Ok shs \<and>
    (\<forall>acc. for_each (\<lambda>(measurement, nonce) sharded_measurements.
         and_then (shard measurement nonce) (\<lambda>(public_share, input_shares).
           Ok (sharded_measurements @ [(public_share, nonce, input_shares)]))) ms acc =
      Ok (acc @ map (\<lambda>((m, nonce), (pub, inps)). (pub, nonce, inps)) (zip ms shs)))"
    using assms
  proof (induction ms)
    case Nil
    then show ?case by simp
  next
    case (Cons mn ms)
    obtain m nonce where mn: "mn = (m, nonce)" by fastforce
    then obtain pub inps where sh: "shard m nonce = Ok (pub, inps)"
      using Cons.prems [of m nonce] by (cases "shard m nonce") auto
    from Cons.IH Cons.prems obtain shs where "map (\<lambda>(m, nonce). shard m nonce) ms = map Ok shs"
      "\<And>acc. for_each (\<lambda>(measurement, nonce) sharded_measurements.
         and_then (shard measurement nonce) (\<lambda>(public_share, input_shares).
           Ok (sharded_measurements @ [(public_share, nonce, input_shares)]))) ms acc =
      Ok (acc @ map (\<lambda>((m, nonce), (pub, inps)). (pub, nonce, inps)) (zip ms shs))" by auto
    with mn sh show ?case by (intro exI [of _ "(pub, inps) # shs"]) simp
  qed
  then obtain shs where "map (\<lambda>(m, nonce). shard m nonce) ms = map Ok shs"
    "for_each (\<lambda>(measurement, nonce) sharded_measurements.
         and_then (shard measurement nonce) (\<lambda>(public_share, input_shares).
           Ok (sharded_measurements @ [(public_share, nonce, input_shares)]))) ms [] =
      Ok ([] @ map (\<lambda>((m, nonce), (pub, inps)). (pub, nonce, inps)) (zip ms shs))" by blast
  then show thesis by (intro that [of shs]) (simp_all add: run_vdaf_def)
qed

context aggregating_circuit
begin

theorem execution:
  assumes V: "prio3_typ V = T" "fixed_length_xof (prio3_xof V)" "0 < num_proofs V" "num_aggregators V < modulus F" "wire_bound V < usize_bound"
    and size: "ENCODED_SIZE F \<le> 64" and ne: "reports \<noteq> []"
    and shard: "\<And>m random nonce. ((m, random), nonce) \<in> set reports \<Longrightarrow> is_Ok (shard_with_random V m nonce random)"
    and q: "\<And>m random nonce. ((m, random), nonce) \<in> set reports \<Longrightarrow> \<exists>qrs. derive_query_rands V vk nonce = Ok qrs \<and> (\<forall>r \<in> set qrs. r ^ wire_len \<noteq> 1)"
    and valid: "\<And>m random nonce x jr. ((m, random), nonce) \<in> set reports \<Longrightarrow> encode_measurement T m = Ok x \<Longrightarrow>
      length jr = joint_rand_len T \<Longrightarrow> circuit_value x jr 1 = 0"
  shows "\<exists>ys. map (\<lambda>((m, random), nonce). and_then (encode_measurement T m) (truncate_input T)) reports = map Ok ys \<and>
    run_vdaf (sharding V) (prio3_vdaf V) vk () reports =
      map_err VdafFlp (decode_result T (vector_sum (output_len T) ys) (length reports))"
proof -
  let ?ol = "output_len T"
  obtain shs where shs: "map (\<lambda>(m, nonce). sharding V m nonce) reports = map Ok shs"
    "run_vdaf (sharding V) (prio3_vdaf V) vk () reports =
      run_vdaf_sharded (prio3_vdaf V) vk () (map (\<lambda>((m, nonce), (pub, inps)). (pub, nonce, inps)) (zip reports shs))"
    by (rule shard_all [of reports "sharding V" "prio3_vdaf V" vk "()"]) (use shard in auto)
  from arg_cong [OF shs(1), of length] have len: "length shs = length reports" by simp
  let ?rs = "map (\<lambda>((m, nonce), (pub, inps)). (pub, nonce, inps)) (zip reports shs)"
  let ?f = "\<lambda>(pub, nonce, inps). case run_vdaf_prepare (prio3_vdaf V) vk () nonce pub inps of Ok outs \<Rightarrow> vector_sum ?ol outs"
  have one: "\<exists>x outs. encode_measurement T (fst (fst (reports ! k))) = Ok x \<and> truncate_input T x = Ok (trunc x) \<and>
      (case ?rs ! k of (pub, nonce, inps) \<Rightarrow> run_vdaf_prepare (prio3_vdaf V) vk () nonce pub inps = Ok outs) \<and>
      length outs = num_aggregators V \<and> (\<forall>y \<in> set outs. length y = ?ol) \<and> vector_sum ?ol outs = trunc x" if k: "k < length reports" for k
  proof -
    obtain m random nonce where r: "reports ! k = ((m, random), nonce)" by (metis prod.exhaust)
    obtain pub inps where sh: "shs ! k = (pub, inps)" by fastforce
    have mem: "((m, random), nonce) \<in> set reports" using k r by (metis nth_mem)
    have "shard_with_random V m nonce random = Ok (pub, inps)" using arg_cong [OF shs(1), of "\<lambda>l. l ! k"] k len r sh by simp
    with q [OF mem] report_prepared [OF V this] valid [OF mem] obtain x outs where "encode_measurement T m = Ok x" "length x = input_len T"
      "run_vdaf_prepare (prio3_vdaf V) vk () nonce pub inps = Ok outs" "length outs = num_aggregators V"
      "\<forall>y \<in> set outs. length y = ?ol" "vector_sum ?ol outs = trunc x" by blast
    then show ?thesis using k len r sh truncate by (intro exI [of _ x] exI [of _ outs]) simp
  qed
  have F: "prio3_field V = F" by (simp add: V(1) field)
  have "run_vdaf_sharded (prio3_vdaf V) vk () ?rs = map_err VdafFlp (decode_result (prio3_typ V) (vector_sum (output_len (prio3_typ V)) (map ?f ?rs)) (length ?rs))"
  proof (rule sharded_result [OF F size])
    show "?rs \<noteq> []" using ne len by auto
    fix pub nonce inps
    assume "(pub, nonce, inps) \<in> set ?rs"
    then obtain k where "k < length reports" "?rs ! k = (pub, nonce, inps)" by (auto simp: in_set_conv_nth len)
    with one [OF this(1)] show "\<exists>outs. run_vdaf_prepare (prio3_vdaf V) vk () nonce pub inps = Ok outs \<and>
      length outs = num_aggregators V \<and> (\<forall>y \<in> set outs. length y = output_len (prio3_typ V)) \<and>
      vector_sum (output_len (prio3_typ V)) outs = ?f (pub, nonce, inps)" by (auto simp: V(1))
  qed
  moreover have "and_then (encode_measurement T (fst (fst (reports ! k)))) (truncate_input T) = Ok (?f (?rs ! k))" if "k < length reports" for k
    using one [OF that] by (auto split: prod.splits)
  then have "map (\<lambda>((m, random), nonce). and_then (encode_measurement T m) (truncate_input T)) reports = map Ok (map ?f ?rs)"
    using len by (intro nth_equalityI) (simp_all add: split_beta)
  ultimately show ?thesis using shs(2) len by (intro exI [of _ "map ?f ?rs"]) (simp add: V(1))
qed

end

end
