(* ===== verification/Soundness.thy ===== *)
theory Soundness
  imports Circuits
begin

text \<open>
  Soundness of the proof system of flp.rs and of the circuits of types.rs.  A proof is accepted only on the roots
  of the difference between the polynomial it carries and the one an honest prover would have made, unless the
  circuit itself evaluates to zero; the number of query points that accept is bounded by the length of the gadget
  polynomial.  The range checks of \<open>Sum\<close> and \<open>Histogram\<close> are polynomials in the joint randomness whose coefficients
  are the errors \<open>x * x - x\<close>, so that the number of joint random values that hide an error is bounded by the
  length of the input.
\<close>

section \<open>Roots of a polynomial\<close>

lemma division_step:
  fixes a :: "'f::field"
  shows "c + x * (v + (x - a) * q) = c + a * v + (x - a) * (v + x * q)"
  by (simp add: algebra_simps)

lemma poly_factor:
  fixes p :: "'f::field list"
  assumes "poly p a = 0" and "p \<noteq> []"
  shows "\<exists>q. length q = length p - 1 \<and> (\<forall>x. poly p x = (x - a) * poly q x)"
proof -
  have "\<exists>q. length q = length p - 1 \<and> (\<forall>x. poly p x = poly p a + (x - a) * poly q x)"
    using assms(2)
  proof (induction p)
    case (Cons c p)
    show ?case
    proof (cases "p = []")
      case False
      with Cons obtain q where q: "length q = length p - 1" "\<And>x. poly p x = poly p a + (x - a) * poly q x" by blast
      have "poly (c # p) x = poly (c # p) a + (x - a) * poly (poly p a # q) x" for x
        unfolding poly_Cons by (subst q(2) [of x]) (rule division_step)
      moreover have "length (poly p a # q) = length (c # p) - 1" using q(1) False by (cases p) simp_all
      ultimately show ?thesis by blast
    qed (auto intro: exI [of _ "[]"])
  qed simp
  with assms(1) show ?thesis by simp
qed

lemma poly_roots:
  fixes p :: "'f::field list"
  assumes "poly p b \<noteq> 0"
  shows "finite {x. poly p x = 0} \<and> card {x. poly p x = 0} < length p"
  using assms
proof (induction "length p" arbitrary: p rule: less_induct)
  case less
  have ne: "p \<noteq> []" using less.prems by auto
  show ?case
  proof (cases "\<exists>a. poly p a = 0")
    case True
    then obtain a q where a: "poly p a = 0" and q: "length q = length p - 1" "\<And>x. poly p x = (x - a) * poly q x"
      using poly_factor [OF _ ne] by metis
    have "poly q b \<noteq> 0" using less.prems q(2) by auto
    with less.hyps [of q] q(1) ne have IH: "finite {x. poly q x = 0}" "card {x. poly q x = 0} < length p - 1" by auto
    have "{x. poly p x = 0} = insert a {x. poly q x = 0}" by (auto simp: q(2))
    with IH show ?thesis using card_insert_le_m1 [of "length p" "{x. poly q x = 0}" a]
      by (auto simp: card_insert_if)
  qed (use ne in simp)
qed

lemma poly_diff: "length p = length q \<Longrightarrow> poly (map2 (-) p q) x = poly p x - poly q x"
  by (simp add: poly_def left_diff_distrib sum_subtractf)

section \<open>The query points that accept\<close>

context complete_circuit
begin

theorem soundness:
  assumes len: "length input = input_len T" "length jr = joint_rand_len T" "length proof = proof_len T"
    and bad: "circuit_value input jr 1 \<noteq> 0"
  shows "finite {r. and_then (query T input proof [r] jr 1) (decide T) = Ok True} \<and>
    card {r. and_then (query T input proof [r] jr 1) (decide T) = Ok True} < poly_len"
proof -
  define seeds P where "seeds = take (arity g) proof" and "P = drop (arity g) proof"
  have pf: "proof = seeds @ P" "length seeds = arity g" "length P = poly_len"
    using len(3) by (simp_all add: seeds_def P_def lens)
  let ?inps = "wires input jr 1"
  have w: "length ?inps = calls g" "\<forall>w \<in> set ?inps. length w = arity g" using wires len by blast+
  obtain H where H: "length H = poly_len"
    "\<And>x. poly H x = gadget_value g (map (\<lambda>i. wire_value seeds ?inps i x) [0..<arity g])"
    using prove_value [OF len(1,2) pf(2)] by blast
  have H_node: "poly H (wire_root ^ Suc k) = gadget_value g (?inps ! k)" if "k < calls g" for k
    using gadget_nodes [OF w that] H(2) by simp
  have accepted: "outcome_of input jr 1 (map (\<lambda>k. poly P (wire_root ^ k)) [1..<Suc (calls g)]) = 0 \<and> poly (map2 (-) P H) r = 0"
    if acc: "and_then (query T input proof [r] jr 1) (decide T) = Ok True" for r
  proof -
    have r: "r ^ wire_len \<noteq> 1"
      using acc query_rejects_root [OF len, of r 1] by auto
    have "query T input proof [r] jr 1 = Ok (message input seeds P r jr 1)"
      unfolding pf(1) by (rule query_value [OF len(1,2) modulus_gt_1 pf(2,3) r])
    with acc show ?thesis using pf(3) H
      by (simp add: message_def decide_message poly_diff del: upt_Suc)
  qed
  show ?thesis
  proof (cases "\<exists>r. and_then (query T input proof [r] jr 1) (decide T) = Ok True")
    case True
    then have zero: "outcome_of input jr 1 (map (\<lambda>k. poly P (wire_root ^ k)) [1..<Suc (calls g)]) = 0"
      using accepted by blast
    have "\<exists>k < calls g. poly P (wire_root ^ Suc k) \<noteq> poly H (wire_root ^ Suc k)"
    proof (rule ccontr)
      assume "\<not> ?thesis"
      then have "map (\<lambda>k. poly P (wire_root ^ k)) [1..<Suc (calls g)] = map (gadget_value g) ?inps"
        using w(1) H_node by (intro nth_equalityI) (simp_all del: upt_Suc power_Suc)
      with zero bad show False by (simp add: circuit_value_def)
    qed
    then obtain k where "poly (map2 (-) P H) (wire_root ^ Suc k) \<noteq> 0"
      using pf(3) H(1) by (auto simp: poly_diff simp del: power_Suc)
    from poly_roots [OF this] have fin: "finite {x. poly (map2 (-) P H) x = 0}"
      "card {x. poly (map2 (-) P H) x = 0} < poly_len" using pf(3) H(1) by auto
    have sub: "{r. and_then (query T input proof [r] jr 1) (decide T) = Ok True} \<subseteq> {x. poly (map2 (-) P H) x = 0}"
      using accepted by blast
    show ?thesis using finite_subset [OF sub fin(1)] card_mono [OF fin(1) sub] fin(2) by simp
  next
    case False
    then have empty: "{r. and_then (query T input proof [r] jr 1) (decide T) = Ok True} = {}" by blast
    show ?thesis unfolding empty by (simp add: gadget_poly_len_def)
  qed
qed

end

section \<open>The joint randomness that hides an error\<close>

context prime_field
begin

lemma poly_nonzero:
  assumes "c \<in> set p" and "c \<noteq> 0" and "length p \<le> 2 ^ 20"
  shows "\<exists>b. poly p b \<noteq> (0 :: 'f)"
proof (rule ccontr)
  assume "\<not> ?thesis"
  then have zero: "poly p x = 0" for x by blast
  obtain w where w: "froot F 20 = Some w" using froot_20 [of 20] by auto
  obtain i where i: "i < length p" "p ! i = c" using assms(1) by (auto simp: in_set_conv_nth)
  then have "i < 2 ^ 20" using assms(3) by linarith
  from inverse_coeff_poly [OF w assms(3) this] have "coeff p i = 0"
    by (simp add: zero inverse_coeff_def)
  with i assms(2) show False by (simp add: coeff_def)
qed

lemma poly_roots_coeff:
  assumes "c \<in> set p" and "c \<noteq> (0 :: 'f)" and "length p \<le> 2 ^ 20"
  shows "finite {x. poly p x = 0} \<and> card {x. poly p x = 0} < length p"
  using poly_nonzero [OF assms] poly_roots by blast

end

context sum_circuit
begin

lemma sum_hides:
  assumes len: "length input = bits" and bad: "\<not> zero_one input"
  shows "finite {t. sum.circuit_value input [t] ns = 0} \<and> card {t. sum.circuit_value input [t] ns = 0} \<le> bits"
proof -
  let ?p = "0 # map (\<lambda>x. x * x - x) input"
  have p: "sum.circuit_value input [t] ns = poly ?p t" for t
  proof -
    have "poly ?p t = t * (\<Sum>i<bits. (input ! i * input ! i - input ! i) * t ^ i)"
      using len by (simp add: poly_def [of "map _ _"])
    then show ?thesis using len by (simp add: sum_circuit_value sum_distrib_left mult_ac)
  qed
  obtain x where "x \<in> set input" "x * x - x \<noteq> 0" using bad zero_one_root by (auto simp: zero_one_def)
  then have "x * x - x \<in> set ?p" "x * x - x \<noteq> 0" by auto
  moreover have "length ?p \<le> 2 ^ 20" using len bits by simp
  ultimately show ?thesis using poly_roots_coeff [of "x * x - x" ?p] len by (simp add: p)
qed

end

section \<open>Properties\<close>

text \<open>
  C22. Soundness of \<open>Sum\<close> over the 128-bit field: for an input with an entry other than zero and one, all joint random
  values but at most \<open>bits\<close> are such that any proof whatsoever, however it was made, is accepted for at most
  \<open>2 * (n - 1)\<close> of the \<open>2\<^sup>1\<^sup>2\<^sup>8\<close> query points, where \<open>n\<close> is the length of the wire polynomials.
\<close>

theorem sum_sound:
  assumes "Sum_new Field128 bits = Ok T" and "length input = bits" and "\<not> zero_one input"
  shows "\<exists>hiding. finite hiding \<and> card hiding \<le> bits \<and>
    (\<forall>t proof. t \<notin> hiding \<and> length proof = proof_len T \<longrightarrow>
      finite {r. and_then (query T input proof [r] [t] 1) (decide T) = Ok True} \<and>
      card {r. and_then (query T input proof [r] [t] 1) (decide T) = Ok True} \<le> 2 * (wire_poly_len bits - 1))"
proof -
  have bits: "bits < 128"
    using assms(1) by (auto simp: Sum_new_def Field128.valid_integer_bitlength_iff split: if_splits)
  then have T: "T = sum_type Field128 bits [0, - 1, 1] (\<lambda>data _. decode_result_one Field128 data)"
    using assms(1) Field128.Sum_new_eq [of bits] by simp
  have len: "length input = input_len T" "length [t] = joint_rand_len T" for t
    using assms(2) by (simp_all add: T sum_type_def)
  have gl: "gadget_poly_len (degree (sum_gadget bits :: field128 gadget)) (wire_poly_len (calls (sum_gadget bits :: field128 gadget))) =
    Suc (2 * (wire_poly_len bits - 1))"
    by (simp add: gadget_poly_len_def sum_gadget_def poly_deg_range_check)
  let ?hiding = "{t. Sum128.sum.circuit_value bits input [t] 1 = 0}"
  have "finite ?hiding \<and> card ?hiding \<le> bits"
    using Sum128.sum_hides [of input bits 1] assms(2,3) bits by simp
  then show ?thesis
    using Sum128.sum.soundness [of input bits "\<lambda>data _. decode_result_one Field128 data"] len bits gl
    by (intro exI [of _ ?hiding]) (simp add: T less_Suc_eq_le)
qed


theorem sum_sound_witness:
  "\<exists>T hiding. Sum_new Field128 2 = Ok T \<and> finite hiding \<and> card hiding \<le> 2 \<and>
    (\<forall>t proof. t \<notin> hiding \<and> length proof = proof_len T \<longrightarrow>
      card {r. and_then (query T [1, 7] proof [r] [t] 1) (decide T) = Ok True} \<le> 2 * (wire_poly_len 2 - 1))"
proof -
  obtain T where T: "Sum_new Field128 2 = Ok T" using Field128.Sum_new_eq [of 2] by simp
  have two: "(length [1, 7 :: field128] = 2) = True" by simp
  have "(7 :: field128) \<noteq> of_nat 0" "(7 :: field128) \<noteq> of_nat 1"
    using Field128.of_nat_eq_iff [of 7 0] Field128.of_nat_eq_iff [of 7 1]
    by (simp_all add: modulus_128)
  then have "\<not> zero_one [1, 7 :: field128]" by (simp add: zero_one_def)
  with sum_sound [OF T, of "[1, 7]"] T show ?thesis by (simp only: two) blast
qed

end
