(* ===== verification/Bt.thy ===== *)
theory Bt
  imports Codec "HOL-Library.Sublist"
begin

text \<open>
  The append-only binary tree of \<^verbatim>\<open>src/bt.rs\<close>.  A node owns two optional subtrees; a path is a sequence
  of bits, and a mutable reference to a place of the tree is the path that leads to it.  Insertion and
  lookup refine a partial map from paths to values whose domain is closed under prefixes, and a tree
  survives encoding followed by decoding, both of which use an explicit stack.
\<close>

section \<open>Trees\<close>

datatype 'v binary_tree_error = InsertNonEmptyNode 'v | UnreachableNode 'v

type_synonym path = "bool list"

datatype 'v node = Node (node_value: 'v) (left: "'v node option") (right: "'v node option")

type_synonym 'v subtree = "'v node option"

datatype 'v binary_tree = BinaryTree (root: "'v subtree")

definition Node_new :: "'v \<Rightarrow> 'v node" where
  "Node_new v = Node v None None"

definition BinaryTree_default :: "'v binary_tree" where
  "BinaryTree_default = BinaryTree None"

text \<open>
  The loop of \<open>Node::insert\<close> walks down with a reference to a place that may be empty (\<open>Ref::Other\<close>); the
  start of the walk is the node itself (\<open>Ref::This\<close>).  The result is the updated place.
\<close>

fun insert_at :: "'v subtree \<Rightarrow> path \<Rightarrow> 'v \<Rightarrow> ('v subtree, 'v binary_tree_error) outcome" where
  "insert_at None [] v = Ok (Some (Node_new v))"
| "insert_at (Some n) [] v = Err (InsertNonEmptyNode v)"
| "insert_at None (b # path) v = Err (UnreachableNode v)"
| "insert_at (Some (Node w l r)) (b # path) v =
     (if \<not> b then and_then (insert_at l path v) (\<lambda>l. Ok (Some (Node w l r)))
      else and_then (insert_at r path v) (\<lambda>r. Ok (Some (Node w l r))))"

fun node_insert :: "'v node \<Rightarrow> path \<Rightarrow> 'v \<Rightarrow> ('v node, 'v binary_tree_error) outcome" where
  "node_insert n [] v = Err (InsertNonEmptyNode v)"
| "node_insert (Node w l r) (b # path) v =
     (if \<not> b then and_then (insert_at l path v) (\<lambda>l. Ok (Node w l r))
      else and_then (insert_at r path v) (\<lambda>r. Ok (Node w l r)))"

fun node_get :: "'v node \<Rightarrow> path \<Rightarrow> 'v option" where
  "node_get n [] = Some (node_value n)"
| "node_get n (b # path) =
     (case if \<not> b then left n else right n of None \<Rightarrow> None | Some next_node \<Rightarrow> node_get next_node path)"

fun node_get_node :: "'v node \<Rightarrow> path \<Rightarrow> 'v node option" where
  "node_get_node n [] = Some n"
| "node_get_node n (b # path) =
     (case if \<not> b then left n else right n of None \<Rightarrow> None | Some next_node \<Rightarrow> node_get_node next_node path)"

definition tree_insert :: "'v binary_tree \<Rightarrow> path \<Rightarrow> 'v \<Rightarrow> ('v binary_tree, 'v binary_tree_error) outcome" where
  "tree_insert t path v =
     (case root t of
        Some n \<Rightarrow> and_then (node_insert n path v) (\<lambda>n. Ok (BinaryTree (Some n)))
      | None \<Rightarrow>
          if path = [] then Ok (BinaryTree (Some (Node_new v)))
          else Err (UnreachableNode v))"

definition tree_get :: "'v binary_tree \<Rightarrow> path \<Rightarrow> 'v option" where
  "tree_get t path = Option.bind (root t) (\<lambda>n. node_get n path)"

definition tree_get_node :: "'v binary_tree \<Rightarrow> path \<Rightarrow> 'v node option" where
  "tree_get_node t path = Option.bind (root t) (\<lambda>n. node_get_node n path)"

section \<open>Wire format\<close>

datatype codec_marker = Leaf | Inner

definition marker_encode :: "codec_marker encoder" where
  "marker_encode m = (case m of Leaf \<Rightarrow> u8_encode 0 | Inner \<Rightarrow> u8_encode 1)"

definition marker_decode :: "codec_marker decoder" where
  "marker_decode c =
     and_then (u8_decode c) (\<lambda>(b, c).
       if b = 0 then Ok (Leaf, c) else if b = 1 then Ok (Inner, c) else Err UnexpectedValue)"

text \<open>The number of places below and including a place, which bounds the encoding loop.\<close>

fun node_places :: "'v node \<Rightarrow> nat" where
  "node_places (Node v l r) =
     1 + (case l of None \<Rightarrow> 1 | Some n \<Rightarrow> node_places n) + (case r of None \<Rightarrow> 1 | Some n \<Rightarrow> node_places n)"

definition places :: "'v subtree \<Rightarrow> nat" where
  "places t = (case t of None \<Rightarrow> 1 | Some n \<Rightarrow> node_places n)"

lemma places_simps [simp]: "places None = 1" "places (Some (Node v l r)) = 1 + places l + places r"
  by (simp_all add: places_def)

function encode_stack :: "'v encoder \<Rightarrow> 'v subtree list \<Rightarrow> bytes \<Rightarrow> (bytes, codec_error) outcome" where
  "encode_stack enc [] bs = Ok bs"
| "encode_stack enc (None # stack) bs = and_then (marker_encode Leaf bs) (encode_stack enc stack)"
| "encode_stack enc (Some (Node v l r) # stack) bs =
     and_then (marker_encode Inner bs) (\<lambda>bs. and_then (enc v bs) (encode_stack enc (l # r # stack)))"
  by pat_completeness auto
termination
  by (relation "measure (\<lambda>(enc, stack, bs). sum_list (map places stack))") auto

definition node_encode :: "'v encoder \<Rightarrow> 'v node encoder" where
  "node_encode enc n bs = and_then (enc (node_value n) bs) (encode_stack enc [left n, right n])"

definition tree_encode :: "'v encoder \<Rightarrow> 'v binary_tree encoder" where
  "tree_encode enc t bs =
     (case root t of
        None \<Rightarrow> marker_encode Leaf bs
      | Some n \<Rightarrow> and_then (marker_encode Inner bs) (node_encode enc n))"

text \<open>Storing through the reference to the place at a path of the tree being built.\<close>

fun store_at :: "'v subtree \<Rightarrow> path \<Rightarrow> 'v subtree \<Rightarrow> 'v subtree" where
  "store_at t [] s = s"
| "store_at None (b # path) s = None"
| "store_at (Some (Node v l r)) (b # path) s =
     Some (if \<not> b then Node v (store_at l path s) r else Node v l (store_at r path s))"

partial_function (option) decode_stack ::
  "'v decoder \<Rightarrow> 'v subtree \<Rightarrow> path list \<Rightarrow> cursor \<Rightarrow> (('v subtree \<times> cursor, codec_error) outcome) option" where
  "decode_stack dec out stack c =
     (case stack of
        [] \<Rightarrow> Some (Ok (out, c))
      | elem # stack \<Rightarrow>
          (case marker_decode c of
             Ok mc \<Rightarrow>
               (case fst mc of
                  Leaf \<Rightarrow> decode_stack dec out stack (snd mc)
                | Inner \<Rightarrow>
                    (case dec (snd mc) of
                       Ok vc \<Rightarrow>
                         decode_stack dec (store_at out elem (Some (Node_new (fst vc))))
                           ((elem @ [False]) # (elem @ [True]) # stack) (snd vc)
                     | Err e \<Rightarrow> Some (Err e)
                     | Panic \<Rightarrow> Some Panic
                     | Diverge \<Rightarrow> Some Diverge))
           | Err e \<Rightarrow> Some (Err e)
           | Panic \<Rightarrow> Some Panic
           | Diverge \<Rightarrow> Some Diverge))"

definition node_decode :: "'v decoder \<Rightarrow> 'v node decoder" where
  "node_decode dec c =
     and_then (dec c) (\<lambda>(v, c).
     and_then (returned (decode_stack dec (Some (Node_new v)) [[False], [True]] c)) (\<lambda>(out, c).
       case out of Some n \<Rightarrow> Ok (n, c) | None \<Rightarrow> Panic))"

definition tree_decode :: "'v decoder \<Rightarrow> 'v binary_tree decoder" where
  "tree_decode dec c =
     and_then (marker_decode c) (\<lambda>(m, c).
       case m of
         Leaf \<Rightarrow> Ok (BinaryTree_default, c)
       | Inner \<Rightarrow> and_then (node_decode dec c) (\<lambda>(n, c). Ok (BinaryTree (Some n), c)))"

section \<open>Refinement of a partial map\<close>

fun lookup :: "'v subtree \<Rightarrow> path \<Rightarrow> 'v option" where
  "lookup None path = None"
| "lookup (Some n) path = node_get n path"

lemma lookup_simps [simp]:
  "lookup (Some (Node v l r)) [] = Some v"
  "lookup (Some (Node v l r)) (b # path) = lookup (if b then r else l) path"
  by (cases l; cases r; simp)+

declare lookup.simps(2) [simp del]

lemma lookup_new [simp]: "lookup (Some (Node_new v)) q = (if q = [] then Some v else None)"
  by (cases q) (simp_all add: Node_new_def)

lemma lookup_Nil [simp]: "lookup t [] = map_option node_value t"
  by (cases t) (simp_all add: lookup.simps)

lemma tree_get_lookup: "tree_get t = lookup (root t)"
  by (rule ext) (cases "root t"; simp add: tree_get_def lookup.simps)

lemma subtree_cases [case_names 1 2]:
  obtains "t = None" | v l r where "t = Some (Node v l r)"
  by (cases t) (auto, metis node.exhaust)

lemma insert_at_refines:
  "insert_at t path v =
     (if lookup t path \<noteq> None then Err (InsertNonEmptyNode v)
      else if path \<noteq> [] \<and> lookup t (butlast path) = None then Err (UnreachableNode v)
      else Ok (store_at t path (Some (Node_new v))))"
proof (induction t path v rule: insert_at.induct)
  case (4 w l r b path v)
  then show ?case by (cases path) auto
qed auto

lemma lookup_store:
  assumes "path = [] \<or> lookup t (butlast path) \<noteq> None" and "lookup t path = None"
  shows "lookup (store_at t path (Some (Node_new v))) q = (if q = path then Some v else lookup t q)"
  using assms
proof (induction t path "Some (Node_new v)" arbitrary: q rule: store_at.induct)
  case (1 t)
  then show ?case by auto
next
  case (3 w l r b path)
  then show ?case by (cases q; cases path) (auto simp: Node_new_def)
qed auto

lemma tree_insert_at: "tree_insert t path v = and_then (insert_at (root t) path v) (\<lambda>s. Ok (BinaryTree s))"
proof (cases "root t")
  case None
  then show ?thesis by (cases path) (auto simp: tree_insert_def)
next
  case (Some n)
  then show ?thesis by (cases n; cases path) (auto simp: tree_insert_def and_then_assoc)
qed


text \<open>The paths with a value are closed under prefixes, and the values on them determine the tree.\<close>

lemma lookup_prefix: "lookup t (p @ q) \<noteq> None \<Longrightarrow> lookup t p \<noteq> None"
proof (induction p arbitrary: t)
  case Nil
  then show ?case by (cases t) auto
next
  case (Cons b p)
  then show ?case by (cases t rule: subtree_cases) (auto split: if_splits)
qed

lemma lookup_inject: "lookup s = lookup t \<Longrightarrow> s = t"
proof (induction "places s" arbitrary: s t rule: less_induct)
  case less
  show ?case
  proof (cases s rule: subtree_cases)
    case 1
    then show ?thesis using fun_cong [OF less.prems, of "[]"] by (cases t) auto
  next
    case (2 v l r)
    with fun_cong [OF less.prems, of "[]"] obtain w l' r' where t: "t = Some (Node w l' r')" by (cases t rule: subtree_cases) auto
    have "lookup l = lookup l'" "lookup r = lookup r'"
      using fun_cong [OF less.prems, of "False # _"] fun_cong [OF less.prems, of "True # _"] by (auto simp: 2 t)
    moreover have "v = w" using fun_cong [OF less.prems, of "[]"] by (simp add: 2 t)
    ultimately show ?thesis using less.hyps [of l l'] less.hyps [of r r'] by (simp add: 2 t)
  qed
qed

section \<open>Round trip\<close>

fun tree_wire :: "('v \<Rightarrow> bytes) \<Rightarrow> 'v node \<Rightarrow> bytes" where
  "tree_wire wire (Node v l r) =
     wire v @ (case l of None \<Rightarrow> [0] | Some n \<Rightarrow> 1 # tree_wire wire n) @
       (case r of None \<Rightarrow> [0] | Some n \<Rightarrow> 1 # tree_wire wire n)"

definition subtree_wire :: "('v \<Rightarrow> bytes) \<Rightarrow> 'v subtree \<Rightarrow> bytes" where
  "subtree_wire wire t = (case t of None \<Rightarrow> [0] | Some n \<Rightarrow> 1 # tree_wire wire n)"

lemma subtree_wire_simps [simp]:
  "subtree_wire wire None = [0]"
  "subtree_wire wire (Some (Node v l r)) = 1 # wire v @ subtree_wire wire l @ subtree_wire wire r"
  by (simp_all add: subtree_wire_def)

lemma marker_encode_wire: "marker_encode m bs = Ok (bs @ [case m of Leaf \<Rightarrow> 0 | Inner \<Rightarrow> 1])"
  by (cases m) (simp_all add: marker_encode_def u8_encode_def)

lemma marker_decode_wire:
  "marker_decode (Cursor (pre @ 0 # post) (length pre)) = Ok (Leaf, Cursor (pre @ 0 # post) (Suc (length pre)))"
  "marker_decode (Cursor (pre @ 1 # post) (length pre)) = Ok (Inner, Cursor (pre @ 1 # post) (Suc (length pre)))"
  by (simp_all add: marker_decode_def u8_decode_def read_exact_def)

lemma store_child:
  "store_at (store_at t p (Some (Node v l r))) (p @ [False]) l' = store_at t p (Some (Node v l' r))"
  "store_at (store_at t p (Some (Node v l r))) (p @ [True]) r' = store_at t p (Some (Node v l r'))"
  by (induction t p "Some (Node v l r)" rule: store_at.induct) auto

lemma store_None: "lookup t p = None \<Longrightarrow> store_at t p None = t"
  by (induction t p "None :: 'a subtree" rule: store_at.induct) (auto split: if_splits)

lemma lookup_store_other:
  "\<not> prefix p q \<Longrightarrow> lookup (store_at t p s) q = lookup t q"
proof (induction t p s arbitrary: q rule: store_at.induct)
  case (3 v l r b path s)
  then show ?case by (cases q) auto
qed auto

lemma lookup_store_child: "lookup (store_at t p (Some (Node_new v))) (p @ [b]) = None"
  by (induction t p "Some (Node_new v)" rule: store_at.induct) auto

definition tree_values :: "'v subtree \<Rightarrow> 'v set" where
  "tree_values t = (case t of None \<Rightarrow> {} | Some n \<Rightarrow> set_node n)"

lemma tree_values_simps [simp]: "tree_values None = {}" "tree_values (Some (Node v l r)) = insert v (tree_values l \<union> tree_values r)"
  by (auto simp: tree_values_def split: option.splits)

text \<open>The places on the decoding stack are empty, and no place lies below an earlier one.\<close>

definition open_places :: "'v subtree \<Rightarrow> path list \<Rightarrow> bool" where
  "open_places t ps \<longleftrightarrow> (\<forall>p \<in> set ps. lookup t p = None) \<and> sorted_wrt (\<lambda>p q. \<not> prefix p q) ps"

lemma open_places_push:
  assumes "open_places t (p # ps)"
  shows "open_places (store_at t p (Some (Node_new v))) ((p @ [False]) # (p @ [True]) # ps)"
proof -
  have "\<not> prefix (p @ [b]) q" "lookup (store_at t p (Some (Node_new v))) q = None" if "q \<in> set ps" for b q
    using assms that append_prefixD [of p "[b]" q] by (auto simp: open_places_def lookup_store_other)
  then show ?thesis using assms by (auto simp: open_places_def lookup_store_child)
qed

context codec
begin

lemma encode_stack_wire:
  assumes "\<forall>t \<in> set stack. \<forall>v \<in> tree_values t. valid v"
  shows "encode_stack enc stack bs = Ok (bs @ concat (map (subtree_wire wire) stack))"
  using assms
proof (induction "sum_list (map places stack)" arbitrary: stack bs rule: less_induct)
  case less
  show ?case
  proof (cases stack)
    case (Cons t stack')
    show ?thesis
    proof (cases t rule: subtree_cases)
      case 1
      with Cons less show ?thesis by (simp add: marker_encode_wire)
    next
      case (2 v l r)
      with less.prems Cons less.hyps [of "l # r # stack'"] show ?thesis by (simp add: marker_encode_wire enc_wire)
    qed
  qed simp
qed

lemma decode_stack_wire:
  assumes "\<forall>t \<in> set ts. \<forall>v \<in> tree_values t. valid v" and "length ps = length ts" and "open_places out ps"
    and "length (pre @ concat (map (subtree_wire wire) ts) @ post) < usize_bound"
  shows "decode_stack dec out ps (Cursor (pre @ concat (map (subtree_wire wire) ts) @ post) (length pre)) =
    Some (Ok (fold (\<lambda>(p, t) out. store_at out p t) (zip ps ts) out,
      Cursor (pre @ concat (map (subtree_wire wire) ts) @ post) (length pre + length (concat (map (subtree_wire wire) ts)))))"
  using assms
proof (induction "sum_list (map places ts)" arbitrary: ts ps out pre rule: less_induct)
  case less
  show ?case
  proof (cases ts)
    case Nil
    with less.prems show ?thesis by (simp add: decode_stack.simps)
  next
    case (Cons t ts')
    with less.prems(2) obtain p ps' where ps: "ps = p # ps'" "length ps' = length ts'" by (cases ps) auto
    let ?rest = "concat (map (subtree_wire wire) ts') @ post"
    show ?thesis
    proof (cases t rule: subtree_cases)
      case 1
      have "open_places out ps'" "store_at out p None = out"
        using less.prems(3) by (auto simp: ps open_places_def store_None)
      with less.hyps [of ts' ps' out "pre @ [0]"] less.prems ps Cons 1 show ?thesis
        by (subst decode_stack.simps) (simp add: marker_decode_wire)
    next
      case (2 v l r)
      let ?pre = "pre @ 1 # wire v" and ?ts = "l # r # ts'" and ?out = "store_at out p (Some (Node_new v))"
      have "dec (Cursor ((pre @ [1]) @ wire v @ (subtree_wire wire l @ subtree_wire wire r @ ?rest)) (length (pre @ [1]))) =
          Ok (v, Cursor ((pre @ [1]) @ wire v @ (subtree_wire wire l @ subtree_wire wire r @ ?rest)) (length (pre @ [1]) + length (wire v)))"
        using less.prems Cons 2 by (intro dec_wire) simp_all
      moreover have "open_places ?out ((p @ [False]) # (p @ [True]) # ps')"
        using less.prems(3) open_places_push by (simp add: ps)
      moreover have "store_at (store_at ?out (p @ [False]) l) (p @ [True]) r = store_at out p (Some (Node v l r))"
        by (simp add: Node_new_def store_child)
      ultimately show ?thesis
        using less.hyps [of ?ts "(p @ [False]) # (p @ [True]) # ps'" ?out ?pre] less.prems ps Cons 2
        by (subst decode_stack.simps) (simp add: marker_decode_wire add.assoc)
    qed
  qed
qed

end

text \<open>Trees whose tree_values have a codec have one.\<close>

locale tree_codec = codec

sublocale tree_codec \<subseteq> tree: codec "tree_encode enc" "tree_decode dec" "\<lambda>t. \<forall>v \<in> tree_values (root t). valid v"
  "\<lambda>t. subtree_wire wire (root t)"
proof
  fix t :: "'a binary_tree" and bs pre post
  assume v: "\<forall>v \<in> tree_values (root t). valid v"
  show "tree_encode enc t bs = Ok (bs @ subtree_wire wire (root t))"
    using v encode_stack_wire
    by (cases "root t" rule: subtree_cases) (simp_all add: tree_encode_def node_encode_def marker_encode_wire enc_wire)
  assume len: "length (pre @ subtree_wire wire (root t) @ post) < usize_bound"
  show "tree_decode dec (Cursor (pre @ subtree_wire wire (root t) @ post) (length pre)) =
      Ok (t, Cursor (pre @ subtree_wire wire (root t) @ post) (length pre + length (subtree_wire wire (root t))))"
  proof (cases "root t" rule: subtree_cases)
    case 1
    then show ?thesis by (cases t) (simp add: tree_decode_def marker_decode_wire BinaryTree_default_def)
  next
    case (2 x l r)
    let ?rest = "subtree_wire wire l @ subtree_wire wire r @ post"
    have "dec (Cursor ((pre @ [1]) @ wire x @ ?rest) (length (pre @ [1]))) =
        Ok (x, Cursor ((pre @ [1]) @ wire x @ ?rest) (length (pre @ [1]) + length (wire x)))"
      using v len 2 by (intro dec_wire) simp_all
    moreover have "open_places (Some (Node_new x)) [[False], [True]]" by (simp add: open_places_def)
    ultimately show ?thesis
      using decode_stack_wire [of "[l, r]" "[[False], [True]]" "Some (Node_new x)" "pre @ 1 # wire x" post] v len 2
      by (cases t) (simp add: tree_decode_def node_decode_def marker_decode_wire Node_new_def add.assoc)
  qed
qed

interpretation u8: tree_codec u8_encode u8_decode "\<lambda>_. True" "\<lambda>x. [x]"
  by (rule tree_codec.intro) (rule u8.codec_axioms)


text \<open>The decoding loop returns on every input, whatever the value decoder does as long as it reads forward.\<close>

definition reads_forward :: "'v decoder \<Rightarrow> bool" where
  "reads_forward dec \<longleftrightarrow> (\<forall>c x c'. dec c = Ok (x, c') \<longrightarrow> buffer c' = buffer c \<and> position c \<le> position c')"

lemma marker_decode_OkD:
  "marker_decode c = Ok (m, c') \<Longrightarrow> buffer c' = buffer c \<and> position c' = Suc (position c) \<and> position c < length (buffer c)"
  by (auto simp: marker_decode_def u8_decode_def read_exact_def split: if_splits)

lemma decode_stack_returns:
  assumes "reads_forward dec"
  shows "\<exists>r. decode_stack dec out ps c = Some r"
proof (induction "length (buffer c) - position c" arbitrary: out ps c rule: less_induct)
  case less
  have step: "\<exists>r. decode_stack dec out' ps' c' = Some r"
    if "buffer c' = buffer c" "position c < position c'" "position c < length (buffer c)" for out' ps' c'
    using that by (intro less) simp
  show ?case
  proof (cases ps)
    case Nil
    then show ?thesis by (simp add: decode_stack.simps)
  next
    case (Cons p ps')
    show ?thesis
    proof (cases "marker_decode c")
      case (Ok mc)
      then obtain m c1 where mc: "mc = (m, c1)" "marker_decode c = Ok (m, c1)" by (cases mc) simp
      note c1 = marker_decode_OkD [OF mc(2)]
      show ?thesis
      proof (cases m)
        case Leaf
        with Cons mc step [of c1 out ps'] c1 show ?thesis by (subst decode_stack.simps) simp
      next
        case Inner
        show ?thesis
        proof (cases "dec c1")
          case (Ok vc)
          then have "buffer (snd vc) = buffer c1" "position c1 \<le> position (snd vc)"
            using assms unfolding reads_forward_def by (metis prod.collapse)+
          with Cons mc Inner Ok step [of "snd vc"] c1 show ?thesis by (subst decode_stack.simps) simp
        qed (subst decode_stack.simps, simp add: Cons mc Inner)+
      qed
    qed (subst decode_stack.simps, simp add: Cons)+
  qed
qed

section \<open>Properties\<close>

text \<open>
  C35. The binary tree implements a partial map from paths whose domain is closed under prefixes: \<open>insert\<close> adds exactly one
  entry and leaves every other lookup as it was, and it fails, handing the value back, exactly when the path has a value
  already or when the path to its parent has none.
\<close>

theorem tree_insert_refines_map:
  "case tree_insert t path v of
     Ok t' \<Rightarrow> tree_get t path = None \<and> (if path = [] then True else tree_get t (butlast path) \<noteq> None) \<and> tree_get t' = (tree_get t)(path \<mapsto> v)
   | Err (InsertNonEmptyNode w) \<Rightarrow> w = v \<and> tree_get t path \<noteq> None
   | Err (UnreachableNode w) \<Rightarrow> w = v \<and> path \<noteq> [] \<and> tree_get t path = None \<and> tree_get t (butlast path) = None
   | _ \<Rightarrow> False"
  using lookup_store [of path "root t" v] by (auto simp: tree_insert_at insert_at_refines tree_get_lookup fun_eq_iff)


context tree_codec
begin

lemma tree_get_roundtrip:
  assumes "\<forall>v \<in> tree_values (root t). valid v" and "length (subtree_wire wire (root t)) < usize_bound"
  shows "and_then (get_encoded_with_param (tree_encode enc) t) (get_decoded_with_param (tree_decode dec)) = Ok t"
  using assms by (rule tree.get_roundtrip)

end

text \<open>
  C36. A tree of values that have a codec survives a round trip through the pre-order wire format.
\<close>

theorem tree_roundtrip:
  assumes "codec enc dec valid wire" and "\<forall>v \<in> tree_values (root t). valid v"
    and "length (subtree_wire wire (root t)) < usize_bound"
  shows "and_then (get_encoded_with_param (tree_encode enc) t) (get_decoded_with_param (tree_decode dec)) = Ok t"
  using tree_codec.tree_get_roundtrip [OF tree_codec.intro [OF assms(1)]] assms(2,3) by blast


theorem tree_roundtrip_witness:
  "and_then (get_encoded_with_param (tree_encode u8_encode) (BinaryTree (Some (Node 1 None (Some (Node 2 None None))))))
    (get_decoded_with_param (tree_decode u8_decode)) = Ok (BinaryTree (Some (Node (1 :: byte) None (Some (Node 2 None None)))))"
  by (rule tree_roundtrip [OF u8.codec_axioms]) (simp_all add: usize_bound_def)

lemma decode_stack_no_diverge:
  assumes "reads_forward dec" and "\<And>c. dec c \<noteq> Diverge"
  shows "\<exists>r. decode_stack dec out ps c = Some r \<and> r \<noteq> Diverge"
proof -
  have marker: "marker_decode c \<noteq> Diverge" for c
    by (auto simp: marker_decode_def u8_decode_def read_exact_def)
  have "dec = dec0 \<longrightarrow> r \<noteq> Diverge" if "decode_stack dec0 out ps c = Some r" for dec0 out ps c r
  proof (rule decode_stack.raw_induct [where P = "\<lambda>dec0 out ps c r. dec = dec0 \<longrightarrow> r \<noteq> Diverge", OF _ that])
    fix f :: "'a decoder \<Rightarrow> 'a subtree \<Rightarrow> path list \<Rightarrow> cursor \<Rightarrow> ('a subtree \<times> cursor, codec_error) outcome option"
      and dec0 out stack c y
    assume IH: "\<And>dec0 out stack c y. f dec0 out stack c = Some y \<Longrightarrow> dec = dec0 \<longrightarrow> y \<noteq> Diverge"
      and eq: "(case stack of [] \<Rightarrow> Some (Ok (out, c))
        | elem # stack \<Rightarrow> (case marker_decode c of
            Ok mc \<Rightarrow> (case fst mc of
                Leaf \<Rightarrow> f dec0 out stack (snd mc)
              | Inner \<Rightarrow> (case dec0 (snd mc) of
                  Ok vc \<Rightarrow> f dec0 (store_at out elem (Some (Node_new (fst vc)))) ((elem @ [False]) # (elem @ [True]) # stack) (snd vc)
                | Err e \<Rightarrow> Some (Err e) | Panic \<Rightarrow> Some Panic | Diverge \<Rightarrow> Some Diverge))
          | Err e \<Rightarrow> Some (Err e) | Panic \<Rightarrow> Some Panic | Diverge \<Rightarrow> Some Diverge)) = Some y"
    show "dec = dec0 \<longrightarrow> y \<noteq> Diverge"
      using eq IH marker [of c] assms(2) [of "snd mc" for mc]
      by (auto split: list.splits outcome.splits codec_marker.splits)
  qed
  then show ?thesis using decode_stack_returns [OF assms(1), of out ps c] by blast
qed

text \<open>
  C37. Decoding a tree ends on every input: whatever the bytes are, the loop over the stack of open places returns, as long as
  the decoder of the values returns and does not move the cursor backwards.
\<close>

theorem tree_decode_terminates:
  assumes "reads_forward dec" and "\<And>c. dec c \<noteq> Diverge"
  shows "tree_decode dec c \<noteq> Diverge"
proof -
  have marker: "marker_decode c \<noteq> Diverge" for c
    by (auto simp: marker_decode_def u8_decode_def read_exact_def)
  have stack: "returned (decode_stack dec out ps c) \<noteq> Diverge" for out ps c
    using decode_stack_no_diverge [OF assms, of out ps c] by auto
  have node: "node_decode dec c \<noteq> Diverge" for c
  proof (cases "dec c")
    case (Ok vc)
    show ?thesis
      using stack [of "Some (Node_new (fst vc))" "[[False], [True]]" "snd vc"]
      by (cases "returned (decode_stack dec (Some (Node_new (fst vc))) [[False], [True]] (snd vc))")
        (auto simp: node_decode_def Ok split_beta split: option.splits)
  qed (use assms(2) in \<open>simp_all add: node_decode_def\<close>)
  show ?thesis
  proof (cases "marker_decode c")
    case (Ok mc)
    then show ?thesis using node [of "snd mc"]
      by (cases "node_decode dec (snd mc)"; cases "fst mc") (auto simp: tree_decode_def split_beta)
  qed (use marker in \<open>simp_all add: tree_decode_def\<close>)
qed


theorem tree_decode_terminates_witness: "tree_decode u8_decode (Cursor [1, 5, 1, 6, 0] 0) \<noteq> Diverge"
  by (rule tree_decode_terminates) (auto simp: reads_forward_def u8_decode_def read_exact_def split: if_splits)

end
