(* ===== verification/Idpf.thy ===== *)
theory Idpf
  imports VdafError Prng "HOL-Library.Sublist"
begin

text \<open>
  The incremental distributed point function of \<^verbatim>\<open>src/idpf.rs\<close>: inputs as bit strings, the interface of the
  values at the nodes of the tree, operations on seeds, key generation, evaluation with a cache, the three
  caches, and the wire format of the public share.
\<close>

section \<open>Inputs\<close>

type_synonym idpf_input = "bool list"

text \<open>Bytes hold bits from the most significant to the least.\<close>

definition input_from_bytes :: "bytes \<Rightarrow> idpf_input" where
  "input_from_bytes bs = concat (map (\<lambda>b. map (\<lambda>i. bit b (7 - i)) [0..<8]) bs)"

definition input_from_bools :: "bool list \<Rightarrow> idpf_input" where
  "input_from_bools bools = bools"

definition clone_with_suffix :: "idpf_input \<Rightarrow> bool list \<Rightarrow> idpf_input" where
  "clone_with_suffix inp sfx = inp @ sfx"

definition input_to_bytes :: "idpf_input \<Rightarrow> bytes" where
  "input_to_bytes inp =
     map (\<lambda>c. horner_sum of_bool 2 (rev (c @ replicate (8 - length c) False))) (chunks 8 inp)"

text \<open>\<open>self.index[..=level]\<close> panics out of range.\<close>

definition input_prefix :: "idpf_input \<Rightarrow> nat \<Rightarrow> (idpf_input, 'e) outcome" where
  "input_prefix inp level = (if level < length inp then Ok (take (Suc level) inp) else Panic)"

definition input_get :: "idpf_input \<Rightarrow> nat \<Rightarrow> bool option" where
  "input_get inp level = (if level < length inp then Some (inp ! level) else None)"

section \<open>Values\<close>

text \<open>The methods of \<open>IdpfValue\<close>; \<open>generate\<close> has its source of bytes applied.\<close>

record ('p, 'v, 's, 'e) idpf_value =
  generate :: "'p \<Rightarrow> 's \<Rightarrow> ('v \<times> 's, 'e) outcome"
  value_zero :: "'p \<Rightarrow> 'v"
  value_select :: "'v \<Rightarrow> 'v \<Rightarrow> choice \<Rightarrow> ('v, 'e) outcome"
  value_add :: "'v \<Rightarrow> 'v \<Rightarrow> ('v, 'e) outcome"
  value_sub :: "'v \<Rightarrow> 'v \<Rightarrow> ('v, 'e) outcome"
  conditional_negate :: "'v \<Rightarrow> choice \<Rightarrow> 'v"

definition field_value :: "'f::field field_element \<Rightarrow> ('s, 'e) rng \<Rightarrow> (unit, 'f, 's, 'e) idpf_value" where
  "field_value F fill = \<lparr>
     generate = (\<lambda>_. generate_random F fill),
     value_zero = (\<lambda>_. 0),
     value_select = (\<lambda>a b c. Ok (select a b c)),
     value_add = (\<lambda>a b. Ok (a + b)),
     value_sub = (\<lambda>a b. Ok (a - b)),
     conditional_negate = (\<lambda>a c. select a (- a) c) \<rparr>"

datatype ('vi, 'vl) idpf_output_share = InnerShare 'vi | LeafShare 'vl

fun output_share_merge ::
  "('pi, 'vi, 's, idpf_error) idpf_value \<Rightarrow> ('pl, 'vl, 's, idpf_error) idpf_value \<Rightarrow>
   ('vi, 'vl) idpf_output_share \<Rightarrow> ('vi, 'vl) idpf_output_share \<Rightarrow> (('vi, 'vl) idpf_output_share, idpf_error) outcome" where
  "output_share_merge VI VL (InnerShare x) (InnerShare y) = and_then (value_add VI x y) (\<lambda>z. Ok (InnerShare z))"
| "output_share_merge VI VL (LeafShare x) (LeafShare y) = and_then (value_add VL x y) (\<lambda>z. Ok (LeafShare z))"
| "output_share_merge VI VL _ _ = Err MismatchedLevel"

section \<open>Seeds\<close>

definition xor_seeds :: "seed \<Rightarrow> seed \<Rightarrow> seed" where
  "xor_seeds l r = map2 (XOR) l r"

definition and_seeds :: "seed \<Rightarrow> seed \<Rightarrow> seed" where
  "and_seeds l r = map2 (AND) l r"

definition or_seeds :: "seed \<Rightarrow> seed \<Rightarrow> seed" where
  "or_seeds l r = map2 (OR) l r"

definition control_bit_to_seed_mask :: "choice \<Rightarrow> seed" where
  "control_bit_to_seed_mask control = replicate 16 (- (of_bool control))"

definition conditional_xor_seeds :: "seed \<Rightarrow> seed \<Rightarrow> choice \<Rightarrow> seed" where
  "conditional_xor_seeds normal_input switched_input control =
     xor_seeds normal_input (and_seeds switched_input (control_bit_to_seed_mask control))"

definition conditional_select_seed :: "choice \<Rightarrow> seed \<times> seed \<Rightarrow> seed" where
  "conditional_select_seed sel = (\<lambda>(s0, s1).
     or_seeds (and_seeds (control_bit_to_seed_mask (\<not> sel)) s0) (and_seeds (control_bit_to_seed_mask sel) s1))"

definition conditional_swap_seed :: "seed \<Rightarrow> seed \<Rightarrow> choice \<Rightarrow> seed \<times> seed" where
  "conditional_swap_seed lhs rhs c = (map2 (\<lambda>a b. select a b c) lhs rhs, map2 (\<lambda>a b. select b a c) lhs rhs)"

section \<open>One level of the tree\<close>

record 'v idpf_correction_word =
  cw_seed :: seed
  cw_control_bits :: "choice \<times> choice"
  cw_value :: 'v

text \<open>The control bits are the lowest bits of the two seeds, which are then cleared.\<close>

definition idpf_extend :: "primitives \<Rightarrow> bytes \<Rightarrow> seed \<Rightarrow> ((seed \<times> seed) \<times> choice \<times> choice, 'e) outcome" where
  "idpf_extend prim key s =
     and_then (SeedStreamFixedKeyAes128_fill prim 16 (with_seed key s)) (\<lambda>(s0, st).
     and_then (SeedStreamFixedKeyAes128_fill prim 16 st) (\<lambda>(s1, st).
       Ok ((s0[0 := s0 ! 0 AND 0xfe], s1[0 := s1 ! 0 AND 0xfe]), s0 ! 0 AND 1 \<noteq> 0, s1 ! 0 AND 1 \<noteq> 0)))"

definition idpf_convert ::
  "primitives \<Rightarrow> ('p, 'v, fixed_key_stream, 'e) idpf_value \<Rightarrow> seed \<Rightarrow> bytes \<Rightarrow> 'p \<Rightarrow> (seed \<times> 'v, 'e) outcome" where
  "idpf_convert prim V s key param =
     and_then (SeedStreamFixedKeyAes128_fill prim 16 (with_seed key s)) (\<lambda>(next_seed, st).
     and_then (generate V param st) (\<lambda>(v, st). Ok (next_seed, v)))"

definition generate_correction_word ::
  "primitives \<Rightarrow> ('p, 'v, fixed_key_stream, 'e) idpf_value \<Rightarrow> choice \<Rightarrow> 'v \<Rightarrow> 'p \<Rightarrow> seed \<times> seed \<Rightarrow> choice \<times> choice \<Rightarrow>
   bytes \<Rightarrow> bytes \<Rightarrow> ('v idpf_correction_word \<times> (seed \<times> seed) \<times> choice \<times> choice, 'e) outcome" where
  "generate_correction_word prim V input_bit v param keys control_bits extend_key convert_key =
     and_then (idpf_extend prim extend_key (fst keys)) (\<lambda>(seed_0, control_bits_0).
     and_then (idpf_extend prim extend_key (snd keys)) (\<lambda>(seed_1, control_bits_1).
     let keep = input_bit; lose = \<not> input_bit;
         cw_s = xor_seeds (conditional_select_seed lose seed_0) (conditional_select_seed lose seed_1);
         cw_t = (xor_bool (xor_bool (xor_bool (fst control_bits_0) (fst control_bits_1)) input_bit) True,
                 xor_bool (xor_bool (snd control_bits_0) (snd control_bits_1)) input_bit);
         cw_t_keep = select (fst cw_t) (snd cw_t) keep;
         t0_keep = select (fst control_bits_0) (snd control_bits_0) keep;
         t1_keep = select (fst control_bits_1) (snd control_bits_1) keep;
         t0 = xor_bool t0_keep (cw_t_keep \<and> fst control_bits);
         t1 = xor_bool t1_keep (cw_t_keep \<and> snd control_bits);
         s0 = conditional_xor_seeds (conditional_select_seed keep seed_0) cw_s (fst control_bits);
         s1 = conditional_xor_seeds (conditional_select_seed keep seed_1) cw_s (snd control_bits)
     in and_then (idpf_convert prim V s0 convert_key param) (\<lambda>(new_key_0, elements_0).
        and_then (idpf_convert prim V s1 convert_key param) (\<lambda>(new_key_1, elements_1).
        and_then (value_sub V v elements_0) (\<lambda>d.
        and_then (value_add V d elements_1) (\<lambda>cw_v.
          Ok (\<lparr>cw_seed = cw_s, cw_control_bits = cw_t, cw_value = conditional_negate V cw_v t1\<rparr>,
              (new_key_0, new_key_1), (t0, t1))))))))"

text \<open>The share, and the new key and control bit.\<close>

definition idpf_eval_next ::
  "primitives \<Rightarrow> ('p, 'v, fixed_key_stream, 'e) idpf_value \<Rightarrow> bool \<Rightarrow> 'p \<Rightarrow> seed \<Rightarrow> choice \<Rightarrow> 'v idpf_correction_word \<Rightarrow>
   choice \<Rightarrow> bytes \<Rightarrow> bytes \<Rightarrow> ('v \<times> seed \<times> choice, 'e) outcome" where
  "idpf_eval_next prim V is_leader param key control_bit cw input_bit extend_key convert_key =
     and_then (idpf_extend prim extend_key key) (\<lambda>(seeds, control_bits).
     let s0 = conditional_xor_seeds (fst seeds) (cw_seed cw) control_bit;
         t0 = xor_bool (fst control_bits) (fst (cw_control_bits cw) \<and> control_bit);
         s1 = conditional_xor_seeds (snd seeds) (cw_seed cw) control_bit;
         t1 = xor_bool (snd control_bits) (snd (cw_control_bits cw) \<and> control_bit);
         seed_corrected = conditional_select_seed input_bit (s0, s1);
         t = select t0 t1 input_bit
     in and_then (idpf_convert prim V seed_corrected convert_key param) (\<lambda>(new_key, elements).
        and_then (value_select V (value_zero V param) (cw_value cw) t) (\<lambda>c.
        and_then (value_add V elements c) (\<lambda>out.
          Ok (conditional_negate V out (\<not> is_leader), new_key, t)))))"

section \<open>Key generation\<close>

record ('vi, 'vl) idpf_public_share =
  inner_correction_words :: "'vi idpf_correction_word list"
  leaf_correction_word :: "'vl idpf_correction_word"

text \<open>An instance holds the parameters of its two types of values; here also the types' methods.\<close>

record ('pi, 'vi, 'pl, 'vl) idpf =
  inner_values :: "('pi, 'vi, fixed_key_stream, idpf_error) idpf_value"
  leaf_values :: "('pl, 'vl, fixed_key_stream, idpf_error) idpf_value"
  inner_node_value_parameter :: 'pi
  leaf_node_value_parameter :: 'pl

definition extend_dst :: bytes where
  "extend_dst = [VERSION, 1, 0, 0, 0, 0, 0, 0]"

definition convert_dst :: bytes where
  "convert_dst = [VERSION, 1, 0, 0, 0, 0, 0, 1]"

definition gen_with_random ::
  "primitives \<Rightarrow> ('pi, 'vi, 'pl, 'vl) idpf \<Rightarrow> idpf_input \<Rightarrow> 'vi list \<Rightarrow> 'vl \<Rightarrow> bytes \<Rightarrow> seed \<times> seed \<Rightarrow>
   (('vi, 'vl) idpf_public_share \<times> seed \<times> seed, idpf_error) outcome" where
  "gen_with_random prim I inp values leaf_value bindr random =
     and_then (XofFixedKeyAes128Key_new prim extend_dst bindr) (\<lambda>extend_key.
     and_then (XofFixedKeyAes128Key_new prim convert_dst bindr) (\<lambda>convert_key.
     if inp = [] then Panic
     else
       let bits = length inp in
       and_then
         (for_each (\<lambda>(level, v) (cws, keys, control_bits).
            if bits - 1 \<le> level then Err IdpfInvalidParameter
            else and_then (generate_correction_word prim (inner_values I) (inp ! level) v (inner_node_value_parameter I)
                             keys control_bits extend_key convert_key) (\<lambda>(cw, keys, control_bits).
                   Ok (cws @ [cw], keys, control_bits)))
            (zip [0..<length values] values) ([], random, (False, True)))
         (\<lambda>(cws, keys, control_bits).
            if length cws \<noteq> bits - 1 then Err IdpfInvalidParameter
            else and_then (generate_correction_word prim (leaf_values I) (inp ! (bits - 1)) leaf_value
                             (leaf_node_value_parameter I) keys control_bits extend_key convert_key) (\<lambda>(cw, _).
                   Ok (\<lparr>inner_correction_words = cws, leaf_correction_word = cw\<rparr>, random)))))"

text \<open>\<open>getrandom\<close> yields two seeds or fails.\<close>

definition idpf_gen ::
  "primitives \<Rightarrow> (seed \<times> seed) option \<Rightarrow> ('pi, 'vi, 'pl, 'vl) idpf \<Rightarrow> idpf_input \<Rightarrow> 'vi list \<Rightarrow> 'vl \<Rightarrow> bytes \<Rightarrow>
   (('vi, 'vl) idpf_public_share \<times> seed \<times> seed, vdaf_error) outcome" where
  "idpf_gen prim getrandom I inp values leaf_value bindr =
     (if inp = [] then Err (VdafIdpf IdpfInvalidParameter)
      else case getrandom of
             None \<Rightarrow> Err VdafGetRandom
           | Some random \<Rightarrow> map_err VdafIdpf (gen_with_random prim I inp values leaf_value bindr random))"

section \<open>Caches\<close>

text \<open>\<open>cache_get\<close> and \<open>cache_insert\<close> are the methods of \<open>IdpfCache\<close>; a control bit is stored as a byte.\<close>

record 'c idpf_cache =
  cache_get :: "'c \<Rightarrow> bool list \<Rightarrow> (seed \<times> byte) option"
  cache_insert :: "bool list \<Rightarrow> seed \<times> byte \<Rightarrow> 'c \<Rightarrow> 'c"

definition NoCache :: "unit idpf_cache" where
  "NoCache = \<lparr>cache_get = (\<lambda>_ _. None), cache_insert = (\<lambda>_ _ c. c)\<rparr>"

text \<open>\<open>entry(k).or_insert(v)\<close> keeps a value that is already there.\<close>

definition HashMapCache :: "(bool list \<rightharpoonup> seed \<times> byte) idpf_cache" where
  "HashMapCache = \<lparr>
     cache_get = (\<lambda>m k. m k),
     cache_insert = (\<lambda>k v m. case m k of Some _ \<Rightarrow> m | None \<Rightarrow> m(k \<mapsto> v)) \<rparr>"

record ring_buffer =
  ring :: "(bool list \<times> seed \<times> byte) list"
  ring_capacity :: nat

definition RingBufferCache_new :: "nat \<Rightarrow> ring_buffer" where
  "RingBufferCache_new capacity = \<lparr>ring = [], ring_capacity = max capacity 1\<rparr>"

definition RingBufferCache :: "ring_buffer idpf_cache" where
  "RingBufferCache = \<lparr>
     cache_get = (\<lambda>c k. map_option snd (find (\<lambda>e. fst e = k) (rev (ring c)))),
     cache_insert = (\<lambda>k v c.
       let r = if length (ring c) = ring_capacity c then tl (ring c) else ring c
       in c\<lparr>ring := r @ [(k, v)]\<rparr>) \<rparr>"

section \<open>Evaluation\<close>

definition choice_from_u8 :: "byte \<Rightarrow> (choice, 'e) outcome" where
  "choice_from_u8 b = (if b = 0 then Ok False else if b = 1 then Ok True else Panic)"

definition eval_from_node ::
  "primitives \<Rightarrow> ('pi, 'vi, 'pl, 'vl) idpf \<Rightarrow> bool \<Rightarrow> ('vi, 'vl) idpf_public_share \<Rightarrow> nat \<Rightarrow> seed \<Rightarrow> choice \<Rightarrow>
   idpf_input \<Rightarrow> bytes \<Rightarrow> 'c idpf_cache \<Rightarrow> 'c \<Rightarrow> (('vi, 'vl) idpf_output_share \<times> 'c, idpf_error) outcome" where
  "eval_from_node prim I is_leader public_share start_level key control_bit pfx bindr K cache =
     (let bits = length (inner_correction_words public_share) + 1 in
      and_then (XofFixedKeyAes128Key_new prim extend_dst bindr) (\<lambda>extend_key.
      and_then (XofFixedKeyAes128Key_new prim convert_dst bindr) (\<lambda>convert_key.
      if bits - 1 < start_level \<or> length pfx < start_level then Panic
      else
        and_then
          (for_each (\<lambda>((cw, input_bit), level) (last_inner_output, key, control_bit, cache).
             and_then (idpf_eval_next prim (inner_values I) is_leader (inner_node_value_parameter I) key control_bit cw
                         input_bit extend_key convert_key) (\<lambda>(out, key, control_bit).
               Ok (Some out, key, control_bit, cache_insert K (take (Suc level) pfx) (key, of_bool control_bit) cache)))
             (zip (zip (drop start_level (inner_correction_words public_share)) (drop start_level pfx))
                [start_level..<bits - 1])
             (None, key, control_bit, cache))
          (\<lambda>(last_inner_output, key, control_bit, cache).
             if length pfx = bits
             then and_then (idpf_eval_next prim (leaf_values I) is_leader (leaf_node_value_parameter I) key control_bit
                              (leaf_correction_word public_share) (pfx ! (bits - 1)) extend_key convert_key)
                    (\<lambda>(out, _). Ok (LeafShare out, cache))
             else (case last_inner_output of Some out \<Rightarrow> Ok (InnerShare out, cache) | None \<Rightarrow> Panic)))))"

text \<open>The longest non-empty prefix of a node with a cached key.\<close>

fun cached_node :: "'c idpf_cache \<Rightarrow> 'c \<Rightarrow> idpf_input \<Rightarrow> nat \<Rightarrow> (nat \<times> seed \<times> byte) option" where
  "cached_node K cache pfx 0 = None"
| "cached_node K cache pfx (Suc n) =
     (case cache_get K cache (take (Suc n) pfx) of
        Some kb \<Rightarrow> Some (Suc n, kb)
      | None \<Rightarrow> cached_node K cache pfx n)"

definition idpf_eval ::
  "primitives \<Rightarrow> ('pi, 'vi, 'pl, 'vl) idpf \<Rightarrow> nat \<Rightarrow> ('vi, 'vl) idpf_public_share \<Rightarrow> seed \<Rightarrow> idpf_input \<Rightarrow> bytes \<Rightarrow>
   'c idpf_cache \<Rightarrow> 'c \<Rightarrow> (('vi, 'vl) idpf_output_share \<times> 'c, idpf_error) outcome" where
  "idpf_eval prim I agg_id public_share key pfx bindr K cache =
     (let bits = length (inner_correction_words public_share) + 1;
          is_leader = (agg_id = 0)
      in if 1 < agg_id then Err IdpfInvalidParameter
         else if pfx = [] then Err IdpfInvalidParameter
         else if bits < length pfx then Err IdpfInvalidParameter
         else (case cached_node K cache pfx (length pfx - 1) of
                 Some (level, k, b) \<Rightarrow>
                   and_then (choice_from_u8 b) (\<lambda>control_bit.
                     eval_from_node prim I is_leader public_share level k control_bit pfx bindr K cache)
               | None \<Rightarrow>
                   eval_from_node prim I is_leader public_share 0 key (\<not> is_leader) pfx bindr K cache))"

section \<open>Wire format of the public share\<close>

definition pack_lsb0 :: "bool list \<Rightarrow> bytes" where
  "pack_lsb0 bs = map (horner_sum of_bool 2) (chunks 8 bs)"

definition unpack_lsb0 :: "bytes \<Rightarrow> bool list" where
  "unpack_lsb0 bs = concat (map (\<lambda>b. map (bit b) [0..<8]) bs)"

definition control_bits_list :: "('vi, 'vl) idpf_public_share \<Rightarrow> bool list" where
  "control_bits_list p =
     concat (map (\<lambda>cw. [fst (cw_control_bits cw), snd (cw_control_bits cw)]) (inner_correction_words p)) @
     [fst (cw_control_bits (leaf_correction_word p)), snd (cw_control_bits (leaf_correction_word p))]"

definition public_share_encode ::
  "'vi encoder \<Rightarrow> 'vl encoder \<Rightarrow> ('vi, 'vl) idpf_public_share encoder" where
  "public_share_encode enc_i enc_l p bs =
     and_then
       (for_each (\<lambda>cw bs. and_then (seed_encode (cw_seed cw) bs) (enc_i (cw_value cw)))
          (inner_correction_words p) (bs @ pack_lsb0 (control_bits_list p)))
       (\<lambda>bs. and_then (seed_encode (cw_seed (leaf_correction_word p)) bs) (enc_l (cw_value (leaf_correction_word p))))"

definition correction_word_decode :: "'v decoder \<Rightarrow> choice \<times> choice \<Rightarrow> 'v idpf_correction_word decoder" where
  "correction_word_decode dec control_bits c =
     and_then (seed_decode 16 c) (\<lambda>(s, c).
     and_then (dec c) (\<lambda>(v, c).
       Ok (\<lparr>cw_seed = s, cw_control_bits = control_bits, cw_value = v\<rparr>, c)))"

definition public_share_decode ::
  "'vi decoder \<Rightarrow> 'vl decoder \<Rightarrow> nat \<Rightarrow> ('vi, 'vl) idpf_public_share decoder" where
  "public_share_decode dec_i dec_l bits c =
     and_then (read_exact ((bits + 3) div 4) c) (\<lambda>(packed, c).
     let unpacked = unpack_lsb0 packed in
     if bits = 0 then Panic
     else and_then
       (for_each (\<lambda>chunk (cws, c).
          and_then (correction_word_decode dec_i (chunk ! 0, chunk ! 1) c) (\<lambda>(cw, c). Ok (cws @ [cw], c)))
          (chunks 2 (take ((bits - 1) * 2) unpacked)) ([], c))
       (\<lambda>(cws, c).
          and_then (correction_word_decode dec_l (unpacked ! ((bits - 1) * 2), unpacked ! (bits * 2 - 1)) c) (\<lambda>(cw, c).
            if True \<in> set (drop (bits * 2) unpacked) then Err UnexpectedValue
            else Ok (\<lparr>inner_correction_words = cws, leaf_correction_word = cw\<rparr>, c))))"

section \<open>Properties\<close>

text \<open>
  C38. The ring-buffer cache holds, in order, the most recent insertions and never more of them than its capacity, which is at
  least one: after any sequence of insertions into a new cache the buffer is the tail of that sequence.
\<close>

theorem ring_buffer_recent:
  "ring (fold (\<lambda>(k, v). cache_insert RingBufferCache k v) kvs (RingBufferCache_new capacity)) = drop (length kvs - max capacity 1) kvs \<and>
   ring_capacity (fold (\<lambda>(k, v). cache_insert RingBufferCache k v) kvs (RingBufferCache_new capacity)) = max capacity 1"
proof (induction kvs rule: rev_induct)
  case (snoc kv kvs)
  define c where "c = fold (\<lambda>(k, v). cache_insert RingBufferCache k v) kvs (RingBufferCache_new capacity)"
  define n where "n = max capacity 1"
  obtain k v where kv: "kv = (k, v)" by (cases kv)
  have c: "ring c = drop (length kvs - n) kvs" "ring_capacity c = n" "0 < n" using snoc by (auto simp: c_def n_def)
  have ins: "cache_insert RingBufferCache k v c =
      c\<lparr>ring := (if length (ring c) = ring_capacity c then tl (ring c) else ring c) @ [(k, v)]\<rparr>"
    by (simp add: RingBufferCache_def Let_def)
  have "tl (drop (length kvs - n) kvs) = drop (Suc (length kvs) - n) kvs" if "n \<le> length kvs"
    using that by (simp add: Suc_diff_le drop_Suc tl_drop)
  then have "ring (cache_insert RingBufferCache k v c) = drop (length (kvs @ [kv]) - n) (kvs @ [kv])"
    using c by (cases "n \<le> length kvs") (auto simp: ins kv)
  moreover have "ring_capacity (cache_insert RingBufferCache k v c) = n" using c by (simp add: ins)
  ultimately show ?case by (simp add: kv c_def n_def)
qed (simp add: RingBufferCache_new_def)


end
