(* ===== verification/IdpfCorrect.thy ===== *)
theory IdpfCorrect
  imports Idpf
begin

text \<open>
  Correctness of the incremental distributed point function: the shares of the two parties add up to the
  programmed value on every prefix of the input and to zero on every other node, whatever cache each party
  uses.  The laws the proofs rely on are two interfaces: values form a group (\<open>idpf_values\<close>), and a cache
  returns only what was put into it (\<open>lawful_cache\<close>).
\<close>

section \<open>Seeds\<close>

lemma map2_mask:
  assumes "length s = 16"
  shows "and_seeds s (control_bit_to_seed_mask c) = (if c then s else replicate 16 0)"
    and "and_seeds (control_bit_to_seed_mask c) s = (if c then s else replicate 16 0)"
  using assms by (auto simp: and_seeds_def control_bit_to_seed_mask_def intro!: nth_equalityI)

lemma conditional_xor_seeds_value:
  "length a = 16 \<Longrightarrow> length b = 16 \<Longrightarrow> conditional_xor_seeds a b c = (if c then xor_seeds a b else a)"
  by (auto simp: conditional_xor_seeds_def map2_mask xor_seeds_def intro!: nth_equalityI)

lemma conditional_select_seed_value:
  "length a = 16 \<Longrightarrow> length b = 16 \<Longrightarrow> conditional_select_seed c (a, b) = (if c then b else a)"
  by (auto simp: conditional_select_seed_def map2_mask or_seeds_def intro!: nth_equalityI)

lemma length_xor_seeds [simp]: "length (xor_seeds a b) = min (length a) (length b)"
  by (simp add: xor_seeds_def)

lemma xor_seeds_cancel [simp]:
  "length a = length b \<Longrightarrow> xor_seeds a (xor_seeds a b) = b" "length a = length b \<Longrightarrow> xor_seeds b (xor_seeds a b) = a"
  by (auto simp: xor_seeds_def intro!: nth_equalityI) (metis xor.left_commute xor_self_eq xor.right_neutral)+

lemma xor_seeds_commute: "xor_seeds a b = xor_seeds b a"
  by (auto simp: xor_seeds_def ac_simps intro!: nth_equalityI)

lemmas seed_simps = conditional_xor_seeds_value conditional_select_seed_value

lemma extend_total:
  "\<exists>a b ta tb. idpf_extend prim key s = (Ok ((a, b), ta, tb) :: (_, 'e) outcome) \<and> length a = 16 \<and> length b = 16"
proof -
  have "fixed_key_avail (with_seed key s) (16 + 16)" by (simp add: fixed_key_avail_def with_seed_def)
  from fixed_key.fill_split [where prim = prim and 'a = 'e, OF this] obtain s' s'' where
    "SeedStreamFixedKeyAes128_fill prim 16 (with_seed key s) =
      (Ok (map (fixed_key_remaining prim (with_seed key s)) [0..<16], s') :: (_, 'e) outcome)"
    "SeedStreamFixedKeyAes128_fill prim 16 s' =
      (Ok (map (\<lambda>k. fixed_key_remaining prim (with_seed key s) (16 + k)) [0..<16], s'') :: (_, 'e) outcome)"
    by auto
  then show ?thesis by (simp add: idpf_extend_def)
qed

section \<open>Runs over several levels\<close>

fun gen_levels ::
  "primitives \<Rightarrow> ('p, 'v, fixed_key_stream, 'e) idpf_value \<Rightarrow> 'p \<Rightarrow> bytes \<Rightarrow> bytes \<Rightarrow> (bool \<times> 'v) list \<Rightarrow> seed \<times> seed \<Rightarrow> choice \<times> choice \<Rightarrow>
   ('v idpf_correction_word list \<times> (seed \<times> seed) \<times> choice \<times> choice, 'e) outcome" where
  "gen_levels prim V p ek ck [] keys ts = Ok ([], keys, ts)"
| "gen_levels prim V p ek ck ((b, v) # bvs) keys ts =
     and_then (generate_correction_word prim V b v p keys ts ek ck) (\<lambda>(cw, keys, ts).
       and_then (gen_levels prim V p ek ck bvs keys ts) (\<lambda>(cws, keys, ts). Ok (cw # cws, keys, ts)))"

text \<open>The shares, keys and control bits of the nodes on a path.\<close>

fun eval_trace ::
  "primitives \<Rightarrow> ('p, 'v, fixed_key_stream, 'e) idpf_value \<Rightarrow> bool \<Rightarrow> 'p \<Rightarrow> bytes \<Rightarrow> bytes \<Rightarrow> seed \<times> choice \<Rightarrow>
   ('v idpf_correction_word \<times> bool) list \<Rightarrow> (('v \<times> seed \<times> choice) list, 'e) outcome" where
  "eval_trace prim V L p ek ck st [] = Ok []"
| "eval_trace prim V L p ek ck st ((cw, x) # steps) =
     and_then (idpf_eval_next prim V L p (fst st) (snd st) cw x ek ck) (\<lambda>r.
       and_then (eval_trace prim V L p ek ck (snd r) steps) (\<lambda>tr. Ok (r # tr)))"

definition state_after :: "seed \<times> choice \<Rightarrow> ('v \<times> seed \<times> choice) list \<Rightarrow> seed \<times> choice" where
  "state_after st tr = (if tr = [] then st else snd (last tr))"

lemma state_after_simps [simp]: "state_after st [] = st" "state_after st (r # tr) = state_after (snd r) tr"
  by (simp_all add: state_after_def)

lemma eval_trace_append:
  "eval_trace prim V L p ek ck st (xs @ ys) =
     and_then (eval_trace prim V L p ek ck st xs) (\<lambda>tr.
       and_then (eval_trace prim V L p ek ck (state_after st tr) ys) (\<lambda>tr'. Ok (tr @ tr')))"
proof (induction xs arbitrary: st)
  case Nil
  show ?case by (cases "eval_trace prim V L p ek ck st ys") simp_all
next
  case (Cons x xs)
  then show ?case by (cases x; simp add: and_then_assoc)
qed

lemma length_eval_trace: "eval_trace prim V L p ek ck st steps = Ok tr \<Longrightarrow> length tr = length steps"
  by (induction steps arbitrary: st tr) auto

lemma length_gen_levels: "gen_levels prim V p ek ck bvs keys ts = Ok (cws, r) \<Longrightarrow> length cws = length bvs"
  by (induction bvs arbitrary: keys ts cws r) auto

lemma gen_levels_ConsE:
  assumes "gen_levels prim V p ek ck ((b, v) # bvs) keys ts = Ok (cws, r)"
  obtains cw keys1 ts1 cws1 where "generate_correction_word prim V b v p keys ts ek ck = Ok (cw, keys1, ts1)"
    "gen_levels prim V p ek ck bvs keys1 ts1 = Ok (cws1, r)" "cws = cw # cws1"
proof -
  from assms obtain x y where "generate_correction_word prim V b v p keys ts ek ck = Ok x"
    "gen_levels prim V p ek ck bvs (fst (snd x)) (snd (snd x)) = Ok y" "cws = fst x # fst y" "r = snd y"
    by (auto simp: case_prod_beta)
  then show ?thesis using that [of "fst x" "fst (snd x)" "snd (snd x)" "fst y"] by simp
qed

text \<open>
  How the states of the parties relate to the state of the generator: on the path of the input they are the
  two halves of it, with different control bits; off the path they are equal.
\<close>

definition related :: "bool \<Rightarrow> (seed \<times> seed) \<times> choice \<times> choice \<Rightarrow> seed \<times> choice \<Rightarrow> seed \<times> choice \<Rightarrow> bool" where
  "related on g st0 st1 \<longleftrightarrow>
     (if on then g = ((fst st0, fst st1), (snd st0, snd st1)) \<and> snd st0 \<noteq> snd st1 else st0 = st1)"

text \<open>The corrections of a level, and what becomes of a party's seed and bit on the path.\<close>

definition seed_correction :: "bool \<Rightarrow> seed \<times> seed \<Rightarrow> seed \<times> seed \<Rightarrow> seed" where
  "seed_correction b s0 s1 = (if b then xor_seeds (fst s0) (fst s1) else xor_seeds (snd s0) (snd s1))"

definition bit_correction :: "bool \<Rightarrow> choice \<times> choice \<Rightarrow> choice \<times> choice \<Rightarrow> choice \<times> choice" where
  "bit_correction b t0 t1 = (xor_bool (xor_bool (xor_bool (fst t0) (fst t1)) b) True, xor_bool (xor_bool (snd t0) (snd t1)) b)"

definition kept_seed :: "bool \<Rightarrow> seed \<Rightarrow> seed \<times> seed \<Rightarrow> choice \<Rightarrow> seed" where
  "kept_seed b cs = (\<lambda>(l, r) t. let s = if b then r else l in if t then xor_seeds s cs else s)"

definition kept_bit :: "bool \<Rightarrow> choice \<times> choice \<Rightarrow> choice \<times> choice \<Rightarrow> choice \<Rightarrow> choice" where
  "kept_bit b ct = (\<lambda>(l, r) t. xor_bool (if b then r else l) ((if b then snd ct else fst ct) \<and> t))"

lemma generate_correction_word_eq:
  assumes "idpf_extend prim ek k0 = (Ok ((a0, b0), ta0, tb0) :: (_, 'e) outcome)" "length a0 = 16" "length b0 = 16"
    and "idpf_extend prim ek k1 = (Ok ((a1, b1), ta1, tb1) :: (_, 'e) outcome)" "length a1 = 16" "length b1 = 16"
  shows "generate_correction_word prim (V :: ('p, 'v, fixed_key_stream, 'e) idpf_value) b v p (k0, k1) (t0, t1) ek ck =
      and_then (idpf_convert prim V (kept_seed b (seed_correction b (a0, b0) (a1, b1)) (a0, b0) t0) ck p) (\<lambda>(n0, e0).
      and_then (idpf_convert prim V (kept_seed b (seed_correction b (a0, b0) (a1, b1)) (a1, b1) t1) ck p) (\<lambda>(n1, e1).
      and_then (value_sub V v e0) (\<lambda>d. and_then (value_add V d e1) (\<lambda>c.
        Ok (\<lparr>cw_seed = seed_correction b (a0, b0) (a1, b1), cw_control_bits = bit_correction b (ta0, tb0) (ta1, tb1),
             cw_value = conditional_negate V c (kept_bit b (bit_correction b (ta0, tb0) (ta1, tb1)) (ta1, tb1) t1)\<rparr>,
            (n0, n1), (kept_bit b (bit_correction b (ta0, tb0) (ta1, tb1)) (ta0, tb0) t0,
              kept_bit b (bit_correction b (ta0, tb0) (ta1, tb1)) (ta1, tb1) t1))))))"
  using assms
  by (cases b) (simp_all add: generate_correction_word_def seed_simps select_def Let_def seed_correction_def bit_correction_def
    kept_seed_def kept_bit_def)

section \<open>Values\<close>

text \<open>
  \<open>wf\<close> are the values of the expected shape.  \<open>rep\<close> reads them as sequences over a group, on which the
  operations are pointwise.
\<close>

locale idpf_values =
  fixes V :: "('p, 'v, fixed_key_stream, 'e) idpf_value" and param :: 'p
    and wf :: "'v \<Rightarrow> bool" and rep :: "'v \<Rightarrow> nat \<Rightarrow> 'g::ab_group_add"
  assumes generate_wf: "generate V param st = Ok (v, st') \<Longrightarrow> wf v"
    and zero: "wf (value_zero V param)" "rep (value_zero V param) i = 0"
    and add: "wf a \<Longrightarrow> wf b \<Longrightarrow> \<exists>c. value_add V a b = Ok c \<and> wf c \<and> (\<forall>i. rep c i = rep a i + rep b i)"
    and sub: "wf a \<Longrightarrow> wf b \<Longrightarrow> \<exists>c. value_sub V a b = Ok c \<and> wf c \<and> (\<forall>i. rep c i = rep a i - rep b i)"
    and sel: "wf a \<Longrightarrow> wf b \<Longrightarrow> value_select V a b c = Ok (select a b c)"
    and negate: "wf a \<Longrightarrow> wf (conditional_negate V a c)"
      "wf a \<Longrightarrow> rep (conditional_negate V a c) i = (if c then - rep a i else rep a i)"
    and extensional: "wf a \<Longrightarrow> wf b \<Longrightarrow> (\<And>i. rep a i = rep b i) \<Longrightarrow> a = b"
begin

lemma add_eqI:
  assumes "wf a" "wf b" "wf c" "\<And>i. rep c i = rep a i + rep b i"
  shows "value_add V a b = Ok c"
  using add [OF assms(1,2)] extensional [OF assms(3)] assms(4) by metis

text \<open>The end of the evaluation of a node, from the corrected seed and control bit.\<close>

definition finish :: "primitives \<Rightarrow> bytes \<Rightarrow> bool \<Rightarrow> 'v idpf_correction_word \<Rightarrow> seed \<Rightarrow> choice \<Rightarrow> ('v \<times> seed \<times> choice, 'e) outcome" where
  "finish prim ck L cw s t =
     and_then (idpf_convert prim V s ck param) (\<lambda>(new_key, elements).
     and_then (value_select V (value_zero V param) (cw_value cw) t) (\<lambda>c.
     and_then (value_add V elements c) (\<lambda>out.
       Ok (conditional_negate V out (\<not> L), new_key, t))))"

lemma convert_wf: "idpf_convert prim V s ck param = Ok (k, e) \<Longrightarrow> wf e"
  by (auto simp: idpf_convert_def dest: generate_wf)

lemma finish_value:
  assumes "idpf_convert prim V s ck param = Ok (k, e)" "wf (cw_value cw)"
  shows "\<exists>out. finish prim ck L cw s t = Ok (out, k, t) \<and> wf out \<and>
    (\<forall>i. rep out i = (let x = rep e i + (if t then rep (cw_value cw) i else 0) in if L then x else - x))"
proof -
  let ?c = "select (value_zero V param) (cw_value cw) t"
  have "wf e" "wf ?c" using convert_wf [OF assms(1)] assms(2) zero(1) by (simp_all add: select_def)
  from add [OF this] obtain out where "value_add V e ?c = Ok out" "wf out" "\<And>i. rep out i = rep e i + rep ?c i" by blast
  then show ?thesis
    using assms sel [OF zero(1) assms(2)]
    by (auto simp: finish_def negate Let_def select_def zero)
qed


lemma finish_cancels:
  assumes "finish prim ck True cw s t = Ok (out, k, t')" "wf (cw_value cw)"
  shows "t' = t \<and> wf out \<and> (\<exists>out'. finish prim ck False cw s t = Ok (out', k, t) \<and> wf out' \<and>
    value_add V out out' = Ok (value_zero V param))"
proof -
  from assms(1) obtain k' e where e: "idpf_convert prim V s ck param = Ok (k', e)"
    by (auto simp: finish_def)
  from finish_value [OF e assms(2), of True t] finish_value [OF e assms(2), of False t] assms(1)
  obtain out' where o: "k = k'" "t' = t" "wf out" "finish prim ck False cw s t = Ok (out', k', t)" "wf out'"
    "\<And>i. rep out i + rep out' i = 0"
    by (auto simp: Let_def)
  then show ?thesis using zero by (auto intro!: add_eqI)
qed

text \<open>The share computed from a state depends on the party only through the sign.\<close>

lemma eval_next_finish:
  assumes "idpf_extend prim ek k = (Ok ((a, b), ta, tb) :: (_, 'e) outcome)" "length a = 16" "length b = 16" "length (cw_seed cw) = 16"
  shows "idpf_eval_next prim V L param k t cw x ek ck =
    finish prim ck L cw
      (let s = if x then b else a in if t then xor_seeds s (cw_seed cw) else s)
      (if x then xor_bool tb (snd (cw_control_bits cw) \<and> t) else xor_bool ta (fst (cw_control_bits cw) \<and> t))"
  using assms by (simp add: idpf_eval_next_def finish_def seed_simps select_def Let_def)

lemma generated_level:
  assumes gen: "generate_correction_word prim V b v param (k0, k1) (t0, t1) ek ck = Ok (cw, (k0', k1'), (t0', t1'))"
    and "t0 \<noteq> t1" and "wf v"
  shows "t0' \<noteq> t1' \<and> wf (cw_value cw) \<and> length (cw_seed cw) = 16 \<and>
    (\<exists>o0 o1. idpf_eval_next prim V True param k0 t0 cw b ek ck = Ok (o0, k0', t0') \<and>
      idpf_eval_next prim V False param k1 t1 cw b ek ck = Ok (o1, k1', t1') \<and> value_add V o0 o1 = Ok v) \<and>
    (\<exists>s t. idpf_eval_next prim V True param k0 t0 cw (\<not> b) ek ck = finish prim ck True cw s t \<and>
      idpf_eval_next prim V False param k1 t1 cw (\<not> b) ek ck = finish prim ck False cw s t)"
proof -
  obtain a0 b0 ta0 tb0 where x0: "idpf_extend prim ek k0 = (Ok ((a0, b0), ta0, tb0) :: (_, 'e) outcome)" "length a0 = 16" "length b0 = 16"
    using extend_total by blast
  obtain a1 b1 ta1 tb1 where x1: "idpf_extend prim ek k1 = (Ok ((a1, b1), ta1, tb1) :: (_, 'e) outcome)" "length a1 = 16" "length b1 = 16"
    using extend_total by blast
  define cs where "cs = seed_correction b (a0, b0) (a1, b1)"
  define ct where "ct = bit_correction b (ta0, tb0) (ta1, tb1)"
  define keep where "keep = kept_seed b cs"
  define T where "T = (\<lambda>ta tb. kept_bit b ct (ta, tb))"
  have len: "length cs = 16" using x0 x1 by (simp add: cs_def seed_correction_def)
  have "generate_correction_word prim V b v param (k0, k1) (t0, t1) ek ck =
      and_then (idpf_convert prim V (keep (a0, b0) t0) ck param) (\<lambda>(n0, e0).
      and_then (idpf_convert prim V (keep (a1, b1) t1) ck param) (\<lambda>(n1, e1).
      and_then (value_sub V v e0) (\<lambda>d. and_then (value_add V d e1) (\<lambda>c.
        Ok (\<lparr>cw_seed = cs, cw_control_bits = ct, cw_value = conditional_negate V c (T ta1 tb1 t1)\<rparr>,
            (n0, n1), (T ta0 tb0 t0, T ta1 tb1 t1))))))"
    unfolding cs_def keep_def T_def ct_def by (rule generate_correction_word_eq [OF x0 x1])
  with gen obtain e0 e1 d c where e: "idpf_convert prim V (keep (a0, b0) t0) ck param = Ok (k0', e0)"
      "idpf_convert prim V (keep (a1, b1) t1) ck param = Ok (k1', e1)"
    and d: "value_sub V v e0 = Ok d" "value_add V d e1 = Ok c"
    and cw: "cw = \<lparr>cw_seed = cs, cw_control_bits = ct, cw_value = conditional_negate V c t1'\<rparr>"
    and t: "t0' = T ta0 tb0 t0" "t1' = T ta1 tb1 t1"
    by auto
  have wf: "wf e0" "wf e1" using e convert_wf by blast+
  have c: "wf c" "\<And>i. rep c i = rep v i - rep e0 i + rep e1 i"
    using sub [OF assms(3) wf(1)] add wf(2) d by force+
  have neq: "t0' \<noteq> t1'" using assms(2) unfolding t T_def ct_def kept_bit_def bit_correction_def by (cases b; cases t0; cases t1) (auto simp: xor_bool_def)
  have cwv: "wf (cw_value cw)" "length (cw_seed cw) = 16" using c(1) len by (simp_all add: cw negate)
  have on0: "idpf_eval_next prim V True param k0 t0 cw b ek ck = finish prim ck True cw (keep (a0, b0) t0) t0'"
    using eval_next_finish [OF x0 cwv(2)] by (simp add: cw keep_def t T_def kept_seed_def kept_bit_def)
  have on1: "idpf_eval_next prim V False param k1 t1 cw b ek ck = finish prim ck False cw (keep (a1, b1) t1) t1'"
    using eval_next_finish [OF x1 cwv(2)] by (simp add: cw keep_def t T_def kept_seed_def kept_bit_def)
  obtain o0 where o0: "finish prim ck True cw (keep (a0, b0) t0) t0' = Ok (o0, k0', t0')" "wf o0"
    "\<And>i. rep o0 i = rep e0 i + (if t0' then rep (cw_value cw) i else 0)"
    using finish_value [OF e(1) cwv(1), of True t0'] by (auto simp: Let_def)
  obtain o1 where o1: "finish prim ck False cw (keep (a1, b1) t1) t1' = Ok (o1, k1', t1')" "wf o1"
    "\<And>i. rep o1 i = - (rep e1 i + (if t1' then rep (cw_value cw) i else 0))"
    using finish_value [OF e(2) cwv(1), of False t1'] by (auto simp: Let_def)
  have "value_add V o0 o1 = Ok v"
    using o0(2,3) o1(2,3) assms(3) neq c by (intro add_eqI) (auto simp: cw negate)
  moreover
  let ?s = "if t0 then if b then a1 else b1 else if b then a0 else b0" and ?t = "if t0 then if b then ta1 else tb1 else if b then ta0 else tb0"
  have "idpf_eval_next prim V True param k0 t0 cw (\<not> b) ek ck = finish prim ck True cw ?s ?t"
    unfolding eval_next_finish [OF x0 cwv(2)] using assms(2) x0 x1
    by (intro arg_cong2 [where f = "finish prim ck True cw"]) (auto simp: cw ct_def cs_def bit_correction_def seed_correction_def xor_bool_def Let_def)
  moreover have "idpf_eval_next prim V False param k1 t1 cw (\<not> b) ek ck = finish prim ck False cw ?s ?t"
    unfolding eval_next_finish [OF x1 cwv(2)] using assms(2) x0 x1
    by (intro arg_cong2 [where f = "finish prim ck False cw"]) (auto simp: cw ct_def cs_def bit_correction_def seed_correction_def xor_bool_def Let_def)
  ultimately show ?thesis using neq cwv on0 on1 o0(1) o1(1) by auto
qed


lemma related_step:
  assumes gen: "generate_correction_word prim V b v param keys ts ek ck = Ok (cw, keys', ts')"
    and rel: "related on (keys, ts) st0 st1" and v: "wf v"
    and cw: "\<not> on \<Longrightarrow> wf (cw_value cw) \<and> length (cw_seed cw) = 16"
    and ev: "idpf_eval_next prim V True param (fst st0) (snd st0) cw x ek ck = Ok (o0, st0')"
  shows "\<exists>o1 st1'. idpf_eval_next prim V False param (fst st1) (snd st1) cw x ek ck = Ok (o1, st1') \<and>
    value_add V o0 o1 = Ok (if on \<and> x = b then v else value_zero V param) \<and> related (on \<and> x = b) (keys', ts') st0' st1'"
proof (cases on)
  case True
  obtain k0 t0 k1 t1 where st: "st0 = (k0, t0)" "st1 = (k1, t1)" by fastforce
  then have keys: "keys = (k0, k1)" "ts = (t0, t1)" "t0 \<noteq> t1" using rel True by (auto simp: related_def)
  obtain k0' k1' t0' t1' where g': "keys' = (k0', k1')" "ts' = (t0', t1')" by fastforce
  note level = generated_level [OF gen [unfolded keys g'] keys(3) v]
  show ?thesis
  proof (cases "x = b")
    case xb: True
    with level ev show ?thesis by (auto simp: st True g' related_def)
  next
    case False
    then have x: "x = (\<not> b)" by simp
    from level obtain s t where f: "idpf_eval_next prim V True param k0 t0 cw x ek ck = finish prim ck True cw s t"
        "idpf_eval_next prim V False param k1 t1 cw x ek ck = finish prim ck False cw s t" and wf: "wf (cw_value cw)"
      unfolding x by blast
    obtain k' t' where st0': "st0' = (k', t')" by fastforce
    from ev have "finish prim ck True cw s t = Ok (o0, k', t')" unfolding st st0' by (simp add: f)
    from finish_cancels [OF this wf] show ?thesis using f False by (auto simp: st st0' related_def)
  qed
next
  case False
  obtain a b' ta tb where x0: "idpf_extend prim ek (fst st0) = (Ok ((a, b'), ta, tb) :: (_, 'e) outcome)" "length a = 16" "length b' = 16"
    using extend_total by blast
  have eq: "st1 = st0" using rel False by (simp add: related_def)
  obtain k' t' where st0': "st0' = (k', t')" by fastforce
  from cw False have c: "wf (cw_value cw)" "length (cw_seed cw) = 16" by simp_all
  note e = eval_next_finish [OF x0 c(2)]
  from finish_cancels [OF ev [unfolded st0' e] c(1)] show ?thesis
    using False by (auto simp: eq e st0' related_def)
qed

lemma related_step_total:
  assumes "generate_correction_word prim V b v param keys ts ek ck = Ok (cw, keys', ts')"
    and "related True (keys, ts) st0 st1" and "wf v"
  shows "\<exists>o0. idpf_eval_next prim V True param (fst st0) (snd st0) cw b ek ck = Ok (o0, fst keys', fst ts')"
    and "wf (cw_value cw)" and "length (cw_seed cw) = 16"
proof -
  have st: "keys = (fst st0, fst st1)" "ts = (snd st0, snd st1)" "snd st0 \<noteq> snd st1" using assms(2) by (simp_all add: related_def)
  have g: "generate_correction_word prim V b v param (fst st0, fst st1) (snd st0, snd st1) ek ck =
      Ok (cw, (fst keys', snd keys'), (fst ts', snd ts'))" using assms(1) st by simp
  from generated_level [OF g st(3) assms(3)]
  show "\<exists>o0. idpf_eval_next prim V True param (fst st0) (snd st0) cw b ek ck = Ok (o0, fst keys', fst ts')"
    "wf (cw_value cw)" "length (cw_seed cw) = 16" by auto
qed

text \<open>Every correction word the generator makes is well formed, since its two states always differ in the bit.\<close>

lemma gen_levels_wf:
  assumes "gen_levels prim V param ek ck bvs keys ts = Ok (cws, keys', ts')" "fst ts \<noteq> snd ts" "\<forall>(b, v) \<in> set bvs. wf v"
  shows "fst ts' \<noteq> snd ts' \<and> (\<forall>cw \<in> set cws. wf (cw_value cw) \<and> length (cw_seed cw) = 16)"
  using assms
proof (induction bvs arbitrary: keys ts cws)
  case (Cons bv bvs)
  obtain b v where bv: "bv = (b, v)" by fastforce
  with Cons.prems obtain cw keys1 ts1 cws1 where g: "generate_correction_word prim V b v param keys ts ek ck = Ok (cw, keys1, ts1)"
    "gen_levels prim V param ek ck bvs keys1 ts1 = Ok (cws1, keys', ts')" "cws = cw # cws1"
    using gen_levels_ConsE [OF Cons.prems(1) [unfolded bv]] by blast
  have g': "generate_correction_word prim V b v param (fst keys, snd keys) (fst ts, snd ts) ek ck =
      Ok (cw, (fst keys1, snd keys1), (fst ts1, snd ts1))" using g(1) by simp
  have v: "wf v" using Cons.prems(3) bv by simp
  from generated_level [OF g' Cons.prems(2) v] Cons.IH [OF g(2)] Cons.prems(3) g(3) show ?case by auto
qed auto


lemma related_trace:
  assumes "gen_levels prim V param ek ck (zip bs vs) keys ts = Ok (cws, g')" "length vs = length bs"
    and "related on (keys, ts) st0 st1" "\<forall>v \<in> set vs. wf v" "fst ts \<noteq> snd ts"
    and "length xs \<le> length bs" "eval_trace prim V True param ek ck st0 (zip cws xs) = Ok tr0"
  shows "\<exists>tr1. eval_trace prim V False param ek ck st1 (zip cws xs) = Ok tr1 \<and>
    (\<forall>i < length xs. value_add V (fst (tr0 ! i)) (fst (tr1 ! i)) =
      Ok (if on \<and> take (Suc i) xs = take (Suc i) bs then vs ! i else value_zero V param)) \<and>
    (length xs = length bs \<longrightarrow> related (on \<and> xs = bs) g' (state_after st0 tr0) (state_after st1 tr1))"
  using assms
proof (induction xs arbitrary: bs vs keys ts cws on st0 st1 tr0)
  case Nil
  then show ?case by auto
next
  case (Cons x xs)
  then obtain b bs' v vs' where bv: "bs = b # bs'" "vs = v # vs'" by (cases bs; cases vs) auto
  with Cons.prems(1) obtain cw keys1 ts1 cws1 where g: "generate_correction_word prim V b v param keys ts ek ck = Ok (cw, keys1, ts1)"
    "gen_levels prim V param ek ck (zip bs' vs') keys1 ts1 = Ok (cws1, g')" "cws = cw # cws1"
    by (auto elim: gen_levels_ConsE)
  have cw: "wf (cw_value cw) \<and> length (cw_seed cw) = 16" and ts1: "fst ts1 \<noteq> snd ts1"
    using gen_levels_wf [of prim ek ck "[(b, v)]" keys ts "[cw]" keys1 ts1] g(1) Cons.prems(4,5) bv by simp_all
  obtain o0 st0' tr0' where ev: "idpf_eval_next prim V True param (fst st0) (snd st0) cw x ek ck = Ok (o0, st0')"
    "eval_trace prim V True param ek ck st0' (zip cws1 xs) = Ok tr0'" "tr0 = (o0, st0') # tr0'"
    using Cons.prems(7) g(3) by fastforce
  have v: "wf v" using Cons.prems(4) bv by simp
  obtain o1 st1' where o1: "idpf_eval_next prim V False param (fst st1) (snd st1) cw x ek ck = Ok (o1, st1')"
    "value_add V o0 o1 = Ok (if on \<and> x = b then v else value_zero V param)" "related (on \<and> x = b) (keys1, ts1) st0' st1'"
    using related_step [OF g(1) Cons.prems(3) v cw ev(1)] by blast
  obtain tr1 where tr1: "eval_trace prim V False param ek ck st1' (zip cws1 xs) = Ok tr1"
    "\<forall>i < length xs. value_add V (fst (tr0' ! i)) (fst (tr1 ! i)) =
      Ok (if (on \<and> x = b) \<and> take (Suc i) xs = take (Suc i) bs' then vs' ! i else value_zero V param)"
    "length xs = length bs' \<longrightarrow> related ((on \<and> x = b) \<and> xs = bs') g' (state_after st0' tr0') (state_after st1' tr1)"
    using Cons.IH [OF g(2) _ o1(3) _ ts1 _ ev(2)] Cons.prems bv by auto
  show ?case
  proof (intro exI conjI allI impI)
    show "eval_trace prim V False param ek ck st1 (zip cws (x # xs)) = Ok ((o1, st1') # tr1)"
      using o1(1) tr1(1) g(3) by simp
    fix i
    assume "i < length (x # xs)"
    then show "value_add V (fst (tr0 ! i)) (fst (((o1, st1') # tr1) ! i)) =
        Ok (if on \<and> take (Suc i) (x # xs) = take (Suc i) bs then vs ! i else value_zero V param)"
      using tr1(2) o1(2) ev(3) bv by (cases i) auto
  next
    assume "length (x # xs) = length bs"
    with tr1(3) bv ev(3) show "related (on \<and> x # xs = bs) g' (state_after st0 tr0) (state_after st1 ((o1, st1') # tr1))"
      by simp
  qed
qed

text \<open>On the path of the input the first party's evaluation succeeds.\<close>

lemma trace_total:
  assumes "gen_levels prim V param ek ck (zip bs vs) (k0, k1) (t0, t1) = Ok (cws, g')" "length vs = length bs"
    and "\<forall>v \<in> set vs. wf v" "t0 \<noteq> t1" "prefix xs bs"
  shows "\<exists>tr0. eval_trace prim V True param ek ck (k0, t0) (zip cws xs) = Ok tr0"
  using assms
proof (induction xs arbitrary: bs vs k0 k1 t0 t1 cws)
  case (Cons x xs)
  then obtain bs' v vs' where bv: "bs = x # bs'" "vs = v # vs'" "prefix xs bs'" by (cases bs; cases vs) auto
  with Cons.prems(1) obtain cw k0' k1' t0' t1' cws1 where
    g: "generate_correction_word prim V x v param (k0, k1) (t0, t1) ek ck = Ok (cw, (k0', k1'), (t0', t1'))"
    "gen_levels prim V param ek ck (zip bs' vs') (k0', k1') (t0', t1') = Ok (cws1, g')" "cws = cw # cws1"
    by (auto elim!: gen_levels_ConsE)
  have v: "wf v" using Cons.prems(3) bv by simp
  from generated_level [OF g(1) Cons.prems(4) v] obtain o0 where
    "t0' \<noteq> t1'" "idpf_eval_next prim V True param k0 t0 cw x ek ck = Ok (o0, k0', t0')" by blast
  with Cons.IH [OF g(2)] Cons.prems bv g(3) show ?case by auto
qed simp

end


section \<open>Key generation and evaluation as runs\<close>

lemma fixed_key_total: "length dst < 256 \<Longrightarrow> \<exists>k. XofFixedKeyAes128Key_new prim dst bindr = (Ok k :: (bytes, 'e) outcome)"
  by (simp add: XofFixedKeyAes128Key_new_def dst_prefix_def Let_def)

lemma idpf_keys:
  obtains ek ck where "XofFixedKeyAes128Key_new prim extend_dst bindr = (Ok ek :: (bytes, idpf_error) outcome)"
    "XofFixedKeyAes128Key_new prim convert_dst bindr = (Ok ck :: (bytes, idpf_error) outcome)"
  using fixed_key_total [of extend_dst prim bindr] fixed_key_total [of convert_dst prim bindr]
  by (auto simp: extend_dst_def convert_dst_def)

lemma gen_loop:
  assumes "for_each (\<lambda>(level, v) (cws, keys, control_bits).
      if n \<le> level then Err IdpfInvalidParameter
      else and_then (generate_correction_word prim V (inp ! level) v p keys control_bits ek ck) (\<lambda>(cw, keys, control_bits).
        Ok (cws @ [cw], keys, control_bits))) (zip [l..<l + length vs] vs) (cws0, keys, ts) = Ok (cws, g)"
    and "n \<le> length inp" "l \<le> n"
  shows "\<exists>cws'. cws = cws0 @ cws' \<and> l + length vs \<le> n \<and> gen_levels prim V p ek ck (zip (drop l inp) vs) keys ts = Ok (cws', g)"
  using assms
proof (induction vs arbitrary: l cws0 keys ts)
  case (Cons v vs)
  have zip: "zip [l..<l + length (v # vs)] (v # vs) = (l, v) # zip [Suc l..<Suc l + length vs] vs" by (simp add: upt_conv_Cons del: upt_Suc)
  have l: "l < n" using Cons.prems(1) unfolding zip by (auto split: if_splits)
  from Cons.prems(1) l obtain cw keys1 ts1 where g: "generate_correction_word prim V (inp ! l) v p keys ts ek ck = Ok (cw, keys1, ts1)"
    and rest: "for_each (\<lambda>(level, v) (cws, keys, control_bits).
      if n \<le> level then Err IdpfInvalidParameter
      else and_then (generate_correction_word prim V (inp ! level) v p keys control_bits ek ck) (\<lambda>(cw, keys, control_bits).
        Ok (cws @ [cw], keys, control_bits))) (zip [Suc l..<Suc l + length vs] vs) (cws0 @ [cw], keys1, ts1) = Ok (cws, g)"
    unfolding zip by (cases "generate_correction_word prim V (inp ! l) v p keys ts ek ck") auto
  from Cons.IH [OF rest Cons.prems(2)] l obtain cws' where c: "cws = (cws0 @ [cw]) @ cws'" "Suc l + length vs \<le> n"
    "gen_levels prim V p ek ck (zip (drop (Suc l) inp) vs) keys1 ts1 = Ok (cws', g)" by auto
  moreover have "drop l inp = inp ! l # drop (Suc l) inp" using l Cons.prems(2) by (simp add: Cons_nth_drop_Suc)
  ultimately show ?case using g by (intro exI [of _ "cw # cws'"]) simp
qed simp

definition cache_steps :: "'c idpf_cache \<Rightarrow> idpf_input \<Rightarrow> nat \<Rightarrow> ('v \<times> seed \<times> choice) list \<Rightarrow> 'c \<Rightarrow> 'c" where
  "cache_steps K pfx s tr =
     fold (\<lambda>(level, o', k, t). cache_insert K (take (Suc level) pfx) (k, of_bool t)) (zip [s..<s + length tr] tr)"

lemma cache_steps_simps [simp]:
  "cache_steps K pfx s [] c = c"
  "cache_steps K pfx s ((o', k, t) # tr) c = cache_steps K pfx (Suc s) tr (cache_insert K (take (Suc s) pfx) (k, of_bool t) c)"
  by (simp_all add: cache_steps_def upt_conv_Cons del: upt_Suc)

lemma eval_loop:
  "length steps \<le> m \<Longrightarrow>
    for_each (\<lambda>((cw, input_bit), level) (last_inner_output, key, control_bit, cache).
      and_then (idpf_eval_next prim V L p key control_bit cw input_bit ek ck) (\<lambda>(out, key, control_bit).
        Ok (Some out, key, control_bit, cache_insert K (take (Suc level) pfx) (key, of_bool control_bit) cache)))
      (zip steps [s..<s + m]) (lo, key, control_bit, cache) =
    and_then (eval_trace prim V L p ek ck (key, control_bit) steps) (\<lambda>tr.
      Ok (if tr = [] then lo else Some (fst (last tr)), fst (state_after (key, control_bit) tr), snd (state_after (key, control_bit) tr),
        cache_steps K pfx s tr cache))"
proof (induction steps arbitrary: s m lo key control_bit cache)
  case Nil
  then show ?case by simp
next
  case (Cons step steps)
  obtain cw x where step: "step = (cw, x)" by fastforce
  obtain m' where m: "m = Suc m'" "length steps \<le> m'" using Cons.prems by (cases m) auto
  have zip: "zip (step # steps) [s..<s + m] = (step, s) # zip steps [Suc s..<Suc s + m']" by (simp add: m upt_conv_Cons del: upt_Suc)
  show ?case
  proof (cases "idpf_eval_next prim V L p key control_bit cw x ek ck")
    case (Ok r)
    obtain o' k t where r: "r = (o', k, t)" by (metis prod.collapse)
    show ?thesis
      unfolding zip using Cons.IH [OF m(2), of "Suc s" "Some o'" k t]
      by (cases "eval_trace prim V L p ek ck (k, t) steps")
        (auto simp: step Ok r simp del: upt_Suc)
  qed (unfold zip, simp_all add: step)
qed

lemma eval_from_node_trace:
  assumes "XofFixedKeyAes128Key_new prim extend_dst bindr = (Ok ek :: (bytes, idpf_error) outcome)"
    "XofFixedKeyAes128Key_new prim convert_dst bindr = (Ok ck :: (bytes, idpf_error) outcome)"
    and "s \<le> length (inner_correction_words pub)" "s \<le> length pfx"
  shows "eval_from_node prim I L pub s k t pfx bindr K cache =
    and_then (eval_trace prim (inner_values I) L (inner_node_value_parameter I) ek ck (k, t)
        (zip (drop s (inner_correction_words pub)) (drop s pfx))) (\<lambda>tr.
      if length pfx = Suc (length (inner_correction_words pub))
      then and_then (idpf_eval_next prim (leaf_values I) L (leaf_node_value_parameter I) (fst (state_after (k, t) tr))
             (snd (state_after (k, t) tr)) (leaf_correction_word pub) (last pfx) ek ck)
             (\<lambda>(out, _). Ok (LeafShare out, cache_steps K pfx s tr cache))
      else if tr = [] then Panic else Ok (InnerShare (fst (last tr)), cache_steps K pfx s tr cache))"
proof -
  let ?n = "length (inner_correction_words pub)" and ?steps = "zip (drop s (inner_correction_words pub)) (drop s pfx)"
  have m: "[s..<?n + 1 - 1] = [s..<s + (?n - s)]" using assms(3) by simp
  have "length pfx = Suc ?n \<Longrightarrow> pfx ! ?n = last pfx" by (cases pfx rule: rev_cases) (simp_all add: nth_append)
  then show ?thesis
    using assms eval_loop [of ?steps "?n - s" prim "inner_values I" L "inner_node_value_parameter I" ek ck K pfx s None k t cache]
    unfolding eval_from_node_def Let_def m
    by (cases "eval_trace prim (inner_values I) L (inner_node_value_parameter I) ek ck (k, t) ?steps") simp_all
qed


lemma state_after_append: "state_after st (xs @ ys) = state_after (state_after st xs) ys"
  by (simp add: state_after_def)

text \<open>The share of a node, computed from the root of the tree.\<close>

definition eval_node ::
  "primitives \<Rightarrow> ('pi, 'vi, 'pl, 'vl) idpf \<Rightarrow> bool \<Rightarrow> ('vi, 'vl) idpf_public_share \<Rightarrow> bytes \<Rightarrow> bytes \<Rightarrow> seed \<Rightarrow> idpf_input \<Rightarrow>
   (('vi, 'vl) idpf_output_share, idpf_error) outcome" where
  "eval_node prim I L pub ek ck key pfx =
     and_then (eval_trace prim (inner_values I) L (inner_node_value_parameter I) ek ck (key, \<not> L)
       (zip (inner_correction_words pub) pfx)) (\<lambda>tr.
         let st = state_after (key, \<not> L) tr in
         if length pfx = Suc (length (inner_correction_words pub))
         then and_then (idpf_eval_next prim (leaf_values I) L (leaf_node_value_parameter I) (fst st) (snd st)
                (leaf_correction_word pub) (last pfx) ek ck) (\<lambda>(out, _). Ok (LeafShare out))
         else if tr = [] then Panic else Ok (InnerShare (fst (last tr))))"

definition eval_result ::
  "primitives \<Rightarrow> ('pi, 'vi, 'pl, 'vl) idpf \<Rightarrow> nat \<Rightarrow> ('vi, 'vl) idpf_public_share \<Rightarrow> bytes \<Rightarrow> bytes \<Rightarrow> seed \<Rightarrow> idpf_input \<Rightarrow>
   (('vi, 'vl) idpf_output_share, idpf_error) outcome" where
  "eval_result prim I agg_id pub ek ck key pfx =
     (if agg_id \<le> 1 \<and> pfx \<noteq> [] \<and> length pfx \<le> Suc (length (inner_correction_words pub))
      then eval_node prim I (agg_id = 0) pub ek ck key pfx else Err IdpfInvalidParameter)"

section \<open>Caches\<close>

lemma cached_node_SomeD:
  "cached_node K c pfx n = Some (s, kb) \<Longrightarrow> 0 < s \<and> s \<le> n \<and> cache_get K c (take s pfx) = Some kb"
  by (induction n) (auto split: option.splits)

lemma zip_take_right: "zip xs (take n ys) = take n (zip xs ys)"
  by (rule nth_equalityI) auto

text \<open>A lookup after an insertion finds what was inserted, or what was there, or nothing.\<close>

locale lawful_cache =
  fixes K :: "'c idpf_cache" and empty :: 'c
  assumes get_empty: "cache_get K empty q = None"
    and get_insert: "cache_get K (cache_insert K p v c) q = Some w \<Longrightarrow> cache_get K c q = Some w \<or> (q = p \<and> w = v)"
begin

text \<open>Everything in the cache was computed for the node it is stored under.\<close>

definition consistent ::
  "primitives \<Rightarrow> ('pi, 'vi, 'pl, 'vl) idpf \<Rightarrow> bool \<Rightarrow> ('vi, 'vl) idpf_public_share \<Rightarrow> bytes \<Rightarrow> bytes \<Rightarrow> seed \<Rightarrow> 'c \<Rightarrow> bool" where
  "consistent prim I L pub ek ck key c \<longleftrightarrow>
     (\<forall>q k b. cache_get K c q = Some (k, b) \<longrightarrow> q \<noteq> [] \<and>
       (\<exists>tr. eval_trace prim (inner_values I) L (inner_node_value_parameter I) ek ck (key, \<not> L)
          (zip (inner_correction_words pub) q) = Ok tr \<and> k = fst (state_after (key, \<not> L) tr) \<and> b = of_bool (snd (state_after (key, \<not> L) tr))))"

lemma consistent_empty: "consistent prim I L pub ek ck key empty"
  by (simp add: consistent_def get_empty)

lemma consistent_steps:
  assumes "consistent prim I L pub ek ck key c" "s + length tr \<le> length pfx"
    and "s + length tr \<le> length (inner_correction_words pub)"
    and "eval_trace prim (inner_values I) L (inner_node_value_parameter I) ek ck (key, \<not> L)
      (zip (inner_correction_words pub) (take s pfx)) = Ok tr0"
    and "eval_trace prim (inner_values I) L (inner_node_value_parameter I) ek ck (state_after (key, \<not> L) tr0)
      (zip (drop s (inner_correction_words pub)) (take (length tr) (drop s pfx))) = Ok tr"
  shows "consistent prim I L pub ek ck key (cache_steps K pfx s tr c)"
  using assms
proof (induction tr arbitrary: s c tr0)
  case (Cons r tr)
  obtain o' k t where r: "r = (o', k, t)" by (metis prod.collapse)
  let ?cws = "inner_correction_words pub"
  have s: "s < length ?cws" "s < length pfx" using Cons.prems(2,3) by simp_all
  have dz: "zip (drop s ?cws) (take (length (r # tr)) (drop s pfx)) =
      (?cws ! s, pfx ! s) # zip (drop (Suc s) ?cws) (take (length tr) (drop (Suc s) pfx))"
    using s by (simp add: Cons_nth_drop_Suc [symmetric])
  have tz: "zip ?cws (take (Suc s) pfx) = zip ?cws (take s pfx) @ [(?cws ! s, pfx ! s)]"
    unfolding zip_take_right using s by (simp add: take_Suc_conv_app_nth)
  from Cons.prems(5) have step: "eval_trace prim (inner_values I) L (inner_node_value_parameter I) ek ck
        (state_after (key, \<not> L) tr0) [(?cws ! s, pfx ! s)] = Ok [r]"
    and rest: "eval_trace prim (inner_values I) L (inner_node_value_parameter I) ek ck (snd r)
        (zip (drop (Suc s) ?cws) (take (length tr) (drop (Suc s) pfx))) = Ok tr"
    unfolding dz by auto
  have tr1: "eval_trace prim (inner_values I) L (inner_node_value_parameter I) ek ck (key, \<not> L) (zip ?cws (take (Suc s) pfx)) = Ok (tr0 @ [r])"
    unfolding tz eval_trace_append using Cons.prems(4) step by simp
  have st: "state_after (key, \<not> L) (tr0 @ [r]) = snd r" by (simp add: state_after_def)
  have "consistent prim I L pub ek ck key (cache_insert K (take (Suc s) pfx) (k, of_bool t) c)"
    unfolding consistent_def
  proof (intro allI impI)
    fix q k' b
    assume "cache_get K (cache_insert K (take (Suc s) pfx) (k, of_bool t) c) q = Some (k', b)"
    from get_insert [OF this] show "q \<noteq> [] \<and> (\<exists>tr. eval_trace prim (inner_values I) L (inner_node_value_parameter I) ek ck (key, \<not> L)
        (zip ?cws q) = Ok tr \<and> k' = fst (state_after (key, \<not> L) tr) \<and> b = of_bool (snd (state_after (key, \<not> L) tr)))"
    proof
      assume "cache_get K c q = Some (k', b)"
      with Cons.prems(1) show ?thesis unfolding consistent_def by blast
    next
      assume "q = take (Suc s) pfx \<and> (k', b) = (k, of_bool t)"
      with tr1 st r s show ?thesis by (cases pfx) auto
    qed
  qed
  then show ?case
    using Cons.IH [of "cache_insert K (take (Suc s) pfx) (k, of_bool t) c" "Suc s" "tr0 @ [r]"] Cons.prems tr1 st rest r by simp
qed simp

lemma eval_from_consistent:
  assumes keys: "XofFixedKeyAes128Key_new prim extend_dst bindr = (Ok ek :: (bytes, idpf_error) outcome)"
    "XofFixedKeyAes128Key_new prim convert_dst bindr = (Ok ck :: (bytes, idpf_error) outcome)"
    and len: "s < length pfx" "length pfx \<le> Suc (length (inner_correction_words pub))"
    and tr0: "eval_trace prim (inner_values I) L (inner_node_value_parameter I) ek ck (key, \<not> L)
      (zip (inner_correction_words pub) (take s pfx)) = Ok tr0"
    and st: "state_after (key, \<not> L) tr0 = (k, t)"
    and c: "consistent prim I L pub ek ck key c"
  shows "and_then (eval_from_node prim I L pub s k t pfx bindr K c) (\<lambda>(out, _). Ok out) =
      eval_node prim I L pub ek ck key pfx"
    and "eval_from_node prim I L pub s k t pfx bindr K c = Ok (out, c') \<Longrightarrow> consistent prim I L pub ek ck key c'"
proof -
  let ?cws = "inner_correction_words pub"
  let ?T = "eval_trace prim (inner_values I) L (inner_node_value_parameter I) ek ck"
  have s: "s \<le> length ?cws" "s \<le> length pfx" using len by simp_all
  note eq = eval_from_node_trace [OF keys s, of I L k t K c]
  have zip: "zip ?cws pfx = zip ?cws (take s pfx) @ zip (drop s ?cws) (drop s pfx)"
    by (simp add: zip_take_right drop_zip [symmetric])
  have whole: "?T (key, \<not> L) (zip ?cws pfx) = and_then (?T (k, t) (zip (drop s ?cws) (drop s pfx))) (\<lambda>tr. Ok (tr0 @ tr))"
    unfolding zip eval_trace_append tr0 by (simp add: st)
  show "and_then (eval_from_node prim I L pub s k t pfx bindr K c) (\<lambda>(out, _). Ok out) = eval_node prim I L pub ek ck key pfx"
  proof (cases "?T (k, t) (zip (drop s ?cws) (drop s pfx))")
    case (Ok tr)
    have "state_after (key, \<not> L) (tr0 @ tr) = state_after (k, t) tr" by (simp add: state_after_append st)
    moreover have "tr \<noteq> []" if "length pfx \<noteq> Suc (length ?cws)"
      using length_eval_trace [OF Ok] len that by auto
    ultimately show ?thesis
      unfolding eq eval_node_def whole Ok by (auto simp: and_then_assoc case_prod_beta Let_def cong: and_then_cong)
  qed (simp_all add: eq eval_node_def whole)
  show "consistent prim I L pub ek ck key c'" if "eval_from_node prim I L pub s k t pfx bindr K c = Ok (out, c')"
  proof -
    from that [unfolded eq] obtain tr where tr: "?T (k, t) (zip (drop s ?cws) (drop s pfx)) = Ok tr" "c' = cache_steps K pfx s tr c"
      by (auto split: if_splits)
    have n: "length tr = min (length ?cws - s) (length pfx - s)" using length_eval_trace [OF tr(1)] by simp
    have "zip (drop s ?cws) (take (length tr) (drop s pfx)) = zip (drop s ?cws) (drop s pfx)"
      by (simp add: zip_take_right n)
    then show ?thesis unfolding tr(2) using n s tr(1) by (intro consistent_steps [OF c _ _ tr0]) (simp_all add: st)
  qed
qed

text \<open>The result with a cache is the result without one, and the cache stays consistent.\<close>

lemma eval_transparent:
  assumes keys: "XofFixedKeyAes128Key_new prim extend_dst bindr = (Ok ek :: (bytes, idpf_error) outcome)"
    "XofFixedKeyAes128Key_new prim convert_dst bindr = (Ok ck :: (bytes, idpf_error) outcome)"
    and c: "consistent prim I (agg_id = 0) pub ek ck key c"
  shows "and_then (idpf_eval prim I agg_id pub key pfx bindr K c) (\<lambda>(out, _). Ok out) =
      eval_result prim I agg_id pub ek ck key pfx"
    and "idpf_eval prim I agg_id pub key pfx bindr K c = Ok (out, c') \<Longrightarrow> consistent prim I (agg_id = 0) pub ek ck key c'"
proof -
  let ?L = "agg_id = 0" and ?cws = "inner_correction_words pub"
  let ?ok = "agg_id \<le> 1 \<and> pfx \<noteq> [] \<and> length pfx \<le> Suc (length ?cws)"
  have err: "idpf_eval prim I agg_id pub key pfx bindr K c = Err IdpfInvalidParameter" if "\<not> ?ok"
    using that by (auto simp: idpf_eval_def Let_def)
  have ok: "\<exists>s k t tr0. idpf_eval prim I agg_id pub key pfx bindr K c = eval_from_node prim I ?L pub s k t pfx bindr K c \<and>
      s < length pfx \<and> state_after (key, \<not> ?L) tr0 = (k, t) \<and>
      eval_trace prim (inner_values I) ?L (inner_node_value_parameter I) ek ck (key, \<not> ?L) (zip ?cws (take s pfx)) = Ok tr0" if "?ok"
  proof (cases "cached_node K c pfx (length pfx - 1)")
    case None
    then show ?thesis using that by (intro exI [of _ 0] exI [of _ key] exI [of _ "\<not> ?L"] exI [of _ "[]"]) (simp add: idpf_eval_def Let_def)
  next
    case (Some r)
    then obtain s k b where r: "cached_node K c pfx (length pfx - 1) = Some (s, k, b)" by (cases r) auto
    from cached_node_SomeD [OF r] have s: "0 < s" "s \<le> length pfx - 1" "cache_get K c (take s pfx) = Some (k, b)" by simp_all
    with c obtain tr0 where "k = fst (state_after (key, \<not> ?L) tr0)" "b = of_bool (snd (state_after (key, \<not> ?L) tr0))"
      "eval_trace prim (inner_values I) ?L (inner_node_value_parameter I) ek ck (key, \<not> ?L) (zip ?cws (take s pfx)) = Ok tr0"
      unfolding consistent_def by blast
    with that s r show ?thesis
      by (intro exI [of _ s] exI [of _ k] exI [of _ "snd (state_after (key, \<not> ?L) tr0)"] exI [of _ tr0])
        (auto simp: idpf_eval_def Let_def choice_from_u8_def)
  qed
  show "and_then (idpf_eval prim I agg_id pub key pfx bindr K c) (\<lambda>(out, _). Ok out) =
      eval_result prim I agg_id pub ek ck key pfx"
  proof (cases ?ok)
    case True
    from ok [OF True] obtain s k t tr0 where f: "s < length pfx" "state_after (key, \<not> ?L) tr0 = (k, t)"
      "eval_trace prim (inner_values I) ?L (inner_node_value_parameter I) ek ck (key, \<not> ?L) (zip ?cws (take s pfx)) = Ok tr0"
      and e: "idpf_eval prim I agg_id pub key pfx bindr K c = eval_from_node prim I ?L pub s k t pfx bindr K c"
      by blast
    show ?thesis unfolding e using eval_from_consistent(1) [OF keys f(1) _ f(3,2) c] True by (simp add: eval_result_def)
  next
    case False
    then show ?thesis unfolding err [OF False] eval_result_def by (simp only: if_False and_then.simps)
  qed
  show "consistent prim I ?L pub ek ck key c'" if e: "idpf_eval prim I agg_id pub key pfx bindr K c = Ok (out, c')"
  proof -
    have "?ok" using e err by force
    from ok [OF this] obtain s k t tr0 where f: "s < length pfx" "state_after (key, \<not> ?L) tr0 = (k, t)"
      "eval_trace prim (inner_values I) ?L (inner_node_value_parameter I) ek ck (key, \<not> ?L) (zip ?cws (take s pfx)) = Ok tr0"
      and eq: "idpf_eval prim I agg_id pub key pfx bindr K c = eval_from_node prim I ?L pub s k t pfx bindr K c"
      by blast
    show ?thesis using \<open>?ok\<close> e [unfolded eq] by (intro eval_from_consistent(2) [OF keys f(1) _ f(3,2) c]) simp_all
  qed
qed

end

interpretation NoCache: lawful_cache NoCache "()"
  by unfold_locales (auto simp: NoCache_def)

interpretation HashMapCache: lawful_cache HashMapCache Map.empty
  by unfold_locales (auto simp: HashMapCache_def split: option.splits if_splits)

lemma find_append: "find P (xs @ ys) = (case find P xs of None \<Rightarrow> find P ys | Some x \<Rightarrow> Some x)"
  by (induction xs) auto

lemma find_rev_tl: "find P (rev (tl xs)) = Some x \<Longrightarrow> find P (rev xs) = Some x"
  by (cases xs) (auto simp: find_append)

interpretation RingBufferCache: lawful_cache RingBufferCache "RingBufferCache_new capacity" for capacity
proof unfold_locales
  fix p q v w c
  assume "cache_get RingBufferCache (cache_insert RingBufferCache p v c) q = Some w"
  then show "cache_get RingBufferCache c q = Some w \<or> (q = p \<and> w = v)"
    by (cases "p = q"; cases "length (ring c) = ring_capacity c") (auto simp: RingBufferCache_def Let_def dest: find_rev_tl)
qed (simp add: RingBufferCache_def RingBufferCache_new_def)

section \<open>Correctness of the scheme\<close>

text \<open>What the shares of a node add up to.\<close>

definition programmed ::
  "('pi, 'vi, 'pl, 'vl) idpf \<Rightarrow> idpf_input \<Rightarrow> 'vi list \<Rightarrow> 'vl \<Rightarrow> idpf_input \<Rightarrow> ('vi, 'vl) idpf_output_share" where
  "programmed I inp vs lv pfx =
     (if length pfx = length inp
      then LeafShare (if pfx = inp then lv else value_zero (leaf_values I) (leaf_node_value_parameter I))
      else InnerShare (if prefix pfx inp then vs ! (length pfx - 1) else value_zero (inner_values I) (inner_node_value_parameter I)))"

lemma gen_with_random_runs:
  assumes keys: "XofFixedKeyAes128Key_new prim extend_dst bindr = (Ok ek :: (bytes, idpf_error) outcome)"
    "XofFixedKeyAes128Key_new prim convert_dst bindr = (Ok ck :: (bytes, idpf_error) outcome)"
    and gen: "gen_with_random prim I inp vs lv bindr ks = Ok (pub, ks')"
  obtains g h where "ks' = ks" "inp \<noteq> []" "length vs = length inp - 1" "length (inner_correction_words pub) = length inp - 1"
    "gen_levels prim (inner_values I) (inner_node_value_parameter I) ek ck (zip (butlast inp) vs) ks (False, True) =
      Ok (inner_correction_words pub, g)"
    "generate_correction_word prim (leaf_values I) (last inp) lv (leaf_node_value_parameter I) (fst g) (snd g) ek ck =
      Ok (leaf_correction_word pub, h)"
proof -
  have ne: "inp \<noteq> []" using gen keys by (auto simp: gen_with_random_def)
  let ?loop = "for_each (\<lambda>(level, v) (cws, keys, control_bits).
      if length inp - 1 \<le> level then Err IdpfInvalidParameter
      else and_then (generate_correction_word prim (inner_values I) (inp ! level) v (inner_node_value_parameter I)
              keys control_bits ek ck) (\<lambda>(cw, keys, control_bits).
        Ok (cws @ [cw], keys, control_bits))) (zip [0..<length vs] vs) ([], ks, (False, True))"
  from gen keys ne obtain r where r: "?loop = Ok r" "length (fst r) = length inp - 1"
      "\<exists>h. generate_correction_word prim (leaf_values I) (inp ! (length inp - 1)) lv (leaf_node_value_parameter I) (fst (snd r))
        (snd (snd r)) ek ck = Ok (leaf_correction_word pub, h)" "inner_correction_words pub = fst r" "ks' = ks"
    by (auto simp: gen_with_random_def Let_def case_prod_beta split: if_splits)
  have "?loop = Ok (fst r, snd r)" using r(1) by simp
  from gen_loop [where l = 0, simplified, OF this] have g: "length vs \<le> length inp - 1"
    "gen_levels prim (inner_values I) (inner_node_value_parameter I) ek ck (zip inp vs) ks (False, True) = Ok (fst r, snd r)" by simp_all
  have len: "length vs = length inp - 1" using length_gen_levels [OF g(2)] r(2) ne g(1) by simp
  have "zip inp vs = zip (butlast inp) vs" using len by (cases inp rule: rev_cases) (simp_all add: zip_append1)
  then show ?thesis using that [of "snd r"] r ne len g by (auto simp: last_conv_nth)
qed

lemma prefix_iff_take: "prefix xs ys \<longleftrightarrow> xs = take (length xs) ys"
  by (metis append_eq_conv_conj append_take_drop_id prefix_def)

lemma butlast_last_eq_iff: "xs \<noteq> [] \<Longrightarrow> ys \<noteq> [] \<Longrightarrow> (butlast xs = butlast ys \<and> last xs = last ys) = (xs = ys)"
  by (metis append_butlast_last_id)

locale idpf_scheme =
  inner: idpf_values "inner_values I" "inner_node_value_parameter I" wfi repi +
  leaf: idpf_values "leaf_values I" "leaf_node_value_parameter I" wfl repl
  for I :: "('pi, 'vi, 'pl, 'vl) idpf" and wfi and repi :: "'vi \<Rightarrow> nat \<Rightarrow> 'gi::ab_group_add"
    and wfl and repl :: "'vl \<Rightarrow> nat \<Rightarrow> 'gl::ab_group_add"
begin

lemma shares_merge:
  assumes keys: "XofFixedKeyAes128Key_new prim extend_dst bindr = (Ok ek :: (bytes, idpf_error) outcome)"
    "XofFixedKeyAes128Key_new prim convert_dst bindr = (Ok ck :: (bytes, idpf_error) outcome)"
    and gen: "gen_with_random prim I inp vs lv bindr (k0, k1) = Ok (pub, ks')"
    and wf: "\<forall>v \<in> set vs. wfi v" "wfl lv"
    and pfx: "pfx \<noteq> []" "length pfx \<le> length inp"
    and o0: "eval_node prim I True pub ek ck k0 pfx = Ok o0"
  shows "\<exists>o1. eval_node prim I False pub ek ck k1 pfx = Ok o1 \<and>
    output_share_merge (inner_values I) (leaf_values I) o0 o1 = Ok (programmed I inp vs lv pfx)"
proof -
  obtain g h where ne: "inp \<noteq> []" and vs: "length vs = length inp - 1" and n: "length (inner_correction_words pub) = length inp - 1"
    and g: "gen_levels prim (inner_values I) (inner_node_value_parameter I) ek ck (zip (butlast inp) vs) (k0, k1) (False, True) =
      Ok (inner_correction_words pub, g)"
    and h: "generate_correction_word prim (leaf_values I) (last inp) lv (leaf_node_value_parameter I) (fst g) (snd g) ek ck =
      Ok (leaf_correction_word pub, h)"
    using gen_with_random_runs [OF keys gen] by metis
  let ?xs = "take (length inp - 1) pfx"
  have zip: "zip (inner_correction_words pub) pfx = zip (inner_correction_words pub) ?xs" by (simp add: zip_take_right n)
  let ?T = "\<lambda>L. eval_trace prim (inner_values I) L (inner_node_value_parameter I) ek ck"
  obtain tr0 where tr0: "?T True (k0, False) (zip (inner_correction_words pub) ?xs) = Ok tr0"
    using o0 by (auto simp: eval_node_def zip)
  have "related True ((k0, k1), (False, True)) (k0, False) (k1, True)" by (simp add: related_def)
  from inner.related_trace [OF g _ this wf(1) _ _ tr0] vs obtain tr1 where
    tr1: "?T False (k1, True) (zip (inner_correction_words pub) ?xs) = Ok tr1"
    and add: "\<And>i. i < length ?xs \<Longrightarrow> value_add (inner_values I) (fst (tr0 ! i)) (fst (tr1 ! i)) =
      Ok (if take (Suc i) ?xs = take (Suc i) (butlast inp) then vs ! i else value_zero (inner_values I) (inner_node_value_parameter I))"
    and rel: "length ?xs = length inp - 1 \<Longrightarrow> related (?xs = butlast inp) g (state_after (k0, False) tr0) (state_after (k1, True) tr1)"
    by auto
  show ?thesis
  proof (cases "length pfx = length inp")
    case True
    obtain out0 st0' where e0: "idpf_eval_next prim (leaf_values I) True (leaf_node_value_parameter I) (fst (state_after (k0, False) tr0))
        (snd (state_after (k0, False) tr0)) (leaf_correction_word pub) (last pfx) ek ck = Ok (out0, st0')" "o0 = LeafShare out0"
      using o0 True n ne tr0 by (auto simp: eval_node_def zip Let_def)
    have r: "related (?xs = butlast inp) (fst g, snd g) (state_after (k0, False) tr0) (state_after (k1, True) tr1)"
      using rel True by simp
    have g': "gen_levels prim (inner_values I) (inner_node_value_parameter I) ek ck (zip (butlast inp) vs) (k0, k1) (False, True) =
        Ok (inner_correction_words pub, fst g, snd g)" using g by simp
    have "\<forall>(b, v) \<in> set (zip (butlast inp) vs). wfi v" using wf(1) by (auto dest: set_zip_rightD)
    then have ts: "fst (snd g) \<noteq> snd (snd g)" using inner.gen_levels_wf [OF g'] by simp
    have cw: "wfl (cw_value (leaf_correction_word pub)) \<and> length (cw_seed (leaf_correction_word pub)) = 16"
      using leaf.gen_levels_wf [of prim ek ck "[(last inp, lv)]" "fst g" "snd g" "[leaf_correction_word pub]" "fst h" "snd h"] h ts wf(2)
      by simp
    have h': "generate_correction_word prim (leaf_values I) (last inp) lv (leaf_node_value_parameter I) (fst g) (snd g) ek ck =
        Ok (leaf_correction_word pub, fst h, snd h)" using h by simp
    obtain out1 st1' where e1: "idpf_eval_next prim (leaf_values I) False (leaf_node_value_parameter I) (fst (state_after (k1, True) tr1))
        (snd (state_after (k1, True) tr1)) (leaf_correction_word pub) (last pfx) ek ck = Ok (out1, st1')"
      "value_add (leaf_values I) out0 out1 = Ok (if ?xs = butlast inp \<and> last pfx = last inp then lv
        else value_zero (leaf_values I) (leaf_node_value_parameter I))"
      using leaf.related_step [OF h' r wf(2) cw e0(1)] by blast
    have "?xs = butlast pfx" using True by (simp add: butlast_conv_take)
    then have "(?xs = butlast inp \<and> last pfx = last inp) = (pfx = inp)"
      using butlast_last_eq_iff [OF pfx(1) ne] by simp
    then show ?thesis
      using True n ne e0 e1 tr1 by (simp add: eval_node_def zip programmed_def)
  next
    case False
    then have l: "length pfx \<le> length inp - 1" "?xs = pfx" using pfx by auto
    have len: "length tr0 = length pfx" "length tr1 = length pfx"
      using length_eval_trace [OF tr0] length_eval_trace [OF tr1] l n by auto
    then have nonempty: "tr0 \<noteq> []" "tr1 \<noteq> []" using pfx(1) by auto
    let ?i = "length pfx - 1"
    have i: "?i < length pfx" "Suc ?i = length pfx" using pfx(1) by simp_all
    have "take (length pfx) (butlast inp) = take (length pfx) inp" using l(1) by (simp add: butlast_conv_take min_def)
    then have "(take (Suc ?i) ?xs = take (Suc ?i) (butlast inp)) = prefix pfx inp"
      unfolding i(2) l(2) by (simp add: prefix_iff_take)
    with add [of ?i] i l have "value_add (inner_values I) (fst (last tr0)) (fst (last tr1)) =
        Ok (if prefix pfx inp then vs ! ?i else value_zero (inner_values I) (inner_node_value_parameter I))"
      using nonempty len by (simp add: last_conv_nth)
    moreover have "o0 = InnerShare (fst (last tr0))" "eval_node prim I False pub ek ck k1 pfx = Ok (InnerShare (fst (last tr1)))"
      using False n ne o0 tr0 tr1 nonempty unfolding eval_node_def zip by (simp_all add: Let_def)
    ultimately show ?thesis using False by (simp add: programmed_def)
  qed
qed

lemma on_path_total:
  assumes keys: "XofFixedKeyAes128Key_new prim extend_dst bindr = (Ok ek :: (bytes, idpf_error) outcome)"
    "XofFixedKeyAes128Key_new prim convert_dst bindr = (Ok ck :: (bytes, idpf_error) outcome)"
    and gen: "gen_with_random prim I inp vs lv bindr (k0, k1) = Ok (pub, ks')"
    and wf: "\<forall>v \<in> set vs. wfi v" "wfl lv"
    and pfx: "pfx \<noteq> []" "prefix pfx inp"
  shows "\<exists>o0. eval_node prim I True pub ek ck k0 pfx = Ok o0"
proof -
  obtain g h where ne: "inp \<noteq> []" and vs: "length vs = length inp - 1" and n: "length (inner_correction_words pub) = length inp - 1"
    and g: "gen_levels prim (inner_values I) (inner_node_value_parameter I) ek ck (zip (butlast inp) vs) (k0, k1) (False, True) =
      Ok (inner_correction_words pub, g)"
    and h: "generate_correction_word prim (leaf_values I) (last inp) lv (leaf_node_value_parameter I) (fst g) (snd g) ek ck =
      Ok (leaf_correction_word pub, h)"
    using gen_with_random_runs [OF keys gen] by metis
  let ?xs = "take (length inp - 1) pfx"
  have zip: "zip (inner_correction_words pub) pfx = zip (inner_correction_words pub) ?xs" by (simp add: zip_take_right n)
  have xs: "prefix ?xs (butlast inp)" using pfx(2) by (auto simp: prefix_def butlast_conv_take)
  obtain tr0 where tr0: "eval_trace prim (inner_values I) True (inner_node_value_parameter I) ek ck (k0, False)
      (zip (inner_correction_words pub) ?xs) = Ok tr0"
    using inner.trace_total [OF g _ wf(1) _ xs] vs by auto
  show ?thesis
  proof (cases "length pfx = length inp")
    case True
    then have eq: "pfx = inp" "?xs = butlast inp" using pfx(2) by (auto simp: prefix_def butlast_conv_take)
    have "related True ((k0, k1), (False, True)) (k0, False) (k1, True)" by (simp add: related_def)
    from inner.related_trace [OF g _ this wf(1) _ _ tr0] vs eq
    obtain tr1 :: "('vi \<times> seed \<times> choice) list" where "related True g (state_after (k0, False) tr0) (state_after (k1, True) tr1)" by auto
    then have "related True (fst g, snd g) (state_after (k0, False) tr0) (state_after (k1, True) tr1)" by simp
    from leaf.related_step_total(1) [OF _ this wf(2), of prim "last inp" ek ck "leaf_correction_word pub" "fst h" "snd h"] h obtain out where
      "idpf_eval_next prim (leaf_values I) True (leaf_node_value_parameter I) (fst (state_after (k0, False) tr0))
        (snd (state_after (k0, False) tr0)) (leaf_correction_word pub) (last pfx) ek ck = Ok (out, fst (fst h), fst (snd h))"
      using eq by auto
    then have "eval_node prim I True pub ek ck k0 pfx = Ok (LeafShare out)"
      using True n ne tr0 by (simp add: eval_node_def zip Let_def)
    then show ?thesis ..
  next
    case False
    have "length tr0 = length ?xs" using length_eval_trace [OF tr0] n by simp
    then have "tr0 \<noteq> []" using False pfx by (auto dest: prefix_length_le)
    then show ?thesis using False tr0 n ne by (auto simp: eval_node_def zip Let_def)
  qed
qed

end

section \<open>Prime fields as values\<close>

definition field_idpf ::
  "primitives \<Rightarrow> 'a::field field_element \<Rightarrow> 'b::field field_element \<Rightarrow> (unit, 'a, unit, 'b) idpf" where
  "field_idpf prim FI FL = \<lparr>
     inner_values = field_value FI (SeedStreamFixedKeyAes128_fill prim),
     leaf_values = field_value FL (SeedStreamFixedKeyAes128_fill prim),
     inner_node_value_parameter = (), leaf_node_value_parameter = ()\<rparr>"

interpretation field_values: idpf_values "field_value F fill" "()" "\<lambda>_. True" "\<lambda>v _. v" for F fill
  by unfold_locales (auto simp: field_value_def select_def)

interpretation field_scheme: idpf_scheme "field_idpf prim FI FL" "\<lambda>_. True" "\<lambda>v _. v" "\<lambda>_. True" "\<lambda>v _. v" for prim FI FL
  unfolding field_idpf_def idpf_scheme_def by (simp add: field_values.idpf_values_axioms)

lemma field_idpf_shares:
  assumes gen: "gen_with_random prim (field_idpf prim FI FL) inp vs lv bindr (k0, k1) = Ok (pub, ks')"
    and pfx: "pfx \<noteq> []" "length pfx \<le> length inp"
    and o0: "idpf_eval prim (field_idpf prim FI FL) 0 pub k0 pfx bindr NoCache () = Ok (o0, ())"
  shows "\<exists>o1. idpf_eval prim (field_idpf prim FI FL) 1 pub k1 pfx bindr NoCache () = Ok (o1, ()) \<and>
    output_share_merge (inner_values (field_idpf prim FI FL)) (leaf_values (field_idpf prim FI FL)) o0 o1 =
      Ok (programmed (field_idpf prim FI FL) inp vs lv pfx)"
proof -
  obtain ek ck where keys: "XofFixedKeyAes128Key_new prim extend_dst bindr = (Ok ek :: (bytes, idpf_error) outcome)"
    "XofFixedKeyAes128Key_new prim convert_dst bindr = (Ok ck :: (bytes, idpf_error) outcome)" by (rule idpf_keys)
  have n: "length pfx \<le> Suc (length (inner_correction_words pub))"
    using gen_with_random_runs [OF keys gen] pfx by (metis Suc_pred' length_greater_0_conv One_nat_def)
  note t = NoCache.eval_transparent(1) [OF keys NoCache.consistent_empty]
  have "eval_node prim (field_idpf prim FI FL) True pub ek ck k0 pfx = Ok o0"
    using t [of "field_idpf prim FI FL" 0 pub k0 pfx] o0 pfx(1) n by (simp add: eval_result_def)
  from field_scheme.shares_merge [OF keys gen _ _ pfx this] show ?thesis
    using t [of "field_idpf prim FI FL" 1 pub k1 pfx] pfx(1) n by (auto simp: eval_result_def)
qed

lemma field_idpf_total:
  assumes gen: "gen_with_random prim (field_idpf prim FI FL) inp vs lv bindr (k0, k1) = Ok (pub, ks')"
    and pfx: "pfx \<noteq> []" "prefix pfx inp"
  shows "\<exists>o0. idpf_eval prim (field_idpf prim FI FL) 0 pub k0 pfx bindr NoCache () = Ok (o0, ())"
proof -
  obtain ek ck where keys: "XofFixedKeyAes128Key_new prim extend_dst bindr = (Ok ek :: (bytes, idpf_error) outcome)"
    "XofFixedKeyAes128Key_new prim convert_dst bindr = (Ok ck :: (bytes, idpf_error) outcome)" by (rule idpf_keys)
  have "length pfx \<le> Suc (length (inner_correction_words pub))"
    using gen_with_random_runs [OF keys gen] pfx prefix_length_le by (metis Suc_pred' length_greater_0_conv One_nat_def)
  then show ?thesis
    using field_scheme.on_path_total [OF keys gen _ _ pfx] pfx(1)
      NoCache.eval_transparent(1) [OF keys NoCache.consistent_empty, of "field_idpf prim FI FL" 0 pub k0 pfx] by (auto simp: eval_result_def)
qed

section \<open>Sequences of evaluations\<close>

text \<open>Nodes evaluated one after the other, with the cache handed on.\<close>

definition eval_all ::
  "primitives \<Rightarrow> ('pi, 'vi, 'pl, 'vl) idpf \<Rightarrow> nat \<Rightarrow> ('vi, 'vl) idpf_public_share \<Rightarrow> seed \<Rightarrow> bytes \<Rightarrow> 'c idpf_cache \<Rightarrow> 'c \<Rightarrow>
   idpf_input list \<Rightarrow> (('vi, 'vl) idpf_output_share list, idpf_error) outcome" where
  "eval_all prim I agg_id pub key bindr K c pfxs =
     and_then (for_each (\<lambda>pfx (outs, c). and_then (idpf_eval prim I agg_id pub key pfx bindr K c) (\<lambda>(out, c). Ok (outs @ [out], c)))
       pfxs ([], c)) (\<lambda>(outs, _). Ok outs)"

context lawful_cache
begin

lemma eval_all_loop:
  assumes keys: "XofFixedKeyAes128Key_new prim extend_dst bindr = (Ok ek :: (bytes, idpf_error) outcome)"
    "XofFixedKeyAes128Key_new prim convert_dst bindr = (Ok ck :: (bytes, idpf_error) outcome)"
    and c: "consistent prim I (agg_id = 0) pub ek ck key c"
  shows "and_then (for_each (\<lambda>pfx (outs, c). and_then (idpf_eval prim I agg_id pub key pfx bindr K c) (\<lambda>(out, c). Ok (outs @ [out], c)))
      pfxs (outs, c)) (\<lambda>(outs, _). Ok outs) =
    for_each (\<lambda>pfx outs. and_then (eval_result prim I agg_id pub ek ck key pfx) (\<lambda>out. Ok (outs @ [out]))) pfxs outs"
  using c
proof (induction pfxs arbitrary: outs c)
  case (Cons pfx pfxs)
  note t = eval_transparent [OF keys Cons.prems, of pfx]
  show ?case
  proof (cases "idpf_eval prim I agg_id pub key pfx bindr K c")
    case (Ok r)
    obtain out c' where r: "r = (out, c')" by fastforce
    from Cons.IH [OF t(2) [OF Ok [unfolded r]], of "outs @ [out]"] t(1) show ?thesis
      by (simp add: Ok r flip: t(1))
  qed (simp_all flip: t(1))
qed simp

end

lemma cache_independent:
  assumes "lawful_cache K c" "lawful_cache K' c'"
  shows "eval_all prim I agg_id pub key bindr K c pfxs = eval_all prim I agg_id pub key bindr K' c' pfxs"
proof -
  obtain ek ck where keys: "XofFixedKeyAes128Key_new prim extend_dst bindr = (Ok ek :: (bytes, idpf_error) outcome)"
    "XofFixedKeyAes128Key_new prim convert_dst bindr = (Ok ck :: (bytes, idpf_error) outcome)" by (rule idpf_keys)
  show ?thesis
    unfolding eval_all_def
      lawful_cache.eval_all_loop [OF assms(1) keys lawful_cache.consistent_empty [OF assms(1)]]
      lawful_cache.eval_all_loop [OF assms(2) keys lawful_cache.consistent_empty [OF assms(2)]] ..
qed

end
