(* ===== verification/Vidpf.thy ===== *)
theory Vidpf
  imports IdpfCorrect
begin

text \<open>
  The verifiable incremental distributed point function of \<^verbatim>\<open>src/vidpf.rs\<close>: key generation, evaluation level by
  level with the node proofs, and vectors of field elements as weights.
\<close>

section \<open>Data\<close>

datatype vidpf_server_id = S0 | S1

fun choice_from_id :: "vidpf_server_id \<Rightarrow> choice" where
  "choice_from_id S0 = False"
| "choice_from_id S1 = True"

type_synonym vidpf_proof = bytes

record vidpf_key =
  key_id :: vidpf_server_id
  key_value :: seed

record 'w vidpf_correction_word =
  vcw_seed :: seed
  vcw_left_control_bit :: choice
  vcw_right_control_bit :: choice
  vcw_weight :: 'w

record 'w vidpf_public_share =
  public_cw :: "'w vidpf_correction_word list"
  public_cs :: "vidpf_proof list"

record vidpf_eval_state =
  state_seed :: seed
  state_control_bit :: choice
  state_proof :: vidpf_proof

record 'w vidpf_value_share =
  weight_share :: 'w
  share_proof :: vidpf_proof

record vidpf_prg_output =
  left_seed :: seed
  left_control_bit :: choice
  right_seed :: seed
  right_control_bit :: choice

text \<open>An instance is its weight parameter; the methods of the type of weights come with it.\<close>

record ('p, 'w) vidpf =
  weight_methods :: "('p, 'w, fixed_key_stream, vidpf_error) idpf_value"
  weight_parameter :: 'p

definition VIDPF_PROOF_SIZE :: nat where
  "VIDPF_PROOF_SIZE = 32"

definition ascii :: "string \<Rightarrow> bytes" where
  "ascii s = map of_char s"

definition PRG :: bytes where
  "PRG = ascii ''Prg''"

definition CONVERT :: bytes where
  "CONVERT = ascii ''Convert''"

definition NODE_PROOF :: bytes where
  "NODE_PROOF = ascii ''NodeProof''"

definition NODE_PROOF_ADJUST :: bytes where
  "NODE_PROOF_ADJUST = ascii ''NodeProofAdjust''"

definition xor_proof :: "vidpf_proof \<Rightarrow> vidpf_proof \<Rightarrow> vidpf_proof" where
  "xor_proof lhs rhs = map2 (XOR) lhs rhs"

definition conditional_xor_proof :: "vidpf_proof \<Rightarrow> vidpf_proof \<Rightarrow> choice \<Rightarrow> vidpf_proof" where
  "conditional_xor_proof lhs rhs c = map2 (\<lambda>a b. select a (a XOR b) c) lhs rhs"

section \<open>Oracles\<close>

definition vidpf_prg :: "primitives \<Rightarrow> seed \<Rightarrow> bytes \<Rightarrow> (vidpf_prg_output, 'e) outcome" where
  "vidpf_prg prim s nonce =
     and_then (xof_seed_stream (XofFixedKeyAes128 prim) s PRG nonce) (\<lambda>rng.
     and_then (fill_bytes (XofFixedKeyAes128 prim) 16 rng) (\<lambda>(l, rng).
     and_then (fill_bytes (XofFixedKeyAes128 prim) 16 rng) (\<lambda>(r, rng).
       Ok \<lparr>left_seed = l[0 := l ! 0 AND 0xfe], left_control_bit = (l ! 0 AND 1 \<noteq> 0),
           right_seed = r[0 := r ! 0 AND 0xfe], right_control_bit = (r ! 0 AND 1 \<noteq> 0)\<rparr>)))"

definition vidpf_convert ::
  "primitives \<Rightarrow> ('p, 'w) vidpf \<Rightarrow> seed \<Rightarrow> bytes \<Rightarrow> (seed \<times> 'w, vidpf_error) outcome" where
  "vidpf_convert prim I s nonce =
     and_then (xof_seed_stream (XofFixedKeyAes128 prim) s CONVERT nonce) (\<lambda>rng.
     and_then (fill_bytes (XofFixedKeyAes128 prim) 16 rng) (\<lambda>(out_seed, rng).
     and_then (generate (weight_methods I) (weight_parameter I) rng) (\<lambda>(w, rng). Ok (out_seed, w))))"

text \<open>
  The bits of the prefix are absorbed 128 at a time, as little-endian integers of 16 bytes, followed by the
  level as a 16-bit integer.
\<close>

definition node_proof :: "primitives \<Rightarrow> idpf_input \<Rightarrow> nat \<Rightarrow> seed \<Rightarrow> (vidpf_proof, vidpf_error) outcome" where
  "node_proof prim inp level s =
     (let P = XofTurboShake128 prim in
      and_then (init P s NODE_PROOF) (\<lambda>shake.
      if length inp \<le> level then Panic
      else
        let shake = fold (\<lambda>chunk128. update P (le_bytes 16 (horner_sum of_bool 2 chunk128)))
                      (chunks 128 (take (Suc level) inp)) shake
        in if 2 ^ 16 \<le> level then Err LevelTooBig
           else and_then (fill_bytes P VIDPF_PROOF_SIZE (into_seed_stream P (update P (le_bytes 2 level) shake)))
                  (\<lambda>(p, _). Ok p)))"

definition node_proof_adjustment :: "primitives \<Rightarrow> vidpf_proof \<Rightarrow> (vidpf_proof, vidpf_error) outcome" where
  "node_proof_adjustment prim p =
     and_then (xof_seed_stream (XofTurboShake128 prim) (replicate 16 0) NODE_PROOF_ADJUST p) (\<lambda>rng.
     and_then (fill_bytes (XofTurboShake128 prim) (length p) rng) (\<lambda>(p, _). Ok p))"

section \<open>Key generation\<close>

text \<open>\<open>getrandom\<close> yields a seed or fails.\<close>

definition vidpf_key_gen :: "seed option \<Rightarrow> vidpf_server_id \<Rightarrow> (vidpf_key, vidpf_error) outcome" where
  "vidpf_key_gen getrandom i =
     (case getrandom of Some v \<Rightarrow> Ok \<lparr>key_id = i, key_value = v\<rparr> | None \<Rightarrow> Err VidpfGetRandom)"

type_synonym 'w gen_state =
  "(seed \<times> seed) \<times> (choice \<times> choice) \<times> 'w vidpf_correction_word list \<times> vidpf_proof list"

text \<open>The body of the loop over the levels.\<close>

definition gen_level ::
  "primitives \<Rightarrow> ('p, 'w) vidpf \<Rightarrow> idpf_input \<Rightarrow> 'w \<Rightarrow> bytes \<Rightarrow> nat \<Rightarrow> 'w gen_state \<Rightarrow> ('w gen_state, vidpf_error) outcome" where
  "gen_level prim I inp weight nonce level = (\<lambda>((s_0, s_1), (t_0, t_1), cw, cs).
     let W = weight_methods I in
     case input_get inp level of
       None \<Rightarrow> Err IndexLevel
     | Some alpha_i \<Rightarrow>
         and_then (vidpf_prg prim s_0 nonce) (\<lambda>seq_0.
         and_then (vidpf_prg prim s_1 nonce) (\<lambda>seq_1.
         let (same_seed_0, diff_seed_0) = conditional_swap_seed (right_seed seq_0) (left_seed seq_0) alpha_i;
             (same_seed_1, diff_seed_1) = conditional_swap_seed (right_seed seq_1) (left_seed seq_1) alpha_i;
             diff_control_bit_0 = select (left_control_bit seq_0) (right_control_bit seq_0) alpha_i;
             diff_control_bit_1 = select (left_control_bit seq_1) (right_control_bit seq_1) alpha_i;
             s_cw = xor_seeds same_seed_0 same_seed_1;
             t_cw_l = xor_bool (xor_bool (xor_bool (left_control_bit seq_0) (left_control_bit seq_1)) alpha_i) True;
             t_cw_r = xor_bool (xor_bool (right_control_bit seq_0) (right_control_bit seq_1)) alpha_i;
             t_cw_diff = select t_cw_l t_cw_r alpha_i;
             s_tilde_i_0 = conditional_xor_seeds diff_seed_0 s_cw t_0;
             s_tilde_i_1 = conditional_xor_seeds diff_seed_1 s_cw t_1;
             t_0' = xor_bool diff_control_bit_0 (t_0 \<and> t_cw_diff);
             t_1' = xor_bool diff_control_bit_1 (t_1 \<and> t_cw_diff)
         in and_then (vidpf_convert prim I s_tilde_i_0 nonce) (\<lambda>(s_0', w_i_0).
            and_then (vidpf_convert prim I s_tilde_i_1 nonce) (\<lambda>(s_1', w_i_1).
            and_then (value_sub W w_i_1 w_i_0) (\<lambda>d.
            and_then (value_add W d weight) (\<lambda>w_cw.
            let cw_i = \<lparr>vcw_seed = s_cw, vcw_left_control_bit = t_cw_l, vcw_right_control_bit = t_cw_r,
                        vcw_weight = conditional_negate W w_cw t_1'\<rparr>
            in and_then (node_proof prim inp level s_0') (\<lambda>pi_tilde_0.
               and_then (node_proof prim inp level s_1') (\<lambda>pi_tilde_1.
                 Ok ((s_0', s_1'), (t_0', t_1'), cw @ [cw_i], cs @ [xor_proof pi_tilde_0 pi_tilde_1])))))))))) "

definition gen_with_keys ::
  "primitives \<Rightarrow> ('p, 'w) vidpf \<Rightarrow> vidpf_key \<times> vidpf_key \<Rightarrow> idpf_input \<Rightarrow> 'w \<Rightarrow> bytes \<Rightarrow>
   ('w vidpf_public_share, vidpf_error) outcome" where
  "gen_with_keys prim I keys inp weight nonce =
     (if key_id (fst keys) = key_id (snd keys) then Err SameKeyId
      else and_then (for_each (gen_level prim I inp weight nonce) [0..<length inp]
              ((key_value (fst keys), key_value (snd keys)),
               (choice_from_id (key_id (fst keys)), choice_from_id (key_id (snd keys))), [], []))
             (\<lambda>(_, _, cw, cs). Ok \<lparr>public_cw = cw, public_cs = cs\<rparr>))"

definition vidpf_gen ::
  "primitives \<Rightarrow> seed option \<times> seed option \<Rightarrow> ('p, 'w) vidpf \<Rightarrow> idpf_input \<Rightarrow> 'w \<Rightarrow> bytes \<Rightarrow>
   ('w vidpf_public_share \<times> vidpf_key \<times> vidpf_key, vidpf_error) outcome" where
  "vidpf_gen prim getrandom I inp weight nonce =
     and_then (vidpf_key_gen (fst getrandom) S0) (\<lambda>key_0.
     and_then (vidpf_key_gen (snd getrandom) S1) (\<lambda>key_1.
     and_then (gen_with_keys prim I (key_0, key_1) inp weight nonce) (\<lambda>public.
       Ok (public, key_0, key_1))))"

section \<open>Evaluation\<close>

definition init_from_key :: "vidpf_key \<Rightarrow> vidpf_eval_state" where
  "init_from_key key = \<lparr>state_seed = key_value key, state_control_bit = choice_from_id (key_id key),
     state_proof = replicate VIDPF_PROOF_SIZE 0\<rparr>"

definition vidpf_eval_next ::
  "primitives \<Rightarrow> ('p, 'w) vidpf \<Rightarrow> vidpf_server_id \<Rightarrow> 'w vidpf_public_share \<Rightarrow> idpf_input \<Rightarrow> nat \<Rightarrow> vidpf_eval_state \<Rightarrow>
   bytes \<Rightarrow> (vidpf_eval_state \<times> 'w, vidpf_error) outcome" where
  "vidpf_eval_next prim I i public inp level state nonce =
     (let W = weight_methods I in
      if length (public_cw public) \<le> level then Err IndexLevel
      else
        let cw = public_cw public ! level in
        and_then (vidpf_prg prim (state_seed state) nonce) (\<lambda>seq_tilde.
        let t_i = state_control_bit state;
            sl = conditional_xor_seeds (left_seed seq_tilde) (vcw_seed cw) t_i;
            sr = conditional_xor_seeds (right_seed seq_tilde) (vcw_seed cw) t_i;
            tl = xor_bool (left_control_bit seq_tilde) (t_i \<and> vcw_left_control_bit cw);
            tr = xor_bool (right_control_bit seq_tilde) (t_i \<and> vcw_right_control_bit cw)
        in case input_get inp level of
             None \<Rightarrow> Err IndexLevel
           | Some x_i \<Rightarrow>
               let s_tilde_i = conditional_select_seed x_i (sl, sr);
                   next_control_bit = select tl tr x_i
               in and_then (vidpf_convert prim I s_tilde_i nonce) (\<lambda>(next_seed, w_i).
                  and_then (value_select W (value_zero W (weight_parameter I)) (vcw_weight cw) next_control_bit) (\<lambda>y.
                  and_then (value_add W y w_i) (\<lambda>y.
                  let y = conditional_negate W y (choice_from_id i);
                      pi_i = state_proof state
                  in if length (public_cs public) \<le> level then Err IndexLevel
                     else
                       let cs_i = public_cs public ! level in
                       and_then (node_proof prim inp level next_seed) (\<lambda>pi_tilde.
                       let h2_input = xor_proof (conditional_xor_proof pi_tilde cs_i next_control_bit) pi_i in
                       and_then (node_proof_adjustment prim h2_input) (\<lambda>adjusted.
                         Ok (\<lparr>state_seed = next_seed, state_control_bit = next_control_bit,
                              state_proof = xor_proof adjusted pi_i\<rparr>, y))))))))"

definition vidpf_eval ::
  "primitives \<Rightarrow> ('p, 'w) vidpf \<Rightarrow> vidpf_key \<Rightarrow> 'w vidpf_public_share \<Rightarrow> idpf_input \<Rightarrow> bytes \<Rightarrow>
   ('w vidpf_value_share, vidpf_error) outcome" where
  "vidpf_eval prim I key public inp nonce =
     and_then (for_each (\<lambda>level (state, share). vidpf_eval_next prim I (key_id key) public inp level state nonce)
       [0..<length inp] (init_from_key key, value_zero (weight_methods I) (weight_parameter I)))
       (\<lambda>(state, share). Ok \<lparr>weight_share = share, share_proof = state_proof state\<rparr>)"

section \<open>Weights\<close>

text \<open>Vectors whose length is the parameter; every operation on vectors of different lengths panics.\<close>

definition weight_value :: "'f::field field_element \<Rightarrow> ('s, 'e) rng \<Rightarrow> (nat, 'f list, 's, 'e) idpf_value" where
  "weight_value F fill = \<lparr>
     generate = (\<lambda>len. generate_many F fill len),
     value_zero = (\<lambda>len. map (\<lambda>_. 0) [0..<len]),
     value_select = (\<lambda>lhs rhs c.
       if length lhs \<noteq> length rhs then Panic else Ok (map2 (\<lambda>a b. select a b c) lhs rhs)),
     value_add = (\<lambda>lhs rhs. if length lhs \<noteq> length rhs then Panic else Ok (map2 (+) lhs rhs)),
     value_sub = (\<lambda>lhs rhs. if length lhs \<noteq> length rhs then Panic else Ok (map2 (-) lhs rhs)),
     conditional_negate = (\<lambda>w c. map (\<lambda>a. select a (- a) c) w) \<rparr>"

definition weight_encode :: "'f field_element \<Rightarrow> 'f list encoder" where
  "weight_encode F w bs = for_each (field_encode F) w bs"

definition weight_decode :: "'f field_element \<Rightarrow> nat \<Rightarrow> 'f list decoder" where
  "weight_decode F len c = decode_count (field_decode F) len c"

end
