(* ===== verification/VidpfCorrect.thy ===== *)
theory VidpfCorrect
  imports Vidpf
begin

text \<open>
  Correctness of the verifiable incremental distributed point function.  Its levels are those of the incremental
  distributed point function with keys for the two tags, so the facts on related states carry over; on top of
  them the node proofs of the two servers agree on every input.
\<close>

section \<open>The oracles\<close>

text \<open>A stream from a seed is the stream of the factory for the fixed key.\<close>

lemma seed_stream_with_seed:
  "xof_seed_stream (XofFixedKeyAes128 prim) s dst bindr =
     and_then (XofFixedKeyAes128Key_new prim dst bindr) (\<lambda>key. Ok (with_seed key s))"
  by (simp add: xof_seed_stream_def XofFixedKeyAes128_def XofFixedKeyAes128Key_new_def and_then_assoc with_seed_def Let_def
      XOF_FIXED_KEY_AES_128_DOMAIN_SEPARATION_def)

lemma fill_bytes_fixed_key [simp]: "fill_bytes (XofFixedKeyAes128 prim) = SeedStreamFixedKeyAes128_fill prim"
  by (simp add: XofFixedKeyAes128_def)

lemma vidpf_prg_extend:
  assumes "XofFixedKeyAes128Key_new prim PRG nonce = (Ok ek :: (bytes, 'e) outcome)"
  shows "vidpf_prg prim s nonce = and_then (idpf_extend prim ek s :: (_, 'e) outcome)
    (\<lambda>((a, b), ta, tb). Ok \<lparr>left_seed = a, left_control_bit = ta, right_seed = b, right_control_bit = tb\<rparr>)"
  by (simp add: vidpf_prg_def seed_stream_with_seed assms idpf_extend_def and_then_assoc case_prod_beta cong: and_then_cong)

lemma vidpf_convert_convert:
  assumes "XofFixedKeyAes128Key_new prim CONVERT nonce = (Ok ck :: (bytes, vidpf_error) outcome)"
  shows "vidpf_convert prim I s nonce = idpf_convert prim (weight_methods I) s ck (weight_parameter I)"
  by (simp add: vidpf_convert_def seed_stream_with_seed assms idpf_convert_def)

lemma vidpf_keys:
  obtains ek ck where "XofFixedKeyAes128Key_new prim PRG nonce = (Ok ek :: (bytes, vidpf_error) outcome)"
    "XofFixedKeyAes128Key_new prim CONVERT nonce = (Ok ck :: (bytes, vidpf_error) outcome)"
  using fixed_key_total [of PRG prim nonce] fixed_key_total [of CONVERT prim nonce]
  by (auto simp: PRG_def CONVERT_def ascii_def)

lemma turboshake_init_total: "length dst < 256 \<Longrightarrow> \<exists>x. init (XofTurboShake128 prim) s dst = (Ok x :: (_, 'e) outcome)"
  by (simp add: XofTurboShake128_def dst_prefix_def)

lemma fill_bytes_turboshake [simp]: "fill_bytes (XofTurboShake128 prim) n r = Ok (map (contents r) [offset r..<offset r + n], Reader (contents r) (offset r + n))"
  by (simp add: XofTurboShake128_def SeedStreamTurboShake128_fill_bytes_def reader_read_def)

lemma node_proof_total:
  assumes "level < length inp" and "level < 2 ^ 16"
  shows "\<exists>p. node_proof prim inp level s = Ok p \<and> length p = 32"
  using assms turboshake_init_total [of NODE_PROOF prim s]
  by (auto simp: node_proof_def Let_def NODE_PROOF_def ascii_def VIDPF_PROOF_SIZE_def)

lemma node_proof_OkD:
  assumes "node_proof prim inp level s = Ok p"
  shows "level < length inp \<and> level < 2 ^ 16 \<and> length p = 32"
  using assms by (auto simp: node_proof_def Let_def VIDPF_PROOF_SIZE_def split: if_splits)

lemma node_proof_cong:
  assumes "take (Suc level) x = take (Suc level) inp" and "level < length x" and "level < length inp"
  shows "node_proof prim x level s = node_proof prim inp level s"
  using assms by (simp add: node_proof_def)

lemma node_proof_adjustment_total: "\<exists>q. node_proof_adjustment prim p = Ok q \<and> length q = length p"
proof -
  have "length NODE_PROOF_ADJUST < 256" by (simp add: NODE_PROOF_ADJUST_def ascii_def)
  from turboshake_init_total [where 'e = vidpf_error, OF this, of prim "replicate 16 0"] show ?thesis
    by (auto simp: node_proof_adjustment_def xof_seed_stream_def)
qed

section \<open>Levels\<close>

definition idpf_cw :: "'w vidpf_correction_word \<Rightarrow> 'w idpf_correction_word" where
  "idpf_cw c = \<lparr>cw_seed = vcw_seed c, cw_control_bits = (vcw_left_control_bit c, vcw_right_control_bit c), cw_value = vcw_weight c\<rparr>"

definition init_gen_state :: "vidpf_key \<times> vidpf_key \<Rightarrow> 'w gen_state" where
  "init_gen_state keys = ((key_value (fst keys), key_value (snd keys)),
     (choice_from_id (key_id (fst keys)), choice_from_id (key_id (snd keys))), [], [])"

definition gen_run ::
  "primitives \<Rightarrow> ('p, 'w) vidpf \<Rightarrow> vidpf_key \<times> vidpf_key \<Rightarrow> idpf_input \<Rightarrow> 'w \<Rightarrow> bytes \<Rightarrow> nat \<Rightarrow> ('w gen_state, vidpf_error) outcome" where
  "gen_run prim I keys inp weight nonce m = for_each (gen_level prim I inp weight nonce) [0..<m] (init_gen_state keys)"

definition eval_run ::
  "primitives \<Rightarrow> ('p, 'w) vidpf \<Rightarrow> vidpf_key \<Rightarrow> 'w vidpf_public_share \<Rightarrow> idpf_input \<Rightarrow> bytes \<Rightarrow> nat \<Rightarrow> (vidpf_eval_state \<times> 'w, vidpf_error) outcome" where
  "eval_run prim I key public x nonce m =
     for_each (\<lambda>level (state, share). vidpf_eval_next prim I (key_id key) public x level state nonce)
       [0..<m] (init_from_key key, value_zero (weight_methods I) (weight_parameter I))"

lemma gen_run_Suc: "gen_run prim I keys inp weight nonce (Suc m) =
    and_then (gen_run prim I keys inp weight nonce m) (gen_level prim I inp weight nonce m)"
  by (simp add: gen_run_def for_each_snoc)

lemma eval_run_Suc: "eval_run prim I key public x nonce (Suc m) =
    and_then (eval_run prim I key public x nonce m) (\<lambda>(state, share). vidpf_eval_next prim I (key_id key) public x m state nonce)"
  by (simp add: eval_run_def for_each_snoc)

lemma conditional_swap_seed_value:
  "length a = length b \<Longrightarrow> conditional_swap_seed a b c = (if c then (b, a) else (a, b))"
  by (auto simp: conditional_swap_seed_def select_def intro!: nth_equalityI)

locale vidpf_scheme = idpf_values "weight_methods I" "weight_parameter I" wf rep
  for I :: "('p, 'w) vidpf" and wf and rep :: "'w \<Rightarrow> nat \<Rightarrow> 'g::ab_group_add"
begin

lemma level_step:
  assumes keys: "XofFixedKeyAes128Key_new prim PRG nonce = (Ok ek :: (bytes, vidpf_error) outcome)"
    "XofFixedKeyAes128Key_new prim CONVERT nonce = (Ok ck :: (bytes, vidpf_error) outcome)"
    and step: "gen_level prim I inp weight nonce level (ks, ts, cw, cs) = Ok (ks', ts', cw', cs')" and w: "wf weight"
  shows "\<exists>c p0 p1. cw' = cw @ [c] \<and> cs' = cs @ [xor_proof p0 p1] \<and>
    generate_correction_word prim (weight_methods I) (inp ! level) weight (weight_parameter I) ks ts ek ck = Ok (idpf_cw c, ks', ts') \<and>
    node_proof prim inp level (fst ks') = Ok p0 \<and> node_proof prim inp level (snd ks') = Ok p1"
proof -
  obtain s0 s1 t0 t1 where st: "ks = (s0, s1)" "ts = (t0, t1)" by fastforce
  have level: "level < length inp" using step by (auto simp: gen_level_def st input_get_def split: if_splits)
  obtain a0 b0 ta0 tb0 where x0: "idpf_extend prim ek s0 = (Ok ((a0, b0), ta0, tb0) :: (_, vidpf_error) outcome)" "length a0 = 16" "length b0 = 16"
    using extend_total by blast
  obtain a1 b1 ta1 tb1 where x1: "idpf_extend prim ek s1 = (Ok ((a1, b1), ta1, tb1) :: (_, vidpf_error) outcome)" "length a1 = 16" "length b1 = 16"
    using extend_total by blast
  let ?b = "inp ! level"
  let ?cs = "seed_correction ?b (a0, b0) (a1, b1)" and ?ct = "bit_correction ?b (ta0, tb0) (ta1, tb1)"
  have eq: "gen_level prim I inp weight nonce level (ks, ts, cw, cs) =
      and_then (idpf_convert prim (weight_methods I) (kept_seed ?b ?cs (a0, b0) t0) ck (weight_parameter I)) (\<lambda>(n0, e0).
      and_then (idpf_convert prim (weight_methods I) (kept_seed ?b ?cs (a1, b1) t1) ck (weight_parameter I)) (\<lambda>(n1, e1).
      and_then (value_sub (weight_methods I) e1 e0) (\<lambda>d. and_then (value_add (weight_methods I) d weight) (\<lambda>c.
      and_then (node_proof prim inp level n0) (\<lambda>p0. and_then (node_proof prim inp level n1) (\<lambda>p1.
        Ok ((n0, n1), (kept_bit ?b ?ct (ta0, tb0) t0, kept_bit ?b ?ct (ta1, tb1) t1),
          cw @ [\<lparr>vcw_seed = ?cs, vcw_left_control_bit = fst ?ct, vcw_right_control_bit = snd ?ct,
            vcw_weight = conditional_negate (weight_methods I) c (kept_bit ?b ?ct (ta1, tb1) t1)\<rparr>],
          cs @ [xor_proof p0 p1])))))))"
    using x0 x1 level
    by (cases ?b) (simp_all add: gen_level_def st input_get_def vidpf_prg_extend [OF keys(1)] vidpf_convert_convert [OF keys(2)]
      conditional_swap_seed_value seed_simps select_def Let_def seed_correction_def bit_correction_def kept_seed_def kept_bit_def conj_commute)
  from step [unfolded eq] obtain e0 e1 d c p0 p1 where
    e: "idpf_convert prim (weight_methods I) (kept_seed ?b ?cs (a0, b0) t0) ck (weight_parameter I) = Ok (fst ks', e0)"
      "idpf_convert prim (weight_methods I) (kept_seed ?b ?cs (a1, b1) t1) ck (weight_parameter I) = Ok (snd ks', e1)"
    and d: "value_sub (weight_methods I) e1 e0 = Ok d" "value_add (weight_methods I) d weight = Ok c"
    and p: "node_proof prim inp level (fst ks') = Ok p0" "node_proof prim inp level (snd ks') = Ok p1"
    and ts': "ts' = (kept_bit ?b ?ct (ta0, tb0) t0, kept_bit ?b ?ct (ta1, tb1) t1)"
    and out: "cw' = cw @ [\<lparr>vcw_seed = ?cs, vcw_left_control_bit = fst ?ct, vcw_right_control_bit = snd ?ct,
        vcw_weight = conditional_negate (weight_methods I) c (snd ts')\<rparr>]" "cs' = cs @ [xor_proof p0 p1]"
    by fastforce
  have wf: "wf e0" "wf e1" using e convert_wf by blast+
  obtain d' where d': "value_sub (weight_methods I) weight e0 = Ok d'" "wf d'" "\<And>i. rep d' i = rep weight i - rep e0 i"
    using sub [OF w wf(1)] by blast
  have "wf c" "\<And>i. rep c i = rep e1 i - rep e0 i + rep weight i"
    using sub [OF wf(2,1)] add w d by force+
  then have "value_add (weight_methods I) d' e1 = Ok c" using d' wf by (intro add_eqI) simp_all
  then have "generate_correction_word prim (weight_methods I) ?b weight (weight_parameter I) ks ts ek ck =
      Ok (idpf_cw \<lparr>vcw_seed = ?cs, vcw_left_control_bit = fst ?ct, vcw_right_control_bit = snd ?ct,
        vcw_weight = conditional_negate (weight_methods I) c (snd ts')\<rparr>, ks', ts')"
    unfolding st generate_correction_word_eq [OF x0 x1] using e d'(1) by (simp add: ts' idpf_cw_def)
  with out p show ?thesis by blast
qed

text \<open>The evaluation of a level is that of the incremental distributed point function, followed by the proof.\<close>

lemma eval_next_step:
  assumes keys: "XofFixedKeyAes128Key_new prim PRG nonce = (Ok ek :: (bytes, vidpf_error) outcome)"
    "XofFixedKeyAes128Key_new prim CONVERT nonce = (Ok ck :: (bytes, vidpf_error) outcome)"
    and level: "level < length (public_cw public)" "level < length (public_cs public)" "level < length x"
    and cw: "wf (vcw_weight (public_cw public ! level))"
  shows "vidpf_eval_next prim I i public x level state nonce =
    and_then (idpf_eval_next prim (weight_methods I) (i = S0) (weight_parameter I) (state_seed state) (state_control_bit state)
        (idpf_cw (public_cw public ! level)) (x ! level) ek ck) (\<lambda>r.
      and_then (node_proof prim x level (fst (snd r))) (\<lambda>p.
      and_then (node_proof_adjustment prim (xor_proof (conditional_xor_proof p (public_cs public ! level) (snd (snd r))) (state_proof state))) (\<lambda>q.
        Ok (\<lparr>state_seed = fst (snd r), state_control_bit = snd (snd r), state_proof = xor_proof q (state_proof state)\<rparr>, fst r))))"
proof -
  obtain a b ta tb where e: "idpf_extend prim ek (state_seed state) = (Ok ((a, b), ta, tb) :: (_, vidpf_error) outcome)"
    using extend_total by blast
  have comm: "value_add (weight_methods I) z w = value_add (weight_methods I) w z" if "wf w" "wf z" for w z
    using add [OF that] add_eqI [OF that(2,1)] by (metis add.commute)
  have sel: "value_select (weight_methods I) (value_zero (weight_methods I) (weight_parameter I)) (vcw_weight (public_cw public ! level)) t =
      Ok (select (value_zero (weight_methods I) (weight_parameter I)) (vcw_weight (public_cw public ! level)) t)" for t
    by (rule sel [OF zero(1) cw])
  have wfs: "wf (select (value_zero (weight_methods I) (weight_parameter I)) (vcw_weight (public_cw public ! level)) t)" for t
    using cw zero(1) by (simp add: select_def)
  have id: "choice_from_id i = (i \<noteq> S0)" by (cases i) simp_all
  have swap: "value_add (weight_methods I) (select (value_zero (weight_methods I) (weight_parameter I)) (vcw_weight (public_cw public ! level)) t) (snd r) =
      value_add (weight_methods I) (snd r) (select (value_zero (weight_methods I) (weight_parameter I)) (vcw_weight (public_cw public ! level)) t)"
    if "idpf_convert prim (weight_methods I) s ck (weight_parameter I) = Ok r" for s t r
    using comm [OF convert_wf [of prim s ck "fst r" "snd r"] wfs] that by simp
  show ?thesis
    using level
    by (simp add: vidpf_eval_next_def idpf_eval_next_def vidpf_prg_extend [OF keys(1)] vidpf_convert_convert [OF keys(2)] e input_get_def
        Let_def and_then_assoc case_prod_beta sel id idpf_cw_def conj_commute cong: and_then_cong)
      (rule and_then_cong [OF refl], simp only: swap)
qed

text \<open>The levels of a successful generation, one after the other.\<close>

lemma gen_run_SucE:
  assumes keys: "XofFixedKeyAes128Key_new prim PRG nonce = (Ok ek :: (bytes, vidpf_error) outcome)"
    "XofFixedKeyAes128Key_new prim CONVERT nonce = (Ok ck :: (bytes, vidpf_error) outcome)"
    and run: "gen_run prim I ids inp weight nonce (Suc m) = Ok (ks', ts', CW', CS')" and w: "wf weight"
  obtains ks ts CW CS c p0 p1 where "gen_run prim I ids inp weight nonce m = Ok (ks, ts, CW, CS)" "CW' = CW @ [c]"
    "CS' = CS @ [xor_proof p0 p1]"
    "generate_correction_word prim (weight_methods I) (inp ! m) weight (weight_parameter I) ks ts ek ck = Ok (idpf_cw c, ks', ts')"
    "node_proof prim inp m (fst ks') = Ok p0" "node_proof prim inp m (snd ks') = Ok p1"
proof -
  from run obtain ks ts CW CS where r: "gen_run prim I ids inp weight nonce m = Ok (ks, ts, CW, CS)"
    "gen_level prim I inp weight nonce m (ks, ts, CW, CS) = Ok (ks', ts', CW', CS')"
    unfolding gen_run_Suc by fastforce
  from level_step [OF keys r(2) w] r(1) that show ?thesis by blast
qed

lemma gen_run_invariant:
  assumes keys: "XofFixedKeyAes128Key_new prim PRG nonce = (Ok ek :: (bytes, vidpf_error) outcome)"
    "XofFixedKeyAes128Key_new prim CONVERT nonce = (Ok ck :: (bytes, vidpf_error) outcome)"
    and "gen_run prim I ids inp weight nonce m = Ok (ks, ts, CW, CS)" and "wf weight" and "key_id (fst ids) \<noteq> key_id (snd ids)"
  shows "length CW = m \<and> length CS = m \<and> fst ts \<noteq> snd ts \<and> (\<forall>c \<in> set CW. wf (vcw_weight c) \<and> length (vcw_seed c) = 16)"
  using assms(3)
proof (induction m arbitrary: ks ts CW CS)
  case 0
  then show ?case using assms(5) by (cases "key_id (fst ids)"; cases "key_id (snd ids)") (auto simp: gen_run_def init_gen_state_def)
next
  case (Suc m)
  obtain ks0 ts0 CW0 CS0 c p0 p1 where r: "gen_run prim I ids inp weight nonce m = Ok (ks0, ts0, CW0, CS0)" "CW = CW0 @ [c]"
      "CS = CS0 @ [xor_proof p0 p1]"
    and g: "generate_correction_word prim (weight_methods I) (inp ! m) weight (weight_parameter I) ks0 ts0 ek ck = Ok (idpf_cw c, ks, ts)"
    using gen_run_SucE [OF keys Suc.prems assms(4)] by metis
  have ts0: "fst ts0 \<noteq> snd ts0" using Suc.IH [OF r(1)] by simp
  have "fst ts \<noteq> snd ts \<and> (\<forall>cw \<in> set [idpf_cw c]. wf (cw_value cw) \<and> length (cw_seed cw) = 16)"
    using g ts0 assms(4) by (intro gen_levels_wf [of prim ek ck "[(inp ! m, weight)]" ks0 ts0 _ ks ts]) simp_all
  with Suc.IH [OF r(1)] r show ?case by (auto simp: idpf_cw_def)
qed

lemma gen_run_prefix:
  assumes keys: "XofFixedKeyAes128Key_new prim PRG nonce = (Ok ek :: (bytes, vidpf_error) outcome)"
    "XofFixedKeyAes128Key_new prim CONVERT nonce = (Ok ck :: (bytes, vidpf_error) outcome)"
    and "gen_run prim I ids inp weight nonce n = Ok (ks, ts, CW, CS)" and "wf weight" and "key_id (fst ids) \<noteq> key_id (snd ids)" and "m \<le> n"
  shows "\<exists>ks' ts'. gen_run prim I ids inp weight nonce m = Ok (ks', ts', take m CW, take m CS)"
  using assms(3,6)
proof (induction n arbitrary: ks ts CW CS)
  case (Suc n)
  show ?case
  proof (cases "m = Suc n")
    case True
    with gen_run_invariant [OF keys Suc.prems(1) assms(4,5)] Suc.prems(1) show ?thesis by auto
  next
    case False
    obtain ks0 ts0 CW0 CS0 c p0 p1 where r: "gen_run prim I ids inp weight nonce n = Ok (ks0, ts0, CW0, CS0)" "CW = CW0 @ [c]"
        "CS = CS0 @ [xor_proof p0 p1]"
      using gen_run_SucE [OF keys Suc.prems(1) assms(4)] by metis
    from gen_run_invariant [OF keys r(1) assms(4,5)] Suc.IH [OF r(1)] False Suc.prems(2) r show ?thesis by auto
  qed
qed (auto simp: gen_run_def init_gen_state_def)

end

lemma xor_proof_cancel:
  assumes "length p0 = length p1"
  shows "xor_proof p0 (xor_proof p0 p1) = p1" and "xor_proof p1 (xor_proof p0 p1) = p0"
  using xor_seeds_cancel [OF assms] by (simp_all add: xor_proof_def xor_seeds_def)

lemma conditional_xor_proof_value:
  "length p = length q \<Longrightarrow> conditional_xor_proof p q c = (if c then xor_proof p q else p)"
  by (auto simp: conditional_xor_proof_def xor_proof_def select_def intro!: nth_equalityI)

lemma length_xor_proof [simp]: "length (xor_proof p q) = min (length p) (length q)"
  by (simp add: xor_proof_def)

text \<open>After the correction the two servers hold the same node proof.\<close>

lemma node_proofs_agree:
  assumes rel: "related on (ks, ts) (s0, t0) (s1, t1)"
    and p: "node_proof prim inp m (fst ks) = Ok p0" "node_proof prim inp m (snd ks) = Ok p1"
    and q: "node_proof prim x m s0 = Ok q0" "node_proof prim x m s1 = Ok q1"
    and on: "on \<Longrightarrow> take (Suc m) x = take (Suc m) inp"
  shows "conditional_xor_proof q0 (xor_proof p0 p1) t0 = conditional_xor_proof q1 (xor_proof p0 p1) t1"
    and "length (conditional_xor_proof q0 (xor_proof p0 p1) t0) = 32"
proof -
  note len = node_proof_OkD [OF p(1)] node_proof_OkD [OF p(2)] node_proof_OkD [OF q(1)] node_proof_OkD [OF q(2)]
  show "conditional_xor_proof q0 (xor_proof p0 p1) t0 = conditional_xor_proof q1 (xor_proof p0 p1) t1"
  proof (cases on)
    case True
    with rel have "ks = (s0, s1)" "t0 \<noteq> t1" by (simp_all add: related_def)
    moreover have "node_proof prim x m s = node_proof prim inp m s" for s
      using on [OF True] len by (intro node_proof_cong) simp_all
    ultimately have "q0 = p0" "q1 = p1" "t1 = (\<not> t0)" using p q by auto
    then show ?thesis using len by (auto simp: conditional_xor_proof_value xor_proof_cancel)
  next
    case False
    with rel q show ?thesis by (simp add: related_def)
  qed
  show "length (conditional_xor_proof q0 (xor_proof p0 p1) t0) = 32"
    using len by (simp add: conditional_xor_proof_value)
qed

lemma take_Suc_eq_iff:
  "m < length x \<Longrightarrow> m < length y \<Longrightarrow> take (Suc m) x = take (Suc m) y \<longleftrightarrow> take m x = take m y \<and> x ! m = y ! m"
  by (simp add: take_Suc_conv_app_nth)

context vidpf_scheme
begin

lemma eval_related:
  assumes keys: "XofFixedKeyAes128Key_new prim PRG nonce = (Ok ek :: (bytes, vidpf_error) outcome)"
    "XofFixedKeyAes128Key_new prim CONVERT nonce = (Ok ck :: (bytes, vidpf_error) outcome)"
    and run: "gen_run prim I (k0, k1) inp weight nonce (length inp) = Ok (g, h, CW, CS)" and w: "wf weight"
    and ids: "key_id k0 = S0" "key_id k1 = S1"
    and x: "m \<le> length x" "length x \<le> length inp"
    and ev: "eval_run prim I k0 \<lparr>public_cw = CW, public_cs = CS\<rparr> x nonce m = Ok (st0, y0)"
  shows "\<exists>st1 y1 ks ts. eval_run prim I k1 \<lparr>public_cw = CW, public_cs = CS\<rparr> x nonce m = Ok (st1, y1) \<and>
    gen_run prim I (k0, k1) inp weight nonce m = Ok (ks, ts, take m CW, take m CS) \<and>
    related (take m x = take m inp) (ks, ts) (state_seed st0, state_control_bit st0) (state_seed st1, state_control_bit st1) \<and>
    state_proof st0 = state_proof st1 \<and> length (state_proof st0) = 32 \<and>
    value_add (weight_methods I) y0 y1 =
      Ok (if 0 < m \<and> take m x = take m inp then weight else value_zero (weight_methods I) (weight_parameter I))"
  using x(1) ev
proof (induction m arbitrary: st0 y0)
  case 0
  have "value_add (weight_methods I) (value_zero (weight_methods I) (weight_parameter I)) (value_zero (weight_methods I) (weight_parameter I)) =
      Ok (value_zero (weight_methods I) (weight_parameter I))"
    by (rule add_eqI) (simp_all add: zero)
  with 0 ids show ?case by (auto simp: eval_run_def gen_run_def init_gen_state_def init_from_key_def related_def VIDPF_PROOF_SIZE_def)
next
  case (Suc m)
  let ?pub = "\<lparr>public_cw = CW, public_cs = CS\<rparr>" and ?W = "weight_methods I" and ?p = "weight_parameter I"
  have kid: "key_id (fst (k0, k1)) \<noteq> key_id (snd (k0, k1))" by (simp add: ids)
  have m: "m < length x" "m < length inp" "Suc m \<le> length inp" using Suc.prems(1) x(2) by simp_all
  note inv = gen_run_invariant [OF keys run w kid]
  from Suc.prems(2) obtain st y where e: "eval_run prim I k0 ?pub x nonce m = Ok (st, y)"
    "vidpf_eval_next prim I S0 ?pub x m st nonce = Ok (st0, y0)"
    unfolding eval_run_Suc ids by fastforce
  from Suc.IH [OF _ e(1)] m obtain st' y' ks ts where ih: "eval_run prim I k1 ?pub x nonce m = Ok (st', y')"
    "gen_run prim I (k0, k1) inp weight nonce m = Ok (ks, ts, take m CW, take m CS)"
    "related (take m x = take m inp) (ks, ts) (state_seed st, state_control_bit st) (state_seed st', state_control_bit st')"
    "state_proof st = state_proof st'" "length (state_proof st) = 32" by auto
  obtain ks' ts' where g: "gen_run prim I (k0, k1) inp weight nonce (Suc m) = Ok (ks', ts', take (Suc m) CW, take (Suc m) CS)"
    using gen_run_prefix [OF keys run w kid m(3)] by blast
  obtain c p0 p1 where c: "CW ! m = c" "CS ! m = xor_proof p0 p1"
    and gc: "generate_correction_word prim ?W (inp ! m) weight ?p ks ts ek ck = Ok (idpf_cw c, ks', ts')"
    and p: "node_proof prim inp m (fst ks') = Ok p0" "node_proof prim inp m (snd ks') = Ok p1"
    by (rule gen_run_SucE [OF keys g w]) (use ih(2) inv m in \<open>auto simp: take_Suc_conv_app_nth\<close>)
  have wfc: "wf (cw_value (idpf_cw c)) \<and> length (cw_seed (idpf_cw c)) = 16" "wf (vcw_weight (public_cw ?pub ! m))"
    using inv c m by (auto simp: idpf_cw_def)
  have lv: "m < length (public_cw ?pub)" "m < length (public_cs ?pub)" using inv m by simp_all
  note nxt = eval_next_step [OF keys lv m(1) wfc(2)]
  from e(2) [unfolded nxt] obtain s0 t0 q0 a0 where
    o0: "idpf_eval_next prim ?W True ?p (state_seed st) (state_control_bit st) (idpf_cw c) (x ! m) ek ck = Ok (y0, s0, t0)"
    and q0: "node_proof prim x m s0 = Ok q0"
    and a0: "node_proof_adjustment prim (xor_proof (conditional_xor_proof q0 (xor_proof p0 p1) t0) (state_proof st)) = Ok a0"
    and st0: "st0 = \<lparr>state_seed = s0, state_control_bit = t0, state_proof = xor_proof a0 (state_proof st)\<rparr>"
    by (auto simp: c)
  have o0': "idpf_eval_next prim ?W True ?p (fst (state_seed st, state_control_bit st)) (snd (state_seed st, state_control_bit st))
      (idpf_cw c) (x ! m) ek ck = Ok (y0, s0, t0)" using o0 by simp
  obtain y1 s1 t1 where o1: "idpf_eval_next prim ?W False ?p (state_seed st') (state_control_bit st') (idpf_cw c) (x ! m) ek ck = Ok (y1, s1, t1)"
    "value_add ?W y0 y1 = Ok (if take m x = take m inp \<and> x ! m = inp ! m then weight else value_zero ?W ?p)"
    "related (take m x = take m inp \<and> x ! m = inp ! m) (ks', ts') (s0, t0) (s1, t1)"
    using related_step [OF gc ih(3) w wfc(1) o0'] by auto
  obtain q1 where q1: "node_proof prim x m s1 = Ok q1"
    using node_proof_total m(1) node_proof_OkD [OF q0] by blast
  note agree = node_proofs_agree [OF o1(3) p q0 q1, unfolded take_Suc_eq_iff [OF m(1,2), symmetric]]
  have "vidpf_eval_next prim I S1 ?pub x m st' nonce =
      Ok (\<lparr>state_seed = s1, state_control_bit = t1, state_proof = xor_proof a0 (state_proof st')\<rparr>, y1)"
    unfolding nxt using o1(1) q1 a0 agree(1) ih(4) by (simp add: c)
  moreover have "length a0 = 32"
    using node_proof_adjustment_total [of prim "xor_proof (conditional_xor_proof q0 (xor_proof p0 p1) t0) (state_proof st)"] a0 agree(2) ih(5)
    by auto
  ultimately show ?case
    using ih g o1(2,3) st0 take_Suc_eq_iff [OF m(1,2)] by (simp add: eval_run_Suc ids)
qed

text \<open>On the prefixes of the programmed input the evaluation succeeds.\<close>

lemma eval_total:
  assumes keys: "XofFixedKeyAes128Key_new prim PRG nonce = (Ok ek :: (bytes, vidpf_error) outcome)"
    "XofFixedKeyAes128Key_new prim CONVERT nonce = (Ok ck :: (bytes, vidpf_error) outcome)"
    and run: "gen_run prim I (k0, k1) inp weight nonce (length inp) = Ok (g, h, CW, CS)" and w: "wf weight"
    and ids: "key_id k0 = S0" "key_id k1 = S1" and x: "prefix x inp" and m: "m \<le> length x"
  shows "\<exists>st0 y0. eval_run prim I k0 \<lparr>public_cw = CW, public_cs = CS\<rparr> x nonce m = Ok (st0, y0)"
  using m
proof (induction m)
  case 0
  then show ?case by (simp add: eval_run_def)
next
  case (Suc m)
  let ?pub = "\<lparr>public_cw = CW, public_cs = CS\<rparr>"
  have kid: "key_id (fst (k0, k1)) \<noteq> key_id (snd (k0, k1))" by (simp add: ids)
  have len: "length x \<le> length inp" using x by (rule prefix_length_le)
  have m: "m < length x" "m < length inp" "m \<le> length x" "Suc m \<le> length inp" using Suc.prems len by simp_all
  have on: "take m x = take m inp" "x ! m = inp ! m" using x m by (auto simp: prefix_def nth_append)
  note inv = gen_run_invariant [OF keys run w kid]
  from Suc.IH m(3) obtain st y where e: "eval_run prim I k0 ?pub x nonce m = Ok (st, y)" by blast
  from eval_related [OF keys run w ids m(3) len e] on obtain st' :: vidpf_eval_state and ks ts where
    ih: "gen_run prim I (k0, k1) inp weight nonce m = Ok (ks, ts, take m CW, take m CS)"
    "related True (ks, ts) (state_seed st, state_control_bit st) (state_seed st', state_control_bit st')" by auto
  obtain ks' ts' where g: "gen_run prim I (k0, k1) inp weight nonce (Suc m) = Ok (ks', ts', take (Suc m) CW, take (Suc m) CS)"
    using gen_run_prefix [OF keys run w kid m(4)] by blast
  obtain c p0 where c: "CW ! m = c"
    and gc: "generate_correction_word prim (weight_methods I) (inp ! m) weight (weight_parameter I) ks ts ek ck = Ok (idpf_cw c, ks', ts')"
    and p: "node_proof prim inp m (fst ks') = Ok p0"
    by (rule gen_run_SucE [OF keys g w]) (use ih(1) inv m in \<open>auto simp: take_Suc_conv_app_nth\<close>)
  obtain y0 where "idpf_eval_next prim (weight_methods I) True (weight_parameter I) (state_seed st) (state_control_bit st) (idpf_cw c) (x ! m) ek ck =
      Ok (y0, fst ks', fst ts')"
    using related_step_total(1) [OF gc ih(2) w] on(2) by auto
  moreover obtain q where "node_proof prim x m (fst ks') = Ok q" using node_proof_total m(1) node_proof_OkD [OF p] by blast
  moreover obtain a where "node_proof_adjustment prim (xor_proof (conditional_xor_proof q (CS ! m) (fst ts')) (state_proof st)) = Ok a"
    using node_proof_adjustment_total by blast
  moreover have "wf (vcw_weight (public_cw ?pub ! m))" "m < length (public_cw ?pub)" "m < length (public_cs ?pub)" using inv c m by auto
  ultimately show ?case
    using e m(1) c by (simp add: eval_run_Suc ids eval_next_step [OF keys])
qed

lemma gen_with_keys_runE:
  assumes "gen_with_keys prim I (k0, k1) inp weight nonce = Ok public"
  obtains g h CW CS where "gen_run prim I (k0, k1) inp weight nonce (length inp) = Ok (g, h, CW, CS)"
    "public = \<lparr>public_cw = CW, public_cs = CS\<rparr>"
  using assms by (auto simp: gen_with_keys_def gen_run_def init_gen_state_def split: if_splits)

text \<open>The shares of the two servers add up to the weight exactly on the prefixes of the input, and their proofs are equal.\<close>

lemma shares_and_proofs:
  assumes gen: "gen_with_keys prim I (k0, k1) inp weight nonce = Ok public" and w: "wf weight"
    and ids: "key_id k0 = S0" "key_id k1 = S1" and x: "x \<noteq> []" "length x \<le> length inp"
    and e0: "vidpf_eval prim I k0 public x nonce = Ok r0"
  shows "\<exists>r1. vidpf_eval prim I k1 public x nonce = Ok r1 \<and> share_proof r0 = share_proof r1 \<and>
    value_add (weight_methods I) (weight_share r0) (weight_share r1) =
      Ok (if prefix x inp then weight else value_zero (weight_methods I) (weight_parameter I))"
proof -
  obtain ek ck where keys: "XofFixedKeyAes128Key_new prim PRG nonce = (Ok ek :: (bytes, vidpf_error) outcome)"
    "XofFixedKeyAes128Key_new prim CONVERT nonce = (Ok ck :: (bytes, vidpf_error) outcome)" by (rule vidpf_keys)
  from gen obtain g h CW CS where run: "gen_run prim I (k0, k1) inp weight nonce (length inp) = Ok (g, h, CW, CS)"
    and pub: "public = \<lparr>public_cw = CW, public_cs = CS\<rparr>" by (rule gen_with_keys_runE)
  have ev: "vidpf_eval prim I k public x nonce = and_then (eval_run prim I k public x nonce (length x))
      (\<lambda>(state, share). Ok \<lparr>weight_share = share, share_proof = state_proof state\<rparr>)" for k
    by (simp add: vidpf_eval_def eval_run_def)
  from e0 obtain st0 y0 where "eval_run prim I k0 \<lparr>public_cw = CW, public_cs = CS\<rparr> x nonce (length x) = Ok (st0, y0)"
    "r0 = \<lparr>weight_share = y0, share_proof = state_proof st0\<rparr>" unfolding ev by (auto simp: pub)
  moreover from eval_related [OF keys run w ids order_refl x(2) this(1)] obtain st1 y1 where
    "eval_run prim I k1 \<lparr>public_cw = CW, public_cs = CS\<rparr> x nonce (length x) = Ok (st1, y1)" "state_proof st0 = state_proof st1"
    "value_add (weight_methods I) y0 y1 =
      Ok (if 0 < length x \<and> x = take (length x) inp then weight else value_zero (weight_methods I) (weight_parameter I))" by auto
  ultimately show ?thesis
    using x(1) by (simp add: ev [unfolded pub] pub prefix_iff_take)
qed

lemma on_path_total:
  assumes gen: "gen_with_keys prim I (k0, k1) inp weight nonce = Ok public" and w: "wf weight"
    and ids: "key_id k0 = S0" "key_id k1 = S1" and x: "prefix x inp"
  shows "\<exists>r0. vidpf_eval prim I k0 public x nonce = Ok r0"
proof -
  obtain ek ck where keys: "XofFixedKeyAes128Key_new prim PRG nonce = (Ok ek :: (bytes, vidpf_error) outcome)"
    "XofFixedKeyAes128Key_new prim CONVERT nonce = (Ok ck :: (bytes, vidpf_error) outcome)" by (rule vidpf_keys)
  from gen obtain g h CW CS where run: "gen_run prim I (k0, k1) inp weight nonce (length inp) = Ok (g, h, CW, CS)"
    and pub: "public = \<lparr>public_cw = CW, public_cs = CS\<rparr>" by (rule gen_with_keys_runE)
  from eval_total [OF keys run w ids x order_refl] show ?thesis
    by (auto simp: vidpf_eval_def eval_run_def pub)
qed

end

section \<open>Vectors of field elements\<close>

definition weight_vidpf :: "primitives \<Rightarrow> 'f::field field_element \<Rightarrow> nat \<Rightarrow> (nat, 'f list) vidpf" where
  "weight_vidpf prim F len = \<lparr>weight_methods = weight_value F (SeedStreamFixedKeyAes128_fill prim), weight_parameter = len\<rparr>"

lemma length_generate_many: "generate_many F fill n s = Ok (xs, s') \<Longrightarrow> length xs = n"
  by (induction n arbitrary: s xs s') auto

interpretation weight_values: idpf_values "weight_value F fill" len "\<lambda>w. length w = len" "\<lambda>w i. if i < len then w ! i else 0"
  for F fill len
  by unfold_locales (auto simp: weight_value_def select_def dest: length_generate_many intro!: nth_equalityI, metis)

interpretation weight_scheme: vidpf_scheme "weight_vidpf prim F len" "\<lambda>w. length w = len" "\<lambda>w i. if i < len then w ! i else 0"
  for prim F len
  unfolding weight_vidpf_def vidpf_scheme_def by (simp add: weight_values.idpf_values_axioms)

context prime_field
begin

lemma weight_roundtrip:
  assumes "length (pre @ concat (map (to_bytes F) w) @ post) < usize_bound"
  shows "weight_encode F w bs = Ok (bs @ concat (map (to_bytes F) w))"
    and "weight_decode F (length w) (Cursor (pre @ concat (map (to_bytes F) w) @ post) (length pre)) =
      Ok (w, Cursor (pre @ concat (map (to_bytes F) w) @ post) (length pre + length (concat (map (to_bytes F) w))))"
  unfolding weight_encode_def weight_decode_def using assms by (simp_all add: for_each_enc decode_count_wire)

end

end
