(* ===== verification/Dummy.thy ===== *)
theory Dummy
  imports PingPong
begin

text \<open>
  The test VDAF of \<^verbatim>\<open>src/vdaf/dummy.rs\<close>: it adds bytes modulo 256 and takes a chosen number of rounds to prepare.
\<close>

section \<open>Data\<close>

definition MODULUS :: u64 where
  "MODULUS = 256"

record dummy_state =
  dummy_input_share :: byte
  current_round :: u32

type_synonym dummy_transition = "(dummy_state, unit, u64) prepare_transition"

record dummy_vdaf =
  prep_init_fn :: "byte \<Rightarrow> (unit, vdaf_error) outcome"
  prep_step_fn :: "dummy_state \<Rightarrow> (dummy_transition, vdaf_error) outcome"

text \<open>The round counter panics when it overflows.\<close>

definition Dummy_new :: "u32 \<Rightarrow> dummy_vdaf" where
  "Dummy_new rounds = \<lparr>
     prep_init_fn = (\<lambda>_. Ok ()),
     prep_step_fn = (\<lambda>state.
       if current_round state = - 1 then Panic
       else
         let new_round = current_round state + 1 in
         if new_round = rounds then Ok (Finish (ucast (dummy_input_share state)))
         else Ok (Continue (state\<lparr>current_round := new_round\<rparr>) ())) \<rparr>"

definition with_prep_init_fn :: "dummy_vdaf \<Rightarrow> (byte \<Rightarrow> (unit, vdaf_error) outcome) \<Rightarrow> dummy_vdaf" where
  "with_prep_init_fn V f = V\<lparr>prep_init_fn := f\<rparr>"

definition with_prep_step_fn :: "dummy_vdaf \<Rightarrow> (dummy_state \<Rightarrow> (dummy_transition, vdaf_error) outcome) \<Rightarrow> dummy_vdaf" where
  "with_prep_step_fn V f = V\<lparr>prep_step_fn := f\<rparr>"

definition dummy_aggregator :: "dummy_vdaf \<Rightarrow> (byte, unit, byte, dummy_state, unit, unit, u64) aggregator" where
  "dummy_aggregator V = \<lparr>
     prepare_init = (\<lambda>verify_key agg_id aggregation_param nonce public_share input_share.
       and_then (prep_init_fn V aggregation_param) (\<lambda>_.
         Ok (\<lparr>dummy_input_share = input_share, current_round = 0\<rparr>, ()))),
     prepare_shares_to_prepare_message = (\<lambda>_ _. Ok ()),
     prepare_next = (\<lambda>state _. prep_step_fn V state),
     prep_share_encode = unit_encode, prep_share_decode = (\<lambda>_. unit_decode),
     prep_msg_encode = unit_encode, prep_msg_decode = (\<lambda>_. unit_decode) \<rparr>"

section \<open>Sharding, aggregation and collection\<close>

text \<open>\<open>first_input_share\<close> is the random byte.\<close>

definition dummy_shard :: "byte \<Rightarrow> byte \<Rightarrow> unit \<times> byte list" where
  "dummy_shard first_input_share measurement =
     (let (second_input_share, _) = overflowing_sub measurement first_input_share
      in ((), [first_input_share, second_input_share]))"

text \<open>The sum of two 64-bit integers panics on overflow.\<close>

definition dummy_accumulate :: "u64 \<Rightarrow> u64 \<Rightarrow> (u64, vdaf_error) outcome" where
  "dummy_accumulate agg out_share =
     (if 2 ^ 64 \<le> unat agg + unat out_share then Panic else Ok ((agg + out_share) mod MODULUS))"

definition dummy_merge :: "u64 \<Rightarrow> u64 \<Rightarrow> (u64, vdaf_error) outcome" where
  "dummy_merge agg other =
     (if 2 ^ 64 \<le> unat agg + unat other then Panic else Ok ((agg + other) mod MODULUS))"

definition dummy_aggregate :: "byte \<Rightarrow> u64 list \<Rightarrow> (u64, vdaf_error) outcome" where
  "dummy_aggregate aggregation_param output_shares = for_each (\<lambda>out_share agg. dummy_accumulate agg out_share) output_shares 0"

definition dummy_unshard :: "byte \<Rightarrow> u64 list \<Rightarrow> nat \<Rightarrow> (u64, vdaf_error) outcome" where
  "dummy_unshard aggregation_param agg_shares num_measurements =
     and_then (for_each (\<lambda>share acc. if 2 ^ 64 \<le> unat acc + unat share then Panic else Ok ((acc + share) mod MODULUS)) agg_shares 0)
       (\<lambda>acc. if 2 ^ 64 \<le> unat acc + unat aggregation_param then Panic else Ok (acc + ucast aggregation_param))"

section \<open>Wire format\<close>

definition dummy_state_encode :: "dummy_state encoder" where
  "dummy_state_encode st bs = and_then (u8_encode (dummy_input_share st) bs) (u32_encode (current_round st))"

definition dummy_state_decode :: "(nat \<Rightarrow> nat decoder) \<Rightarrow> dummy_state decoder" where
  "dummy_state_decode rd c =
     and_then (u8_decode c) (\<lambda>(inp, c).
     and_then (u32_decode rd c) (\<lambda>(rnd, c).
       Ok (\<lparr>dummy_input_share = inp, current_round = rnd\<rparr>, c)))"

sublocale byteorder \<subseteq> dummy_state: codec dummy_state_encode "dummy_state_decode rd" "\<lambda>_. True"
    "\<lambda>st. dummy_input_share st # be_bytes 4 (unat (current_round st))"
proof unfold_locales
  show "dummy_state_encode st bs = Ok (bs @ dummy_input_share st # be_bytes 4 (unat (current_round st)))" for st bs
    by (simp add: dummy_state_encode_def u8.enc_wire u32.enc_wire)
  show "dummy_state_decode rd (Cursor (pre @ (dummy_input_share st # be_bytes 4 (unat (current_round st))) @ post) (length pre)) =
      Ok (st, Cursor (pre @ (dummy_input_share st # be_bytes 4 (unat (current_round st))) @ post)
        (length pre + length (dummy_input_share st # be_bytes 4 (unat (current_round st)))))"
    if "length (pre @ (dummy_input_share st # be_bytes 4 (unat (current_round st))) @ post) < usize_bound" for st pre post
    using that u8.dec_wire [of pre "dummy_input_share st" "be_bytes 4 (unat (current_round st)) @ post"]
      u32.dec_wire [of "pre @ [dummy_input_share st]" "current_round st" post]
    by (simp add: dummy_state_decode_def)
qed

section \<open>Rounds\<close>

lemma unit_roundtrip: "get_encoded_with_param unit_encode () = Ok [] \<and> get_decoded_with_param unit_decode [] = Ok ()"
  by (simp add: get_encoded_with_param_def get_decoded_with_param_def unit_encode_def unit_decode_def)

interpretation dummy: lossless_preparation "dummy_aggregator V" ap start for V ap start
  by unfold_locales (simp_all add: dummy_aggregator_def unit_roundtrip)

lemma round_counter:
  assumes "k < unat (rounds :: u32)"
  shows "(of_nat k :: u32) \<noteq> - 1" and "(of_nat k + 1 = rounds) \<longleftrightarrow> Suc k = unat rounds"
proof -
  have lt: "Suc k < 2 ^ 32" using assms unsigned_less [of rounds, where 'a = nat] by simp
  show "(of_nat k :: u32) \<noteq> - 1"
  proof
    assume "(of_nat k :: u32) = - 1"
    then have "unat (of_nat k :: u32) = unat (- 1 :: u32)" by simp
    then show False using lt by (simp add: unsigned_minus_1_eq_mask mask_eq_exp_minus_1 unat_of_nat take_bit_nat_eq_self)
  qed
  have "(of_nat k :: u32) + 1 = of_nat (Suc k)" by simp
  moreover have "unat (of_nat (Suc k) :: u32) = Suc k" using lt by (simp add: unat_of_nat take_bit_nat_eq_self del: of_nat_Suc)
  ultimately show "(of_nat k + 1 = rounds) \<longleftrightarrow> Suc k = unat rounds" by (metis of_nat_unat of_nat_id word_unat_eq_iff)
qed

text \<open>From round \<open>k\<close> the preparation ends after the remaining rounds.\<close>

lemma dummy_plain_run:
  assumes "k < unat rounds"
  shows "(plain_step (dummy_aggregator (Dummy_new rounds)) ap)\<^sup>*\<^sup>*
    (Preparing \<lparr>dummy_input_share = x, current_round = of_nat k\<rparr> () \<lparr>dummy_input_share = y, current_round = of_nat k\<rparr> ())
    (Prepared (ucast x) (ucast y))"
  using assms
proof (induction "unat rounds - Suc k" arbitrary: k)
  case (0 k)
  then have "Suc k = unat rounds" by simp
  with round_counter [OF 0(2)] show ?case
    by (intro r_into_rtranclp plain_finish [where m = "()"]) (simp_all add: dummy_aggregator_def Dummy_new_def Let_def)
next
  case (Suc n k)
  then have "Suc k \<noteq> unat rounds" by auto
  with round_counter [OF Suc(3)] have "plain_step (dummy_aggregator (Dummy_new rounds)) ap
      (Preparing \<lparr>dummy_input_share = x, current_round = of_nat k\<rparr> () \<lparr>dummy_input_share = y, current_round = of_nat k\<rparr> ())
      (Preparing \<lparr>dummy_input_share = x, current_round = of_nat k + 1\<rparr> () \<lparr>dummy_input_share = y, current_round = of_nat k + 1\<rparr> ())"
    by (intro plain_next [where m = "()"]) (simp_all add: dummy_aggregator_def Dummy_new_def Let_def)
  moreover have "n = unat rounds - Suc (Suc k)" "Suc k < unat rounds" using Suc \<open>Suc k \<noteq> unat rounds\<close> by simp_all
  note Suc.hyps(1) [OF this]
  then have "(plain_step (dummy_aggregator (Dummy_new rounds)) ap)\<^sup>*\<^sup>*
      (Preparing \<lparr>dummy_input_share = x, current_round = of_nat k + 1\<rparr> () \<lparr>dummy_input_share = y, current_round = of_nat k + 1\<rparr> ())
      (Prepared (ucast x) (ucast y))" by (simp add: add.commute)
  ultimately show ?case by (rule converse_rtranclp_into_rtranclp)
qed

section \<open>The result\<close>

lemma accumulate_value:
  assumes "unat acc < 256" "unat out < 256"
  shows "dummy_accumulate acc out = Ok (of_nat ((unat acc + unat out) mod 256))"
proof -
  have "unat (acc + out) = unat acc + unat out" using assms by (simp add: unat_word_ariths)
  then have "unat ((acc + out) mod MODULUS) = (unat acc + unat out) mod 256" by (simp add: unat_mod MODULUS_def)
  moreover have "of_nat (unat ((acc + out) mod MODULUS)) = (acc + out) mod MODULUS" by simp
  ultimately have "(acc + out) mod MODULUS = of_nat ((unat acc + unat out) mod 256)" by simp
  then show ?thesis using assms by (simp add: dummy_accumulate_def)
qed

lemma unat_of_byte_sum: "unat (of_nat (n mod 256) :: u64) = n mod 256"
proof -
  have "n mod 256 < 256" by simp
  then show ?thesis by (simp add: unat_of_nat take_bit_nat_eq_self)
qed

lemma dummy_accumulate_all:
  assumes "\<forall>v \<in> set vs. unat v < 256"
  shows "for_each (\<lambda>out_share agg. dummy_accumulate agg out_share) vs (of_nat (n mod 256)) =
    Ok (of_nat ((n + sum_list (map unat vs)) mod 256))"
  using assms
proof (induction vs arbitrary: n)
  case (Cons v vs)
  have "dummy_accumulate (of_nat (n mod 256)) v = Ok (of_nat ((n + unat v) mod 256))"
    using accumulate_value [of "of_nat (n mod 256)" v] Cons.prems by (simp add: unat_of_byte_sum mod_add_left_eq)
  with Cons show ?case by (simp add: add.assoc)
qed simp

lemma dummy_aggregate_value:
  "\<forall>v \<in> set vs. unat v < 256 \<Longrightarrow> dummy_aggregate ap vs = Ok (of_nat (sum_list (map unat vs) mod 256))"
  using dummy_accumulate_all [of vs 0] by (simp add: dummy_aggregate_def)

lemma dummy_unshard_value:
  assumes "\<forall>v \<in> set vs. unat v < 256"
  shows "dummy_unshard ap vs n = Ok (of_nat (sum_list (map unat vs) mod 256 + unat ap))"
proof -
  have "unat ap < 2 ^ 8" using unsigned_less [of ap, where 'a = nat] by simp
  then show ?thesis
    using dummy_accumulate_all [OF assms, of 0] unat_of_byte_sum [of "sum_list (map unat vs)"]
    by (simp add: dummy_unshard_def dummy_accumulate_def)
qed

section \<open>Properties\<close>




end
