(* ===== verification/Instances.thy ===== *)
theory Instances
  imports Soundness Bt VidpfCorrect Szk Dummy
begin

text \<open>
  A concrete instance of the third-party primitives whose every output is zero.  It makes no claim about security: it
  shows that the hypotheses of the theorems about seeds, streams and key generation can hold, and on what inputs.
\<close>

definition null_primitives :: primitives where
  "null_primitives = \<lparr>turboshake128 = \<lambda>_ _ _. 0, aes128_encrypt = \<lambda>_ block i. block ! i,
     aes128_ctr64be = \<lambda>_ _ _. 0, hmac_sha256 = \<lambda>_ _. replicate 32 0\<rparr>"

section \<open>Streams\<close>

lemma null_hash_block: "hash_block null_primitives key block = replicate 16 0"
  by (rule nth_equalityI) (simp_all add: hash_block_def null_primitives_def Let_def)

lemma null_remaining: "fixed_key_remaining null_primitives s = (\<lambda>_. 0)"
  by (rule ext) (simp add: fixed_key_remaining_def keystream_def null_hash_block)

lemma null_fill:
  assumes "fixed_key_avail s n"
  shows "SeedStreamFixedKeyAes128_fill null_primitives n s =
    Ok (replicate n 0, s\<lparr>length_consumed := of_nat (unat (length_consumed s) + n)\<rparr>)"
  using fixed_key_fill [OF assms, of null_primitives] by (simp add: null_remaining map_replicate_const)

lemma le_value_zeros: "le_value (replicate n 0) = 0"
  by (induction n) simp_all

context prime_field
begin

lemma sampled_zeros: "sampled F (\<lambda>_. 0) (replicate n 0) n"
proof (induction n)
  case (Suc n)
  have "piece F (\<lambda>_. 0) k = replicate (ENCODED_SIZE F) 0" for k
    by (simp add: piece_def map_replicate_const)
  then have "first_accepted F (\<lambda>_. 0) 0" "(0 :: 'f) = of_nat (le_value (piece F (\<lambda>_. 0) 0))"
    using modulus_gt_1 by (simp_all add: first_accepted_def le_value_zeros)
  with Suc show ?case by (simp only: replicate_Suc sampled.simps) (intro exI [of _ 0], simp)
qed simp

end

lemma null_generate_many:
  assumes "unat (length_consumed s) + n * 8 + 15 < 2 ^ 64"
  shows "\<exists>s'. generate_many Field64 (SeedStreamFixedKeyAes128_fill null_primitives) n s = (Ok (replicate n 0, s') :: (_, 'e) outcome)"
  using Field64_fixed_key.generate_many_sampled [of null_primitives s "replicate n 0" n, where 'a = 'e] assms
    Field64.sampled_zeros [of n] by (simp add: null_remaining fixed_key_avail_def)

section \<open>Key generation\<close>

lemma null_consumed: "unat (length_consumed (with_seed key s)) = 0"
  by (simp add: with_seed_def)

lemma null_extend: "idpf_extend null_primitives key s = (Ok ((replicate 16 0, replicate 16 0), False, False) :: (_, 'e) outcome)"
proof -
  have "fixed_key_avail (with_seed key s) 16" by (simp add: fixed_key_avail_def with_seed_def)
  moreover have "fixed_key_avail ((with_seed key s)\<lparr>length_consumed := 16\<rparr>) 16" by (simp add: fixed_key_avail_def)
  moreover have "(replicate 16 0)[0 := 0] = replicate 16 (0 :: byte)" by (simp add: list_eq_iff_nth_eq nth_list_update)
  ultimately show ?thesis
    using null_fill [of "with_seed key s" 16, where 'a = 'e] null_fill [of "(with_seed key s)\<lparr>length_consumed := 16\<rparr>" 16, where 'a = 'e]
    by (simp add: idpf_extend_def null_consumed)
qed

definition yields :: "('p, 'v, fixed_key_stream, 'e) idpf_value \<Rightarrow> 'p \<Rightarrow> 'v \<Rightarrow> bool" where
  "yields V param z \<longleftrightarrow> (\<forall>s. unat (length_consumed s) = 16 \<longrightarrow> (\<exists>s'. generate V param s = Ok (z, s')))"

lemma null_convert:
  assumes "yields V param z"
  shows "idpf_convert null_primitives V s key param = Ok (replicate 16 0, z)"
proof -
  have "fixed_key_avail (with_seed key s) 16" by (simp add: fixed_key_avail_def with_seed_def)
  from null_fill [OF this] assms show ?thesis
    by (auto simp: idpf_convert_def null_consumed yields_def dest!: spec [of _ "(with_seed key s)\<lparr>length_consumed := 16\<rparr>"])
qed

lemma null_field_yields:
  "yields (field_value Field64 (SeedStreamFixedKeyAes128_fill null_primitives) :: (unit, field64, fixed_key_stream, 'e) idpf_value) () 0"
proof -
  have "\<exists>s'. generate_random Field64 (SeedStreamFixedKeyAes128_fill null_primitives) s = (Ok (0, s') :: (_, 'e) outcome)"
    if "unat (length_consumed s) = 16" for s
    using null_generate_many [of s 1, where 'e = 'e] that by auto
  then show ?thesis by (simp add: yields_def field_value_def)
qed

lemma null_weight_yields:
  "yields (weight_value Field64 (SeedStreamFixedKeyAes128_fill null_primitives) :: (nat, field64 list, fixed_key_stream, 'e) idpf_value) 2 (replicate 2 0)"
  using null_generate_many [of _ 2, where 'e = 'e] by (simp add: yields_def weight_value_def)

lemma null_correction_word:
  assumes "yields V param z" and "value_sub V v z = Ok d" and "value_add V d z = Ok c"
  shows "is_Ok (generate_correction_word null_primitives V b v param ks ts ek ck)"
  using assms by (simp add: generate_correction_word_def null_extend null_convert Let_def)

lemma null_idpf_gen:
  "\<exists>pub. gen_with_random null_primitives (field_idpf null_primitives Field64 Field64) [True, False] [5] 7 [] (replicate 16 1, replicate 16 2) =
    Ok (pub, replicate 16 1, replicate 16 2)"
proof -
  obtain ek ck where keys: "XofFixedKeyAes128Key_new null_primitives extend_dst [] = (Ok ek :: (bytes, idpf_error) outcome)"
    "XofFixedKeyAes128Key_new null_primitives convert_dst [] = (Ok ck :: (bytes, idpf_error) outcome)" by (rule idpf_keys)
  let ?V = "field_value Field64 (SeedStreamFixedKeyAes128_fill null_primitives) :: (unit, field64, fixed_key_stream, idpf_error) idpf_value"
  have cw: "\<exists>c r. generate_correction_word null_primitives ?V b v () ks ts ek ck = Ok (c, r)" for b v ks ts
  proof -
    have "value_sub ?V v 0 = Ok v" "value_add ?V v 0 = Ok v" by (simp_all add: field_value_def)
    from null_correction_word [OF null_field_yields this, of b ks ts ek ck] show ?thesis
      by (cases "generate_correction_word null_primitives ?V b v () ks ts ek ck") auto
  qed
  obtain c ks ts where c: "generate_correction_word null_primitives ?V True 5 () (replicate 16 1, replicate 16 2) (False, True) ek ck = Ok (c, ks, ts)"
    using cw by (metis prod.exhaust)
  obtain l r where "generate_correction_word null_primitives ?V False 7 () ks ts ek ck = Ok (l, r)" using cw by blast
  with c keys show ?thesis by (simp add: gen_with_random_def field_idpf_def)
qed

lemma null_gen_level:
  assumes "level < length inp" and "level < 2 ^ 16" and "length weight = 2"
  shows "is_Ok (gen_level null_primitives (weight_vidpf null_primitives Field64 2) inp weight nonce level st)"
proof -
  obtain ek ck where keys: "XofFixedKeyAes128Key_new null_primitives PRG nonce = (Ok ek :: (bytes, vidpf_error) outcome)"
    "XofFixedKeyAes128Key_new null_primitives CONVERT nonce = (Ok ck :: (bytes, vidpf_error) outcome)" by (rule vidpf_keys)
  obtain s_0 s_1 t_0 t_1 cw cs where st: "st = ((s_0, s_1), (t_0, t_1), cw, cs)" by (metis prod.exhaust)
  have np: "\<exists>p. node_proof null_primitives inp level s = Ok p" for s using node_proof_total [OF assms(1,2)] by blast
  obtain p where p: "node_proof null_primitives inp level (replicate 16 0) = Ok p" using np by blast
  have cv: "idpf_convert null_primitives (weight_value Field64 (SeedStreamFixedKeyAes128_fill null_primitives)) s ck 2 =
      (Ok (replicate 16 0, replicate 2 0) :: (_, vidpf_error) outcome)" for s
    by (rule null_convert [OF null_weight_yields])
  show ?thesis
    using assms p by (simp add: gen_level_def st Let_def vidpf_prg_extend [OF keys(1)] vidpf_convert_convert [OF keys(2)]
      null_extend input_get_def weight_vidpf_def cv split: prod.splits) (simp add: weight_value_def)
qed

lemma null_vidpf_gen:
  "\<exists>public. gen_with_keys null_primitives (weight_vidpf null_primitives Field64 2)
    (\<lparr>key_id = S0, key_value = replicate 16 1\<rparr>, \<lparr>key_id = S1, key_value = replicate 16 2\<rparr>) [True, False] [5, 7] [] = Ok public"
proof -
  have "\<exists>st'. gen_level null_primitives (weight_vidpf null_primitives Field64 2) [True, False] [5, 7] [] level st = Ok st'"
    if "level < 2" for level st
    using null_gen_level [of level "[True, False]" "[5, 7]" "[]" st] that
    by (cases "gen_level null_primitives (weight_vidpf null_primitives Field64 2) [True, False] [5, 7] [] level st") auto
  note step = this
  let ?s = "((replicate 16 1, replicate 16 2), (False, True), [], [])"
  obtain st1 where st1: "gen_level null_primitives (weight_vidpf null_primitives Field64 2) [True, False] [5, 7] [] 0 ?s = Ok st1"
    using step [of 0 ?s] by (metis zero_less_numeral)
  obtain st2 where "gen_level null_primitives (weight_vidpf null_primitives Field64 2) [True, False] [5, 7] [] 1 st1 = Ok st2"
    using step [of 1 st1] by auto
  with st1 show ?thesis by (cases st2) (auto simp: gen_with_keys_def)
qed

section \<open>The proof wrapper\<close>

text \<open>The wrapper of \<open>Sum\<close> with one bit over the 128-bit field.\<close>

abbreviation null_szk :: "(nat, nat, field128, turboshake128_state, reader) szk" where
  "null_szk \<equiv> \<lparr>szk_typ = sum_type Field128 1 [0, - 1, 1] (\<lambda>data _. decode_result_one Field128 data),
     szk_xof = XofTurboShake128 null_primitives, szk_algorithm_id = 1\<rparr>"

lemma null_into_field_vec:
  "into_field_vec Field128 SeedStreamTurboShake128_fill_bytes (Reader (\<lambda>_. 0) 0) n = (Ok (replicate n 0) :: (_, 'e) outcome)"
proof -
  have "reader_remaining (Reader (\<lambda>_. 0) 0) = (\<lambda>_. 0)" by (rule ext) (simp add: reader_remaining_def)
  with Field128_turboshake.into_field_vec_sampled [of "Reader (\<lambda>_. 0) 0" "replicate n 0" n, where 'a = 'e] Field128.sampled_zeros [of n]
  show ?thesis by simp
qed

lemma null_finalize: "finalize_xof null_primitives x = Reader (\<lambda>_. 0) 0"
  by (simp add: finalize_xof_def null_primitives_def fun_eq_iff)

lemma null_szk_derive:
  "szk_derive_query_rand null_szk vk nonce = Ok [0]"
  "szk_derive_prove_rand null_szk sd = Ok [0]"
  "\<exists>p. szk_derive_joint_rand_part null_szk sd [x] nonce = Ok p"
  "\<exists>js. szk_derive_joint_rand_and_seed null_szk a b = Ok (js, [0])"
  using null_into_field_vec [of 1, where 'e = szk_error]
  by (simp_all add: szk_derive_query_rand_def szk_derive_prove_rand_def
      szk_derive_joint_rand_part_def szk_derive_joint_rand_and_seed_def szk_derive_joint_rand_seed_def
      szk_domain_separation_tag_def xof_seed_stream_def XofTurboShake128_def dst_prefix_def into_seed_def null_finalize
      SeedStreamTurboShake128_fill_bytes_def [of 16] reader_read_def field_encode_def sum_type_def)

lemma null_szk_helper: "\<exists>h. szk_derive_helper_proof_share null_szk sd = Ok h"
  unfolding szk_derive_helper_proof_share_def into_field_vec_def [symmetric]
  using null_into_field_vec [where 'e = szk_error]
  by (simp add: szk_domain_separation_tag_def xof_seed_stream_def XofTurboShake128_def dst_prefix_def null_finalize sum_type_def)

lemma null_szk_prove:
  "\<exists>l h. szk_prove null_szk [x0] [x1] [x0 + x1] (replicate 16 1, replicate 16 2) (Some (replicate 16 3)) nonce = Ok (l, h)"
proof -
  obtain lp hp js hl where d: "szk_derive_joint_rand_part null_szk (replicate 16 3) [x0] nonce = Ok lp"
    "szk_derive_joint_rand_part null_szk (replicate 16 2) [x1] nonce = Ok hp"
    "szk_derive_joint_rand_and_seed null_szk lp hp = Ok (js, [0])" "szk_derive_helper_proof_share null_szk (replicate 16 2) = Ok hl"
    using null_szk_derive(3) [of "replicate 16 3" x0 nonce] null_szk_derive(3) [of "replicate 16 2" x1 nonce]
      null_szk_derive(4) null_szk_helper by blast
  obtain p where "prove (szk_typ null_szk) [x0 + x1] [0] [0] = Ok p"
    using Sum128.sum.prove_value [of "[x0 + x1]" 1 "\<lambda>data _. decode_result_one Field128 data" "[0]" "[0]"]
    by (auto simp: sum_type_def sum_gadget_def)
  with d null_szk_derive(2) show ?thesis by (simp add: szk_prove_def)
qed

end
