(* ===== verification/Prio3Types.thy ===== *)
theory Prio3Types
  imports Prio3Run Instances
begin

text \<open>
  The instances of Prio3 that the crate constructs, complete executions of them, and an execution with the primitives whose
  every output is zero.
\<close>

section \<open>Constructors\<close>

lemma prio3_new_Ok:
  assumes "prio3_new P n np i T = Ok V"
  shows "prio3_typ V = T" "prio3_xof V = P" "prio3_num_aggregators V = n" "prio3_num_proofs V = np" "n \<noteq> 0" "np \<noteq> 0" "n \<le> 254"
  using assms by (auto simp: prio3_new_def check_num_aggregators_def split: if_splits)

lemma new_sum_Ok:
  assumes "new_sum prim n bits = Ok V"
  shows "bits \<le> 64" "prio3_new (XofTurboShake128 prim) n 1 1 (sum_type Field128 bits [0, - 1, 1] (\<lambda>data _. decode_result_one Field128 data)) = Ok V"
proof -
  show b: "bits \<le> 64" using assms by (auto simp: new_sum_def split: if_splits)
  from Field128.Sum_new_eq [of bits] assms b
  show "prio3_new (XofTurboShake128 prim) n 1 1 (sum_type Field128 bits [0, - 1, 1] (\<lambda>data _. decode_result_one Field128 data)) = Ok V"
    by (auto simp: new_sum_def)
qed

lemma new_count_eq: "new_count prim n = prio3_new (XofTurboShake128 prim) n 1 0 (Count Field64)"
  by (simp add: new_count_def Field64.Count_new_eq)

interpretation SumAgg128: sum_aggregating Field128 "min bits 64" decode for bits decode
  by unfold_locales simp_all

interpretation SumVecAgg128: sumvec_aggregating Field128 "max 1 (min bits 64)" "min len 1024" 1 for bits len
proof unfold_locales
  have "max 1 (min bits 64) * min len 1024 \<le> 64 * 1024" by (intro mult_le_mono) simp_all
  then show "max 1 (min bits 64) * min len 1024 \<le> 2 ^ 17" by simp
qed simp_all

text \<open>What every instance over the TurboSHAKE128 function has.\<close>

lemma instance_facts:
  assumes "prio3_new (XofTurboShake128 prim) n 1 i T = Ok V" "255 < modulus (flp_field T)"
    "(input_len T + proof_len T + verifier_len T + output_len T) * ENCODED_SIZE (flp_field T) < 2 ^ 63"
  shows "fixed_length_xof (prio3_xof V)" "0 < num_proofs V" "num_aggregators V < modulus (flp_field T)" "wire_bound V < usize_bound"
proof -
  note V = prio3_new_Ok [OF assms(1)]
  show "fixed_length_xof (prio3_xof V)" unfolding V(2) by (rule turboshake_xof.fixed_length_xof_axioms)
  show "0 < num_proofs V" by (simp add: num_proofs_def V)
  have n: "num_aggregators V < 256" using unsigned_less [of n, where 'a = nat] by (simp add: num_aggregators_def V)
  with assms(2) show "num_aggregators V < modulus (flp_field T)" by simp
  have "(num_aggregators V + 2) * 16 < 2 ^ 63" using n by simp
  with assms(3) show "wire_bound V < usize_bound"
    by (simp add: wire_bound_def V usize_bound_def num_proofs_def XofTurboShake128_def algebra_simps)
qed

section \<open>Executions\<close>

lemma same_outputs:
  fixes ys outs :: "'b list" and f :: "'a \<Rightarrow> ('b, 'e) outcome"
  assumes "map (\<lambda>((m, random), nonce). f m) reports = map Ok ys" "map f (map (\<lambda>((m, random), nonce). m) reports) = map Ok outs"
  shows "ys = outs"
proof -
  have "map Ok ys = (map Ok outs :: ('b, 'e) outcome list)" using assms by (simp add: comp_def case_prod_unfold)
  then show ?thesis by (metis (no_types, lifting) inj_map_eq_map injI outcome.inject(1))
qed

lemma sum_execution:
  assumes new: "new_sum prim n bits = Ok V" and ne: "reports \<noteq> []"
    and reports: "\<And>m random nonce. ((m, random), nonce) \<in> set reports \<Longrightarrow> m < 2 ^ bits \<and> is_Ok (shard_with_random V m nonce random) \<and>
      (\<exists>r. derive_query_rands V vk nonce = Ok [r] \<and> r ^ wire_poly_len bits \<noteq> 1)"
  shows "run_vdaf (sharding V) (prio3_vdaf V) vk () reports = Ok ((\<Sum>((m, random), nonce)\<leftarrow>reports. m) mod modulus Field128)"
proof -
  let ?T = "sum_type Field128 bits [0, - 1, 1] (\<lambda>data _. decode_result_one Field128 data)"
  note b = new_sum_Ok(1) [OF new] and V = new_sum_Ok(2) [OF new]
  have ty: "prio3_typ V = ?T" by (rule prio3_new_Ok [OF V])
  have mb: "min bits 64 = bits" using b by simp
  have np: "next_power_of_two (1 + bits) \<le> 2 ^ 7" using b by (intro next_power_of_two_le) simp
  have facts: "fixed_length_xof (prio3_xof V)" "0 < num_proofs V" "num_aggregators V < modulus Field128" "wire_bound V < usize_bound"
    using instance_facts [OF V] b np by (simp_all add: sum_type_def modulus_128)
  have enc: "encode_measurement ?T m = Ok (bits_of bits m)" if "m < 2 ^ bits" for m
    using Field128.encode_bits(1) [of bits m] b that by (simp add: sum_type_def)
  have "\<exists>ys. map (\<lambda>((m, random), nonce). and_then (encode_measurement ?T m) (truncate_input ?T)) reports = map Ok ys \<and>
    run_vdaf (sharding V) (prio3_vdaf V) vk () reports = map_err VdafFlp (decode_result ?T (vector_sum (output_len ?T) ys) (length reports))"
  proof (rule SumAgg128.sum.execution [of V bits, unfolded mb])
    fix m random nonce
    assume r: "((m, random), nonce) \<in> set reports"
    show "is_Ok (shard_with_random V m nonce random)" using reports [OF r] by blast
    show "\<exists>qrs. derive_query_rands V vk nonce = Ok qrs \<and> (\<forall>r \<in> set qrs. r ^ wire_poly_len (calls (sum_gadget bits :: field128 gadget)) \<noteq> 1)"
      using reports [OF r] by (auto simp: sum_gadget_def)
    show "circuit.circuit_value (sum_gadget bits) sum_wires sum_outcome x jr 1 = (0 :: field128)" if "encode_measurement ?T m = Ok x" for x jr
      using that enc reports [OF r] SumAgg128.sum_accepts [of x bits jr 1, unfolded mb] by (auto simp: zero_one_bits_of)
  qed (use ty facts ne in simp_all)
  then obtain ys where ys: "map (\<lambda>((m, random), nonce). and_then (encode_measurement ?T m) (truncate_input ?T)) reports = map Ok ys"
    "run_vdaf (sharding V) (prio3_vdaf V) vk () reports = map_err VdafFlp (decode_result ?T (vector_sum (output_len ?T) ys) (length reports))"
    by blast
  let ?ms = "map (\<lambda>((m, random), nonce). m) reports"
  from SumAgg128.sum_aggregate [of bits ?ms "\<lambda>data _. decode_result_one Field128 data", unfolded mb] reports b obtain outs where
    outs: "map (\<lambda>m. and_then (encode_measurement ?T m) (truncate_input ?T)) ?ms = map Ok outs"
    "decode_result_one Field128 (vector_sum 1 outs) = Ok (sum_list ?ms mod modulus Field128)" by fastforce
  from ys(2) outs(2) same_outputs [OF ys(1) outs(1)] show ?thesis by (simp add: sum_type_def)
qed

lemma count_execution:
  assumes new: "new_count prim n = Ok V" and ne: "reports \<noteq> []"
    and reports: "\<And>m random nonce. ((m, random), nonce) \<in> set reports \<Longrightarrow> is_Ok (shard_with_random V m nonce random) \<and>
      (\<exists>r. derive_query_rands V vk nonce = Ok [r] \<and> r ^ 2 \<noteq> 1)"
  shows "run_vdaf (sharding V) (prio3_vdaf V) vk () reports =
    Ok (count_list (map (\<lambda>((m, random), nonce). m) reports) True mod modulus Field64)"
proof -
  let ?T = "Count Field64" and ?ms = "map (\<lambda>((m, random), nonce). m) reports"
  note V = new [unfolded new_count_eq]
  have facts: "fixed_length_xof (prio3_xof V)" "0 < num_proofs V" "num_aggregators V < modulus Field64" "wire_bound V < usize_bound"
    using instance_facts [OF V] by (simp_all add: Count_def modulus_64)
  have w: "wire_poly_len (calls (count_gadget :: field64 gadget)) = 2" by (simp add: count_gadget_def wire_poly_len_def) code_simp
  have "\<exists>ys. map (\<lambda>((m, random), nonce). and_then (encode_measurement ?T m) (truncate_input ?T)) reports = map Ok ys \<and>
    run_vdaf (sharding V) (prio3_vdaf V) vk () reports = map_err VdafFlp (decode_result ?T (vector_sum (output_len ?T) ys) (length reports))"
  proof (rule Field64.count.execution)
    fix m random nonce
    assume r: "((m, random), nonce) \<in> set reports"
    show "is_Ok (shard_with_random V m nonce random)" using reports [OF r] by blast
    show "\<exists>qrs. derive_query_rands V vk nonce = Ok qrs \<and> (\<forall>r \<in> set qrs. r ^ wire_poly_len (calls (count_gadget :: field64 gadget)) \<noteq> 1)"
      using reports [OF r] unfolding w by auto
    show "Field64.count.circuit_value x jr 1 = 0" if "encode_measurement ?T m = Ok x" for x jr
      using that Field64.count_circuit_value [of x jr 1] by (auto simp: Count_def select_def)
  qed (use prio3_new_Ok(1) [OF V] facts ne in simp_all)
  then obtain ys where ys: "map (\<lambda>((m, random), nonce). and_then (encode_measurement ?T m) (truncate_input ?T)) reports = map Ok ys"
    "run_vdaf (sharding V) (prio3_vdaf V) vk () reports = map_err VdafFlp (decode_result ?T (vector_sum (output_len ?T) ys) (length reports))"
    by blast
  from Field64.count_aggregate [of ?ms "length reports"] obtain outs where
    outs: "map (\<lambda>m. and_then (encode_measurement ?T m) (truncate_input ?T)) ?ms = map Ok outs"
    "decode_result ?T (vector_sum (output_len ?T) outs) (length reports) = Ok (count_list ?ms True mod modulus Field64)" by blast
  from ys(2) outs(2) same_outputs [OF ys(1) outs(1)] show ?thesis by simp
qed

context histogram_verifiable
begin

lemma histogram_execution:
  assumes V: "prio3_typ V = histogram_T" "fixed_length_xof (prio3_xof V)" "0 < num_proofs V" "num_aggregators V < modulus F" "wire_bound V < usize_bound"
    and size: "ENCODED_SIZE F \<le> 64" and ne: "reports \<noteq> []"
    and reports: "\<And>m random nonce. ((m, random), nonce) \<in> set reports \<Longrightarrow> m < ilen \<and> is_Ok (shard_with_random V m nonce random) \<and>
      (\<exists>qrs. derive_query_rands V vk nonce = Ok qrs \<and> (\<forall>r \<in> set qrs. r ^ wire_poly_len gc \<noteq> 1))"
  shows "run_vdaf (sharding V) (prio3_vdaf V) vk () reports =
    Ok (map (\<lambda>b. count_list (map (\<lambda>((m, random), nonce). m) reports) b mod modulus F) [0..<ilen])"
proof -
  let ?ms = "map (\<lambda>((m, random), nonce). m) reports"
  have "\<exists>ys. map (\<lambda>((m, random), nonce). and_then (encode_measurement histogram_T m) (truncate_input histogram_T)) reports = map Ok ys \<and>
    run_vdaf (sharding V) (prio3_vdaf V) vk () reports =
      map_err VdafFlp (decode_result histogram_T (vector_sum (output_len histogram_T) ys) (length reports))"
  proof (rule histogram.execution [OF V size ne])
    fix m random nonce
    assume r: "((m, random), nonce) \<in> set reports"
    show "is_Ok (shard_with_random V m nonce random)" using reports [OF r] by blast
    show "\<exists>qrs. derive_query_rands V vk nonce = Ok qrs \<and> (\<forall>r \<in> set qrs. r ^ histogram.wire_len \<noteq> 1)"
      using reports [OF r] by (simp add: range_gadget_def)
    show "histogram.circuit_value x jr 1 = 0" if "encode_measurement histogram_T m = Ok x" for x jr
    proof (rule histogram_accepts)
      have x: "x = (replicate ilen 0)[m := 1]" using that reports [OF r] by (auto simp: Histogram_def split: if_splits)
      show "zero_one x" unfolding x zero_one_def using set_update_subset_insert [of "replicate ilen 0" m "1 :: 'f"] by auto
      show "sum_list x = 1" unfolding x using reports [OF r] by (simp add: sum_list_unit)
    qed
  qed
  then obtain ys where ys: "map (\<lambda>((m, random), nonce). and_then (encode_measurement histogram_T m) (truncate_input histogram_T)) reports = map Ok ys"
    "run_vdaf (sharding V) (prio3_vdaf V) vk () reports =
      map_err VdafFlp (decode_result histogram_T (vector_sum (output_len histogram_T) ys) (length reports))" by blast
  have "\<forall>m \<in> set ?ms. m < ilen" using reports by auto
  from histogram_aggregate [OF this, of cl gc "length reports"] obtain outs where
    outs: "map (\<lambda>m. and_then (encode_measurement histogram_T m) (truncate_input histogram_T)) ?ms = map Ok outs"
    "decode_result histogram_T (vector_sum ilen outs) (length reports) = Ok (map (\<lambda>b. count_list ?ms b mod modulus F) [0..<ilen])" by blast
  have ol: "output_len histogram_T = ilen" by (simp add: Histogram_def)
  from ys(2) outs(2) same_outputs [OF ys(1) outs(1)] show ?thesis by (simp add: ol)
qed

end

context sumvec_aggregating
begin

lemma sumvec_execution:
  assumes V: "prio3_typ V = sumvec_T" "fixed_length_xof (prio3_xof V)" "0 < num_proofs V" "num_aggregators V < modulus F" "wire_bound V < usize_bound"
    and size: "ENCODED_SIZE F \<le> 64" and ne: "reports \<noteq> []"
    and reports: "\<And>m random nonce. ((m, random), nonce) \<in> set reports \<Longrightarrow> length m = len \<and> (\<forall>x \<in> set m. x < 2 ^ bits) \<and>
      is_Ok (shard_with_random V m nonce random) \<and> (\<exists>qrs. derive_query_rands V vk nonce = Ok qrs \<and> (\<forall>r \<in> set qrs. r ^ wire_poly_len gc \<noteq> 1))"
  shows "run_vdaf (sharding V) (prio3_vdaf V) vk () reports =
    Ok (map (\<lambda>i. (\<Sum>((m, random), nonce)\<leftarrow>reports. m ! i) mod modulus F) [0..<len])"
proof -
  let ?ms = "map (\<lambda>((m, random), nonce). m) reports"
  have "\<exists>ys. map (\<lambda>((m, random), nonce). and_then (encode_measurement sumvec_T m) (truncate_input sumvec_T)) reports = map Ok ys \<and>
    run_vdaf (sharding V) (prio3_vdaf V) vk () reports =
      map_err VdafFlp (decode_result sumvec_T (vector_sum (output_len sumvec_T) ys) (length reports))"
  proof (rule sumvec.execution [OF V size ne])
    fix m random nonce
    assume r: "((m, random), nonce) \<in> set reports"
    show "is_Ok (shard_with_random V m nonce random)" using reports [OF r] by blast
    show "\<exists>qrs. derive_query_rands V vk nonce = Ok qrs \<and> (\<forall>r \<in> set qrs. r ^ sumvec.wire_len \<noteq> 1)"
      using reports [OF r] by (simp add: range_gadget_def)
    show "sumvec.circuit_value x jr 1 = 0" if "encode_measurement sumvec_T m = Ok x" for x jr
      using that reports [OF r] sumvec_encode(1,4) [OF narrow, of m] by (intro sumvec_accepts) auto
  qed
  then obtain ys where ys: "map (\<lambda>((m, random), nonce). and_then (encode_measurement sumvec_T m) (truncate_input sumvec_T)) reports = map Ok ys"
    "run_vdaf (sharding V) (prio3_vdaf V) vk () reports =
      map_err VdafFlp (decode_result sumvec_T (vector_sum (output_len sumvec_T) ys) (length reports))" by blast
  have "\<forall>m \<in> set ?ms. length m = len \<and> (\<forall>x \<in> set m. x < 2 ^ bits)" using reports by auto
  from sumvec_aggregate [OF narrow this, of "length reports"] obtain outs where
    outs: "map (\<lambda>m. and_then (encode_measurement sumvec_T m) (truncate_input sumvec_T)) ?ms = map Ok outs"
    "decode_result sumvec_T (vector_sum len outs) (length reports) = Ok (map (\<lambda>i. (\<Sum>m\<leftarrow>?ms. m ! i) mod modulus F) [0..<len])" by blast
  have ol: "output_len sumvec_T = len" by (simp add: SumVec_def)
  from ys(2) outs(2) same_outputs [OF ys(1) outs(1)] show ?thesis unfolding ol by (simp add: comp_def case_prod_unfold)
qed

end

section \<open>Executions without secrets\<close>

lemma null_stream: "length dst < 256 \<Longrightarrow> xof_seed_stream (XofTurboShake128 null_primitives) s dst b = Ok (Reader (\<lambda>_. 0) 0)"
  by (simp add: xof_seed_stream_def XofTurboShake128_def dst_prefix_def null_finalize)

lemma null_init:
  "length dst < 256 \<Longrightarrow> init (XofTurboShake128 null_primitives) s dst =
    Ok (turboshake_update s (turboshake_update (of_nat (length dst) # dst) (TurboShake128 XOF_TURBO_SHAKE_128_DOMAIN_SEPARATION [])))"
  by (simp add: XofTurboShake128_def dst_prefix_def)

lemma null_into_stream: "into_seed_stream (XofTurboShake128 null_primitives) x = Reader (\<lambda>_. 0) 0"
  by (simp add: XofTurboShake128_def null_finalize)

lemma null_into_seed: "into_seed (XofTurboShake128 null_primitives) x = Ok (replicate 16 0)"
  by (simp add: into_seed_def XofTurboShake128_def null_finalize SeedStreamTurboShake128_fill_bytes_def reader_read_def map_replicate_const)

lemma length_prio3_dst: "length (prio3_dst V usage) < 256"
  by (simp add: prio3_dst_def domain_separation_tag_def)

lemma null_fields: "into_field_vec Field128 (fill_bytes (XofTurboShake128 null_primitives)) (Reader (\<lambda>_. 0) 0) k = (Ok (replicate k 0) :: (_, vdaf_error) outcome)"
  using null_into_field_vec [of k, where 'e = vdaf_error] by (simp add: XofTurboShake128_def)

lemma encode_loop:
  "\<exists>x'. for_each (\<lambda>y x. and_then (map_err (\<lambda>_. Uncategorized) (field_encode F y [])) (\<lambda>buf. Ok (update P buf x))) xs x = Ok x'"
  by (induction xs arbitrary: x) (simp_all add: field_encode_def)

lemma null_derivations:
  assumes V: "prio3_xof V = XofTurboShake128 null_primitives" "prio3_field V = Field128"
  shows "derive_joint_rand_part V b a nonce xs = Ok (replicate 16 0)"
    "derive_joint_rands V parts = Ok (replicate 16 0, replicate (joint_rand_len (prio3_typ V) * num_proofs V) 0)"
    "derive_prove_rands V s = Ok (replicate (prove_rand_len (prio3_typ V) * num_proofs V) 0)"
    "derive_query_rands V vk nonce = Ok (replicate (query_rand_len (prio3_typ V) * num_proofs V) 0)"
    "and_then (derive_helper_proofs_share V s a) (prng_take Field128 (prio3_fill V) k) = Ok (replicate k 0)"
proof -
  show "derive_joint_rand_part V b a nonce xs = Ok (replicate 16 0)"
    using encode_loop [of Field128 "prio3_xof V" xs]
    by (simp add: derive_joint_rand_part_def V null_into_seed null_init length_prio3_dst)
  have seed: "derive_joint_rand_seed V parts = Ok (replicate 16 0)"
    by (simp add: derive_joint_rand_seed_def V null_into_seed null_init length_prio3_dst)
  show "derive_joint_rands V parts = Ok (replicate 16 0, replicate (joint_rand_len (prio3_typ V) * num_proofs V) 0)"
    by (simp add: derive_joint_rands_def seed V null_stream length_prio3_dst null_fields)
  show "derive_prove_rands V s = Ok (replicate (prove_rand_len (prio3_typ V) * num_proofs V) 0)"
    by (simp add: derive_prove_rands_def V null_stream length_prio3_dst null_fields)
  show "derive_query_rands V vk nonce = Ok (replicate (query_rand_len (prio3_typ V) * num_proofs V) 0)"
    by (simp add: derive_query_rands_def V null_fields null_init length_prio3_dst null_into_stream)
  show "and_then (derive_helper_proofs_share V s a) (prng_take Field128 (prio3_fill V) k) = Ok (replicate k 0)"
    using null_fields [of k] by (simp add: derive_helper_proofs_share_def V null_stream length_prio3_dst into_field_vec_def)
qed

lemma null_shard:
  assumes V: "prio3_xof V = XofTurboShake128 null_primitives" "prio3_field V = Field128" "prio3_num_aggregators V = 2" "prio3_num_proofs V = 1"
    and T: "0 < joint_rand_len (prio3_typ V)" "encode_measurement (prio3_typ V) m = Ok x"
      "prove (prio3_typ V) x (replicate (prove_rand_len (prio3_typ V)) 0) (replicate (joint_rand_len (prio3_typ V)) 0) = Ok p"
  shows "is_Ok (shard_with_random V m nonce (concat (replicate 5 (replicate 16 7))))"
proof -
  have n: "num_aggregators V = 2" "num_proofs V = 1" "[1..<2] = [1 :: nat]" by (simp_all add: num_aggregators_def num_proofs_def V upt_rec)
  have ss: "SEED_SIZE (prio3_xof V) = 16" by (simp add: V XofTurboShake128_def)
  have size: "random_size V = Ok 80" using T(1) by (simp add: random_size_def V XofTurboShake128_def)
  have "chunks 16 (concat (replicate 5 (replicate 16 (7 :: byte)))) = replicate 5 (replicate 16 7)"
    by (rule chunks_concat) simp_all
  then have ch: "chunks_exact 16 (concat (replicate 5 (replicate 16 (7 :: byte)))) = replicate 5 (replicate 16 7)"
    by (simp add: chunks_exact_def)
  have s5: "replicate 5 s = [s, s, s, s, s]" for s :: bytes by (simp add: numeral_eq_Suc)
  note null = null_derivations [OF V(1,2)]
  have take: "and_then (from_seed_stream Field128 (fill_bytes (XofTurboShake128 null_primitives)) (Reader (\<lambda>_. 0) 0))
      (prng_take Field128 (fill_bytes (XofTurboShake128 null_primitives)) k) = (Ok (replicate k 0) :: (_, vdaf_error) outcome)" for k
    using null_fields [of k] by (simp add: into_field_vec_def)
  from take [of 0] obtain g where g: "from_seed_stream Field128 (fill_bytes (XofTurboShake128 null_primitives)) (Reader (\<lambda>_. 0) 0) = (Ok g :: (_, vdaf_error) outcome)"
    by auto
  have g2: "prng_take Field128 (fill_bytes (XofTurboShake128 null_primitives)) k g = (Ok (replicate k 0) :: (_, vdaf_error) outcome)" for k
    using take [of k] by (simp add: g)
  have proofs: "shard_proofs V x (replicate (prove_rand_len (prio3_typ V)) 0) (replicate (joint_rand_len (prio3_typ V)) 0) = Ok p"
    using T(3) by (simp add: shard_proofs_def n get_slice_def slice_def)
  have sub: "\<exists>l. subtract_helper_proofs V [h] p = Ok l" for h
    using null(5) [of "helper_proofs_share h" 1 "min (length p) (proof_len (prio3_typ V) * num_proofs V)"]
    by (auto simp: subtract_helper_proofs_def V)
  let ?s = "replicate 16 7 :: bytes"
  obtain l where l: "subtract_helper_proofs V [from_seeds ?s ?s (Some ?s)] p = Ok l" using sub by blast
  have helper: "shard_helper V nonce 1 ([?s, ?s, ?s, ?s, ?s], x, [], Some []) =
      Ok ([?s, ?s], map2 (-) x (replicate (length x) 0), [from_seeds ?s ?s (Some ?s)], Some [replicate 16 0])"
    using g g2 by (simp add: shard_helper_def V null_stream length_prio3_dst null)
  have loop: "for_each (shard_helper V nonce) [1..<num_aggregators V] (replicate 5 ?s, x, [], Some []) =
      Ok ([?s, ?s], map2 (-) x (replicate (length x) 0), [from_seeds ?s ?s (Some ?s)], Some [replicate 16 0])"
    unfolding n s5 using helper by simp
  define random where "random = concat (replicate 5 ?s)"
  have r: "length random = 80" "chunks_exact 16 random = replicate 5 ?s" unfolding random_def ch by (simp_all add: length_concat_const [of _ 16])
  have "is_Ok (shard_with_random V m nonce random)"
    unfolding shard_with_random_def size using T(1,2) proofs l by (simp add: r ss loop null n(2) Let_def del: One_nat_def)
  then show ?thesis by (simp only: random_def)
qed


text \<open>An instance for sums of one bit with two aggregators.\<close>

abbreviation null_prio3 :: "(nat, nat, field128, turboshake128_state, reader) prio3" where
  "null_prio3 \<equiv> \<lparr>prio3_num_aggregators = 2, prio3_num_proofs = 1, prio3_algorithm_id = 1,
     prio3_typ = sum_type Field128 1 [0, - 1, 1] (\<lambda>data _. decode_result_one Field128 data), prio3_xof = XofTurboShake128 null_primitives\<rparr>"

lemma null_prio3_new: "new_sum null_primitives 2 1 = Ok null_prio3"
  using Field128.Sum_new_eq [of 1] by (simp add: new_sum_def prio3_new_def check_num_aggregators_def)

lemma null_prio3_shard:
  assumes "m < 2"
  shows "is_Ok (shard_with_random null_prio3 m nonce (concat (replicate 5 (replicate 16 7))))"
proof -
  let ?T = "prio3_typ null_prio3"
  have e: "encode_measurement ?T m = Ok (bits_of 1 m)" using Field128.encode_bits(1) [of 1 m] assms by (simp add: sum_type_def)
  obtain p where "prove ?T (bits_of 1 m) (replicate (prove_rand_len ?T) 0) (replicate (joint_rand_len ?T) 0) = Ok p"
    using Sum128.sum.prove_value [of "bits_of 1 m" 1 "\<lambda>data _. decode_result_one Field128 data" "[0]" "[0]"]
    by (auto simp: sum_type_def sum_gadget_def)
  from null_shard [OF _ _ _ _ _ e this] show ?thesis by (simp add: sum_type_def)
qed

lemma null_prio3_query: "derive_query_rands null_prio3 vk nonce = Ok [0]"
  using null_derivations(4) [of null_prio3 vk nonce] by (simp add: sum_type_def num_proofs_def)

text \<open>An instance for histograms of two buckets with two aggregators.\<close>

abbreviation null_histogram :: "(nat, nat list, field128, turboshake128_state, reader) prio3" where
  "null_histogram \<equiv> \<lparr>prio3_num_aggregators = 2, prio3_num_proofs = 1, prio3_algorithm_id = 3,
     prio3_typ = Histogram Field128 2 1 2, prio3_xof = XofTurboShake128 null_primitives\<rparr>"

lemma null_histogram_new: "new_histogram null_primitives 2 2 1 = Ok null_histogram"
  by (simp add: new_histogram_def Histogram_new_def ceil_div_def prio3_new_def check_num_aggregators_def)

lemma null_histogram_shard:
  assumes "m < 2"
  shows "is_Ok (shard_with_random null_histogram m nonce (concat (replicate 5 (replicate 16 7))))"
proof -
  let ?T = "prio3_typ null_histogram"
  have c: "min 2 (2 ^ 17) = (2 :: nat)" "ceil_div 2 1 = 2" by (simp_all add: ceil_div_def)
  have T: "input_len ?T = 2" "joint_rand_len ?T = 2" "prove_rand_len ?T = 2" "arity (range_gadget 2 1 :: field128 gadget) = 2"
    by (simp_all add: Histogram_def range_gadget_def)
  have e: "encode_measurement ?T m = Ok ((replicate 2 0)[m := 1])" using assms by (simp add: Histogram_def)
  obtain p where "prove ?T ((replicate 2 0)[m := 1]) (replicate (prove_rand_len ?T) 0) (replicate (joint_rand_len ?T) 0) = Ok p"
    using Histogram128.histogram.prove_value [of "(replicate 2 0)[m := 1]" 2 "replicate (prove_rand_len ?T) 0" "replicate (joint_rand_len ?T) 0", unfolded c]
    using T by (auto simp del: One_nat_def)
  from null_shard [OF _ _ _ _ _ e this, of nonce] show ?thesis by (simp add: Histogram_def)
qed

lemma null_histogram_query: "derive_query_rands null_histogram vk nonce = Ok [0]"
  using null_derivations(4) [of null_histogram vk nonce] by (simp add: Histogram_def num_proofs_def)

lemma histogram_run:
  assumes new: "new_histogram prim n len cl = Ok V" and len: "len \<le> 2 ^ 17" and clean: "FFT_THRESHOLD \<le> wire_poly_len (ceil_div len cl) \<or> cl = 1"
    and small: "cl \<le> len" and ne: "reports \<noteq> []"
    and reports: "\<And>m random nonce. ((m, random), nonce) \<in> set reports \<Longrightarrow> m < len \<and> is_Ok (shard_with_random V m nonce random) \<and>
      (\<exists>r. derive_query_rands V vk nonce = Ok [r] \<and> r ^ wire_poly_len (ceil_div len cl) \<noteq> 1)"
  shows "run_vdaf (sharding V) (prio3_vdaf V) vk () reports =
    Ok (map (\<lambda>b. count_list (map (\<lambda>((m, random), nonce). m) reports) b mod modulus Field128) [0..<len])"
proof -
  let ?T = "Histogram Field128 len cl (ceil_div len cl)"
  from new have cl: "0 < cl" and V: "prio3_new (XofTurboShake128 prim) n 1 3 ?T = Ok V"
    by (auto simp: new_histogram_def Histogram_new_def split: if_splits)
  have hv: "histogram_verifiable Field128 len cl" using cl len clean by unfold_locales simp_all
  have "len div cl < len" if "len mod cl \<noteq> 0" using that cl by (cases "cl = 1"; cases "len = 0") simp_all
  moreover have "len div cl \<le> len" by simp
  ultimately have "ceil_div len cl \<le> len" by (auto simp: ceil_div_def)
  then have np: "next_power_of_two (1 + ceil_div len cl) \<le> 2 ^ 18" using len by (intro next_power_of_two_le) simp
  have facts: "fixed_length_xof (prio3_xof V)" "0 < num_proofs V" "num_aggregators V < modulus Field128" "wire_bound V < usize_bound"
    using instance_facts [OF V] len small np by (simp_all add: Histogram_def modulus_128)
  show ?thesis
  proof (rule histogram_verifiable.histogram_execution [OF hv prio3_new_Ok(1) [OF V] facts _ ne])
    show "ENCODED_SIZE Field128 \<le> 64" by simp
    fix m random nonce
    assume "((m, random), nonce) \<in> set reports"
    from reports [OF this] show "m < len \<and> is_Ok (shard_with_random V m nonce random) \<and>
      (\<exists>qrs. derive_query_rands V vk nonce = Ok qrs \<and> (\<forall>r \<in> set qrs. r ^ wire_poly_len (ceil_div len cl) \<noteq> 1))" by auto
  qed
qed

end
