(* ===== verification/Prio3PingPong.thy ===== *)
theory Prio3PingPong
  imports Prio3Types
begin

text \<open>
  Prio3 over the ping-pong topology: its preparation messages survive their encoding, whatever shares were sent, so the
  exchange of messages computes what preparation computes.
\<close>

lemma prepare_next_finishes: "prio3_prepare_next V st m = Ok t \<Longrightarrow> \<exists>out. t = Finish out"
  by (auto simp: prio3_prepare_next_def)

lemma prio3_plain_run:
  assumes "(plain_step (prio3_aggregator V) ())\<^sup>*\<^sup>* (Preparing l sl h sh) c"
  shows "c = Preparing l sl h sh \<or> (\<exists>lo ho. c = Prepared lo ho)"
  using assms
proof (induction rule: rtranclp_induct)
  case (step c d)
  have "\<exists>lo ho. d = Prepared lo ho" if "plain_step (prio3_aggregator V) () (Preparing l sl h sh) d"
    using that by (cases rule: plain_step_Preparing) (auto simp: prio3_aggregator_def dest: prepare_next_finishes)
  moreover have "\<not> plain_step (prio3_aggregator V) () (Prepared lo ho) d" for lo ho
    by (auto elim: plain_step_PreparedE)
  ultimately show ?case using step by blast
qed simp

lemma prepare_init_seed:
  assumes "prio3_prepare_init V vk i nonce pub inp = Ok (st, sh)"
  shows "state_joint_rand_seed st = None \<longleftrightarrow> joint_rand_len (prio3_typ V) = 0"
  using assms by (auto simp: prio3_prepare_init_def split: if_splits option.splits)

lemma combined_message_fits:
  assumes "fixed_length_xof (prio3_xof V)" "prio3_prepare_shares_to_prepare_message V shs = Ok m"
  shows "opt_seed_fits (SEED_SIZE (prio3_xof V)) (0 < joint_rand_len (prio3_typ V)) (message_joint_rand_seed m)"
  using assms by (auto simp: prio3_prepare_shares_to_prepare_message_def derive_joint_rand_seed_def
      dest!: fixed_length_xof.length_into_seed split: if_splits)

context prime_field
begin

lemma prio3_lossless:
  assumes V: "prio3_field V = F" "fixed_length_xof (prio3_xof V)" "wire_bound V < usize_bound"
    and l: "prio3_prepare_init V vk 0 nonce pub linp = Ok (l, sl)" and h: "prio3_prepare_init V vk 1 nonce pub hinp = Ok (h, sh)"
  shows "lossless_preparation (prio3_aggregator V) () (Preparing l sl h sh)"
proof
  note shape = prepare_init_shape [OF l] prepare_init_shape [OF h] prepare_init_seed [OF l] prepare_init_seed [OF h]
  have sl: "prepare_share_fits (SEED_SIZE (prio3_xof V)) h sl" and sh: "prepare_share_fits (SEED_SIZE (prio3_xof V)) l sh"
    using shape V(2) by (simp_all add: prepare_share_fits_def)
  fix l' sl' h' sh'
  assume "(plain_step (prio3_aggregator V) ())\<^sup>*\<^sup>* (Preparing l sl h sh) (Preparing l' sl' h' sh')"
  from prio3_plain_run [OF this] have eq: "l' = l" "sl' = sl" "h' = h" "sh' = sh" by auto
  show "\<exists>b. get_encoded_with_param (prep_share_encode (prio3_aggregator V)) sl' = Ok b \<and>
      get_decoded_with_param (prep_share_decode (prio3_aggregator V) h') b = Ok sl'"
    using prepare_share_roundtrip [OF V(1,3) sl shape(4)] by (simp add: prio3_aggregator_def eq V(1))
  show "\<exists>b. get_encoded_with_param (prep_share_encode (prio3_aggregator V)) sh' = Ok b \<and>
      get_decoded_with_param (prep_share_decode (prio3_aggregator V) l') b = Ok sh'"
    using prepare_share_roundtrip [OF V(1,3) sh shape(1)] by (simp add: prio3_aggregator_def eq V(1))
  fix m
  assume "prepare_shares_to_prepare_message (prio3_aggregator V) () [sl', sh'] = Ok m"
  then have m: "opt_seed_fits (SEED_SIZE (prio3_xof V)) (0 < joint_rand_len (prio3_typ V)) (message_joint_rand_seed m)"
    using combined_message_fits [OF V(2)] by (simp add: prio3_aggregator_def)
  have ml: "opt_seed_fits (SEED_SIZE (prio3_xof V)) (state_joint_rand_seed l \<noteq> None) (message_joint_rand_seed m)"
    and mh: "opt_seed_fits (SEED_SIZE (prio3_xof V)) (state_joint_rand_seed h \<noteq> None) (message_joint_rand_seed m)" using m shape by simp_all
  show "\<exists>b. get_encoded_with_param (prep_msg_encode (prio3_aggregator V)) m = Ok b \<and>
      get_decoded_with_param (prep_msg_decode (prio3_aggregator V) l') b = Ok m \<and>
      get_decoded_with_param (prep_msg_decode (prio3_aggregator V) h') b = Ok m"
    using prepare_message_roundtrip [OF V(3) ml] prepare_message_roundtrip [OF V(3) mh] by (auto simp: prio3_aggregator_def eq)
qed

end

context aggregating_circuit
begin

text \<open>Two aggregators that exchange messages end with shares of the truncated measurement.\<close>

theorem exchange:
  assumes V: "prio3_typ V = T" "fixed_length_xof (prio3_xof V)" "0 < num_proofs V" "num_aggregators V = 2" "wire_bound V < usize_bound"
    and two: "2 < modulus F" and shard: "shard_with_random V m nonce random = Ok (pub, [linp, hinp])"
    and q: "derive_query_rands V vk nonce = Ok qrs" "\<forall>r \<in> set qrs. r ^ wire_len \<noteq> 1"
    and valid: "\<And>x jr. encode_measurement T m = Ok x \<Longrightarrow> length jr = joint_rand_len T \<Longrightarrow> circuit_value x jr 1 = 0"
  shows "\<exists>x ls msg lo ho. encode_measurement T m = Ok x \<and> length lo = output_len T \<and> length ho = output_len T \<and> map2 (+) lo ho = trunc x \<and>
    length x = input_len T \<and>
    leader_initialized (prio3_aggregator V) vk () nonce pub linp = Ok (ls, msg) \<and>
    (pp_step (prio3_aggregator V) vk () nonce pub hinp)\<^sup>*\<^sup>* (Opening ls msg) (Stopped (Finished lo) (Finished ho))"
proof -
  let ?A = "prio3_aggregator V"
  have F: "prio3_field V = F" by (simp add: V(1) field)
  have n: "num_aggregators V < modulus F" using two V(4) by simp
  obtain x xs sts shs sd where x: "encode_measurement T m = Ok x" "length x = input_len T"
    and xs: "length xs = 2" "\<forall>y \<in> set xs. length y = input_len T" "vector_sum (output_len T) (map trunc xs) = trunc x"
    and len: "length shs = 2"
    and init: "\<And>i. i < 2 \<Longrightarrow> prio3_prepare_init V vk i nonce pub ([linp, hinp] ! i) = Ok (sts ! i, shs ! i)"
    and m: "prio3_prepare_shares_to_prepare_message V shs = Ok \<lparr>message_joint_rand_seed = sd\<rparr>"
    and fin: "\<And>i. i < 2 \<Longrightarrow> prio3_prepare_next V (sts ! i) \<lparr>message_joint_rand_seed = sd\<rparr> = Ok (Finish (trunc (xs ! i)))"
    by (rule honest_preparation [OF V(1-3) n shard q valid, unfolded V(4)]) blast+
  have i: "prio3_prepare_init V vk 0 nonce pub linp = Ok (sts ! 0, shs ! 0)" "prio3_prepare_init V vk 1 nonce pub hinp = Ok (sts ! 1, shs ! 1)"
    using init [of 0] init [of 1] by simp_all
  have shs: "shs = [shs ! 0, shs ! 1]" and xs': "map trunc [xs ! 0, xs ! 1] = map trunc xs"
    using len xs(1) by (auto simp: numeral_2_eq_2 length_Suc_conv)
  have loss: "lossless_preparation ?A () (Preparing (sts ! 0) (shs ! 0) (sts ! 1) (shs ! 1))"
    by (rule prio3_lossless [OF F V(2,5) i])
  obtain b where "get_encoded_with_param (prep_share_encode ?A) (shs ! 0) = Ok b"
    using lossless_preparation.leader_share [OF loss, of "sts ! 0" "shs ! 0" "sts ! 1" "shs ! 1"] by auto
  then obtain ls msg where init: "leader_initialized ?A vk () nonce pub linp = Ok (ls, msg)"
    using i(1) by (auto simp: leader_initialized_def prio3_aggregator_def)
  have "plain_step ?A () (Preparing (sts ! 0) (shs ! 0) (sts ! 1) (shs ! 1)) (Prepared (trunc (xs ! 0)) (trunc (xs ! 1)))"
    using m fin [of 0] fin [of 1] shs by (intro plain_finish [where m = "\<lparr>message_joint_rand_seed = sd\<rparr>"]) (simp_all add: prio3_aggregator_def)
  then have "(plain_step ?A ())\<^sup>*\<^sup>* (Preparing (sts ! 0) (shs ! 0) (sts ! 1) (shs ! 1)) (Prepared (trunc (xs ! 0)) (trunc (xs ! 1)))" by blast
  then have run: "(pp_step ?A vk () nonce pub hinp)\<^sup>*\<^sup>* (Opening ls msg) (Stopped (Finished (trunc (xs ! 0))) (Finished (trunc (xs ! 1))))"
    using lossless_preparation.exchange_outputs(1) [OF loss _ _ refl init] i by (simp add: prio3_aggregator_def)
  have lens: "length (trunc (xs ! 0)) = output_len T" "length (trunc (xs ! 1)) = output_len T" using length_trunc xs(1,2) by simp_all
  have "map2 (+) (trunc (xs ! 0)) (trunc (xs ! 1)) = vector_sum (output_len T) (map trunc [xs ! 0, xs ! 1])"
    using lens by (intro nth_equalityI) (simp_all add: vector_sum_nth)
  then have "map2 (+) (trunc (xs ! 0)) (trunc (xs ! 1)) = trunc x" unfolding xs' xs(3) .
  with x init run lens show ?thesis by blast
qed

end

end
