(* ===== verification/Prio3Sum.thy ===== *)
theory Prio3Sum
  imports Prio3PingPong
begin

text \<open>
  Prio3 for sums: what every instance has, the exchange of messages between two aggregators, the wire format of a report, and
  the binding of the joint randomness to the shares.
\<close>

section \<open>Instances for sums\<close>

lemma sum_instance:
  assumes new: "new_sum prim n bits = Ok V"
  shows "bits \<le> 64" "prio3_typ V = sum_type Field128 bits [0, - 1, 1] (\<lambda>data _. decode_result_one Field128 data)"
    "fixed_length_xof (prio3_xof V)" "0 < num_proofs V" "num_proofs V = 1" "num_aggregators V = unat n" "wire_bound V < usize_bound"
proof -
  note V = new_sum_Ok(2) [OF new]
  show b: "bits \<le> 64" by (rule new_sum_Ok(1) [OF new])
  show "prio3_typ V = sum_type Field128 bits [0, - 1, 1] (\<lambda>data _. decode_result_one Field128 data)" by (rule prio3_new_Ok [OF V])
  have np: "next_power_of_two (1 + bits) \<le> 2 ^ 7" using b by (intro next_power_of_two_le) simp
  show "fixed_length_xof (prio3_xof V)" "0 < num_proofs V" "wire_bound V < usize_bound"
    using instance_facts [OF V] b np by (simp_all add: sum_type_def modulus_128)
  show "num_proofs V = 1" "num_aggregators V = unat n" using prio3_new_Ok [OF V] by (simp_all add: num_proofs_def num_aggregators_def)
qed

lemma sum_encoding: "m < 2 ^ bits \<Longrightarrow> bits \<le> 64 \<Longrightarrow> encode_measurement (sum_type Field128 bits range_poly dec) m = Ok (bits_of bits m)"
  using Field128.encode_bits(1) [of bits m] by (simp add: sum_type_def)

lemma sum_honest:
  assumes new: "new_sum prim n bits = Ok V" and "shard_with_random V m nonce random = Ok (pub, inps)"
  shows "\<exists>x xs ps zs jrs sd. encode_measurement (prio3_typ V) m = Ok x \<and> honest_report V nonce pub inps x xs ps zs jrs sd"
proof -
  note V = sum_instance [OF new]
  have mb: "min bits 64 = bits" using V(1) by simp
  have "length p = proof_len (prio3_typ V)" if "prove (prio3_typ V) x pr jr = Ok p" for x pr jr p
    using SumAgg128.sum.prove_length [of bits "\<lambda>data _. decode_result_one Field128 data" x pr jr p] that unfolding mb V(2) by blast
  then show ?thesis by (rule honest_shard [OF assms(2) V(4)])
qed

lemma sum_report_roundtrip:
  assumes new: "new_sum prim n bits = Ok V" and shard: "shard_with_random V m nonce random = Ok (pub, inps)" and i: "i < num_aggregators V"
  shows "and_then (get_encoded_with_param prio3_public_share_encode pub) (get_decoded_with_param (prio3_public_share_decode V)) = Ok pub \<and>
    and_then (get_encoded_with_param (input_share_encode Field128) (inps ! i)) (get_decoded_with_param (input_share_decode V i)) = Ok (inps ! i)"
proof -
  note V = sum_instance [OF new]
  have F: "prio3_field V = Field128" by (simp add: V sum_type_def)
  from sum_honest [OF new shard] obtain x xs ps zs jrs sd where h: "honest_report V nonce pub inps x xs ps zs jrs sd" by blast
  from Field128.public_share_roundtrip [OF F V(7) shard_fits(1) [OF V(3) shard h]]
    Field128.input_share_roundtrip [OF F V(7) shard_fits(2) [OF V(3) shard h i]] show ?thesis by blast
qed

section \<open>Exchanges\<close>

lemma sum_exchange:
  assumes new: "new_sum prim 2 bits = Ok V" and m: "m < 2 ^ bits"
    and shard: "shard_with_random V m nonce random = Ok (pub, [leader_share, helper_share])"
    and q: "derive_query_rands V vk nonce = Ok [r]" "r ^ wire_poly_len bits \<noteq> 1"
  shows "\<exists>state msg a b. leader_initialized (prio3_aggregator V) vk () nonce pub leader_share = Ok (state, msg) \<and>
    (pp_step (prio3_aggregator V) vk () nonce pub helper_share)\<^sup>*\<^sup>* (Opening state msg) (Stopped (Finished [a]) (Finished [b])) \<and>
    a + b = of_nat m"
proof -
  let ?T = "sum_type Field128 bits [0, - 1, 1] (\<lambda>data _. decode_result_one Field128 data)"
  note V = sum_instance [OF new]
  have mb: "min bits 64 = bits" using V(1) by simp
  note enc = sum_encoding [OF m V(1), of "[0, - 1, 1]" "\<lambda>data _. decode_result_one Field128 data"]
  have two: "2 < modulus Field128" by (simp add: modulus_128)
  have na: "num_aggregators V = 2" by (simp add: V)
  have r: "\<forall>s \<in> set [r]. s ^ wire_poly_len (calls (sum_gadget bits :: field128 gadget)) \<noteq> 1" using q(2) by (simp add: sum_gadget_def)
  have valid: "circuit.circuit_value (sum_gadget bits) sum_wires sum_outcome x jr 1 = (0 :: field128)" if "encode_measurement ?T m = Ok x" for x jr
    using that enc SumAgg128.sum_accepts [of "bits_of bits m" bits jr 1, unfolded mb]
    by (metis length_bits_of outcome.inject(1) zero_one_bits_of)
  from SumAgg128.sum.exchange [of V bits "\<lambda>data _. decode_result_one Field128 data", unfolded mb, OF V(2-4) na V(7) two shard q(1) r valid]
  obtain x ls msg lo ho where x: "encode_measurement ?T m = Ok x" and len: "length lo = output_len ?T" "length ho = output_len ?T"
    and sum: "map2 (+) lo ho = [horner_sum id 2 x]"
    and run: "leader_initialized (prio3_aggregator V) vk () nonce pub leader_share = Ok (ls, msg)"
      "(pp_step (prio3_aggregator V) vk () nonce pub helper_share)\<^sup>*\<^sup>* (Opening ls msg) (Stopped (Finished lo) (Finished ho))"
    by auto
  from len obtain a b where ab: "lo = [a]" "ho = [b]" by (auto simp: sum_type_def length_Suc_conv)
  have "horner_sum id 2 (bits_of bits m) = (of_nat m :: field128)"
    using Field128.encode_bits(2) [of bits m] Field128.decode_bitvector_horner [of "bits_of bits m"] m V(1) by simp
  with sum ab x enc have "a + b = of_nat m" by simp
  with run ab show ?thesis by blast
qed

section \<open>Joint randomness\<close>

lemma prepare_init_joint_rand:
  assumes "prio3_prepare_init V vk i nonce pub inp = Ok (st, sh)" and "0 < joint_rand_len (prio3_typ V)"
  shows "\<exists>part sd jrs. joint_rand_part sh = Some part \<and> state_joint_rand_seed st = Some sd \<and>
    derive_joint_rands V (corrected_joint_rand_parts (joint_rand_parts pub) i part) = Ok (sd, jrs)"
proof -
  have "unat (of_nat i :: byte) = i" if "i < num_aggregators V"
    using that unsigned_less [of "prio3_num_aggregators V", where 'a = nat] by (simp add: num_aggregators_def unat_of_nat)
  with assms show ?thesis
    by (auto simp: prio3_prepare_init_def role_try_from_def split: if_splits option.splits)
qed

lemma combined_parts:
  assumes "for_each (\<lambda>share (count :: byte, acc, parts).
          if count = - 1 then Panic
          else if length (verifiers share) \<noteq> length acc then Err Uncategorized
          else and_then (if joint then (case joint_rand_part share of None \<Rightarrow> Panic | Some part \<Rightarrow> Ok (parts @ [part])) else Ok parts) (\<lambda>parts.
            Ok (count + 1, map2 (+) acc (verifiers share), parts))) shs (c, a, ps) = (Ok (c', a', ps') :: (_, vdaf_error) outcome)" and joint
  shows "\<exists>parts. map joint_rand_part shs = map Some parts \<and> ps' = ps @ parts"
  using assms(1)
proof (induction shs arbitrary: c a ps)
  case (Cons sh shs)
  from Cons.prems assms(2) obtain p where p: "joint_rand_part sh = Some p" by (auto split: if_splits option.splits)
  from Cons.prems p assms(2) Cons.IH [of "c + 1" "map2 (+) a (verifiers sh)" "ps @ [p]"]
  obtain parts where "map joint_rand_part shs = map Some parts" "ps' = (ps @ [p]) @ parts" by (auto split: if_splits)
  with p show ?case by (intro exI [of _ "p # parts"]) simp
qed simp

lemma joint_rand_checked:
  assumes joint: "0 < joint_rand_len (prio3_typ V)" and len: "length shs = num_aggregators V"
    and init: "\<forall>i < num_aggregators V. prio3_prepare_init V vk i nonce pub (inps ! i) = Ok (sts ! i, shs ! i)"
    and msg: "prio3_prepare_shares_to_prepare_message V shs = Ok msg"
    and i: "i < num_aggregators V" and nxt: "prio3_prepare_next V (sts ! i) msg = Ok transition"
  shows "\<exists>parts sd jrs. map joint_rand_part shs = map Some parts \<and> derive_joint_rand_seed V parts = Ok sd \<and>
    derive_joint_rands V (corrected_joint_rand_parts (joint_rand_parts pub) i (parts ! i)) = Ok (sd, jrs)"
proof -
  from msg joint obtain parts sd where p: "map joint_rand_part shs = map Some parts" "derive_joint_rand_seed V parts = Ok sd"
    "message_joint_rand_seed msg = Some sd"
    by (auto simp: prio3_prepare_shares_to_prepare_message_def split: if_splits dest!: combined_parts)
  from init i have "prio3_prepare_init V vk i nonce pub (inps ! i) = Ok (sts ! i, shs ! i)" by blast
  from prepare_init_joint_rand [OF this joint] obtain part sd' jrs where own: "joint_rand_part (shs ! i) = Some part"
    "state_joint_rand_seed (sts ! i) = Some sd'"
    "derive_joint_rands V (corrected_joint_rand_parts (joint_rand_parts pub) i part) = Ok (sd', jrs)" by blast
  have "sd' = sd" using nxt joint own(2) p(3) by (auto simp: prio3_prepare_next_def split: if_splits)
  moreover have "length parts = length shs" using p(1) by (metis length_map)
  then have "part = parts ! i" using p(1) own(1) i len by (metis nth_map option.inject)
  ultimately show ?thesis using p own(3) by blast
qed

section \<open>An execution without secrets\<close>

lemma zero_not_root: "(0 :: 'f::field) ^ wire_poly_len n \<noteq> 1"
  using next_power_of_two_pos [of "1 + n"] by (simp add: wire_poly_len_def power_0_left)

lemma null_prio3_shares:
  obtains pub l h where "shard_with_random null_prio3 1 [] (concat (replicate 5 (replicate 16 7))) = Ok (pub, [l, h])"
proof -
  obtain pub inps where s: "shard_with_random null_prio3 1 [] (concat (replicate 5 (replicate 16 7))) = Ok (pub, inps)"
    using null_prio3_shard [of 1 "[]"]
    by (cases "shard_with_random null_prio3 1 [] (concat (replicate 5 (replicate 16 7)))") auto
  from sum_honest [OF null_prio3_new s] have "length inps = 2" by (auto simp: honest_report_def Let_def num_aggregators_def)
  with s that show thesis by (auto simp: numeral_2_eq_2 length_Suc_conv)
qed

lemma null_prio3_honest:
  assumes "shard_with_random null_prio3 1 [] random = Ok (pub, inps)"
  obtains x xs ps zs t sd where "encode_measurement (prio3_typ null_prio3) 1 = Ok x" "honest_report null_prio3 [] pub inps x xs ps zs [t] sd"
proof -
  from sum_honest [OF null_prio3_new assms] obtain x xs ps zs jrs sd where
    h: "encode_measurement (prio3_typ null_prio3) 1 = Ok x" "honest_report null_prio3 [] pub inps x xs ps zs jrs sd" by blast
  moreover from h(2) have "length jrs = 1" by (simp add: honest_report_def Let_def sum_type_def num_proofs_def)
  then obtain t where "jrs = [t]" by (auto simp: length_Suc_conv)
  ultimately show thesis using that by blast
qed

lemma null_prio3_prepared:
  obtains pub inps sts shs msg t where "length shs = 2"
    "\<forall>i < 2. prio3_prepare_init null_prio3 [] i [] pub (inps ! i) = Ok (sts ! i, shs ! i)"
    "prio3_prepare_shares_to_prepare_message null_prio3 shs = Ok msg" "prio3_prepare_next null_prio3 (sts ! 0) msg = Ok t"
proof -
  let ?T = "sum_type Field128 1 [0, - 1, 1] (\<lambda>data _. decode_result_one Field128 data)"
  obtain pub l h where s: "shard_with_random null_prio3 1 [] (concat (replicate 5 (replicate 16 7))) = Ok (pub, [l, h])"
    by (rule null_prio3_shares)
  note V = sum_instance [OF null_prio3_new]
  have n: "num_aggregators null_prio3 < modulus Field128" by (simp add: num_aggregators_def modulus_128)
  have mb: "min 1 64 = (1 :: nat)" by simp
  have q: "\<forall>r \<in> set [0 :: field128]. r ^ wire_poly_len (calls (sum_gadget 1 :: field128 gadget)) \<noteq> 1"
    by (simp add: zero_not_root)
  have valid: "circuit.circuit_value (sum_gadget 1) sum_wires sum_outcome x jr 1 = (0 :: field128)" if "encode_measurement ?T 1 = Ok x" for x jr
    using that sum_encoding [of 1 1 "[0, - 1, 1]" "\<lambda>data _. decode_result_one Field128 data"] SumAgg128.sum_accepts [of "bits_of 1 1" 1 jr 1, unfolded mb]
    by (simp add: zero_one_bits_of)
  have two: "num_aggregators null_prio3 = 2" by (simp add: num_aggregators_def)
  obtain xs sts shs sd where "length shs = 2"
    and init: "\<And>i. i < 2 \<Longrightarrow> prio3_prepare_init null_prio3 [] i [] pub ([l, h] ! i) = Ok (sts ! i, shs ! i)"
    and "prio3_prepare_shares_to_prepare_message null_prio3 shs = Ok \<lparr>message_joint_rand_seed = sd\<rparr>"
    and fin: "\<And>i. i < 2 \<Longrightarrow> prio3_prepare_next null_prio3 (sts ! i) \<lparr>message_joint_rand_seed = sd\<rparr> = Ok (Finish [horner_sum id 2 (xs ! i)])"
    by (rule SumAgg128.sum.honest_preparation [of null_prio3 1 "\<lambda>data _. decode_result_one Field128 data", unfolded mb two,
          OF V(2-4) n [unfolded two] s null_prio3_query q valid]) blast+
  with fin [of 0] show thesis by (intro that [of shs pub "[l, h]" sts]) auto
qed

end
