(* ===== verification/ChunkLength.thy ===== *)
theory ChunkLength
  imports Prio3
begin

text \<open>
  The choice of a chunk length in \<^verbatim>\<open>src/vdaf/prio3.rs\<close>: the candidates are the chunk lengths for which the number of gadget
  calls is one less than a power of two, and the shortest proof among all chunk lengths is found among them.
\<close>

section \<open>Logarithms\<close>

lemma leading_zeros_bounds:
  assumes "(n :: nat) \<noteq> 0" "n < 2 ^ N"
  shows "length (takeWhile (\<lambda>i. \<not> bit n i) (rev [0..<N])) < N \<and>
    2 ^ (N - 1 - length (takeWhile (\<lambda>i. \<not> bit n i) (rev [0..<N]))) \<le> n \<and>
    n < 2 ^ (N - length (takeWhile (\<lambda>i. \<not> bit n i) (rev [0..<N])))"
  using assms
proof (induction N)
  case (Suc N)
  show ?case
  proof (cases "n < 2 ^ N")
    case True
    then have "\<not> bit n N" by (simp add: bit_iff_odd)
    with Suc True show ?thesis by (simp add: Suc_diff_le)
  next
    case False
    have "n div 2 ^ N = 1" using False Suc.prems(2) by (intro div_nat_eqI) simp_all
    then have "bit n N" by (simp add: bit_iff_odd)
    with Suc.prems False show ?thesis by simp
  qed
qed simp

lemma ilog2_bounds:
  assumes "n \<noteq> 0" "n < 2 ^ 64"
  obtains k where "ilog2 n = Ok k" "2 ^ k \<le> n" "n < 2 ^ (k + 1)" "k < 64"
proof -
  let ?z = "usize_leading_zeros n"
  have z: "?z < 64" "2 ^ (64 - 1 - ?z) \<le> n" "n < 2 ^ (64 - ?z)"
    using leading_zeros_bounds [OF assms] unfolding usize_leading_zeros_def by blast+
  moreover have "64 - ?z = (64 - 1 - ?z) + 1" using z(1) by simp
  ultimately show thesis using assms(1) by (intro that [of "64 - 1 - ?z"]) (simp_all add: ilog2_def)
qed

section \<open>Candidates\<close>

definition cand :: "nat \<Rightarrow> nat \<Rightarrow> nat" where
  "cand len k = (len + (2 ^ k - 1) - 1) div (2 ^ k - 1)"

definition cost :: "nat \<Rightarrow> nat \<Rightarrow> nat" where
  "cost len k = cand len k * 2 + 2 * (2 ^ k - 1)"

lemma next_power_of_two_exact: "next_power_of_two (2 ^ k) = 2 ^ k"
  using next_power_of_two_ge [of "2 ^ k"] next_power_of_two_le [of "2 ^ k" k] by simp

lemma two_power_gt_one: "1 \<le> k \<Longrightarrow> Suc 0 < 2 ^ k"
  using one_less_power [of "2 :: nat" k] by simp

lemma ceil_bound:
  assumes "len \<le> d * c" "0 < (d :: nat)"
  shows "(len + d - 1) div d \<le> c"
proof -
  have "len + d - 1 < d * c + d" using assms by simp
  then have "len + d - 1 < d * Suc c" by simp
  then show ?thesis using assms(2) by (simp add: less_Suc_eq_le [symmetric] div_less_iff_less_mult mult.commute)
qed

lemma cand_le: "len \<le> (2 ^ k - 1) * c \<Longrightarrow> 1 \<le> k \<Longrightarrow> cand len k \<le> c"
  unfolding cand_def by (rule ceil_bound) (simp_all add: two_power_gt_one)

lemma len_le_cand:
  assumes "1 \<le> k"
  shows "len \<le> (2 ^ k - 1) * cand len k"
proof -
  let ?d = "2 ^ k - 1 :: nat"
  have d: "0 < ?d" using assms by (simp add: two_power_gt_one)
  have "(len + ?d - 1) mod ?d \<le> ?d - 1" using d by (metis Suc_pred' less_Suc_eq_le mod_less_divisor)
  moreover have "?d * ((len + ?d - 1) div ?d) + (len + ?d - 1) mod ?d = len + ?d - 1" by simp
  ultimately have "len + ?d - 1 \<le> ?d * ((len + ?d - 1) div ?d) + (?d - 1)" by linarith
  then show ?thesis unfolding cand_def using d by linarith
qed

lemma candidate_Ok:
  assumes "1 \<le> k" "2 ^ k \<le> len + 1" "len < 2 ^ 62"
  shows "chunk_candidate len k = Ok (2 ^ k - 1, cand len k)" "candidate_key (2 ^ k - 1, cand len k) = Ok (cost len k)"
proof -
  have d: "(1 :: nat) < 2 ^ k" using assms(1) by (simp add: two_power_gt_one)
  have sum: "len + (2 ^ k - 1) < usize_bound" using assms by (simp add: usize_bound_def)
  then show "chunk_candidate len k = Ok (2 ^ k - 1, cand len k)"
    using d by (simp add: chunk_candidate_def Let_def checked_usize_def cand_def)
  have "1 * len \<le> (2 ^ k - 1) * len" using d by (intro mult_le_mono1) linarith
  then have "cand len k \<le> len" by (intro cand_le [OF _ assms(1)]) simp
  then have "cost len k < usize_bound" using assms by (simp add: cost_def usize_bound_def)
  moreover have "next_power_of_two (1 + (2 ^ k - 1)) = 2 ^ k" using d next_power_of_two_exact [of k] by simp
  ultimately show "candidate_key (2 ^ k - 1, cand len k) = Ok (cost len k)"
    by (simp add: candidate_key_def checked_usize_def cost_def)
qed

lemma min_by_key:
  assumes "\<And>k. k \<in> set ks \<Longrightarrow> 1 \<le> k \<and> 2 ^ k \<le> len + 1" "len < 2 ^ 62" "ks \<noteq> []"
  shows "\<exists>j \<in> set ks. for_each (min_by_key_step len) ks None = Ok (Some (cost len j, 2 ^ j - 1, cand len j)) \<and> (\<forall>k \<in> set ks. cost len j \<le> cost len k)"
  using assms(3,1)
proof (induction ks rule: rev_nonempty_induct)
  case (single k)
  then show ?case using candidate_Ok [of k len] assms(2) by (simp add: min_by_key_step_def)
next
  case (snoc k ks)
  then obtain j where j: "j \<in> set ks" "for_each (min_by_key_step len) ks None = Ok (Some (cost len j, 2 ^ j - 1, cand len j))"
    "\<forall>k \<in> set ks. cost len j \<le> cost len k" by auto
  have st: "min_by_key_step len k (Some (cost len j, 2 ^ j - 1, cand len j)) =
      Ok (if cost len k < cost len j then Some (cost len k, 2 ^ k - 1, cand len k) else Some (cost len j, 2 ^ j - 1, cand len j))"
    using candidate_Ok [of k len] snoc.prems assms(2) by (simp add: min_by_key_step_def)
  show ?case
  proof (cases "cost len k < cost len j")
    case True
    with j st show ?thesis by (intro bexI [of _ k]) (auto simp: for_each_snoc)
  next
    case False
    with j st show ?thesis by (intro bexI [of _ j]) (auto simp: for_each_snoc)
  qed
qed

section \<open>Optimality\<close>

text \<open>The length of a proof, but one, with a given chunk length.\<close>

definition chunk_cost :: "nat \<Rightarrow> nat \<Rightarrow> nat" where
  "chunk_cost len c = c * 2 + 2 * (next_power_of_two (1 + ceil_div len c) - 1)"

lemma ceil_div_bounds:
  assumes "0 < c"
  shows "len \<le> ceil_div len c * c" "d * c \<ge> len \<Longrightarrow> ceil_div len c \<le> d"
proof -
  show "len \<le> ceil_div len c * c"
  proof (cases "len mod c = 0")
    case True
    then show ?thesis by (simp add: ceil_div_def) (metis add.right_neutral div_mult_mod_eq order_refl)
  next
    case False
    have "len = len div c * c + len mod c" by simp
    also have "\<dots> \<le> len div c * c + c" using mod_less_divisor [OF assms, of len] by (intro add_left_mono less_imp_le)
    finally show ?thesis using False by (simp add: ceil_div_def)
  qed
  show "ceil_div len c \<le> d" if "d * c \<ge> len"
  proof (cases "len mod c = 0")
    case True
    then show ?thesis using that assms by (simp add: ceil_div_def) (metis div_le_mono nonzero_mult_div_cancel_right neq0_conv)
  next
    case False
    have "len div c * c < len" using False by (metis div_mult_mod_eq less_add_same_cancel1 neq0_conv)
    with that have "len div c * c < d * c" by linarith
    then have "len div c < d" using assms by simp
    then show ?thesis using False by (simp add: ceil_div_def)
  qed
qed

lemma some_candidate_as_good:
  assumes len: "1 < len" and c: "0 < c" and L: "2 ^ L \<le> len + 1" "len + 1 < 2 ^ (L + 1)"
  shows "\<exists>k. 1 \<le> k \<and> k \<le> L \<and> cost len k \<le> chunk_cost len c"
proof -
  let ?gc = "ceil_div len c"
  obtain k where k: "next_power_of_two (1 + ?gc) = 2 ^ k" by (rule next_power_of_two_power)
  have gc: "?gc \<le> len" using ceil_div_bounds(2) [OF c, of len len] c by simp
  have pos: "0 < ?gc" using ceil_div_bounds(1) [OF c, of len] len by (cases ?gc) auto
  have ge: "1 + ?gc \<le> 2 ^ k" using next_power_of_two_ge [of "1 + ?gc"] k by simp
  have k1: "1 \<le> k" using ge pos by (cases k) simp_all
  have L1: "1 \<le> L" using L(2) len by (cases L) simp_all
  show ?thesis
  proof (cases "k \<le> L")
    case True
    have "len \<le> (2 ^ k - 1) * c" using ceil_div_bounds(1) [OF c, of len] ge
      by (metis (no_types, lifting) Suc_eq_plus1_left le_diff_conv2 le_trans mult_le_mono1 plus_1_eq_Suc add.commute le_add1)
    then have "cand len k \<le> c" using k1 by (rule cand_le)
    with True k1 k show ?thesis by (intro exI [of _ k]) (simp add: cost_def chunk_cost_def)
  next
    case False
    have "2 ^ (k - 1) < 1 + ?gc" using next_power_of_two_minimal [OF k] k1 by auto
    then have "2 ^ (k - 1) < (2 :: nat) ^ (L + 1)" using gc L(2) by linarith
    then have "k - 1 < L + 1" by (rule power_less_imp_less_exp [rotated]) simp
    with False have kL: "k = L + 1" by simp
    have "len \<le> (2 ^ L - 1) * 2" using L(2) by simp
    then have "cand len L \<le> 2" using L1 by (rule cand_le)
    then have "cost len L \<le> 2 * 2 + 2 * (2 ^ L - 1)" unfolding cost_def by (intro add_mono mult_le_mono) simp_all
    also have "\<dots> = 2 + 2 ^ (L + 1)" using one_le_power [of "2 :: nat" L] by (simp add: diff_mult_distrib2)
    also have "2 + 2 ^ (L + 1) \<le> c * 2 + 2 * (2 ^ (L + 1) - 1)"
    proof -
      have "2 + p + p \<le> c * 2 + 2 * (p + p - 1)" if "1 \<le> p" for p :: nat using c that by linarith
      from this [of "2 ^ L"] show ?thesis by simp
    qed
    finally show ?thesis using L1 k kL by (intro exI [of _ L]) (simp add: chunk_cost_def)
  qed
qed

lemma optimal_chunk:
  assumes "len < 2 ^ 62"
  shows "\<exists>c. optimal_chunk_length len = Ok c \<and> 0 < c \<and> (\<forall>c' > 0. chunk_cost len c \<le> chunk_cost len c')"
proof (cases "len \<le> 1")
  case True
  have "chunk_cost len 1 \<le> chunk_cost len c'" if "0 < c'" for c'
  proof (cases "len = 0")
    case True
    with that show ?thesis by (simp add: chunk_cost_def ceil_div_def)
  next
    case False
    with \<open>len \<le> 1\<close> have l: "len = 1" by simp
    have "ceil_div 1 c' = 1" using that ceil_div_bounds [OF that, of 1] ceil_div_bounds(2) [OF that, where len = 1 and d = 1]
      by (cases "ceil_div 1 c'") auto
    with that l show ?thesis by (simp add: chunk_cost_def ceil_div_def)
  qed
  with True show ?thesis by (auto simp: optimal_chunk_length_def)
next
  case False
  then have len: "1 < len" by simp
  have "len + 1 < 2 ^ 64" using assms by simp
  then obtain L where L: "ilog2 (len + 1) = Ok L" "2 ^ L \<le> len + 1" "len + 1 < 2 ^ (L + 1)"
    using ilog2_bounds [of "len + 1"] by (metis add_is_0 one_neq_zero)
  have L1: "1 \<le> L" using L(3) len by (cases L) simp_all
  let ?ks = "rev [1..<L + 1]"
  have ks: "1 \<le> k \<and> 2 ^ k \<le> len + 1" if "k \<in> set ?ks" for k
  proof -
    have "k \<le> L" "1 \<le> k" using that by auto
    moreover have "2 ^ k \<le> (2 :: nat) ^ L" using \<open>k \<le> L\<close> by (intro power_increasing) simp_all
    ultimately show ?thesis using L(2) by linarith
  qed
  obtain j where j: "j \<in> set ?ks" "for_each (min_by_key_step len) ?ks None = Ok (Some (cost len j, 2 ^ j - 1, cand len j))"
    "\<forall>k \<in> set ?ks. cost len j \<le> cost len k" using min_by_key [OF ks assms] L1 by (metis One_nat_def Suc_eq_plus1 le_imp_less_Suc rev_is_Nil_conv upt_eq_Nil_conv not_less_zero not_le)
  have j1: "1 \<le> j" using j(1) by auto
  have opt: "optimal_chunk_length len = Ok (cand len j)"
    using False L(1) j(2) \<open>len + 1 < 2 ^ 64\<close> by (simp add: optimal_chunk_length_def checked_usize_def usize_bound_def del: upt_Suc)
  have pos: "0 < cand len j" using len_le_cand [OF j1, of len] len by (cases "cand len j") simp_all
  have "ceil_div len (cand len j) \<le> 2 ^ j - 1" using ceil_div_bounds(2) [OF pos] len_le_cand [OF j1, of len] by simp
  moreover have "1 \<le> (2 :: nat) ^ j" by simp
  ultimately have "1 + ceil_div len (cand len j) \<le> 2 ^ j" by linarith
  then have "next_power_of_two (1 + ceil_div len (cand len j)) \<le> 2 ^ j" by (rule next_power_of_two_le)
  then have best: "chunk_cost len (cand len j) \<le> cost len j" by (simp add: chunk_cost_def cost_def)
  have "chunk_cost len (cand len j) \<le> chunk_cost len c" if c: "0 < c" for c
  proof -
    obtain k where k: "1 \<le> k" "k \<le> L" "cost len k \<le> chunk_cost len c" using some_candidate_as_good [OF len c L(2,3)] by blast
    then have "cost len j \<le> cost len k" using j(3) by (auto simp del: upt_Suc)
    with best k(3) show ?thesis by linarith
  qed
  with opt pos show ?thesis by blast
qed

end
