(* ===== verification/Field255.thy ===== *)
theory Field255
  imports FieldVec
begin

unbundle bit_operations_syntax

text \<open>
  The field of \<^verbatim>\<open>src/field/field255.rs\<close>.  Its arithmetic is that of the package \<open>fiat-crypto\<close>, whose routines are the
  components of a record; the locale \<open>fiat_25519\<close> states what their documentation promises: the value of the limbs that
  they return modulo \<open>2 ^ 255 - 19\<close>, and the bounds on the limbs that they expect and return.  Every operation of the file
  keeps the bounds and computes, on the residues that the limbs stand for, the operation of the ring.
\<close>

section \<open>The routines of the package\<close>

type_synonym limbs = "u64 list"

record fiat_25519_routines =
  fiat_25519_add :: "limbs \<Rightarrow> limbs \<Rightarrow> limbs"
  fiat_25519_sub :: "limbs \<Rightarrow> limbs \<Rightarrow> limbs"
  fiat_25519_opp :: "limbs \<Rightarrow> limbs"
  fiat_25519_carry :: "limbs \<Rightarrow> limbs"
  fiat_25519_relax :: "limbs \<Rightarrow> limbs"
  fiat_25519_carry_mul :: "limbs \<Rightarrow> limbs \<Rightarrow> limbs"
  fiat_25519_selectznz :: "byte \<Rightarrow> limbs \<Rightarrow> limbs \<Rightarrow> limbs"
  fiat_25519_from_bytes :: "bytes \<Rightarrow> limbs"
  fiat_25519_to_bytes :: "limbs \<Rightarrow> bytes"

section \<open>Field elements\<close>

definition MODULUS_LITTLE_ENDIAN :: bytes where
  "MODULUS_LITTLE_ENDIAN = 0xed # replicate 30 0xff @ [0x7f]"

text \<open>The comparison with the modulus: whether a smaller and whether a greater byte was the first to differ.\<close>

definition compare_byte :: "byte \<times> byte \<Rightarrow> choice \<times> choice \<Rightarrow> choice \<times> choice" where
  "compare_byte = (\<lambda>(value_byte, modulus_byte) (less_than_modulus, greater_than_modulus).
     let less_than_modulus = (less_than_modulus \<or> value_byte < modulus_byte \<and> \<not> greater_than_modulus);
         greater_than_modulus = (greater_than_modulus \<or> value_byte > modulus_byte \<and> \<not> less_than_modulus)
     in (less_than_modulus, greater_than_modulus))"

definition field255_try_from_bytes :: "fiat_25519_routines \<Rightarrow> bytes \<Rightarrow> bool \<Rightarrow> (limbs, field_error) outcome" where
  "field255_try_from_bytes C bs mask_top_bit =
     (if 32 > length bs then Err ShortRead
      else
        let v = take 32 bs;
            v = (if mask_top_bit then v[31 := v ! 31 AND 0x7f] else v);
            (less_than_modulus, greater_than_modulus) =
              fold compare_byte (zip (rev v) (rev MODULUS_LITTLE_ENDIAN)) (False, False)
        in if \<not> less_than_modulus then Err ModulusOverflow else Ok (fiat_25519_from_bytes C v))"

definition field255_ct_eq :: "fiat_25519_routines \<Rightarrow> limbs \<Rightarrow> limbs \<Rightarrow> choice" where
  "field255_ct_eq C a b \<longleftrightarrow> fiat_25519_to_bytes C a = fiat_25519_to_bytes C b"

definition field255_conditional_select :: "fiat_25519_routines \<Rightarrow> limbs \<Rightarrow> limbs \<Rightarrow> choice \<Rightarrow> limbs" where
  "field255_conditional_select C a b choice = fiat_25519_selectznz C (of_bool choice) a b"

definition field255_add :: "fiat_25519_routines \<Rightarrow> limbs \<Rightarrow> limbs \<Rightarrow> limbs" where
  "field255_add C a b = fiat_25519_carry C (fiat_25519_add C a b)"

definition field255_add_assign :: "fiat_25519_routines \<Rightarrow> limbs \<Rightarrow> limbs \<Rightarrow> limbs" where
  "field255_add_assign C a b = fiat_25519_carry C (fiat_25519_add C a b)"

definition field255_sub :: "fiat_25519_routines \<Rightarrow> limbs \<Rightarrow> limbs \<Rightarrow> limbs" where
  "field255_sub C a b = fiat_25519_carry C (fiat_25519_sub C a b)"

definition field255_sub_assign :: "fiat_25519_routines \<Rightarrow> limbs \<Rightarrow> limbs \<Rightarrow> limbs" where
  "field255_sub_assign C a b = fiat_25519_carry C (fiat_25519_sub C a b)"

definition field255_mul :: "fiat_25519_routines \<Rightarrow> limbs \<Rightarrow> limbs \<Rightarrow> limbs" where
  "field255_mul C a b = fiat_25519_carry_mul C (fiat_25519_relax C a) (fiat_25519_relax C b)"

definition field255_mul_assign :: "fiat_25519_routines \<Rightarrow> limbs \<Rightarrow> limbs \<Rightarrow> limbs" where
  "field255_mul_assign C a b = fiat_25519_carry_mul C (fiat_25519_relax C a) (fiat_25519_relax C b)"

text \<open>Division and inversion are not implemented.\<close>

definition field255_div :: "limbs \<Rightarrow> limbs \<Rightarrow> (limbs, field_error) outcome" where
  "field255_div a b = Panic"

definition field255_inv :: "limbs \<Rightarrow> (limbs, field_error) outcome" where
  "field255_inv a = Panic"

definition field255_neg :: "fiat_25519_routines \<Rightarrow> limbs \<Rightarrow> limbs" where
  "field255_neg C a = fiat_25519_carry C (fiat_25519_opp C a)"

definition field255_from_u64 :: "fiat_25519_routines \<Rightarrow> u64 \<Rightarrow> (limbs, field_error) outcome" where
  "field255_from_u64 C v =
     (case field255_try_from_bytes C (le_bytes 8 (unat v) @ replicate 24 0) False of Ok x \<Rightarrow> Ok x | _ \<Rightarrow> Panic)"

definition field255_to_array :: "fiat_25519_routines \<Rightarrow> limbs \<Rightarrow> bytes" where
  "field255_to_array C a = fiat_25519_to_bytes C a"

definition field255_encode :: "fiat_25519_routines \<Rightarrow> limbs encoder" where
  "field255_encode C a bs = Ok (bs @ field255_to_array C a)"

definition field255_decode :: "fiat_25519_routines \<Rightarrow> limbs decoder" where
  "field255_decode C c =
     and_then (read_exact 32 c) (\<lambda>(v, c).
       and_then (map_err (Other \<circ> BoxedField) (field255_try_from_bytes C v False)) (\<lambda>x. Ok (x, c)))"

definition field255_try_from_random :: "fiat_25519_routines \<Rightarrow> bytes \<Rightarrow> (limbs, field_error) outcome" where
  "field255_try_from_random C bs = field255_try_from_bytes C bs True"

definition field255_zero :: limbs where
  "field255_zero = [0, 0, 0, 0, 0]"

definition field255_one :: limbs where
  "field255_one = [1, 0, 0, 0, 0]"

definition field255_try_into_u64 :: "fiat_25519_routines \<Rightarrow> limbs \<Rightarrow> (u64, field_error) outcome" where
  "field255_try_into_u64 C a =
     (let bs = fiat_25519_to_bytes C a
      in if drop 8 bs \<noteq> replicate 24 0 then Err IntegerTryFrom else Ok (of_nat (le_value (take 8 bs))))"

section \<open>Residues\<close>

definition p255 :: nat where
  "p255 = 2 ^ 255 - 19"

lemma p255_bounds: "0 < p255" "1 < p255" "p255 < 2 ^ 255" "2 ^ 64 < p255"
  by (simp_all add: p255_def)

typedef field255 = "{n :: nat. n < p255}"
  by (rule exI [of _ 0]) (simp add: p255_bounds)

setup_lifting type_definition_field255

instantiation field255 :: comm_ring_1
begin

lift_definition zero_field255 :: field255 is 0
  by (simp add: p255_bounds)

lift_definition one_field255 :: field255 is 1
  by (rule p255_bounds)

lift_definition plus_field255 :: "field255 \<Rightarrow> field255 \<Rightarrow> field255" is "\<lambda>a b. (a + b) mod p255"
  by (simp add: p255_bounds)

lift_definition uminus_field255 :: "field255 \<Rightarrow> field255" is "\<lambda>a. (p255 - a) mod p255"
  by (simp add: p255_bounds)

lift_definition minus_field255 :: "field255 \<Rightarrow> field255 \<Rightarrow> field255" is "\<lambda>a b. (a + (p255 - b)) mod p255"
  by (simp add: p255_bounds)

lift_definition times_field255 :: "field255 \<Rightarrow> field255 \<Rightarrow> field255" is "\<lambda>a b. a * b mod p255"
  by (simp add: p255_bounds)

instance
proof
  fix a b c :: field255
  show "a + b + c = a + (b + c)" by transfer (simp add: mod_simps add.assoc)
  show "a + b = b + a" by transfer (simp add: add.commute)
  show "0 + a = a" by transfer simp
  show "- a + a = 0" by transfer (simp add: mod_simps)
  show "a - b = a + - b" by transfer (simp add: mod_simps)
  show "a * b * c = a * (b * c)" by transfer (simp add: mod_simps mult.assoc)
  show "a * b = b * a" by transfer (simp add: mult.commute)
  show "1 * a = a" by transfer simp
  show "(a + b) * c = a * c + b * c" by transfer (simp add: mod_simps distrib_right)
  show "(0 :: field255) \<noteq> 1" by transfer simp
qed

end

instantiation field255 :: equal
begin

lift_definition equal_field255 :: "field255 \<Rightarrow> field255 \<Rightarrow> bool" is "(=)" .

instance
  by standard (transfer, rule refl)

end

lemma Rep_of_nat: "Rep_field255 (of_nat n) = n mod p255"
  by (induction n) (simp_all add: zero_field255.rep_eq one_field255.rep_eq plus_field255.rep_eq mod_simps)

lemma of_nat_eq_iff_255: "(of_nat m :: field255) = of_nat n \<longleftrightarrow> m mod p255 = n mod p255"
  by (simp add: Rep_field255_inject [symmetric] Rep_of_nat)

lemma Rep_less: "Rep_field255 x < p255"
  using Rep_field255 [of x] by simp

lemma of_nat_Rep [simp]: "of_nat (Rep_field255 x) = x"
  by (simp add: Rep_field255_inject [symmetric] Rep_of_nat Rep_less)

section \<open>Bytes\<close>

lemma unat_of_nat_u64: "n < 2 ^ 64 \<Longrightarrow> unat (of_nat n :: u64) = n"
  by (simp add: unsigned_of_nat take_bit_nat_eq_self)

lemma le_value_append: "le_value (xs @ ys) = le_value xs + 256 ^ length xs * le_value ys"
  by (induction xs) (simp_all add: algebra_simps)

lemma le_value_zero [simp]: "le_value (replicate n 0) = 0"
  by (induction n) simp_all

lemma le_value_inj: "length xs = length ys \<Longrightarrow> le_value xs = le_value ys \<Longrightarrow> xs = ys"
  by (metis le_bytes_le_value)

lemma le_value_ones: "Suc (le_value (replicate n 0xff)) = 256 ^ n"
  by (induction n) simp_all

lemma modulus_bytes: "le_value MODULUS_LITTLE_ENDIAN = p255" "length MODULUS_LITTLE_ENDIAN = 32"
  using le_value_ones [of 30] by (simp_all add: MODULUS_LITTLE_ENDIAN_def p255_def le_value_append)

lemma be_value_Cons: "be_value (b # bs) = unat b * 256 ^ length bs + be_value bs"
  by (simp add: be_value_def le_value_snoc)

lemma be_value_less_iff:
  assumes "length bs = length ms"
  shows "be_value (b # bs) < be_value (m # ms) \<longleftrightarrow> b < m \<or> b = m \<and> be_value bs < be_value ms"
proof -
  have bound: "be_value bs < 256 ^ length ms" "be_value ms < 256 ^ length ms"
    using be_value_bound [of bs] be_value_bound [of ms] assms by simp_all
  consider "b < m" | "b = m" | "m < b" by fastforce
  then show ?thesis
  proof cases
    case 1
    then have "Suc (unat b) * 256 ^ length ms \<le> unat m * 256 ^ length ms" by (intro mult_le_mono) (simp_all add: word_less_nat_alt)
    with 1 bound assms show ?thesis by (simp add: be_value_Cons)
  next
    case 2
    with assms show ?thesis by (simp add: be_value_Cons)
  next
    case 3
    then have "Suc (unat m) * 256 ^ length ms \<le> unat b * 256 ^ length ms" by (intro mult_le_mono) (simp_all add: word_less_nat_alt)
    with 3 bound assms show ?thesis by (auto simp: be_value_Cons)
  qed
qed

lemma compare_bytes:
  assumes "length bs = length ms" and "\<not> (lt \<and> gt)"
  shows "fold compare_byte (zip bs ms) (lt, gt) =
    (if lt \<or> gt then (lt, gt) else (be_value bs < be_value ms, be_value ms < be_value bs))"
  using assms
proof (induction bs ms arbitrary: lt gt rule: list_induct2)
  case Nil
  then show ?case by (auto simp: be_value_def)
next
  case (Cons b bs m ms)
  have "compare_byte (b, m) (lt, gt) = (lt \<or> b < m \<and> \<not> gt, gt \<or> m < b \<and> \<not> lt)"
    by (auto simp: compare_byte_def Let_def)
  moreover have "\<not> ((lt \<or> b < m \<and> \<not> gt) \<and> (gt \<or> m < b \<and> \<not> lt))" using Cons.prems by auto
  note Cons.IH [OF this]
  ultimately have "fold compare_byte (zip (b # bs) (m # ms)) (lt, gt) =
    (if (lt \<or> b < m \<and> \<not> gt) \<or> (gt \<or> m < b \<and> \<not> lt) then (lt \<or> b < m \<and> \<not> gt, gt \<or> m < b \<and> \<not> lt)
     else (be_value bs < be_value ms, be_value ms < be_value bs))" by (simp only: zip_Cons_Cons fold_simps)
  then show ?case
    using Cons.prems be_value_less_iff [OF Cons.hyps(1)] be_value_less_iff [OF Cons.hyps(1) [symmetric]]
    by (auto dest: less_asym)
qed

lemma less_than_modulus:
  assumes "length v = 32"
  shows "fst (fold compare_byte (zip (rev v) (rev MODULUS_LITTLE_ENDIAN)) (False, False)) \<longleftrightarrow> le_value v < p255"
  using assms by (simp add: compare_bytes modulus_bytes be_value_def)

lemma mask_top_value:
  assumes "length v = 32"
  shows "le_value (v[31 := v ! 31 AND 0x7f]) = le_value v mod 2 ^ 255"
proof -
  have v: "v = take 31 v @ [v ! 31]" using assms take_Suc_conv_app_nth [of 31 v] by simp
  have low: "le_value (take 31 v) < 2 ^ 248" using le_value_bound [of "take 31 v"] assms by simp
  have msk: "unat (b AND 0x7f :: byte) = unat b mod 2 ^ 7" for b :: byte
  proof -
    have "b AND 0x7f = take_bit 7 b" by (simp add: take_bit_eq_mask mask_eq_exp_minus_1)
    then have "unat (b AND 0x7f) = take_bit 7 (unat b)" by (simp only: unsigned_take_bit_eq)
    then show ?thesis by (simp only: take_bit_eq_mod)
  qed
  have "v[31 := v ! 31 AND 0x7f] = take 31 v @ [v ! 31 AND 0x7f]" using assms by (subst v) (simp add: list_update_append)
  then have "le_value (v[31 := v ! 31 AND 0x7f]) = le_value (take 31 v) + 2 ^ 248 * (unat (v ! 31) mod 2 ^ 7)"
    using assms by (simp add: le_value_snoc msk)
  moreover have "le_value v = le_value (take 31 v) + 2 ^ 248 * unat (v ! 31)"
    using assms by (subst v) (simp add: le_value_snoc)
  moreover have "(x + 2 ^ 248 * y) mod 2 ^ 255 = x + 2 ^ 248 * (y mod 2 ^ 7)" if "x < 2 ^ 248" for x y :: nat
    using that mod_mult2_eq [of "x + 2 ^ 248 * y" "2 ^ 248" "2 ^ 7"] by (simp add: power_add [symmetric])
  ultimately show ?thesis using low by simp
qed

section \<open>The contract of the package\<close>

fun fiat_eval :: "limbs \<Rightarrow> nat" where
  "fiat_eval [] = 0"
| "fiat_eval (x # xs) = unat x + 2 ^ 51 * fiat_eval xs"

definition tight :: "limbs \<Rightarrow> bool" where
  "tight ls \<longleftrightarrow> length ls = 5 \<and> (\<forall>x \<in> set ls. x \<le> 0x8000000000000)"

definition loose :: "limbs \<Rightarrow> bool" where
  "loose ls \<longleftrightarrow> length ls = 5 \<and> (\<forall>x \<in> set ls. x \<le> 0x18000000000000)"

locale fiat_25519 =
  fixes C :: fiat_25519_routines
  assumes add_limbs: "tight a \<Longrightarrow> tight b \<Longrightarrow> loose (fiat_25519_add C a b) \<and>
      fiat_eval (fiat_25519_add C a b) mod p255 = (fiat_eval a + fiat_eval b) mod p255"
    and sub_limbs: "tight a \<Longrightarrow> tight b \<Longrightarrow> loose (fiat_25519_sub C a b) \<and>
      (fiat_eval (fiat_25519_sub C a b) + fiat_eval b) mod p255 = fiat_eval a mod p255"
    and opp_limbs: "tight a \<Longrightarrow> loose (fiat_25519_opp C a) \<and> (fiat_eval (fiat_25519_opp C a) + fiat_eval a) mod p255 = 0"
    and carry_limbs: "loose a \<Longrightarrow> tight (fiat_25519_carry C a) \<and> fiat_eval (fiat_25519_carry C a) mod p255 = fiat_eval a mod p255"
    and relax_limbs: "tight a \<Longrightarrow> fiat_25519_relax C a = a"
    and mul_limbs: "loose a \<Longrightarrow> loose b \<Longrightarrow> tight (fiat_25519_carry_mul C a b) \<and>
      fiat_eval (fiat_25519_carry_mul C a b) mod p255 = fiat_eval a * fiat_eval b mod p255"
    and select_limbs: "c \<le> 1 \<Longrightarrow> fiat_25519_selectznz C c a b = (if c = 0 then a else b)"
    and from_bytes_limbs: "length bs = 32 \<Longrightarrow> le_value bs < 2 ^ 255 \<Longrightarrow> tight (fiat_25519_from_bytes C bs) \<and>
      fiat_eval (fiat_25519_from_bytes C bs) mod p255 = le_value bs mod p255"
    and to_bytes_limbs: "tight a \<Longrightarrow> fiat_25519_to_bytes C a = le_bytes 32 (fiat_eval a mod p255)"

text \<open>The residue that limbs stand for.\<close>

definition field255_of :: "limbs \<Rightarrow> field255" where
  "field255_of a = of_nat (fiat_eval a)"

lemma field255_of_eqI: "fiat_eval a mod p255 = n mod p255 \<Longrightarrow> field255_of a = of_nat n"
  by (simp add: field255_of_def of_nat_eq_iff_255)

lemma tight_loose: "tight a \<Longrightarrow> loose a"
  by (auto simp: tight_def loose_def intro: order_trans)

context fiat_25519
begin

lemma carry_of: "loose a \<Longrightarrow> field255_of (fiat_25519_carry C a) = field255_of a"
  unfolding field255_of_def [of a] by (intro field255_of_eqI) (simp add: carry_limbs)

lemma add_refines:
  assumes "tight a" "tight b"
  shows "tight (field255_add C a b)" "field255_of (field255_add C a b) = field255_of a + field255_of b"
proof -
  note l = add_limbs [OF assms]
  show "tight (field255_add C a b)" using l carry_limbs by (simp add: field255_add_def)
  have "field255_of (fiat_25519_add C a b) = of_nat (fiat_eval a + fiat_eval b)" using l by (intro field255_of_eqI) simp
  then have "field255_of (fiat_25519_add C a b) = field255_of a + field255_of b" by (simp add: field255_of_def)
  then show "field255_of (field255_add C a b) = field255_of a + field255_of b" using l by (simp add: field255_add_def carry_of)
qed

lemma sub_refines:
  assumes "tight a" "tight b"
  shows "tight (field255_sub C a b)" "field255_of (field255_sub C a b) = field255_of a - field255_of b"
proof -
  note l = sub_limbs [OF assms]
  show "tight (field255_sub C a b)" using l carry_limbs by (simp add: field255_sub_def)
  have "(of_nat (fiat_eval (fiat_25519_sub C a b) + fiat_eval b) :: field255) = of_nat (fiat_eval a)"
    using l by (simp only: of_nat_eq_iff_255)
  then have "field255_of (fiat_25519_sub C a b) = field255_of a - field255_of b" by (simp add: field255_of_def eq_diff_eq)
  then show "field255_of (field255_sub C a b) = field255_of a - field255_of b" using l by (simp add: field255_sub_def carry_of)
qed

lemma neg_refines:
  assumes "tight a"
  shows "tight (field255_neg C a)" "field255_of (field255_neg C a) = - field255_of a"
proof -
  note l = opp_limbs [OF assms]
  show "tight (field255_neg C a)" using l carry_limbs by (simp add: field255_neg_def)
  have "(of_nat (fiat_eval (fiat_25519_opp C a) + fiat_eval a) :: field255) = of_nat 0"
    using l by (simp only: of_nat_eq_iff_255) simp
  then have "field255_of (fiat_25519_opp C a) = - field255_of a" by (simp add: field255_of_def eq_neg_iff_add_eq_0)
  then show "field255_of (field255_neg C a) = - field255_of a" using l by (simp add: field255_neg_def carry_of)
qed

lemma mul_refines:
  assumes "tight a" "tight b"
  shows "tight (field255_mul C a b)" "field255_of (field255_mul C a b) = field255_of a * field255_of b"
proof -
  note l = mul_limbs [OF tight_loose [OF assms(1)] tight_loose [OF assms(2)]]
  show "tight (field255_mul C a b)" using l assms by (simp add: field255_mul_def relax_limbs)
  have "field255_of (fiat_25519_carry_mul C a b) = of_nat (fiat_eval a * fiat_eval b)" using l by (intro field255_of_eqI) simp
  then show "field255_of (field255_mul C a b) = field255_of a * field255_of b"
    using assms by (simp add: field255_mul_def relax_limbs field255_of_def)
qed

lemma assign_eq:
  "field255_add_assign C a b = field255_add C a b" "field255_sub_assign C a b = field255_sub C a b"
  "field255_mul_assign C a b = field255_mul C a b"
  by (simp_all add: field255_add_assign_def field255_add_def field255_sub_assign_def field255_sub_def
      field255_mul_assign_def field255_mul_def)

lemma select_refines: "field255_conditional_select C a b c = select a b c"
  by (simp add: field255_conditional_select_def select_limbs select_def)

lemma to_bytes_of: "tight a \<Longrightarrow> fiat_25519_to_bytes C a = le_bytes 32 (Rep_field255 (field255_of a))"
  by (simp add: to_bytes_limbs field255_of_def Rep_of_nat)

lemma to_bytes_value: "tight a \<Longrightarrow> le_value (fiat_25519_to_bytes C a) = Rep_field255 (field255_of a)"
  using less_trans [OF Rep_less p255_bounds(3)] by (simp add: to_bytes_of le_value_le_bytes less_trans [of _ "2 ^ 255"])

lemma ct_eq_refines:
  assumes "tight a" "tight b"
  shows "field255_ct_eq C a b \<longleftrightarrow> field255_of a = field255_of b"
  using assms by (metis field255_ct_eq_def to_bytes_value to_bytes_of Rep_field255_inject)

text \<open>What is accepted, and that the masked variant ignores the highest bit.\<close>

lemma try_from_bytes_value:
  assumes "32 \<le> length bs" and n: "n = (if msk then le_value (take 32 bs) mod 2 ^ 255 else le_value (take 32 bs))"
  shows "field255_try_from_bytes C bs msk = (if n < p255 then Ok (fiat_25519_from_bytes C (le_bytes 32 n)) else Err ModulusOverflow)"
proof -
  let ?v = "if msk then (take 32 bs)[31 := take 32 bs ! 31 AND 0x7f] else take 32 bs"
  have v: "length ?v = 32" "le_value ?v = n" using assms mask_top_value [of "take 32 bs"] by simp_all
  have "field255_try_from_bytes C bs msk = (if le_value ?v < p255 then Ok (fiat_25519_from_bytes C ?v) else Err ModulusOverflow)"
    using assms(1) less_than_modulus [OF v(1)] by (simp only: field255_try_from_bytes_def Let_def case_prod_unfold) simp
  moreover have "?v = le_bytes 32 n" using le_bytes_le_value [of ?v] v by simp
  ultimately show ?thesis using v by simp
qed

lemma from_bytes_of:
  assumes "n < p255"
  shows "tight (fiat_25519_from_bytes C (le_bytes 32 n))" "field255_of (fiat_25519_from_bytes C (le_bytes 32 n)) = of_nat n"
proof -
  have n: "le_value (le_bytes 32 n) = n" "n < 2 ^ 255" using assms p255_bounds(3) by (simp_all add: le_value_le_bytes)
  from from_bytes_limbs [of "le_bytes 32 n"] n
  show "tight (fiat_25519_from_bytes C (le_bytes 32 n))" "field255_of (fiat_25519_from_bytes C (le_bytes 32 n)) = of_nat n"
    by (simp_all add: field255_of_eqI)
qed

lemma from_u64_refines:
  obtains x where "field255_from_u64 C v = Ok x" "tight x" "field255_of x = of_nat (unat v)"
proof -
  let ?bs = "le_bytes 8 (unat v) @ replicate 24 0"
  have "le_value (take 32 ?bs) = unat v" using unsigned_less [of v, where 'a = nat] by (simp add: le_value_append le_value_le_bytes)
  moreover have "unat v < p255" using unsigned_less [of v, where 'a = nat] p255_bounds(4) by simp
  ultimately show thesis
    using try_from_bytes_value [of ?bs "unat v" False] from_bytes_of [of "unat v"]
    by (intro that [of "fiat_25519_from_bytes C (le_bytes 32 (unat v))"]) (simp_all add: field255_from_u64_def)
qed

lemma try_into_u64_refines:
  assumes "tight a"
  shows "field255_try_into_u64 C a =
    (if Rep_field255 (field255_of a) < 2 ^ 64 then Ok (of_nat (Rep_field255 (field255_of a))) else Err IntegerTryFrom)"
proof -
  let ?n = "Rep_field255 (field255_of a)" and ?bs = "fiat_25519_to_bytes C a"
  have len: "length ?bs = 32" using assms by (simp add: to_bytes_of)
  have "le_value ?bs = le_value (take 8 ?bs) + 256 ^ 8 * le_value (drop 8 ?bs)"
    using le_value_append [of "take 8 ?bs" "drop 8 ?bs"] len by simp
  then have n: "?n = le_value (take 8 ?bs) + 2 ^ 64 * le_value (drop 8 ?bs)" using to_bytes_value [OF assms] by simp
  have low: "le_value (take 8 ?bs) < 2 ^ 64" using le_value_bound [of "take 8 ?bs"] len by simp
  have "drop 8 ?bs = replicate 24 0 \<longleftrightarrow> le_value (drop 8 ?bs) = 0"
    using le_value_inj [of "drop 8 ?bs" "replicate 24 0"] len by auto
  also have "\<dots> \<longleftrightarrow> ?n < 2 ^ 64" using n low by auto
  finally show ?thesis using n low by (auto simp: field255_try_into_u64_def Let_def)
qed

end

section \<open>The dictionary\<close>

text \<open>
  The elements of the type are the residues, each represented by the limbs read from its encoding.  The conversion of an
  integer does not panic.  \<open>Field255\<close> implements \<open>FieldElement\<close> only: the other components are unspecified.
\<close>

definition limbs_of :: "fiat_25519_routines \<Rightarrow> field255 \<Rightarrow> limbs" where
  "limbs_of C x = fiat_25519_from_bytes C (le_bytes 32 (Rep_field255 x))"

definition Field255 :: "fiat_25519_routines \<Rightarrow> field255 field_element" where
  "Field255 C = undefined\<lparr>
     ENCODED_SIZE := 32,
     try_from := (\<lambda>bs. and_then (field255_try_from_bytes C bs False) (Ok \<circ> field255_of)),
     try_from_random := (\<lambda>bs. and_then (field255_try_from_random C bs) (Ok \<circ> field255_of)),
     to_bytes := (\<lambda>x. field255_to_array C (limbs_of C x)),
     from_integer := (\<lambda>n. case field255_from_u64 C (of_nat n) of Ok a \<Rightarrow> field255_of a | _ \<Rightarrow> undefined) \<rparr>"

definition u64_of_field255 :: "fiat_25519_routines \<Rightarrow> field255 \<Rightarrow> (nat, field_error) outcome" where
  "u64_of_field255 C x = and_then (field255_try_into_u64 C (limbs_of C x)) (Ok \<circ> unat)"

lemma encoded_size_255 [simp]: "ENCODED_SIZE (Field255 C) = 32"
  by (simp add: Field255_def)

context fiat_25519
begin

lemma limbs_of_refines: "tight (limbs_of C x)" "field255_of (limbs_of C x) = x"
  using from_bytes_of [OF Rep_less, of x] by (simp_all add: limbs_of_def)

lemma try_from_255:
  "try_from (Field255 C) bs =
     (if length bs < 32 then Err ShortRead
      else if le_value (take 32 bs) < p255 then Ok (of_nat (le_value (take 32 bs))) else Err ModulusOverflow)"
proof (cases "length bs < 32")
  case True
  then show ?thesis by (simp add: Field255_def field255_try_from_bytes_def)
next
  case False
  then show ?thesis
    using try_from_bytes_value [of bs "le_value (take 32 bs)" False] from_bytes_of [of "le_value (take 32 bs)"]
    by (simp add: Field255_def)
qed

lemma try_from_random_255:
  "try_from_random (Field255 C) bs =
     (if length bs < 32 then Err ShortRead
      else if le_value (take 32 bs) mod 2 ^ 255 < p255 then Ok (of_nat (le_value (take 32 bs) mod 2 ^ 255)) else Err ModulusOverflow)"
proof (cases "length bs < 32")
  case True
  then show ?thesis by (simp add: Field255_def field255_try_from_random_def field255_try_from_bytes_def)
next
  case False
  then show ?thesis
    using try_from_bytes_value [of bs "le_value (take 32 bs) mod 2 ^ 255" True] from_bytes_of [of "le_value (take 32 bs) mod 2 ^ 255"]
    by (simp add: Field255_def field255_try_from_random_def)
qed

lemma to_bytes_255: "to_bytes (Field255 C) x = le_bytes 32 (Rep_field255 x)"
  using limbs_of_refines [of x] by (simp add: Field255_def field255_to_array_def to_bytes_of)

lemma from_integer_255: "n < 2 ^ 64 \<Longrightarrow> from_integer (Field255 C) n = of_nat n"
  by (rule from_u64_refines [of "of_nat n"]) (simp add: Field255_def unat_of_nat_u64)

lemma u64_of_255:
  "u64_of_field255 C x = (if Rep_field255 x < 2 ^ 64 then Ok (Rep_field255 x) else Err IntegerTryFrom)"
  using limbs_of_refines [of x] by (simp add: u64_of_field255_def try_into_u64_refines unat_of_nat_u64)

end

sublocale fiat_25519 \<subseteq> codec "field_encode (Field255 C)" "field_decode (Field255 C)" "\<lambda>_. True" "to_bytes (Field255 C)"
proof unfold_locales
  fix x pre post
  have "le_value (le_bytes 32 (Rep_field255 x)) = Rep_field255 x"
    using less_trans [OF Rep_less p255_bounds(3)] by (simp add: le_value_le_bytes less_trans [of _ "2 ^ 255"])
  then show "field_decode (Field255 C) (Cursor (pre @ to_bytes (Field255 C) x @ post) (length pre)) =
      Ok (x, Cursor (pre @ to_bytes (Field255 C) x @ post) (length pre + length (to_bytes (Field255 C) x)))"
    by (simp add: field_decode_def read_exact_def to_bytes_255 try_from_255 Rep_less)
qed (simp add: field_encode_def)

section \<open>A model of the package\<close>

text \<open>Routines that compute with canonical limbs keep the contract.\<close>

fun digits51 :: "nat \<Rightarrow> nat \<Rightarrow> limbs" where
  "digits51 0 n = []"
| "digits51 (Suc k) n = of_nat (n mod 2 ^ 51) # digits51 k (n div 2 ^ 51)"

lemma eval_digits51: "fiat_eval (digits51 k n) = n mod 2 ^ (51 * k)"
proof (induction k arbitrary: n)
  case (Suc k)
  have "unat (of_nat (n mod 2 ^ 51) :: u64) = n mod 2 ^ 51" by (rule unat_of_nat_u64) (simp add: less_trans [OF mod_less_divisor])
  then show ?case using Suc mod_mult2_eq [of n "2 ^ 51" "2 ^ (51 * k)"] by (simp add: power_add)
qed simp

lemma digits51_bound: "x \<in> set (digits51 k n) \<Longrightarrow> x \<le> 0x8000000000000"
proof (induction k arbitrary: n)
  case (Suc k)
  have "(of_nat (n mod 2 ^ 51) :: u64) \<le> 0x8000000000000"
    by (simp add: word_le_nat_alt unat_of_nat_u64 less_trans [OF mod_less_divisor] less_imp_le [OF mod_less_divisor])
  with Suc show ?case by auto
qed simp

definition canonical_limbs :: "nat \<Rightarrow> limbs" where
  "canonical_limbs n = digits51 5 (n mod p255)"

lemma canonical_limbs: "tight (canonical_limbs n)" "fiat_eval (canonical_limbs n) mod p255 = n mod p255"
proof -
  have "length (digits51 k m) = k" for k m by (induction k arbitrary: m) simp_all
  then show "tight (canonical_limbs n)" using digits51_bound by (auto simp: tight_def canonical_limbs_def)
  have "n mod p255 < 2 ^ 255" using p255_bounds by (meson less_trans mod_less_divisor)
  then show "fiat_eval (canonical_limbs n) mod p255 = n mod p255" by (simp add: canonical_limbs_def eval_digits51)
qed

definition canonical_routines :: fiat_25519_routines where
  "canonical_routines = \<lparr>
     fiat_25519_add = (\<lambda>a b. canonical_limbs (fiat_eval a + fiat_eval b)),
     fiat_25519_sub = (\<lambda>a b. canonical_limbs (fiat_eval a + (p255 - fiat_eval b mod p255))),
     fiat_25519_opp = (\<lambda>a. canonical_limbs (p255 - fiat_eval a mod p255)),
     fiat_25519_carry = (\<lambda>a. canonical_limbs (fiat_eval a)),
     fiat_25519_relax = (\<lambda>a. a),
     fiat_25519_carry_mul = (\<lambda>a b. canonical_limbs (fiat_eval a * fiat_eval b)),
     fiat_25519_selectznz = (\<lambda>c a b. if c = 0 then a else b),
     fiat_25519_from_bytes = (\<lambda>bs. canonical_limbs (le_value bs)),
     fiat_25519_to_bytes = (\<lambda>a. le_bytes 32 (fiat_eval a mod p255)) \<rparr>"

lemma sub_canonical:
  "(fiat_eval (canonical_limbs (x + (p255 - y mod p255))) + y) mod p255 = x mod p255"
proof -
  have "(fiat_eval (canonical_limbs (x + (p255 - y mod p255))) + y) mod p255 = (x + (p255 - y mod p255) + y mod p255) mod p255"
    by (metis canonical_limbs(2) mod_add_eq mod_mod_trivial)
  also have "\<dots> = x mod p255" using mod_less_divisor [OF p255_bounds(1), of y] by simp
  finally show ?thesis .
qed

interpretation canonical: fiat_25519 canonical_routines
  using sub_canonical [of 0] by unfold_locales (simp_all add: canonical_routines_def canonical_limbs tight_loose sub_canonical)

section \<open>Properties\<close>

text \<open>
  C5. The 255-bit field: with routines that keep the documented contract of fiat-crypto, sums, differences, products and
  negations of limbs within the bounds stay within the bounds and stand for the operation on residues modulo
  \<open>2\<^sup>2\<^sup>5\<^sup>5 - 19\<close>, and two representations are equal exactly when they stand for the same residue.
\<close>

theorem field255_refines_residues:
  assumes "fiat_25519 C" and "tight a" and "tight b"
  shows "tight (field255_add C a b) \<and> field255_of (field255_add C a b) = field255_of a + field255_of b \<and>
    tight (field255_sub C a b) \<and> field255_of (field255_sub C a b) = field255_of a - field255_of b \<and>
    tight (field255_mul C a b) \<and> field255_of (field255_mul C a b) = field255_of a * field255_of b \<and>
    tight (field255_neg C a) \<and> field255_of (field255_neg C a) = - field255_of a \<and>
    field255_conditional_select C a b choice = (if choice then b else a) \<and>
    (field255_ct_eq C a b \<longleftrightarrow> field255_of a = field255_of b) \<and>
    field255_of field255_zero = 0 \<and> field255_of field255_one = 1"
  using fiat_25519.add_refines [OF assms] fiat_25519.sub_refines [OF assms] fiat_25519.mul_refines [OF assms]
    fiat_25519.neg_refines [OF assms(1,2)] fiat_25519.select_refines [OF assms(1), of a b choice] fiat_25519.ct_eq_refines [OF assms]
  by (simp add: select_def field255_of_def field255_zero_def field255_one_def)


theorem field255_refines_residues_witness:
  "field255_of (field255_mul canonical_routines [2, 0, 0, 0, 0x4000000000000] [2, 0, 0, 0, 0]) = 23 \<and>
   \<not> field255_ct_eq canonical_routines [2, 0, 0, 0, 0x4000000000000] [2, 0, 0, 0, 0]"
proof -
  have "(of_nat (2 * (2 + 2 ^ 254)) :: field255) = of_nat 23" "(of_nat (2 + 2 ^ 254) :: field255) \<noteq> of_nat 2"
    by (simp_all only: of_nat_eq_iff_255) (simp_all add: p255_def)
  then have "(2 :: field255) * (2 + 2 ^ 254) = 23" "(2 :: field255) + 2 ^ 254 \<noteq> 2" by simp_all
  with field255_refines_residues [OF canonical.fiat_25519_axioms, of "[2, 0, 0, 0, 0x4000000000000]" "[2, 0, 0, 0, 0]"]
  show ?thesis by (simp add: tight_def field255_of_def)
qed

text \<open>
  C11. Bytes of the 255-bit field: the comparison that walks the bytes from the most significant one accepts \<open>32\<close> bytes exactly
  when their value is below the prime; limbs within the bounds are encoded as \<open>32\<close> bytes whose value is the canonical
  representative, and decoding these bytes gives limbs for the same residue and leaves the cursor behind them.
\<close>

theorem field255_wire:
  assumes "fiat_25519 C" and "tight a"
  shows "(is_Ok (field255_try_from_bytes C bs False) \<longleftrightarrow> 32 \<le> length bs \<and> le_value (take 32 bs) < p255) \<and>
    (\<exists>w b. field255_encode C a [] = Ok w \<and> length w = 32 \<and> le_value w = fiat_eval a mod p255 \<and>
      field255_decode C (Cursor (pre @ w @ post) (length pre)) = Ok (b, Cursor (pre @ w @ post) (length pre + 32)) \<and>
      tight b \<and> field255_of b = field255_of a)"
proof (intro conjI exI)
  let ?n = "fiat_eval a mod p255"
  let ?w = "le_bytes 32 ?n"
  have n: "?n < p255" by (simp add: p255_bounds)
  then have val: "le_value ?w = ?n" using p255_bounds(3) by (simp add: le_value_le_bytes)
  note bytes = fiat_25519.try_from_bytes_value [OF assms(1)]
  show "is_Ok (field255_try_from_bytes C bs False) \<longleftrightarrow> 32 \<le> length bs \<and> le_value (take 32 bs) < p255"
    using bytes [of bs "le_value (take 32 bs)" False] by (auto simp: field255_try_from_bytes_def not_le)
  show "field255_encode C a [] = Ok ?w" "length ?w = 32" "le_value ?w = ?n"
    using val by (simp_all add: field255_encode_def field255_to_array_def fiat_25519.to_bytes_limbs [OF assms])
  show "field255_decode C (Cursor (pre @ ?w @ post) (length pre)) =
      Ok (fiat_25519_from_bytes C ?w, Cursor (pre @ ?w @ post) (length pre + 32))"
    using bytes [of ?w ?n False] val n by (simp add: field255_decode_def read_exact_def)
  show "tight (fiat_25519_from_bytes C ?w)" "field255_of (fiat_25519_from_bytes C ?w) = field255_of a"
    using fiat_25519.from_bytes_of [OF assms(1) n] by (simp_all add: field255_of_def of_nat_eq_iff_255)
qed


theorem field255_wire_witness:
  "\<not> is_Ok (field255_try_from_bytes canonical_routines MODULUS_LITTLE_ENDIAN False) \<and>
   (\<exists>w b. field255_encode canonical_routines [5, 0, 0, 0, 0] [] = Ok w \<and> length w = 32 \<and>
     field255_decode canonical_routines (Cursor ([1] @ w @ [2]) 1) = Ok (b, Cursor ([1] @ w @ [2]) 33) \<and> field255_of b = 5)"
  using field255_wire [OF canonical.fiat_25519_axioms, of "[5, 0, 0, 0, 0]" MODULUS_LITTLE_ENDIAN "[1]" "[2]"]
  by (auto simp: tight_def modulus_bytes field255_of_def)

end
