(* ===== verification/Poplar1.thy ===== *)
theory Poplar1
  imports IdpfCorrect Vdaf Prio3 Field255
begin

text \<open>
  The VDAF of \<^verbatim>\<open>src/vdaf/poplar1.rs\<close>: clients hold bit strings, and two aggregators count how many strings begin with each of
  a list of candidate prefixes.  Every measurement is shared with the incremental point function, whose values are pairs of
  a count and an authenticator; a sketch in two rounds shows that the evaluations at the prefixes are all zero but at most
  one, which is one.  The field at the leaves, \<open>Field255\<close>, and its conversion to integers are components of the record.
\<close>

section \<open>Instances\<close>

definition DST_SHARD_RANDOMNESS :: nat where "DST_SHARD_RANDOMNESS = 1"

definition DST_CORR_INNER :: nat where "DST_CORR_INNER = 2"

definition DST_CORR_LEAF :: nat where "DST_CORR_LEAF = 3"

definition DST_VERIFY_RANDOMNESS :: nat where "DST_VERIFY_RANDOMNESS = 4"

record ('g, 'x, 's) poplar1 =
  poplar1_bits :: nat
  poplar1_xof :: "('x, 's, vdaf_error) xof"
  poplar1_prim :: primitives
  leaf_field :: "'g field_element"
  leaf_to_u64 :: "'g \<Rightarrow> (nat, field_error) outcome"

definition new_turboshake128 :: "primitives \<Rightarrow> fiat_25519_routines \<Rightarrow> nat \<Rightarrow> (field255, turboshake128_state, reader) poplar1" where
  "new_turboshake128 prim C bits =
     \<lparr>poplar1_bits = bits, poplar1_xof = XofTurboShake128 prim, poplar1_prim = prim, leaf_field = Field255 C,
      leaf_to_u64 = u64_of_field255 C\<rparr>"

abbreviation poplar1_fill :: "('g, 'x, 's) poplar1 \<Rightarrow> ('s, vdaf_error) rng" where
  "poplar1_fill V \<equiv> fill_bytes (poplar1_xof V)"

definition poplar1_dst :: "nat \<Rightarrow> bytes" where
  "poplar1_dst usage = domain_separation_tag 0x00001000 usage"

definition init_prng ::
  "('g, 'x, 's) poplar1 \<Rightarrow> 'f field_element \<Rightarrow> bytes \<Rightarrow> nat \<Rightarrow> bytes list \<Rightarrow> ('s prng, vdaf_error) outcome" where
  "init_prng V F s usage binder_chunks =
     and_then (init (poplar1_xof V) s (poplar1_dst usage)) (\<lambda>xof.
       from_seed_stream F (poplar1_fill V)
         (into_seed_stream (poplar1_xof V) (fold (update (poplar1_xof V)) binder_chunks xof)))"

text \<open>A number of calls of \<open>get\<close>, with the generator that remains.\<close>

fun prng_gets :: "'f field_element \<Rightarrow> ('s, 'e) rng \<Rightarrow> nat \<Rightarrow> 's prng \<Rightarrow> ('f list \<times> 's prng, 'e) outcome" where
  "prng_gets F fill 0 g = Ok ([], g)"
| "prng_gets F fill (Suc n) g =
     and_then (returned (prng_get F fill g)) (\<lambda>(x, g).
       and_then (prng_gets F fill n g) (\<lambda>(xs, g). Ok (x # xs, g)))"

section \<open>Values of the point function\<close>

definition poplar1_value :: "'f::comm_ring_1 field_element \<Rightarrow> ('s, 'e) rng \<Rightarrow> (unit, 'f \<times> 'f, 's, 'e) idpf_value" where
  "poplar1_value F fill = \<lparr>
     generate = (\<lambda>_ s. and_then (generate_random F fill s) (\<lambda>(x, s).
       and_then (generate_random F fill s) (\<lambda>(y, s). Ok ((x, y), s)))),
     value_zero = (\<lambda>_. (0, 0)),
     value_select = (\<lambda>a b c. Ok (select (fst a) (fst b) c, select (snd a) (snd b) c)),
     value_add = (\<lambda>a b. Ok (fst a + fst b, snd a + snd b)),
     value_sub = (\<lambda>a b. Ok (fst a - fst b, snd a - snd b)),
     conditional_negate = (\<lambda>a c. (select (fst a) (- fst a) c, select (snd a) (- snd a) c)) \<rparr>"

definition poplar1_value_encode :: "'f field_element \<Rightarrow> ('f \<times> 'f) encoder" where
  "poplar1_value_encode F v bs = and_then (field_encode F (fst v) bs) (field_encode F (snd v))"

definition poplar1_value_decode :: "'f field_element \<Rightarrow> ('f \<times> 'f) decoder" where
  "poplar1_value_decode F c =
     and_then (field_decode F c) (\<lambda>(x, c). and_then (field_decode F c) (\<lambda>(y, c). Ok ((x, y), c)))"

definition poplar1_idpf :: "('g::comm_ring_1, 'x, 's) poplar1 \<Rightarrow> (unit, field64 \<times> field64, unit, 'g \<times> 'g) idpf" where
  "poplar1_idpf V = \<lparr>
     inner_values = poplar1_value Field64 (SeedStreamFixedKeyAes128_fill (poplar1_prim V)),
     leaf_values = poplar1_value (leaf_field V) (SeedStreamFixedKeyAes128_fill (poplar1_prim V)),
     inner_node_value_parameter = (), leaf_node_value_parameter = () \<rparr>"

text \<open>The conversions of output shares to either type of value panic on the other.\<close>

fun from_inner_share :: "('a, 'b) idpf_output_share \<Rightarrow> ('a, 'e) outcome" where
  "from_inner_share (InnerShare v) = Ok v"
| "from_inner_share (LeafShare v) = Panic"

fun from_leaf_share :: "('a, 'b) idpf_output_share \<Rightarrow> ('b, 'e) outcome" where
  "from_leaf_share (InnerShare v) = Panic"
| "from_leaf_share (LeafShare v) = Ok v"

section \<open>Data\<close>

type_synonym 'g poplar1_public_share = "(field64 \<times> field64, 'g \<times> 'g) idpf_public_share"

record 'g poplar1_input_share =
  idpf_key :: seed
  corr_seed :: seed
  corr_inner :: "(field64 \<times> field64) list"
  corr_leaf :: "'g \<times> 'g"

datatype 'f sketch_state = RoundOne (A_share: 'f) (B_share: 'f) (is_leader: bool) | RoundTwo

record 'f sketch_prepare_state =
  sketch :: "'f sketch_state"
  state_output_share :: "'f list"

datatype 'g prepare_state_variant = InnerState "field64 sketch_prepare_state" | LeafState "'g sketch_prepare_state"

datatype 'g prepare_message_variant = SketchInner "field64 \<times> field64 \<times> field64" | SketchLeaf "'g \<times> 'g \<times> 'g" | SketchDone

datatype 'g poplar1_field_vec = InnerVec "field64 list" | LeafVec "'g list"

definition field_vec_zero :: "bool \<Rightarrow> nat \<Rightarrow> 'g::comm_ring_1 poplar1_field_vec" where
  "field_vec_zero is_leaf len = (if is_leaf then LeafVec (replicate len 0) else InnerVec (replicate len 0))"

fun field_vec_merge :: "'g::comm_ring_1 poplar1_field_vec \<Rightarrow> 'g poplar1_field_vec \<Rightarrow> ('g poplar1_field_vec, vdaf_error) outcome" where
  "field_vec_merge (InnerVec l) (InnerVec r) = and_then (map_err VdafField (merge_vector l r)) (\<lambda>v. Ok (InnerVec v))"
| "field_vec_merge (LeafVec l) (LeafVec r) = and_then (map_err VdafField (merge_vector l r)) (\<lambda>v. Ok (LeafVec v))"
| "field_vec_merge _ _ = Err Uncategorized"

fun field_vec_accumulate :: "'g::comm_ring_1 poplar1_field_vec \<Rightarrow> 'g poplar1_field_vec \<Rightarrow> ('g poplar1_field_vec, vdaf_error) outcome" where
  "field_vec_accumulate (InnerVec l) (InnerVec r) = and_then (map_err VdafField (merge_vector l r)) (\<lambda>v. Ok (InnerVec v))"
| "field_vec_accumulate (LeafVec l) (LeafVec r) = and_then (map_err VdafField (merge_vector l r)) (\<lambda>v. Ok (LeafVec v))"
| "field_vec_accumulate _ _ = Err Uncategorized"

section \<open>Aggregation parameters\<close>

record poplar1_aggregation_param =
  agg_level :: u16
  agg_prefixes :: "idpf_input list"

text \<open>Bit strings are compared lexicographically.\<close>

fun input_less_eq :: "idpf_input \<Rightarrow> idpf_input \<Rightarrow> bool" where
  "input_less_eq [] ys \<longleftrightarrow> True"
| "input_less_eq (x # xs) [] \<longleftrightarrow> False"
| "input_less_eq (x # xs) (y # ys) \<longleftrightarrow> (if x = y then input_less_eq xs ys else y)"

text \<open>The body of the loop over the prefixes, whose state is the previous prefix.\<close>

definition prefix_step :: "nat \<Rightarrow> idpf_input \<Rightarrow> idpf_input option \<Rightarrow> (idpf_input option, vdaf_error) outcome" where
  "prefix_step len pfx last_prefix =
     (if length pfx \<noteq> len then Err Uncategorized
      else case last_prefix of
             Some prev \<Rightarrow>
               if input_less_eq pfx prev then (if pfx = prev then Err Uncategorized else Err Uncategorized)
               else Ok (Some pfx)
           | None \<Rightarrow> Ok (Some pfx))"

definition try_from_prefixes :: "idpf_input list \<Rightarrow> (poplar1_aggregation_param, vdaf_error) outcome" where
  "try_from_prefixes pfxs =
     (if pfxs = [] then Err Uncategorized
      else if 2 ^ 32 \<le> length pfxs then Err Uncategorized
      else
        let len = length (pfxs ! 0) in
        and_then (for_each (prefix_step len) pfxs None) (\<lambda>_.
        if len < 1 then Err Uncategorized
        else if 2 ^ 16 \<le> len - 1 then Err Uncategorized
        else Ok \<lparr>agg_level = of_nat (len - 1), agg_prefixes = pfxs\<rparr>))"

definition agg_param_encode :: "poplar1_aggregation_param encoder" where
  "agg_param_encode p bs =
     (if 2 ^ 32 \<le> length (agg_prefixes p) then Panic
      else
        and_then (u16_encode (agg_level p) bs) (\<lambda>bs.
        and_then (u32_encode (of_nat (length (agg_prefixes p))) bs) (\<lambda>bs.
          Ok (bs @ rev (pack_lsb0 (concat (map rev (agg_prefixes p))))))))"

text \<open>The first byte that was read holds the highest bits.\<close>

definition agg_param_decode :: "(nat \<Rightarrow> nat decoder) \<Rightarrow> poplar1_aggregation_param decoder" where
  "agg_param_decode rd c =
     and_then (u16_decode rd c) (\<lambda>(level, c).
     and_then (u32_decode rd c) (\<lambda>(prefix_count, c).
     let packed_bit_count = (unat level + 1) * unat prefix_count in
     and_then (read_exact ((packed_bit_count + 7) div 8) c) (\<lambda>(packed, c).
       if packed_bit_count mod 8 \<noteq> 0 \<and> drop_bit (packed_bit_count mod 8) (packed ! 0) \<noteq> 0 then Err UnexpectedValue
       else
         let pfxs = map rev (take (unat prefix_count) (chunks_exact (unat level + 1) (unpack_lsb0 (rev packed))))
         in and_then (map_err (\<lambda>_. Other BoxedVdaf) (try_from_prefixes pfxs)) (\<lambda>p. Ok (p, c)))))"

section \<open>Sharding\<close>

text \<open>The shares of the offsets are drawn in turn; the results are those of the first and the second aggregator.\<close>

definition compute_next_corr_shares ::
  "'f::comm_ring_1 field_element \<Rightarrow> ('s, 'e) rng \<Rightarrow> 's prng \<Rightarrow> 's prng \<Rightarrow> 's prng \<Rightarrow> 'f \<Rightarrow>
   ((('f \<times> 'f) \<times> ('f \<times> 'f)) \<times> 's prng \<times> 's prng \<times> 's prng, 'e) outcome" where
  "compute_next_corr_shares F fill prng corr_prng_0 corr_prng_1 auth =
     (let two = from_integer F 2 in
      and_then (returned (prng_get F fill corr_prng_0)) (\<lambda>(a0, corr_prng_0).
      and_then (returned (prng_get F fill corr_prng_1)) (\<lambda>(a1, corr_prng_1).
      and_then (returned (prng_get F fill corr_prng_0)) (\<lambda>(b0, corr_prng_0).
      and_then (returned (prng_get F fill corr_prng_1)) (\<lambda>(b1, corr_prng_1).
      and_then (returned (prng_get F fill corr_prng_0)) (\<lambda>(c0, corr_prng_0).
      and_then (returned (prng_get F fill corr_prng_1)) (\<lambda>(c1, corr_prng_1).
      let a = a0 + a1; b = b0 + b1; c = c0 + c1;
          A = - two * a + auth;
          B = a * a + b - a * auth + c
      in and_then (returned (prng_get F fill prng)) (\<lambda>(x, prng).
         and_then (returned (prng_get F fill prng)) (\<lambda>(y, prng).
           Ok (((A - x, B - y), (x, y)), prng, corr_prng_0, corr_prng_1))))))))))"

text \<open>The body of the loop over the inner levels.\<close>

definition corr_step ::
  "'f::comm_ring_1 field_element \<Rightarrow> ('s, 'e) rng \<Rightarrow> 'f \<Rightarrow> ('f \<times> 'f) list \<times> ('f \<times> 'f) list \<times> 's prng \<times> 's prng \<times> 's prng \<Rightarrow>
   (('f \<times> 'f) list \<times> ('f \<times> 'f) list \<times> 's prng \<times> 's prng \<times> 's prng, 'e) outcome" where
  "corr_step F fill auth = (\<lambda>(corr_inner_0, corr_inner_1, prng, corr_prng_0, corr_prng_1).
     and_then (compute_next_corr_shares F fill prng corr_prng_0 corr_prng_1 auth)
       (\<lambda>((c0, c1), prng, corr_prng_0, corr_prng_1).
         Ok (corr_inner_0 @ [c0], corr_inner_1 @ [c1], prng, corr_prng_0, corr_prng_1)))"

definition poplar1_shard_with_random ::
  "('g::comm_ring_1, 'x, 's) poplar1 \<Rightarrow> idpf_input \<Rightarrow> bytes \<Rightarrow> seed \<times> seed \<Rightarrow> seed \<times> seed \<times> seed \<Rightarrow>
   ('g poplar1_public_share \<times> 'g poplar1_input_share list, vdaf_error) outcome" where
  "poplar1_shard_with_random V input nonce idpf_random = (\<lambda>(corr_seed_0, corr_seed_1, shard_seed).
     let fill = poplar1_fill V; FL = leaf_field V in
     if length input \<noteq> poplar1_bits V then Err Uncategorized
     else
       and_then (init_prng V Field64 shard_seed DST_SHARD_RANDOMNESS [nonce]) (\<lambda>prng.
       if poplar1_bits V = 0 then Panic
       else
         and_then (prng_gets Field64 fill (poplar1_bits V - 1) prng) (\<lambda>(auth_inner, prng).
         and_then (returned (prng_get FL fill (into_new_field prng))) (\<lambda>(auth_leaf, prng).
         and_then (map_err VdafIdpf (gen_with_random (poplar1_prim V) (poplar1_idpf V) input
             (map (\<lambda>auth. (1, auth)) auth_inner) (1, auth_leaf) nonce idpf_random)) (\<lambda>(public_share, idpf_key_0, idpf_key_1).
         and_then (init_prng V Field64 corr_seed_0 DST_CORR_INNER [[0], nonce]) (\<lambda>corr_prng_0.
         and_then (init_prng V Field64 corr_seed_1 DST_CORR_INNER [[1], nonce]) (\<lambda>corr_prng_1.
         and_then (for_each (corr_step Field64 fill) auth_inner ([], [], into_new_field prng, corr_prng_0, corr_prng_1))
           (\<lambda>(corr_inner_0, corr_inner_1, prng, _, _).
         and_then (init_prng V FL corr_seed_0 DST_CORR_LEAF [[0], nonce]) (\<lambda>corr_prng_0.
         and_then (init_prng V FL corr_seed_1 DST_CORR_LEAF [[1], nonce]) (\<lambda>corr_prng_1.
         and_then (compute_next_corr_shares FL fill (into_new_field prng) corr_prng_0 corr_prng_1 auth_leaf)
           (\<lambda>((corr_leaf_0, corr_leaf_1), _).
             Ok (public_share,
                 [\<lparr>idpf_key = idpf_key_0, corr_seed = corr_seed_0, corr_inner = corr_inner_0, corr_leaf = corr_leaf_0\<rparr>,
                  \<lparr>idpf_key = idpf_key_1, corr_seed = corr_seed_1, corr_inner = corr_inner_1, corr_leaf = corr_leaf_1\<rparr>]))))))))))))"

text \<open>\<open>getrandom\<close> yields the five seeds or fails.\<close>

definition poplar1_shard ::
  "((seed \<times> seed) \<times> seed \<times> seed \<times> seed) option \<Rightarrow> ('g::comm_ring_1, 'x, 's) poplar1 \<Rightarrow> idpf_input \<Rightarrow> bytes \<Rightarrow>
   ('g poplar1_public_share \<times> 'g poplar1_input_share list, vdaf_error) outcome" where
  "poplar1_shard getrandom V input nonce =
     (case getrandom of
        None \<Rightarrow> Err VdafGetRandom
      | Some (idpf_random, poplar_random) \<Rightarrow> poplar1_shard_with_random V input nonce idpf_random poplar_random)"

section \<open>Preparation\<close>

text \<open>The state of the loop over the prefixes is the cache, the generator, the output share and the sketch share.\<close>

definition sketch_step ::
  "('g::comm_ring_1, 'x, 's) poplar1 \<Rightarrow> 'f::comm_ring_1 field_element \<Rightarrow>
   ((field64 \<times> field64, 'g \<times> 'g) idpf_output_share \<Rightarrow> ('f \<times> 'f, vdaf_error) outcome) \<Rightarrow> nat \<Rightarrow> bytes \<Rightarrow>
   'g poplar1_public_share \<Rightarrow> seed \<Rightarrow> idpf_input \<Rightarrow> ring_buffer \<times> 's prng \<times> 'f list \<times> 'f \<times> 'f \<times> 'f \<Rightarrow>
   (ring_buffer \<times> 's prng \<times> 'f list \<times> 'f \<times> 'f \<times> 'f, vdaf_error) outcome" where
  "sketch_step V F from_share agg_id nonce public_share key pfx = (\<lambda>(cache, verify_prng, out_share, s0, s1, s2).
     and_then (map_err VdafIdpf (idpf_eval (poplar1_prim V) (poplar1_idpf V) agg_id public_share key pfx nonce RingBufferCache cache))
       (\<lambda>(out, cache).
     and_then (from_share out) (\<lambda>share.
     and_then (returned (prng_get F (poplar1_fill V) verify_prng)) (\<lambda>(r, verify_prng).
       let checked_data_share = fst share * r in
       Ok (cache, verify_prng, out_share @ [fst share],
           s0 + checked_data_share, s1 + checked_data_share * r, s2 + snd share * r)))))"

definition eval_and_sketch ::
  "('g::comm_ring_1, 'x, 's) poplar1 \<Rightarrow> 'f::comm_ring_1 field_element \<Rightarrow>
   ((field64 \<times> field64, 'g \<times> 'g) idpf_output_share \<Rightarrow> ('f \<times> 'f, vdaf_error) outcome) \<Rightarrow> bytes \<Rightarrow> nat \<Rightarrow> bytes \<Rightarrow>
   poplar1_aggregation_param \<Rightarrow> 'g poplar1_public_share \<Rightarrow> seed \<Rightarrow> 's prng \<Rightarrow> ('f list \<times> 'f list, vdaf_error) outcome" where
  "eval_and_sketch V F from_share verify_key agg_id nonce agg_param public_share key corr_prng =
     and_then (init_prng V F verify_key DST_VERIFY_RANDOMNESS [nonce, be_bytes 2 (unat (agg_level agg_param))]) (\<lambda>verify_prng.
     and_then (returned (prng_get F (poplar1_fill V) corr_prng)) (\<lambda>(a_share, corr_prng).
     and_then (returned (prng_get F (poplar1_fill V) corr_prng)) (\<lambda>(b_share, corr_prng).
     and_then (returned (prng_get F (poplar1_fill V) corr_prng)) (\<lambda>(c_share, corr_prng).
     and_then (for_each (sketch_step V F from_share agg_id nonce public_share key) (agg_prefixes agg_param)
         (RingBufferCache_new (length (agg_prefixes agg_param)), verify_prng, [], a_share, b_share, c_share))
       (\<lambda>(_, _, out_share, s0, s1, s2). Ok (out_share, [s0, s1, s2]))))))"

text \<open>The product of three and the 16-bit level panics when it overflows, as does an index out of range.\<close>

definition poplar1_prepare_init ::
  "('g::comm_ring_1, 'x, 's) poplar1 \<Rightarrow> bytes \<Rightarrow> nat \<Rightarrow> poplar1_aggregation_param \<Rightarrow> bytes \<Rightarrow> 'g poplar1_public_share \<Rightarrow>
   'g poplar1_input_share \<Rightarrow> ('g prepare_state_variant \<times> 'g poplar1_field_vec, vdaf_error) outcome" where
  "poplar1_prepare_init V verify_key agg_id agg_param nonce public_share input_share =
     (if 1 < agg_id then Err Uncategorized
      else if poplar1_bits V = 0 then Panic
      else if unat (agg_level agg_param) < poplar1_bits V - 1 then
        and_then (init_prng V Field64 (corr_seed input_share) DST_CORR_INNER [[of_nat agg_id], nonce]) (\<lambda>corr_prng.
        if 2 ^ 16 \<le> 3 * unat (agg_level agg_param) then Panic
        else
          and_then (prng_gets Field64 (poplar1_fill V) (3 * unat (agg_level agg_param)) corr_prng) (\<lambda>(_, corr_prng).
          and_then (eval_and_sketch V Field64 from_inner_share verify_key agg_id nonce agg_param public_share
              (idpf_key input_share) corr_prng) (\<lambda>(output_share, sketch_share).
          if length (corr_inner input_share) \<le> unat (agg_level agg_param) then Panic
          else
            let corr = corr_inner input_share ! unat (agg_level agg_param) in
            Ok (InnerState \<lparr>sketch = RoundOne (fst corr) (snd corr) (agg_id = 0), state_output_share = output_share\<rparr>,
                InnerVec sketch_share))))
      else
        and_then (init_prng V (leaf_field V) (corr_seed input_share) DST_CORR_LEAF [[of_nat agg_id], nonce]) (\<lambda>corr_prng.
        and_then (eval_and_sketch V (leaf_field V) from_leaf_share verify_key agg_id nonce agg_param public_share
            (idpf_key input_share) (into_new_field corr_prng)) (\<lambda>(output_share, sketch_share).
          let corr = corr_leaf input_share in
          Ok (LeafState \<lparr>sketch = RoundOne (fst corr) (snd corr) (agg_id = 0), state_output_share = output_share\<rparr>,
              LeafVec sketch_share))))"

definition next_message :: "'f::comm_ring_1 list \<Rightarrow> 'f list \<Rightarrow> (('f \<times> 'f \<times> 'f) option, vdaf_error) outcome" where
  "next_message share_0 share_1 =
     and_then (map_err VdafField (merge_vector share_0 share_1)) (\<lambda>s.
       if length s = 1 then (if s ! 0 \<noteq> 0 then Err Uncategorized else Ok None)
       else if length s = 3 then Ok (Some (s ! 0, s ! 1, s ! 2))
       else Err Uncategorized)"

definition message_of :: "('a \<Rightarrow> 'g prepare_message_variant) \<Rightarrow> 'a option \<Rightarrow> 'g prepare_message_variant" where
  "message_of sketch_of m = (case m of None \<Rightarrow> SketchDone | Some s \<Rightarrow> sketch_of s)"

definition poplar1_prepare_shares_to_prepare_message ::
  "'g::comm_ring_1 poplar1_field_vec list \<Rightarrow> ('g prepare_message_variant, vdaf_error) outcome" where
  "poplar1_prepare_shares_to_prepare_message inputs =
     (case inputs of
        [prep_share_0, prep_share_1] \<Rightarrow>
          (case (prep_share_0, prep_share_1) of
             (InnerVec share_0, InnerVec share_1) \<Rightarrow> and_then (next_message share_0 share_1) (\<lambda>m. Ok (message_of SketchInner m))
           | (LeafVec share_0, LeafVec share_1) \<Rightarrow> and_then (next_message share_0 share_1) (\<lambda>m. Ok (message_of SketchLeaf m))
           | _ \<Rightarrow> Err Uncategorized)
      | _ \<Rightarrow> Err Uncategorized)"

definition finish_sketch :: "'f::comm_ring_1 \<times> 'f \<times> 'f \<Rightarrow> 'f \<Rightarrow> 'f \<Rightarrow> bool \<Rightarrow> 'f list" where
  "finish_sketch = (\<lambda>(s0, s1, s2) A B leader.
     let next_sketch_share = A * s0 + B
     in [if \<not> leader then next_sketch_share + (s0 * s0 - s1 - s2) else next_sketch_share])"

definition poplar1_prepare_next ::
  "'g::comm_ring_1 prepare_state_variant \<Rightarrow> 'g prepare_message_variant \<Rightarrow>
   (('g prepare_state_variant, 'g poplar1_field_vec, 'g poplar1_field_vec) prepare_transition, vdaf_error) outcome" where
  "poplar1_prepare_next st msg =
     (case (st, msg) of
        (InnerState s, SketchInner m) \<Rightarrow>
          (case sketch s of
             RoundOne A B leader \<Rightarrow>
               Ok (Continue (InnerState (s\<lparr>sketch := RoundTwo\<rparr>)) (InnerVec (finish_sketch m A B leader)))
           | RoundTwo \<Rightarrow> Err Uncategorized)
      | (LeafState s, SketchLeaf m) \<Rightarrow>
          (case sketch s of
             RoundOne A B leader \<Rightarrow>
               Ok (Continue (LeafState (s\<lparr>sketch := RoundTwo\<rparr>)) (LeafVec (finish_sketch m A B leader)))
           | RoundTwo \<Rightarrow> Err Uncategorized)
      | (InnerState s, SketchDone) \<Rightarrow>
          (case sketch s of RoundTwo \<Rightarrow> Ok (Finish (InnerVec (state_output_share s))) | _ \<Rightarrow> Err Uncategorized)
      | (LeafState s, SketchDone) \<Rightarrow>
          (case sketch s of RoundTwo \<Rightarrow> Ok (Finish (LeafVec (state_output_share s))) | _ \<Rightarrow> Err Uncategorized)
      | _ \<Rightarrow> Err Uncategorized)"

section \<open>Aggregation and collection\<close>

definition poplar1_aggregate_shares :: "bool \<Rightarrow> nat \<Rightarrow> 'g::comm_ring_1 poplar1_field_vec list \<Rightarrow> ('g poplar1_field_vec, vdaf_error) outcome" where
  "poplar1_aggregate_shares is_leaf len shares =
     for_each (\<lambda>share result. field_vec_accumulate result share) shares (field_vec_zero is_leaf len)"

definition poplar1_aggregate ::
  "('g::comm_ring_1, 'x, 's) poplar1 \<Rightarrow> poplar1_aggregation_param \<Rightarrow> 'g poplar1_field_vec list \<Rightarrow> ('g poplar1_field_vec, vdaf_error) outcome" where
  "poplar1_aggregate V agg_param output_shares =
     (if poplar1_bits V = 0 then Panic
      else poplar1_aggregate_shares (unat (agg_level agg_param) = poplar1_bits V - 1) (length (agg_prefixes agg_param)) output_shares)"

definition poplar1_unshard ::
  "('g::comm_ring_1, 'x, 's) poplar1 \<Rightarrow> poplar1_aggregation_param \<Rightarrow> 'g poplar1_field_vec list \<Rightarrow> nat \<Rightarrow> (nat list, vdaf_error) outcome" where
  "poplar1_unshard V agg_param agg_shares num_measurements =
     (if poplar1_bits V = 0 then Panic
      else
        and_then (poplar1_aggregate_shares (unat (agg_level agg_param) = poplar1_bits V - 1) (length (agg_prefixes agg_param)) agg_shares)
          (\<lambda>result. case result of
             InnerVec v \<Rightarrow> Ok (map (to_integer Field64) v)
           | LeafVec v \<Rightarrow> for_each (\<lambda>x acc. and_then (map_err VdafField (leaf_to_u64 V x)) (\<lambda>n. Ok (acc @ [n]))) v []))"

section \<open>Wire format\<close>

definition poplar1_public_share_decode :: "('g, 'x, 's) poplar1 \<Rightarrow> 'g poplar1_public_share decoder" where
  "poplar1_public_share_decode V c =
     Idpf.public_share_decode (poplar1_value_decode Field64) (poplar1_value_decode (leaf_field V)) (poplar1_bits V) c"

definition poplar1_input_share_encode :: "('g, 'x, 's) poplar1 \<Rightarrow> 'g poplar1_input_share encoder" where
  "poplar1_input_share_encode V share bs =
     and_then (seed_encode (idpf_key share) bs) (\<lambda>bs.
     and_then (seed_encode (corr_seed share) bs) (\<lambda>bs.
     and_then (for_each (\<lambda>corr bs. and_then (field_encode Field64 (fst corr) bs) (field_encode Field64 (snd corr))) (corr_inner share) bs) (\<lambda>bs.
     and_then (field_encode (leaf_field V) (fst (corr_leaf share)) bs) (field_encode (leaf_field V) (snd (corr_leaf share))))))"

definition poplar1_input_share_decode :: "('g, 'x, 's) poplar1 \<Rightarrow> nat \<Rightarrow> 'g poplar1_input_share decoder" where
  "poplar1_input_share_decode V agg_id c =
     and_then (seed_decode 16 c) (\<lambda>(key, c).
     and_then (seed_decode (SEED_SIZE (poplar1_xof V)) c) (\<lambda>(cs, c).
     if poplar1_bits V = 0 then Panic
     else
       and_then (decode_count (poplar1_value_decode Field64) (poplar1_bits V - 1) c) (\<lambda>(inner, c).
       and_then (field_decode (leaf_field V) c) (\<lambda>(x, c).
       and_then (field_decode (leaf_field V) c) (\<lambda>(y, c).
         Ok (\<lparr>idpf_key = key, corr_seed = cs, corr_inner = inner, corr_leaf = (x, y)\<rparr>, c))))))"

definition sketch_state_encode :: "'f field_element \<Rightarrow> 'f sketch_state encoder" where
  "sketch_state_encode F st bs =
     (case st of
        RoundOne A B _ \<Rightarrow> and_then (u8_encode 0 bs) (\<lambda>bs. and_then (field_encode F A bs) (field_encode F B))
      | RoundTwo \<Rightarrow> u8_encode 1 bs)"

definition sketch_state_decode :: "'f field_element \<Rightarrow> nat \<Rightarrow> 'f sketch_state decoder" where
  "sketch_state_decode F agg_id c =
     and_then (u8_decode c) (\<lambda>(t, c).
       if t = 0 then
         and_then (field_decode F c) (\<lambda>(A, c). and_then (field_decode F c) (\<lambda>(B, c). Ok (RoundOne A B (agg_id = 0), c)))
       else if t = 1 then Ok (RoundTwo, c)
       else Err UnexpectedValue)"

definition sketch_prepare_state_encode :: "'f field_element \<Rightarrow> 'f sketch_prepare_state encoder" where
  "sketch_prepare_state_encode F st bs =
     and_then (sketch_state_encode F (sketch st) bs) (\<lambda>bs.
     if 2 ^ 32 \<le> length (state_output_share st) then Panic
     else
       and_then (u32_encode (of_nat (length (state_output_share st))) bs) (for_each (field_encode F) (state_output_share st)))"

definition sketch_prepare_state_decode :: "(nat \<Rightarrow> nat decoder) \<Rightarrow> 'f field_element \<Rightarrow> nat \<Rightarrow> 'f sketch_prepare_state decoder" where
  "sketch_prepare_state_decode rd F agg_id c =
     and_then (sketch_state_decode F agg_id c) (\<lambda>(sk, c).
     and_then (u32_decode rd c) (\<lambda>(n, c).
     and_then (decode_count (field_decode F) (unat n) c) (\<lambda>(out, c).
       Ok (\<lparr>sketch = sk, state_output_share = out\<rparr>, c))))"

definition poplar1_prepare_state_encode :: "('g, 'x, 's) poplar1 \<Rightarrow> 'g prepare_state_variant encoder" where
  "poplar1_prepare_state_encode V st bs =
     (case st of
        InnerState s \<Rightarrow> and_then (u8_encode 0 bs) (sketch_prepare_state_encode Field64 s)
      | LeafState s \<Rightarrow> and_then (u8_encode 1 bs) (sketch_prepare_state_encode (leaf_field V) s))"

definition poplar1_prepare_state_decode :: "(nat \<Rightarrow> nat decoder) \<Rightarrow> ('g, 'x, 's) poplar1 \<Rightarrow> nat \<Rightarrow> 'g prepare_state_variant decoder" where
  "poplar1_prepare_state_decode rd V agg_id c =
     and_then (u8_decode c) (\<lambda>(t, c).
       if t = 0 then and_then (sketch_prepare_state_decode rd Field64 agg_id c) (\<lambda>(s, c). Ok (InnerState s, c))
       else if t = 1 then and_then (sketch_prepare_state_decode rd (leaf_field V) agg_id c) (\<lambda>(s, c). Ok (LeafState s, c))
       else Err UnexpectedValue)"

definition decode_sketch_share :: "'f field_element \<Rightarrow> 'f sketch_state \<Rightarrow> 'f list decoder" where
  "decode_sketch_share F st c = (case st of RoundOne _ _ _ \<Rightarrow> decode_count (field_decode F) 3 c | RoundTwo \<Rightarrow> decode_count (field_decode F) 1 c)"

definition decode_sketch :: "'f field_element \<Rightarrow> 'f sketch_state \<Rightarrow> ('f \<times> 'f \<times> 'f) option decoder" where
  "decode_sketch F st c =
     (case st of
        RoundOne _ _ _ \<Rightarrow>
          and_then (field_decode F c) (\<lambda>(x, c). and_then (field_decode F c) (\<lambda>(y, c). and_then (field_decode F c) (\<lambda>(z, c).
            Ok (Some (x, y, z), c))))
      | RoundTwo \<Rightarrow> Ok (None, c))"

definition poplar1_message_encode :: "('g, 'x, 's) poplar1 \<Rightarrow> 'g prepare_message_variant encoder" where
  "poplar1_message_encode V msg bs =
     (case msg of
        SketchInner (x, y, z) \<Rightarrow> and_then (field_encode Field64 x bs) (\<lambda>bs. and_then (field_encode Field64 y bs) (field_encode Field64 z))
      | SketchLeaf (x, y, z) \<Rightarrow>
          and_then (field_encode (leaf_field V) x bs) (\<lambda>bs. and_then (field_encode (leaf_field V) y bs) (field_encode (leaf_field V) z))
      | SketchDone \<Rightarrow> Ok bs)"

definition poplar1_message_decode :: "('g, 'x, 's) poplar1 \<Rightarrow> 'g prepare_state_variant \<Rightarrow> 'g prepare_message_variant decoder" where
  "poplar1_message_decode V st c =
     (case st of
        InnerState s \<Rightarrow> and_then (decode_sketch Field64 (sketch s) c) (\<lambda>(m, c). Ok (message_of SketchInner m, c))
      | LeafState s \<Rightarrow> and_then (decode_sketch (leaf_field V) (sketch s) c) (\<lambda>(m, c). Ok (message_of SketchLeaf m, c)))"

definition field_vec_encode :: "('g, 'x, 's) poplar1 \<Rightarrow> 'g poplar1_field_vec encoder" where
  "field_vec_encode V v bs =
     (case v of
        InnerVec data \<Rightarrow> for_each (field_encode Field64) data bs
      | LeafVec data \<Rightarrow> for_each (field_encode (leaf_field V)) data bs)"

definition field_vec_decode :: "('g, 'x, 's) poplar1 \<Rightarrow> poplar1_aggregation_param \<Rightarrow> 'g poplar1_field_vec decoder" where
  "field_vec_decode V agg_param c =
     (if poplar1_bits V = 0 then Panic
      else if unat (agg_level agg_param) = poplar1_bits V - 1
      then and_then (decode_fieldvec (leaf_field V) (length (agg_prefixes agg_param)) c) (\<lambda>(v, c). Ok (LeafVec v, c))
      else and_then (decode_fieldvec Field64 (length (agg_prefixes agg_param)) c) (\<lambda>(v, c). Ok (InnerVec v, c)))"

definition sketch_vec_decode :: "('g, 'x, 's) poplar1 \<Rightarrow> 'g prepare_state_variant \<Rightarrow> 'g poplar1_field_vec decoder" where
  "sketch_vec_decode V st c =
     (case st of
        InnerState s \<Rightarrow> and_then (decode_sketch_share Field64 (sketch s) c) (\<lambda>(v, c). Ok (InnerVec v, c))
      | LeafState s \<Rightarrow> and_then (decode_sketch_share (leaf_field V) (sketch s) c) (\<lambda>(v, c). Ok (LeafVec v, c)))"

section \<open>The aggregator\<close>

definition poplar1_aggregator ::
  "('g::comm_ring_1, 'x, 's) poplar1 \<Rightarrow>
   (poplar1_aggregation_param, 'g poplar1_public_share, 'g poplar1_input_share, 'g prepare_state_variant, 'g poplar1_field_vec,
    'g prepare_message_variant, 'g poplar1_field_vec) aggregator" where
  "poplar1_aggregator V = \<lparr>
     prepare_init = poplar1_prepare_init V,
     prepare_shares_to_prepare_message = (\<lambda>_. poplar1_prepare_shares_to_prepare_message),
     prepare_next = poplar1_prepare_next,
     prep_share_encode = field_vec_encode V,
     prep_share_decode = sketch_vec_decode V,
     prep_msg_encode = poplar1_message_encode V,
     prep_msg_decode = poplar1_message_decode V \<rparr>"

end
