(* ===== verification/Poplar1Correct.thy ===== *)
theory Poplar1Correct
  imports Poplar1
begin

text \<open>
  Correctness of Poplar1: on the report of an honest client the two rounds of the sketch succeed, and the output shares add
  up, for every candidate prefix, to one if the measurement begins with it and to zero otherwise.
\<close>

section \<open>Values\<close>

interpretation poplar1_values: idpf_values "poplar1_value F fill" "()" "\<lambda>_. True" "\<lambda>v i. if i = 0 then fst v else snd v"
  for F :: "'f::comm_ring_1 field_element" and fill :: "(fixed_key_stream, 'e) rng"
proof unfold_locales
  fix a b :: "'f \<times> 'f"
  assume eq: "\<And>i. (if i = 0 then fst a else snd a) = (if i = (0 :: nat) then fst b else snd b)"
  from eq [of 0] eq [of 1] show "a = b" by (simp add: prod_eq_iff)
qed (auto simp: poplar1_value_def select_def)

interpretation poplar1_scheme: idpf_scheme "poplar1_idpf V" "\<lambda>_. True" "\<lambda>v i. if i = 0 then fst v else snd v"
    "\<lambda>_. True" "\<lambda>v i. if i = 0 then fst v else snd v" for V
  unfolding poplar1_idpf_def idpf_scheme_def by (simp add: poplar1_values.idpf_values_axioms)

section \<open>Draws\<close>

lemma prng_gets_add:
  "prng_gets F fill (m + n) g =
     and_then (prng_gets F fill m g) (\<lambda>(xs, g). and_then (prng_gets F fill n g) (\<lambda>(ys, g). Ok (xs @ ys, g)))"
proof (induction m arbitrary: g)
  case 0
  show ?case by (cases "prng_gets F fill n g") auto
qed (auto simp: and_then_assoc case_prod_unfold intro!: and_then_cong)

lemma prng_gets_length: "prng_gets F fill n g = Ok (xs, g') \<Longrightarrow> length xs = n"
  by (induction n arbitrary: g xs) auto

lemma prng_gets_three:
  "prng_gets F fill 3 g = Ok ([a, b, c], g') \<longleftrightarrow>
    (\<exists>g1 g2. returned (prng_get F fill g) = Ok (a, g1) \<and> returned (prng_get F fill g1) = Ok (b, g2) \<and>
      returned (prng_get F fill g2) = Ok (c, g'))"
  by (auto simp: numeral_3_eq_3)

text \<open>The correlated randomness of a level, and the generators of the two aggregators after a number of levels.\<close>

definition corr_shares ::
  "'f::comm_ring_1 field_element \<Rightarrow> ('s, 'e) rng \<Rightarrow> 's prng \<Rightarrow> 's prng \<Rightarrow> 'f \<Rightarrow> 'f \<times> 'f \<Rightarrow> 'f \<times> 'f \<Rightarrow> bool" where
  "corr_shares F fill g0 g1 auth x0 x1 \<longleftrightarrow>
     (\<exists>a0 b0 c0 a1 b1 c1 h0 h1. prng_gets F fill 3 g0 = Ok ([a0, b0, c0], h0) \<and> prng_gets F fill 3 g1 = Ok ([a1, b1, c1], h1) \<and>
       (let a = a0 + a1; b = b0 + b1; c = c0 + c1 in
        fst x0 + fst x1 = - from_integer F 2 * a + auth \<and> snd x0 + snd x1 = a * a + b - a * auth + c))"

lemma compute_next_corr_shares_Ok:
  assumes "compute_next_corr_shares F fill g g0 g1 auth = Ok ((x0, x1), g', g0', g1')"
  shows "corr_shares F fill g0 g1 auth x0 x1" "\<exists>xs. prng_gets F fill 3 g0 = Ok (xs, g0')" "\<exists>xs. prng_gets F fill 3 g1 = Ok (xs, g1')"
  using assms unfolding corr_shares_def prng_gets_three
  by (auto simp: compute_next_corr_shares_def Let_def numeral_3_eq_3 algebra_simps) blast?

lemma corr_step_eq:
  "corr_step F fill auth (xs0, xs1, g, g0, g1) =
     and_then (compute_next_corr_shares F fill g g0 g1 auth) (\<lambda>((x0, x1), g, g0, g1). Ok (xs0 @ [x0], xs1 @ [x1], g, g0, g1))"
  by (simp add: corr_step_def)

lemma corr_inner_loop:
  assumes "for_each (corr_step F fill) auths (xs0, xs1, g, g0, g1) = Ok (ys0, ys1, g', g0', g1')" and "length xs0 = length xs1"
  shows "\<exists>zs0 zs1. ys0 = xs0 @ zs0 \<and> ys1 = xs1 @ zs1 \<and> length zs0 = length auths \<and> length zs1 = length auths \<and>
    (\<forall>l < length auths. \<exists>us0 us1 h0 h1. prng_gets F fill (3 * l) g0 = Ok (us0, h0) \<and> prng_gets F fill (3 * l) g1 = Ok (us1, h1) \<and>
      corr_shares F fill h0 h1 (auths ! l) (zs0 ! l) (zs1 ! l))"
  using assms
proof (induction auths arbitrary: xs0 xs1 g g0 g1)
  case (Cons auth auths)
  from Cons.prems obtain x0 x1 h h0 h1 where
    step: "compute_next_corr_shares F fill g g0 g1 auth = Ok ((x0, x1), h, h0, h1)"
    and rest: "for_each (corr_step F fill) auths (xs0 @ [x0], xs1 @ [x1], h, h0, h1) = Ok (ys0, ys1, g', g0', g1')"
    by (auto simp: corr_step_eq)
  note now = compute_next_corr_shares_Ok [OF step]
  from Cons.IH [OF rest] Cons.prems(2) obtain zs0 zs1 where
    zs: "ys0 = xs0 @ x0 # zs0" "ys1 = xs1 @ x1 # zs1" "length zs0 = length auths" "length zs1 = length auths"
    and IH: "\<forall>l < length auths. \<exists>us0 us1 k0 k1. prng_gets F fill (3 * l) h0 = Ok (us0, k0) \<and> prng_gets F fill (3 * l) h1 = Ok (us1, k1) \<and>
      corr_shares F fill k0 k1 (auths ! l) (zs0 ! l) (zs1 ! l)" by auto
  have "\<exists>us0 us1 k0 k1. prng_gets F fill (3 * l) g0 = Ok (us0, k0) \<and> prng_gets F fill (3 * l) g1 = Ok (us1, k1) \<and>
      corr_shares F fill k0 k1 ((auth # auths) ! l) ((x0 # zs0) ! l) ((x1 # zs1) ! l)" if "l < Suc (length auths)" for l
  proof (cases l)
    case 0
    with now(1) show ?thesis by simp
  next
    case (Suc m)
    with that IH obtain us0 us1 k0 k1 where k: "prng_gets F fill (3 * m) h0 = Ok (us0, k0)" "prng_gets F fill (3 * m) h1 = Ok (us1, k1)"
      "corr_shares F fill k0 k1 (auths ! m) (zs0 ! m) (zs1 ! m)" by auto
    have "3 * l = 3 + 3 * m" using Suc by simp
    with now(2,3) k Suc show ?thesis unfolding \<open>3 * l = 3 + 3 * m\<close> prng_gets_add by auto
  qed
  with zs show ?case by (intro exI [of _ "x0 # zs0"] exI [of _ "x1 # zs1"]) auto
qed simp

section \<open>The sketch\<close>

text \<open>At most one of the prefixes is one of the input.\<close>

lemma sum_none:
  fixes rs :: "'f::comm_ring_1 list" and f :: "'f \<Rightarrow> 'f"
  shows "\<forall>p \<in> set pfxs. \<not> P p \<Longrightarrow> (\<Sum>(p, s)\<leftarrow>zip pfxs rs. of_bool (P p) * f s) = 0"
proof (induction pfxs arbitrary: rs)
  case (Cons p pfxs)
  then show ?case by (cases rs) auto
qed simp

lemma one_hot:
  fixes rs :: "'f::comm_ring_1 list"
  assumes "distinct pfxs" "\<forall>p \<in> set pfxs. length p = n" "length rs = length pfxs"
  shows "\<exists>r. (\<Sum>(p, s)\<leftarrow>zip pfxs rs. of_bool (prefix p inp) * s) = r \<and>
    (\<Sum>(p, s)\<leftarrow>zip pfxs rs. of_bool (prefix p inp) * (s * s)) = r * r"
  using assms
proof (induction pfxs arbitrary: rs)
  case (Cons p pfxs)
  then obtain s rs' where rs: "rs = s # rs'" by (cases rs) auto
  show ?case
  proof (cases "prefix p inp")
    case True
    have "\<not> prefix q inp" if "q \<in> set pfxs" for q
      using that True Cons.prems by (metis distinct.simps(2) list.set_intros prefix_iff_take)
    then have none: "\<forall>q \<in> set pfxs. \<not> prefix q inp" by blast
    from none sum_none [OF none, where rs = rs' and f = "\<lambda>s. s"] sum_none [OF none, where rs = rs' and f = "\<lambda>s. s * s"] rs True show ?thesis by simp
  next
    case False
    with Cons rs show ?thesis by simp
  qed
qed simp

text \<open>The verifier of the second round is zero.\<close>

lemma sketch_verifies:
  fixes a b c r auth :: "'f::comm_ring_1"
  assumes "A = - 2 * a + auth" and "B = a * a + b - a * auth + c" and "z0 = a + r" and "z1 = b + r * r" and "z2 = c + auth * r"
  shows "A * z0 + B + (z0 * z0 - z1 - z2) = 0"
  unfolding assms by (simp add: algebra_simps)

definition node_share ::
  "('g::comm_ring_1, 'x, 's) poplar1 \<Rightarrow> ((field64 \<times> field64, 'g \<times> 'g) idpf_output_share \<Rightarrow> ('f \<times> 'f, vdaf_error) outcome) \<Rightarrow> nat \<Rightarrow>
   'g poplar1_public_share \<Rightarrow> bytes \<Rightarrow> bytes \<Rightarrow> seed \<Rightarrow> idpf_input \<Rightarrow> ('f \<times> 'f, vdaf_error) outcome" where
  "node_share V from_share agg_id pub ek ck key pfx =
     and_then (map_err VdafIdpf (eval_result (poplar1_prim V) (poplar1_idpf V) agg_id pub ek ck key pfx)) from_share"

lemma sketch_step_eq:
  "sketch_step V F from_share agg_id nonce pub key pfx (cache, g, out, s0, s1, s2) =
     and_then (map_err VdafIdpf (idpf_eval (poplar1_prim V) (poplar1_idpf V) agg_id pub key pfx nonce RingBufferCache cache)) (\<lambda>(x, cache).
     and_then (from_share x) (\<lambda>v.
     and_then (returned (prng_get F (poplar1_fill V) g)) (\<lambda>(r, g).
       Ok (cache, g, out @ [fst v], s0 + fst v * r, s1 + fst v * r * r, s2 + snd v * r))))"
  by (simp add: sketch_step_def Let_def)

lemma sketch_loop:
  assumes keys: "XofFixedKeyAes128Key_new (poplar1_prim V) extend_dst nonce = (Ok ek :: (bytes, idpf_error) outcome)"
    "XofFixedKeyAes128Key_new (poplar1_prim V) convert_dst nonce = (Ok ck :: (bytes, idpf_error) outcome)"
    and c: "RingBufferCache.consistent (poplar1_prim V) (poplar1_idpf V) (agg_id = 0) pub ek ck key cache"
  shows "(\<exists>cache'. for_each (sketch_step V F from_share agg_id nonce pub key) pfxs (cache, g, out, s0, s1, s2) = Ok (cache', g', out', t0, t1, t2)) \<longleftrightarrow>
    (\<exists>shares rs. map (node_share V from_share agg_id pub ek ck key) pfxs = map Ok shares \<and>
      prng_gets F (poplar1_fill V) (length pfxs) g = Ok (rs, g') \<and> out' = out @ map fst shares \<and>
      t0 = s0 + (\<Sum>(v, r)\<leftarrow>zip shares rs. fst v * r) \<and> t1 = s1 + (\<Sum>(v, r)\<leftarrow>zip shares rs. fst v * r * r) \<and>
      t2 = s2 + (\<Sum>(v, r)\<leftarrow>zip shares rs. snd v * r))"
  using c
proof (induction pfxs arbitrary: cache g out s0 s1 s2)
  case Nil
  show ?case by auto
next
  case (Cons pfx pfxs)
  let ?ev = "idpf_eval (poplar1_prim V) (poplar1_idpf V) agg_id pub key pfx nonce RingBufferCache cache"
  note tr = RingBufferCache.eval_transparent [OF keys Cons.prems]
  have ev: "eval_result (poplar1_prim V) (poplar1_idpf V) agg_id pub ek ck key pfx = Ok x \<longleftrightarrow> (\<exists>c. ?ev = Ok (x, c))" for x
    unfolding tr(1) [of pfx, symmetric] by (cases ?ev) auto
  show ?case (is "?lhs = ?rhs")
  proof
    assume ?lhs
    then obtain cache' x c v r h where st: "?ev = Ok (x, c)" "from_share x = Ok v" "returned (prng_get F (poplar1_fill V) g) = Ok (r, h)"
      and rest: "for_each (sketch_step V F from_share agg_id nonce pub key) pfxs
        (c, h, out @ [fst v], s0 + fst v * r, s1 + fst v * r * r, s2 + snd v * r) = Ok (cache', g', out', t0, t1, t2)"
      by (auto simp: sketch_step_eq)
    from Cons.IH [OF tr(2) [OF st(1)], THEN iffD1, OF exI, OF rest] obtain shares rs where
      "map (node_share V from_share agg_id pub ek ck key) pfxs = map Ok shares" "prng_gets F (poplar1_fill V) (length pfxs) h = Ok (rs, g')"
      "out' = out @ fst v # map fst shares" "t0 = s0 + fst v * r + (\<Sum>(v, r)\<leftarrow>zip shares rs. fst v * r)"
      "t1 = s1 + fst v * r * r + (\<Sum>(v, r)\<leftarrow>zip shares rs. fst v * r * r)" "t2 = s2 + snd v * r + (\<Sum>(v, r)\<leftarrow>zip shares rs. snd v * r)"
      by auto
    moreover have "node_share V from_share agg_id pub ek ck key pfx = Ok v" using ev st(1,2) by (auto simp: node_share_def)
    ultimately show ?rhs using st(3) by (intro exI [of _ "v # shares"] exI [of _ "r # rs"]) (simp add: add.assoc)
  next
    assume ?rhs
    then obtain v shares r rs h where sh: "node_share V from_share agg_id pub ek ck key pfx = Ok v"
      "map (node_share V from_share agg_id pub ek ck key) pfxs = map Ok shares"
      "returned (prng_get F (poplar1_fill V) g) = Ok (r, h)" "prng_gets F (poplar1_fill V) (length pfxs) h = Ok (rs, g')"
      "out' = out @ fst v # map fst shares" "t0 = s0 + fst v * r + (\<Sum>(v, r)\<leftarrow>zip shares rs. fst v * r)"
      "t1 = s1 + fst v * r * r + (\<Sum>(v, r)\<leftarrow>zip shares rs. fst v * r * r)" "t2 = s2 + snd v * r + (\<Sum>(v, r)\<leftarrow>zip shares rs. snd v * r)"
      by (auto simp: Cons_eq_map_conv add.assoc)
    from sh(1) ev obtain x c where x: "?ev = Ok (x, c)" "from_share x = Ok v" by (auto simp: node_share_def)
    from Cons.IH [OF tr(2) [OF x(1)], of h "out @ [fst v]" "s0 + fst v * r" "s1 + fst v * r * r" "s2 + snd v * r"] sh
    obtain cache' where "for_each (sketch_step V F from_share agg_id nonce pub key) pfxs
        (c, h, out @ [fst v], s0 + fst v * r, s1 + fst v * r * r, s2 + snd v * r) = Ok (cache', g', out', t0, t1, t2)" by auto
    with x sh(3) show ?lhs by (simp add: sketch_step_eq)
  qed
qed

text \<open>What an evaluation that succeeds has computed, and that it succeeds when its draws and shares do.\<close>

lemma eval_and_sketch_iff:
  assumes keys: "XofFixedKeyAes128Key_new (poplar1_prim V) extend_dst nonce = (Ok ek :: (bytes, idpf_error) outcome)"
    "XofFixedKeyAes128Key_new (poplar1_prim V) convert_dst nonce = (Ok ck :: (bytes, idpf_error) outcome)"
  shows "eval_and_sketch V F from_share vk agg_id nonce ap pub key g = Ok (out, sk) \<longleftrightarrow>
    (\<exists>vg a b c g' shares rs h. init_prng V F vk DST_VERIFY_RANDOMNESS [nonce, be_bytes 2 (unat (agg_level ap))] = Ok vg \<and>
      prng_gets F (poplar1_fill V) 3 g = Ok ([a, b, c], g') \<and>
      map (node_share V from_share agg_id pub ek ck key) (agg_prefixes ap) = map Ok shares \<and>
      prng_gets F (poplar1_fill V) (length (agg_prefixes ap)) vg = Ok (rs, h) \<and> out = map fst shares \<and>
      sk = [a + (\<Sum>(v, r)\<leftarrow>zip shares rs. fst v * r), b + (\<Sum>(v, r)\<leftarrow>zip shares rs. fst v * r * r), c + (\<Sum>(v, r)\<leftarrow>zip shares rs. snd v * r)])"
    (is "?lhs = ?rhs")
proof -
  note loop = sketch_loop [OF keys RingBufferCache.consistent_empty, where agg_id = agg_id and pub = pub and key = key and F = F and
      from_share = from_share and pfxs = "agg_prefixes ap"]
  show ?thesis
  proof
    assume ?lhs
    then obtain vg a g1 b g2 c g3 cache h s0 s1 s2 where
      d: "init_prng V F vk DST_VERIFY_RANDOMNESS [nonce, be_bytes 2 (unat (agg_level ap))] = Ok vg"
        "returned (prng_get F (poplar1_fill V) g) = Ok (a, g1)" "returned (prng_get F (poplar1_fill V) g1) = Ok (b, g2)"
        "returned (prng_get F (poplar1_fill V) g2) = Ok (c, g3)"
      and l: "for_each (sketch_step V F from_share agg_id nonce pub key) (agg_prefixes ap)
        (RingBufferCache_new (length (agg_prefixes ap)), vg, [], a, b, c) = Ok (cache, h, out, s0, s1, s2)" and sk: "sk = [s0, s1, s2]"
      by (auto simp: eval_and_sketch_def)
    have "prng_gets F (poplar1_fill V) 3 g = Ok ([a, b, c], g3)" using d(2-4) by (auto simp: prng_gets_three)
    with loop [THEN iffD1, OF exI, OF l] d(1) sk show ?rhs by (auto simp del: One_nat_def)
  next
    assume ?rhs
    then obtain vg a b c g3 shares rs h where d: "init_prng V F vk DST_VERIFY_RANDOMNESS [nonce, be_bytes 2 (unat (agg_level ap))] = Ok vg"
      "prng_gets F (poplar1_fill V) 3 g = Ok ([a, b, c], g3)"
      and r: "map (node_share V from_share agg_id pub ek ck key) (agg_prefixes ap) = map Ok shares"
      "prng_gets F (poplar1_fill V) (length (agg_prefixes ap)) vg = Ok (rs, h)" "out = map fst shares"
      "sk = [a + (\<Sum>(v, r)\<leftarrow>zip shares rs. fst v * r), b + (\<Sum>(v, r)\<leftarrow>zip shares rs. fst v * r * r), c + (\<Sum>(v, r)\<leftarrow>zip shares rs. snd v * r)]"
      by blast
    have "\<exists>cache. for_each (sketch_step V F from_share agg_id nonce pub key) (agg_prefixes ap)
        (RingBufferCache_new (length (agg_prefixes ap)), vg, [], a, b, c) = Ok (cache, h, out, sk ! 0, sk ! 1, sk ! 2)"
      unfolding loop using r by auto
    with d r(4) show ?lhs by (auto simp: eval_and_sketch_def prng_gets_three)
  qed
qed

lemma sum_list_zip_nth: "length xs = length ys \<Longrightarrow> (\<Sum>(x, y)\<leftarrow>zip xs ys. h x y) = (\<Sum>j<length xs. h (xs ! j) (ys ! j))"
  by (simp add: sum_list_sum_nth atLeast0LessThan)

lemma share_sums:
  fixes sh0 sh1 :: "('f::comm_ring_1 \<times> 'f) list"
  assumes "length sh0 = length pfxs" "length sh1 = length pfxs" "length rs = length pfxs"
    and "\<forall>j < length pfxs. fst (sh0 ! j) + fst (sh1 ! j) = of_bool (prefix (pfxs ! j) inp) \<and>
      snd (sh0 ! j) + snd (sh1 ! j) = auth * of_bool (prefix (pfxs ! j) inp)"
  shows "(\<Sum>(v, r)\<leftarrow>zip sh0 rs. fst v * r) + (\<Sum>(v, r)\<leftarrow>zip sh1 rs. fst v * r) = (\<Sum>(p, s)\<leftarrow>zip pfxs rs. of_bool (prefix p inp) * s)"
    "(\<Sum>(v, r)\<leftarrow>zip sh0 rs. fst v * r * r) + (\<Sum>(v, r)\<leftarrow>zip sh1 rs. fst v * r * r) = (\<Sum>(p, s)\<leftarrow>zip pfxs rs. of_bool (prefix p inp) * (s * s))"
    "(\<Sum>(v, r)\<leftarrow>zip sh0 rs. snd v * r) + (\<Sum>(v, r)\<leftarrow>zip sh1 rs. snd v * r) = auth * (\<Sum>(p, s)\<leftarrow>zip pfxs rs. of_bool (prefix p inp) * s)"
    "map2 (+) (map fst sh0) (map fst sh1) = map (\<lambda>p. of_bool (prefix p inp)) pfxs"
proof -
  note z = sum_list_zip_nth
  note zs = z [where xs = sh0 and ys = rs] z [where xs = sh1 and ys = rs] z [where xs = pfxs and ys = rs]
  show "(\<Sum>(v, r)\<leftarrow>zip sh0 rs. fst v * r) + (\<Sum>(v, r)\<leftarrow>zip sh1 rs. fst v * r) = (\<Sum>(p, s)\<leftarrow>zip pfxs rs. of_bool (prefix p inp) * s)"
    using assms by (simp add: zs sum.distrib [symmetric] distrib_right [symmetric])
  show "(\<Sum>(v, r)\<leftarrow>zip sh0 rs. fst v * r * r) + (\<Sum>(v, r)\<leftarrow>zip sh1 rs. fst v * r * r) = (\<Sum>(p, s)\<leftarrow>zip pfxs rs. of_bool (prefix p inp) * (s * s))"
    using assms by (simp add: zs sum.distrib [symmetric] distrib_right [symmetric] mult.assoc)
  show "(\<Sum>(v, r)\<leftarrow>zip sh0 rs. snd v * r) + (\<Sum>(v, r)\<leftarrow>zip sh1 rs. snd v * r) = auth * (\<Sum>(p, s)\<leftarrow>zip pfxs rs. of_bool (prefix p inp) * s)"
    using assms by (simp add: zs sum.distrib [symmetric] distrib_right [symmetric] sum_distrib_left mult.assoc del: sum_of_bool_mult_eq sum_mult_of_bool_eq)
  show "map2 (+) (map fst sh0) (map fst sh1) = map (\<lambda>p. of_bool (prefix p inp)) pfxs"
    using assms by (intro nth_equalityI) simp_all
qed

section \<open>Honest reports\<close>

text \<open>The shares of the two aggregators at a node add up to the value programmed there.\<close>

definition nodes_shared ::
  "('g::comm_ring_1, 'x, 's) poplar1 \<Rightarrow> ((field64 \<times> field64, 'g \<times> 'g) idpf_output_share \<Rightarrow> ('f::comm_ring_1 \<times> 'f, vdaf_error) outcome) \<Rightarrow>
   'g poplar1_public_share \<Rightarrow> bytes \<Rightarrow> bytes \<Rightarrow> seed \<Rightarrow> seed \<Rightarrow> idpf_input \<Rightarrow> 'f \<Rightarrow> idpf_input list \<Rightarrow> bool" where
  "nodes_shared V from_share pub ek ck k0 k1 inp auth pfxs \<longleftrightarrow>
     (\<forall>p \<in> set pfxs. \<forall>v0. node_share V from_share 0 pub ek ck k0 p = Ok v0 \<longrightarrow>
       (\<exists>v1. node_share V from_share 1 pub ek ck k1 p = Ok v1 \<and> fst v0 + fst v1 = of_bool (prefix p inp) \<and>
         snd v0 + snd v1 = auth * of_bool (prefix p inp)))"

lemma add_pairs: "(x + y) + (z + w) = (x + z) + (y + w :: 'f::comm_monoid_add)"
  by (simp add: ac_simps)

lemma map2_three: "map2 f [x, y, z] [x', y', z'] = [f x x', f y y', f z z']"
  by simp

lemma shared_sketch:
  assumes keys: "XofFixedKeyAes128Key_new (poplar1_prim V) extend_dst nonce = (Ok ek :: (bytes, idpf_error) outcome)"
    "XofFixedKeyAes128Key_new (poplar1_prim V) convert_dst nonce = (Ok ck :: (bytes, idpf_error) outcome)"
    and two: "from_integer F 2 = 2" and nodes: "nodes_shared V from_share pub ek ck k0 k1 inp auth (agg_prefixes ap)"
    and corr: "corr_shares F (poplar1_fill V) g0 g1 auth x0 x1"
    and pfxs: "distinct (agg_prefixes ap)" "\<forall>p \<in> set (agg_prefixes ap). length p = n"
    and leader: "eval_and_sketch V F from_share vk 0 nonce ap pub k0 g0 = Ok (out0, sk0)"
  shows "\<exists>out1 sk1 z0 z1 z2. eval_and_sketch V F from_share vk 1 nonce ap pub k1 g1 = Ok (out1, sk1) \<and>
    length sk0 = 3 \<and> length sk1 = 3 \<and> length out0 = length (agg_prefixes ap) \<and> length out1 = length (agg_prefixes ap) \<and>
    map2 (+) out0 out1 = map (\<lambda>p. of_bool (prefix p inp)) (agg_prefixes ap) \<and>
    map2 (+) sk0 sk1 = [z0, z1, z2] \<and> (fst x0 + fst x1) * z0 + (snd x0 + snd x1) + (z0 * z0 - z1 - z2) = 0"
proof -
  let ?pfxs = "agg_prefixes ap"
  from leader [unfolded eval_and_sketch_iff [OF keys]] obtain vg a0 b0 c0 g0' sh0 rs h where
    vg: "init_prng V F vk DST_VERIFY_RANDOMNESS [nonce, be_bytes 2 (unat (agg_level ap))] = Ok vg"
    and draw0: "prng_gets F (poplar1_fill V) 3 g0 = Ok ([a0, b0, c0], g0')"
    and sh0: "map (node_share V from_share 0 pub ek ck k0) ?pfxs = map Ok sh0"
    and rs: "prng_gets F (poplar1_fill V) (length ?pfxs) vg = Ok (rs, h)" and out0: "out0 = map fst sh0"
    and sk0: "sk0 = [a0 + (\<Sum>(v, r)\<leftarrow>zip sh0 rs. fst v * r), b0 + (\<Sum>(v, r)\<leftarrow>zip sh0 rs. fst v * r * r), c0 + (\<Sum>(v, r)\<leftarrow>zip sh0 rs. snd v * r)]"
    by blast
  have len0: "length sh0 = length ?pfxs" using sh0 by (metis length_map)
  have at0: "node_share V from_share 0 pub ek ck k0 (?pfxs ! j) = Ok (sh0 ! j)" if "j < length ?pfxs" for j
    using arg_cong [OF sh0, of "\<lambda>l. l ! j"] that len0 by simp
  have "\<exists>v1. \<forall>j < length ?pfxs. node_share V from_share 1 pub ek ck k1 (?pfxs ! j) = Ok (v1 j) \<and>
      fst (sh0 ! j) + fst (v1 j) = of_bool (prefix (?pfxs ! j) inp) \<and> snd (sh0 ! j) + snd (v1 j) = auth * of_bool (prefix (?pfxs ! j) inp)"
    by (intro choice allI) (use nodes at0 in \<open>force simp: nodes_shared_def\<close>)
  then obtain v1 where v1: "\<And>j. j < length ?pfxs \<Longrightarrow> node_share V from_share 1 pub ek ck k1 (?pfxs ! j) = Ok (v1 j) \<and>
      fst (sh0 ! j) + fst (v1 j) = of_bool (prefix (?pfxs ! j) inp) \<and> snd (sh0 ! j) + snd (v1 j) = auth * of_bool (prefix (?pfxs ! j) inp)"
    by blast
  define sh1 where "sh1 = map v1 [0..<length ?pfxs]"
  have sh1: "map (node_share V from_share 1 pub ek ck k1) ?pfxs = map Ok sh1"
    using v1 by (intro nth_equalityI) (simp_all add: sh1_def)
  note sums = share_sums [of sh0 ?pfxs sh1 rs inp auth, OF len0 _ prng_gets_length [OF rs]]
  from corr obtain a1 b1 c1 h1 where draw1: "prng_gets F (poplar1_fill V) 3 g1 = Ok ([a1, b1, c1], h1)"
    and AB: "fst x0 + fst x1 = - from_integer F 2 * (a0 + a1) + auth"
      "snd x0 + snd x1 = (a0 + a1) * (a0 + a1) + (b0 + b1) - (a0 + a1) * auth + (c0 + c1)"
    unfolding corr_shares_def draw0 Let_def by auto
  from one_hot [OF pfxs prng_gets_length [OF rs], of inp] obtain r where
    r: "(\<Sum>(p, s)\<leftarrow>zip ?pfxs rs. of_bool (prefix p inp) * s) = r" "(\<Sum>(p, s)\<leftarrow>zip ?pfxs rs. of_bool (prefix p inp) * (s * s)) = r * r" by blast
  let ?sk1 = "[a1 + (\<Sum>(v, r)\<leftarrow>zip sh1 rs. fst v * r), b1 + (\<Sum>(v, r)\<leftarrow>zip sh1 rs. fst v * r * r), c1 + (\<Sum>(v, r)\<leftarrow>zip sh1 rs. snd v * r)]"
  have helper: "eval_and_sketch V F from_share vk 1 nonce ap pub k1 g1 = Ok (map fst sh1, ?sk1)"
    unfolding eval_and_sketch_iff [OF keys] using vg draw1 sh1 rs by blast
  have s: "map2 (+) (map fst sh0) (map fst sh1) = map (\<lambda>p. of_bool (prefix p inp)) ?pfxs"
    "(\<Sum>(v, r)\<leftarrow>zip sh0 rs. fst v * r) + (\<Sum>(v, r)\<leftarrow>zip sh1 rs. fst v * r) = r"
    "(\<Sum>(v, r)\<leftarrow>zip sh0 rs. fst v * r * r) + (\<Sum>(v, r)\<leftarrow>zip sh1 rs. fst v * r * r) = r * r"
    "(\<Sum>(v, r)\<leftarrow>zip sh0 rs. snd v * r) + (\<Sum>(v, r)\<leftarrow>zip sh1 rs. snd v * r) = auth * r"
    using sums v1 r by (simp_all add: sh1_def)
  have "map2 (+) sk0 ?sk1 = [(a0 + a1) + r, (b0 + b1) + r * r, (c0 + c1) + auth * r]"
    unfolding sk0 map2_three by (simp only: add_pairs s(2-4))
  moreover have "(fst x0 + fst x1) * ((a0 + a1) + r) + (snd x0 + snd x1) + (((a0 + a1) + r) * ((a0 + a1) + r) - ((b0 + b1) + r * r) - ((c0 + c1) + auth * r)) = 0"
    by (rule sketch_verifies [OF _ AB(2) refl refl refl]) (simp add: AB(1) two)
  moreover have "length sk0 = 3" "length ?sk1 = 3" "length out0 = length ?pfxs" "length (map fst sh1) = length ?pfxs"
    by (simp_all add: sk0 out0 len0 sh1_def)
  moreover have "map2 (+) out0 (map fst sh1) = map (\<lambda>p. of_bool (prefix p inp)) ?pfxs" using s(1) by (simp only: out0)
  ultimately show ?thesis using helper by (intro exI conjI)
qed

end
