(* ===== verification/Poplar1Run.thy ===== *)
theory Poplar1Run
  imports Poplar1Correct Prio3PingPong
begin

text \<open>
  Executions of Poplar1: what the client's shares are made of, the two rounds of preparation, and the exchange of messages.
\<close>

section \<open>Reports of honest clients\<close>

definition poplar1_report ::
  "('g::comm_ring_1, 'x, 's) poplar1 \<Rightarrow> idpf_input \<Rightarrow> bytes \<Rightarrow> 'g poplar1_public_share \<Rightarrow> 'g poplar1_input_share \<Rightarrow> 'g poplar1_input_share \<Rightarrow>
   field64 list \<Rightarrow> 'g \<Rightarrow> bool" where
  "poplar1_report V inp nonce pub share0 share1 auths auth_leaf \<longleftrightarrow>
     inp \<noteq> [] \<and> length inp = poplar1_bits V \<and> length auths = length inp - 1 \<and>
     length (corr_inner share0) = length auths \<and> length (corr_inner share1) = length auths \<and>
     (\<exists>ks. gen_with_random (poplar1_prim V) (poplar1_idpf V) inp (map (\<lambda>auth. (1, auth)) auths) (1, auth_leaf) nonce
       (idpf_key share0, idpf_key share1) = Ok (pub, ks)) \<and>
     (\<exists>g0 g1. init_prng V Field64 (corr_seed share0) DST_CORR_INNER [[0], nonce] = Ok g0 \<and>
       init_prng V Field64 (corr_seed share1) DST_CORR_INNER [[1], nonce] = Ok g1 \<and>
       (\<forall>l < length auths. \<exists>us0 us1 h0 h1. prng_gets Field64 (poplar1_fill V) (3 * l) g0 = Ok (us0, h0) \<and>
         prng_gets Field64 (poplar1_fill V) (3 * l) g1 = Ok (us1, h1) \<and>
         corr_shares Field64 (poplar1_fill V) h0 h1 (auths ! l) (corr_inner share0 ! l) (corr_inner share1 ! l))) \<and>
     (\<exists>g0 g1. init_prng V (leaf_field V) (corr_seed share0) DST_CORR_LEAF [[0], nonce] = Ok g0 \<and>
       init_prng V (leaf_field V) (corr_seed share1) DST_CORR_LEAF [[1], nonce] = Ok g1 \<and>
       corr_shares (leaf_field V) (poplar1_fill V) g0 g1 auth_leaf (corr_leaf share0) (corr_leaf share1))"

lemma gen_with_random_keys:
  assumes "gen_with_random prim I inp vs lv bindr ks = Ok (pub, ks')"
  shows "ks' = ks"
proof -
  obtain ek ck where "XofFixedKeyAes128Key_new prim extend_dst bindr = (Ok ek :: (bytes, idpf_error) outcome)"
    "XofFixedKeyAes128Key_new prim convert_dst bindr = (Ok ck :: (bytes, idpf_error) outcome)" by (rule idpf_keys)
  from gen_with_random_runs [OF this assms] show ?thesis by metis
qed

lemma shard_honest:
  assumes "poplar1_shard_with_random V inp nonce idpf_random poplar_random = Ok (pub, shares)"
  obtains share0 share1 auths auth_leaf where "shares = [share0, share1]" "poplar1_report V inp nonce pub share0 share1 auths auth_leaf"
proof -
  obtain s0 s1 s where rnd: "poplar_random = (s0, s1, s)" by (cases poplar_random)
  let ?fill = "poplar1_fill V"
  from assms obtain prng auths prng1 auth_leaf prng2 k0 k1 g0 g1 i0 i1 prng3 g0' g1' h0 h1 l0 l1 r where
    len: "length inp = poplar1_bits V" "poplar1_bits V \<noteq> 0"
    and auths: "prng_gets Field64 ?fill (poplar1_bits V - 1) prng = Ok (auths, prng1)"
    and gen: "gen_with_random (poplar1_prim V) (poplar1_idpf V) inp (map (\<lambda>auth. (1, auth)) auths) (1, auth_leaf) nonce idpf_random = Ok (pub, k0, k1)"
    and g: "init_prng V Field64 s0 DST_CORR_INNER [[0], nonce] = Ok g0" "init_prng V Field64 s1 DST_CORR_INNER [[1], nonce] = Ok g1"
    and loop: "for_each (corr_step Field64 ?fill) auths ([], [], into_new_field prng2, g0, g1) = Ok (i0, i1, prng3, g0', g1')"
    and h: "init_prng V (leaf_field V) s0 DST_CORR_LEAF [[0], nonce] = Ok h0" "init_prng V (leaf_field V) s1 DST_CORR_LEAF [[1], nonce] = Ok h1"
    and leaf: "compute_next_corr_shares (leaf_field V) ?fill (into_new_field prng3) h0 h1 auth_leaf = Ok ((l0, l1), r)"
    and shares: "shares = [\<lparr>idpf_key = k0, corr_seed = s0, corr_inner = i0, corr_leaf = l0\<rparr>, \<lparr>idpf_key = k1, corr_seed = s1, corr_inner = i1, corr_leaf = l1\<rparr>]"
    unfolding poplar1_shard_with_random_def rnd Let_def
    by (auto simp del: One_nat_def split: if_splits)
  have ks: "idpf_random = (k0, k1)" using gen_with_random_keys [OF gen] by simp
  obtain r1 r2 r3 where r: "r = (r1, r2, r3)" by (cases r)
  note lf = compute_next_corr_shares_Ok(1) [OF leaf [unfolded r]]
  from corr_inner_loop [OF loop refl] have
    "length i0 = length auths \<and> length i1 = length auths \<and>
    (\<forall>l < length auths. \<exists>us0 us1 h0 h1. prng_gets Field64 ?fill (3 * l) g0 = Ok (us0, h0) \<and> prng_gets Field64 ?fill (3 * l) g1 = Ok (us1, h1) \<and>
      corr_shares Field64 ?fill h0 h1 (auths ! l) (i0 ! l) (i1 ! l))" by auto
  with len gen g h lf prng_gets_length [OF auths] show thesis
    by (intro that [OF shares, of auths auth_leaf]) (auto simp: poplar1_report_def ks)
qed

section \<open>The values at the nodes\<close>

lemma node_share_eval:
  "node_share V from_share agg_id pub ek ck key p = Ok v \<longleftrightarrow>
    (\<exists>x. agg_id \<le> 1 \<and> p \<noteq> [] \<and> length p \<le> Suc (length (inner_correction_words pub)) \<and>
      eval_node (poplar1_prim V) (poplar1_idpf V) (agg_id = 0) pub ek ck key p = Ok x \<and> from_share x = Ok v)"
  by (auto simp: node_share_def eval_result_def)

lemma honest_merge:
  assumes keys: "XofFixedKeyAes128Key_new (poplar1_prim V) extend_dst nonce = (Ok ek :: (bytes, idpf_error) outcome)"
    "XofFixedKeyAes128Key_new (poplar1_prim V) convert_dst nonce = (Ok ck :: (bytes, idpf_error) outcome)"
    and honest: "poplar1_report V inp nonce pub share0 share1 auths auth_leaf" and p: "p \<noteq> []" "length p \<le> length inp"
    and o0: "eval_node (poplar1_prim V) (poplar1_idpf V) True pub ek ck (idpf_key share0) p = Ok o0"
  obtains o1 where "eval_node (poplar1_prim V) (poplar1_idpf V) False pub ek ck (idpf_key share1) p = Ok o1"
    "output_share_merge (inner_values (poplar1_idpf V)) (leaf_values (poplar1_idpf V)) o0 o1 =
      Ok (programmed (poplar1_idpf V) inp (map (\<lambda>auth. (1, auth)) auths) (1, auth_leaf) p)"
  using honest poplar1_scheme.shares_merge [OF keys _ _ _ p o0] unfolding poplar1_report_def by blast

lemma inner_nodes_shared:
  assumes keys: "XofFixedKeyAes128Key_new (poplar1_prim V) extend_dst nonce = (Ok ek :: (bytes, idpf_error) outcome)"
    "XofFixedKeyAes128Key_new (poplar1_prim V) convert_dst nonce = (Ok ck :: (bytes, idpf_error) outcome)"
    and honest: "poplar1_report V inp nonce pub share0 share1 auths auth_leaf"
    and l: "Suc l < length inp" "\<forall>p \<in> set pfxs. length p = Suc l"
  shows "nodes_shared V from_inner_share pub ek ck (idpf_key share0) (idpf_key share1) inp (auths ! l) pfxs"
  unfolding nodes_shared_def
proof (intro ballI allI impI)
  fix p v0
  assume p: "p \<in> set pfxs" and v0: "node_share V from_inner_share 0 pub ek ck (idpf_key share0) p = Ok v0"
  have len: "length p = Suc l" "l < length auths" and pl: "p \<noteq> []" "length p \<le> length inp"
    using l p honest by (auto simp: poplar1_report_def)
  from v0 obtain o0 where fits: "length p \<le> Suc (length (inner_correction_words pub))"
    and o0: "eval_node (poplar1_prim V) (poplar1_idpf V) True pub ek ck (idpf_key share0) p = Ok o0" "from_inner_share o0 = (Ok v0 :: (_, vdaf_error) outcome)"
    by (auto simp: node_share_eval)
  from honest_merge [OF keys honest pl o0(1)] obtain o1 where
    o1: "eval_node (poplar1_prim V) (poplar1_idpf V) False pub ek ck (idpf_key share1) p = Ok o1"
      "output_share_merge (inner_values (poplar1_idpf V)) (leaf_values (poplar1_idpf V)) o0 o1 =
        Ok (programmed (poplar1_idpf V) inp (map (\<lambda>auth. (1, auth)) auths) (1, auth_leaf) p)" .
  from o0(2) o1(2) l(1) len obtain v1 where v1: "o1 = InnerShare v1" "fst v0 + fst v1 = of_bool (prefix p inp)"
    "snd v0 + snd v1 = auths ! l * of_bool (prefix p inp)"
    by (cases o0; cases o1) (auto simp: programmed_def poplar1_idpf_def poplar1_value_def split: if_splits)
  with fits o1(1) pl show "\<exists>v1. node_share V from_inner_share 1 pub ek ck (idpf_key share1) p = Ok v1 \<and>
      fst v0 + fst v1 = of_bool (prefix p inp) \<and> snd v0 + snd v1 = auths ! l * of_bool (prefix p inp)"
    by (auto simp: node_share_eval)
qed

lemma leaf_nodes_shared:
  assumes keys: "XofFixedKeyAes128Key_new (poplar1_prim V) extend_dst nonce = (Ok ek :: (bytes, idpf_error) outcome)"
    "XofFixedKeyAes128Key_new (poplar1_prim V) convert_dst nonce = (Ok ck :: (bytes, idpf_error) outcome)"
    and honest: "poplar1_report V inp nonce pub share0 share1 auths auth_leaf" and l: "\<forall>p \<in> set pfxs. length p = length inp"
  shows "nodes_shared V from_leaf_share pub ek ck (idpf_key share0) (idpf_key share1) inp auth_leaf pfxs"
  unfolding nodes_shared_def
proof (intro ballI allI impI)
  fix p v0
  assume p: "p \<in> set pfxs" and v0: "node_share V from_leaf_share 0 pub ek ck (idpf_key share0) p = Ok v0"
  have len: "length p = length inp" and pl: "p \<noteq> []" "length p \<le> length inp" using l p honest by (auto simp: poplar1_report_def)
  then have eq: "prefix p inp \<longleftrightarrow> p = inp" by (auto simp: prefix_def)
  from v0 obtain o0 where fits: "length p \<le> Suc (length (inner_correction_words pub))"
    and o0: "eval_node (poplar1_prim V) (poplar1_idpf V) True pub ek ck (idpf_key share0) p = Ok o0" "from_leaf_share o0 = (Ok v0 :: (_, vdaf_error) outcome)"
    by (auto simp: node_share_eval)
  from honest_merge [OF keys honest pl o0(1)] obtain o1 where
    o1: "eval_node (poplar1_prim V) (poplar1_idpf V) False pub ek ck (idpf_key share1) p = Ok o1"
      "output_share_merge (inner_values (poplar1_idpf V)) (leaf_values (poplar1_idpf V)) o0 o1 =
        Ok (programmed (poplar1_idpf V) inp (map (\<lambda>auth. (1, auth)) auths) (1, auth_leaf) p)" .
  from o0(2) o1(2) len obtain v1 where v1: "o1 = LeafShare v1" "fst v0 + fst v1 = of_bool (prefix p inp)"
    "snd v0 + snd v1 = auth_leaf * of_bool (prefix p inp)"
    by (cases o0; cases o1) (auto simp: eq programmed_def poplar1_idpf_def poplar1_value_def split: if_splits)
  with fits o1(1) pl show "\<exists>v1. node_share V from_leaf_share 1 pub ek ck (idpf_key share1) p = Ok v1 \<and>
      fst v0 + fst v1 = of_bool (prefix p inp) \<and> snd v0 + snd v1 = auth_leaf * of_bool (prefix p inp)"
    by (auto simp: node_share_eval)
qed

section \<open>The two rounds of preparation\<close>

text \<open>The number of measurements, of this one, under every prefix.\<close>

definition prefix_counts :: "('g::comm_ring_1, 'x, 's) poplar1 \<Rightarrow> poplar1_aggregation_param \<Rightarrow> idpf_input \<Rightarrow> 'g poplar1_field_vec" where
  "prefix_counts V ap inp =
     (if unat (agg_level ap) = poplar1_bits V - 1 then LeafVec (map (\<lambda>p. of_bool (prefix p inp)) (agg_prefixes ap))
      else InnerVec (map (\<lambda>p. of_bool (prefix p inp)) (agg_prefixes ap)))"

definition fitting_param :: "('g, 'x, 's) poplar1 \<Rightarrow> poplar1_aggregation_param \<Rightarrow> bool" where
  "fitting_param V ap \<longleftrightarrow> unat (agg_level ap) < poplar1_bits V \<and> distinct (agg_prefixes ap) \<and>
     (\<forall>p \<in> set (agg_prefixes ap). length p = Suc (unat (agg_level ap)))"

lemma next_message_three:
  "length sk0 = 3 \<Longrightarrow> length sk1 = 3 \<Longrightarrow> map2 (+) sk0 sk1 = [x, y, z] \<Longrightarrow> next_message sk0 sk1 = Ok (Some (x, y, z))"
  by (simp add: next_message_def merge_vector_def)

lemma next_message_last:
  assumes "(A0 + A1) * x + (B0 + B1) + (x * x - y - z) = (0 :: 'f::comm_ring_1)"
  shows "next_message (finish_sketch (x, y, z) A0 B0 True) (finish_sketch (x, y, z) A1 B1 False) = Ok None"
proof -
  have "(A0 * x + B0) + (A1 * x + B1 + (x * x - y - z)) = 0" using assms by (simp add: algebra_simps)
  then show ?thesis by (simp add: next_message_def merge_vector_def finish_sketch_def)
qed

lemma inner_rounds:
  assumes "length sk0 = 3" "length sk1 = 3" "map2 (+) sk0 sk1 = [x, y, z]" "(A0 + A1) * x + (B0 + B1) + (x * x - y - z) = 0"
  shows "(plain_step (poplar1_aggregator V) ap)\<^sup>*\<^sup>*
    (Preparing (InnerState \<lparr>sketch = RoundOne A0 B0 True, state_output_share = out0\<rparr>) (InnerVec sk0)
      (InnerState \<lparr>sketch = RoundOne A1 B1 False, state_output_share = out1\<rparr>) (InnerVec sk1)) (Prepared (InnerVec out0) (InnerVec out1))"
proof -
  note msgs = next_message_three [OF assms(1-3)] next_message_last [OF assms(4)]
  have "plain_step (poplar1_aggregator V) ap
    (Preparing (InnerState \<lparr>sketch = RoundOne A0 B0 True, state_output_share = out0\<rparr>) (InnerVec sk0)
      (InnerState \<lparr>sketch = RoundOne A1 B1 False, state_output_share = out1\<rparr>) (InnerVec sk1))
    (Preparing (InnerState \<lparr>sketch = RoundTwo, state_output_share = out0\<rparr>) (InnerVec (finish_sketch (x, y, z) A0 B0 True))
      (InnerState \<lparr>sketch = RoundTwo, state_output_share = out1\<rparr>) (InnerVec (finish_sketch (x, y, z) A1 B1 False)))"
    using msgs(1) by (intro plain_next [where m = "SketchInner (x, y, z)"])
      (simp_all add: poplar1_aggregator_def poplar1_prepare_shares_to_prepare_message_def poplar1_prepare_next_def message_of_def)
  moreover have "plain_step (poplar1_aggregator V) ap
    (Preparing (InnerState \<lparr>sketch = RoundTwo, state_output_share = out0\<rparr>) (InnerVec (finish_sketch (x, y, z) A0 B0 True))
      (InnerState \<lparr>sketch = RoundTwo, state_output_share = out1\<rparr>) (InnerVec (finish_sketch (x, y, z) A1 B1 False)))
    (Prepared (InnerVec out0) (InnerVec out1))"
    using msgs(2) by (intro plain_finish [where m = SketchDone])
      (simp_all add: poplar1_aggregator_def poplar1_prepare_shares_to_prepare_message_def poplar1_prepare_next_def message_of_def)
  ultimately show ?thesis by (meson r_into_rtranclp rtranclp_trans)
qed

lemma leaf_rounds:
  assumes "length sk0 = 3" "length sk1 = 3" "map2 (+) sk0 sk1 = [x, y, z]" "(A0 + A1) * x + (B0 + B1) + (x * x - y - z) = 0"
  shows "(plain_step (poplar1_aggregator V) ap)\<^sup>*\<^sup>*
    (Preparing (LeafState \<lparr>sketch = RoundOne A0 B0 True, state_output_share = out0\<rparr>) (LeafVec sk0)
      (LeafState \<lparr>sketch = RoundOne A1 B1 False, state_output_share = out1\<rparr>) (LeafVec sk1)) (Prepared (LeafVec out0) (LeafVec out1))"
proof -
  note msgs = next_message_three [OF assms(1-3)] next_message_last [OF assms(4)]
  have "plain_step (poplar1_aggregator V) ap
    (Preparing (LeafState \<lparr>sketch = RoundOne A0 B0 True, state_output_share = out0\<rparr>) (LeafVec sk0)
      (LeafState \<lparr>sketch = RoundOne A1 B1 False, state_output_share = out1\<rparr>) (LeafVec sk1))
    (Preparing (LeafState \<lparr>sketch = RoundTwo, state_output_share = out0\<rparr>) (LeafVec (finish_sketch (x, y, z) A0 B0 True))
      (LeafState \<lparr>sketch = RoundTwo, state_output_share = out1\<rparr>) (LeafVec (finish_sketch (x, y, z) A1 B1 False)))"
    using msgs(1) by (intro plain_next [where m = "SketchLeaf (x, y, z)"])
      (simp_all add: poplar1_aggregator_def poplar1_prepare_shares_to_prepare_message_def poplar1_prepare_next_def message_of_def)
  moreover have "plain_step (poplar1_aggregator V) ap
    (Preparing (LeafState \<lparr>sketch = RoundTwo, state_output_share = out0\<rparr>) (LeafVec (finish_sketch (x, y, z) A0 B0 True))
      (LeafState \<lparr>sketch = RoundTwo, state_output_share = out1\<rparr>) (LeafVec (finish_sketch (x, y, z) A1 B1 False)))
    (Prepared (LeafVec out0) (LeafVec out1))"
    using msgs(2) by (intro plain_finish [where m = SketchDone])
      (simp_all add: poplar1_aggregator_def poplar1_prepare_shares_to_prepare_message_def poplar1_prepare_next_def message_of_def)
  ultimately show ?thesis by (meson r_into_rtranclp rtranclp_trans)
qed

lemma inner_preparation:
  assumes honest: "poplar1_report V inp nonce pub share0 share1 auths auth_leaf" and ap: "fitting_param V ap"
    and inner: "unat (agg_level ap) < poplar1_bits V - 1"
    and leader: "poplar1_prepare_init V vk 0 ap nonce pub share0 = Ok (st0, sh0)"
  shows "\<exists>A0 B0 A1 B1 out0 out1 sk0 sk1 x y z.
    st0 = InnerState \<lparr>sketch = RoundOne A0 B0 True, state_output_share = out0\<rparr> \<and> sh0 = InnerVec sk0 \<and>
    poplar1_prepare_init V vk 1 ap nonce pub share1 =
      Ok (InnerState \<lparr>sketch = RoundOne A1 B1 False, state_output_share = out1\<rparr>, InnerVec sk1) \<and>
    length out0 = length (agg_prefixes ap) \<and> length out1 = length (agg_prefixes ap) \<and>
    map2 (+) out0 out1 = map (\<lambda>p. of_bool (prefix p inp)) (agg_prefixes ap) \<and>
    length sk0 = 3 \<and> length sk1 = 3 \<and> map2 (+) sk0 sk1 = [x, y, z] \<and> (A0 + A1) * x + (B0 + B1) + (x * x - y - z) = 0"
proof -
  let ?l = "unat (agg_level ap)" and ?fill = "poplar1_fill V"
  obtain ek ck where keys: "XofFixedKeyAes128Key_new (poplar1_prim V) extend_dst nonce = (Ok ek :: (bytes, idpf_error) outcome)"
    "XofFixedKeyAes128Key_new (poplar1_prim V) convert_dst nonce = (Ok ck :: (bytes, idpf_error) outcome)" by (rule idpf_keys)
  have lens: "?l < length auths" "Suc ?l < length inp" "length (corr_inner share0) = length auths" "length (corr_inner share1) = length auths"
    using honest inner by (auto simp: poplar1_report_def)
  from honest [unfolded poplar1_report_def] lens(1) obtain g0 g1 us0 us1 h0 h1 where
    g: "init_prng V Field64 (corr_seed share0) DST_CORR_INNER [[0], nonce] = Ok g0" "init_prng V Field64 (corr_seed share1) DST_CORR_INNER [[1], nonce] = Ok g1"
      "prng_gets Field64 ?fill (3 * ?l) g0 = Ok (us0, h0)" "prng_gets Field64 ?fill (3 * ?l) g1 = Ok (us1, h1)"
    and corr: "corr_shares Field64 ?fill h0 h1 (auths ! ?l) (corr_inner share0 ! ?l) (corr_inner share1 ! ?l)" by blast
  from leader inner g obtain out0 sk0 where
    ev: "eval_and_sketch V Field64 from_inner_share vk 0 nonce ap pub (idpf_key share0) h0 = Ok (out0, sk0)" and fits: "3 * ?l < 2 ^ 16"
    and st0: "st0 = InnerState \<lparr>sketch = RoundOne (fst (corr_inner share0 ! ?l)) (snd (corr_inner share0 ! ?l)) True, state_output_share = out0\<rparr>"
      "sh0 = InnerVec sk0"
    by (auto simp: poplar1_prepare_init_def Let_def split: if_splits)
  have nodes: "nodes_shared V from_inner_share pub ek ck (idpf_key share0) (idpf_key share1) inp (auths ! ?l) (agg_prefixes ap)"
    using inner_nodes_shared [OF keys honest lens(2)] ap by (simp add: fitting_param_def)
  from ap have pfxs: "distinct (agg_prefixes ap)" "\<forall>p \<in> set (agg_prefixes ap). length p = Suc ?l" by (simp_all add: fitting_param_def)
  have two: "from_integer Field64 2 = 2" using Field64.from_integer [of 2] by simp
  from shared_sketch [OF keys two nodes corr pfxs ev] obtain out1 sk1 x y z where
    ev1: "eval_and_sketch V Field64 from_inner_share vk 1 nonce ap pub (idpf_key share1) h1 = Ok (out1, sk1)"
    and r: "length sk0 = 3" "length sk1 = 3" "length out0 = length (agg_prefixes ap)" "length out1 = length (agg_prefixes ap)"
      "map2 (+) out0 out1 = map (\<lambda>p. of_bool (prefix p inp)) (agg_prefixes ap)" "map2 (+) sk0 sk1 = [x, y, z]"
      "(fst (corr_inner share0 ! ?l) + fst (corr_inner share1 ! ?l)) * x + (snd (corr_inner share0 ! ?l) + snd (corr_inner share1 ! ?l)) + (x * x - y - z) = 0"
    by (elim exE conjE) (rule that)
  have "poplar1_prepare_init V vk 1 ap nonce pub share1 = Ok (InnerState \<lparr>sketch = RoundOne (fst (corr_inner share1 ! ?l)) (snd (corr_inner share1 ! ?l)) False,
      state_output_share = out1\<rparr>, InnerVec sk1)"
    using ev1 g fits inner lens by (simp add: poplar1_prepare_init_def Let_def)
  note helper = this
  show ?thesis by (intro exI conjI) (rule st0 helper r)+
qed

lemma leaf_preparation:
  assumes honest: "poplar1_report V inp nonce pub share0 share1 auths auth_leaf" and ap: "fitting_param V ap"
    and leaf: "unat (agg_level ap) = poplar1_bits V - 1" and two: "from_integer (leaf_field V) 2 = 2"
    and leader: "poplar1_prepare_init V vk 0 ap nonce pub share0 = Ok (st0, sh0)"
  shows "\<exists>A0 B0 A1 B1 out0 out1 sk0 sk1 x y z.
    st0 = LeafState \<lparr>sketch = RoundOne A0 B0 True, state_output_share = out0\<rparr> \<and> sh0 = LeafVec sk0 \<and>
    poplar1_prepare_init V vk 1 ap nonce pub share1 =
      Ok (LeafState \<lparr>sketch = RoundOne A1 B1 False, state_output_share = out1\<rparr>, LeafVec sk1) \<and>
    length out0 = length (agg_prefixes ap) \<and> length out1 = length (agg_prefixes ap) \<and>
    map2 (+) out0 out1 = map (\<lambda>p. of_bool (prefix p inp)) (agg_prefixes ap) \<and>
    length sk0 = 3 \<and> length sk1 = 3 \<and> map2 (+) sk0 sk1 = [x, y, z] \<and> (A0 + A1) * x + (B0 + B1) + (x * x - y - z) = 0"
proof -
  let ?fill = "poplar1_fill V" and ?F = "leaf_field V"
  obtain ek ck where keys: "XofFixedKeyAes128Key_new (poplar1_prim V) extend_dst nonce = (Ok ek :: (bytes, idpf_error) outcome)"
    "XofFixedKeyAes128Key_new (poplar1_prim V) convert_dst nonce = (Ok ck :: (bytes, idpf_error) outcome)" by (rule idpf_keys)
  from honest obtain g0 g1 where bits: "poplar1_bits V = length inp" "inp \<noteq> []"
    and g: "init_prng V ?F (corr_seed share0) DST_CORR_LEAF [[0], nonce] = Ok g0" "init_prng V ?F (corr_seed share1) DST_CORR_LEAF [[1], nonce] = Ok g1"
    and corr: "corr_shares ?F ?fill g0 g1 auth_leaf (corr_leaf share0) (corr_leaf share1)" by (auto simp: poplar1_report_def)
  have new: "into_new_field g = g" for g :: "'c prng" by (simp add: into_new_field_def)
  from leader leaf bits g obtain out0 sk0 where
    ev: "eval_and_sketch V ?F from_leaf_share vk 0 nonce ap pub (idpf_key share0) g0 = Ok (out0, sk0)"
    and st0: "st0 = LeafState \<lparr>sketch = RoundOne (fst (corr_leaf share0)) (snd (corr_leaf share0)) True, state_output_share = out0\<rparr>" "sh0 = LeafVec sk0"
    by (auto simp: poplar1_prepare_init_def Let_def new split: if_splits)
  from ap leaf bits have pfxs: "distinct (agg_prefixes ap)" "\<forall>p \<in> set (agg_prefixes ap). length p = length inp" by (simp_all add: fitting_param_def)
  note nodes = leaf_nodes_shared [OF keys honest pfxs(2)]
  from shared_sketch [OF keys two nodes corr pfxs ev] obtain out1 sk1 x y z where
    ev1: "eval_and_sketch V ?F from_leaf_share vk 1 nonce ap pub (idpf_key share1) g1 = Ok (out1, sk1)"
    and r: "length sk0 = 3" "length sk1 = 3" "length out0 = length (agg_prefixes ap)" "length out1 = length (agg_prefixes ap)"
      "map2 (+) out0 out1 = map (\<lambda>p. of_bool (prefix p inp)) (agg_prefixes ap)" "map2 (+) sk0 sk1 = [x, y, z]"
      "(fst (corr_leaf share0) + fst (corr_leaf share1)) * x + (snd (corr_leaf share0) + snd (corr_leaf share1)) + (x * x - y - z) = 0"
    by (elim exE conjE) (rule that)
  have "poplar1_prepare_init V vk 1 ap nonce pub share1 = Ok (LeafState \<lparr>sketch = RoundOne (fst (corr_leaf share1)) (snd (corr_leaf share1)) False,
      state_output_share = out1\<rparr>, LeafVec sk1)"
    using ev1 g leaf bits by (simp add: poplar1_prepare_init_def Let_def new)
  note helper = this
  show ?thesis by (intro exI conjI) (rule st0 helper r)+
qed

theorem preparation_succeeds:
  assumes honest: "poplar1_report V inp nonce pub share0 share1 auths auth_leaf" and ap: "fitting_param V ap"
    and two: "from_integer (leaf_field V) 2 = 2" and leader: "poplar1_prepare_init V vk 0 ap nonce pub share0 = Ok (st0, sh0)"
  shows "\<exists>st1 sh1 out0 out1. poplar1_prepare_init V vk 1 ap nonce pub share1 = Ok (st1, sh1) \<and>
    (plain_step (poplar1_aggregator V) ap)\<^sup>*\<^sup>* (Preparing st0 sh0 st1 sh1) (Prepared out0 out1) \<and>
    field_vec_merge out0 out1 = Ok (prefix_counts V ap inp)"
proof (cases "unat (agg_level ap) = poplar1_bits V - 1")
  case True
  from leaf_preparation [OF honest ap True two leader] obtain A0 B0 A1 B1 out0 out1 sk0 sk1 x y z where
    r: "st0 = LeafState \<lparr>sketch = RoundOne A0 B0 True, state_output_share = out0\<rparr>" "sh0 = LeafVec sk0"
    "poplar1_prepare_init V vk 1 ap nonce pub share1 =
      Ok (LeafState \<lparr>sketch = RoundOne A1 B1 False, state_output_share = out1\<rparr>, LeafVec sk1)"
    "length out0 = length (agg_prefixes ap)" "length out1 = length (agg_prefixes ap)"
    "map2 (+) out0 out1 = map (\<lambda>p. of_bool (prefix p inp)) (agg_prefixes ap)"
    and v: "length sk0 = 3" "length sk1 = 3" "map2 (+) sk0 sk1 = [x, y, z]" "(A0 + A1) * x + (B0 + B1) + (x * x - y - z) = 0"
    by (elim exE conjE) (rule that)
  have "field_vec_merge (LeafVec out0) (LeafVec out1) = Ok (prefix_counts V ap inp)"
    using r(4-6) True by (simp add: merge_vector_def prefix_counts_def)
  then show ?thesis unfolding r(1,2) by (intro exI conjI) (rule r(3) leaf_rounds [OF v])+
next
  case False
  with ap have "unat (agg_level ap) < poplar1_bits V - 1" by (auto simp: fitting_param_def)
  from inner_preparation [OF honest ap this leader] obtain A0 B0 A1 B1 out0 out1 sk0 sk1 x y z where
    r: "st0 = InnerState \<lparr>sketch = RoundOne A0 B0 True, state_output_share = out0\<rparr>" "sh0 = InnerVec sk0"
    "poplar1_prepare_init V vk 1 ap nonce pub share1 =
      Ok (InnerState \<lparr>sketch = RoundOne A1 B1 False, state_output_share = out1\<rparr>, InnerVec sk1)"
    "length out0 = length (agg_prefixes ap)" "length out1 = length (agg_prefixes ap)"
    "map2 (+) out0 out1 = map (\<lambda>p. of_bool (prefix p inp)) (agg_prefixes ap)"
    and v: "length sk0 = 3" "length sk1 = 3" "map2 (+) sk0 sk1 = [x, y, z]" "(A0 + A1) * x + (B0 + B1) + (x * x - y - z) = 0"
    by (elim exE conjE) (rule that)
  have "field_vec_merge (InnerVec out0) (InnerVec out1) = Ok (prefix_counts V ap inp)"
    using r(4-6) False by (simp add: merge_vector_def prefix_counts_def)
  then show ?thesis unfolding r(1,2) by (intro exI conjI) (rule r(3) inner_rounds [OF v])+
qed

end
