(* ===== verification/Poplar1Wire.thy ===== *)
theory Poplar1Wire
  imports Poplar1Run
begin

text \<open>
  Poplar1's messages on the wire: what its leaf field has to promise, the encodings of the messages of preparation, and the
  exchange of messages in the ping-pong topology.
\<close>

section \<open>The field at the leaves\<close>

locale poplar1_leaf = codec "field_encode (leaf_field V)" "field_decode (leaf_field V)" "\<lambda>_. True" "to_bytes (leaf_field V)"
  for V :: "('g::comm_ring_1, 'x, 's) poplar1" +
  assumes leaf_two: "from_integer (leaf_field V) 2 = 2"
    and leaf_size: "ENCODED_SIZE (leaf_field V) \<le> 64"
    and leaf_length: "length (to_bytes (leaf_field V) x) = ENCODED_SIZE (leaf_field V)"
    and leaf_u64: "n < 2 ^ 64 \<Longrightarrow> leaf_to_u64 V (of_nat n) = Ok n"

sublocale fiat_25519 \<subseteq> poplar: poplar1_leaf "new_turboshake128 prim C bits" for prim bits
proof (unfold_locales, unfold new_turboshake128_def poplar1.simps)
  show "from_integer (Field255 C) 2 = 2" using from_integer_255 [of 2] by simp
  show "u64_of_field255 C (of_nat n) = Ok n" if "n < 2 ^ 64" for n
    using that less_trans [OF that p255_bounds(4)] by (simp add: u64_of_255 Rep_of_nat)
  show "length (to_bytes (Field255 C) x) = ENCODED_SIZE (Field255 C)" for x by (simp add: to_bytes_255)
qed (simp_all add: enc_wire dec_wire)

section \<open>Shares and messages of preparation\<close>

text \<open>A share has three elements in the first round and one in the second, of the field of the state.\<close>

definition round_size :: "'f sketch_state \<Rightarrow> nat" where
  "round_size st = (case st of RoundOne _ _ _ \<Rightarrow> 3 | RoundTwo \<Rightarrow> 1)"

fun share_matches :: "'g prepare_state_variant \<Rightarrow> 'g poplar1_field_vec \<Rightarrow> bool" where
  "share_matches (InnerState s) (InnerVec v) \<longleftrightarrow> length v = round_size (sketch s)"
| "share_matches (LeafState s) (LeafVec v) \<longleftrightarrow> length v = round_size (sketch s)"
| "share_matches _ _ \<longleftrightarrow> False"

fun message_matches :: "'g prepare_state_variant \<Rightarrow> 'g prepare_message_variant \<Rightarrow> bool" where
  "message_matches (InnerState s) (SketchInner m) \<longleftrightarrow> sketch s \<noteq> RoundTwo"
| "message_matches (LeafState s) (SketchLeaf m) \<longleftrightarrow> sketch s \<noteq> RoundTwo"
| "message_matches (InnerState s) SketchDone \<longleftrightarrow> sketch s = RoundTwo"
| "message_matches (LeafState s) SketchDone \<longleftrightarrow> sketch s = RoundTwo"
| "message_matches _ _ \<longleftrightarrow> False"

fun states_match :: "'g prepare_state_variant \<Rightarrow> 'g prepare_state_variant \<Rightarrow> bool" where
  "states_match (InnerState s) (InnerState t) \<longleftrightarrow> (sketch s = RoundTwo \<longleftrightarrow> sketch t = RoundTwo)"
| "states_match (LeafState s) (LeafState t) \<longleftrightarrow> (sketch s = RoundTwo \<longleftrightarrow> sketch t = RoundTwo)"
| "states_match _ _ \<longleftrightarrow> False"

fun vec_wire :: "('g, 'x, 's) poplar1 \<Rightarrow> 'g poplar1_field_vec \<Rightarrow> bytes" where
  "vec_wire V (InnerVec v) = concat (map (to_bytes Field64) v)"
| "vec_wire V (LeafVec v) = concat (map (to_bytes (leaf_field V)) v)"

fun message_wire :: "('g, 'x, 's) poplar1 \<Rightarrow> 'g prepare_message_variant \<Rightarrow> bytes" where
  "message_wire V (SketchInner (x, y, z)) = concat (map (to_bytes Field64) [x, y, z])"
| "message_wire V (SketchLeaf (x, y, z)) = concat (map (to_bytes (leaf_field V)) [x, y, z])"
| "message_wire V SketchDone = []"

lemma round_size_if: "round_size st = (if st = RoundTwo then 1 else 3)"
  by (cases st) (simp_all add: round_size_def)

lemma states_match_share: "states_match st st' \<Longrightarrow> share_matches st sh \<Longrightarrow> share_matches st' sh"
  by (cases st; cases st'; cases sh) (auto simp: round_size_if)

lemma states_match_sym: "states_match st st' \<Longrightarrow> states_match st' st"
  by (cases st; cases st') auto

lemma decode_sketch_share_count: "decode_sketch_share F st c = decode_count (field_decode F) (round_size st) c"
  by (cases st) (simp_all add: decode_sketch_share_def round_size_def)

context codec
begin

lemma dec_three:
  assumes "valid x" "valid y" "valid z" "length (pre @ wire x @ wire y @ wire z @ post) < usize_bound"
  shows "and_then (dec (Cursor (pre @ wire x @ wire y @ wire z @ post) (length pre))) (\<lambda>(x, c). and_then (dec c) (\<lambda>(y, c). and_then (dec c) (\<lambda>(z, c).
      Ok (Some (x, y, z), c)))) =
    Ok (Some (x, y, z), Cursor (pre @ wire x @ wire y @ wire z @ post) (length pre + length (wire x) + length (wire y) + length (wire z)))"
  using dec_wire [of x pre "wire y @ wire z @ post"] dec_wire [of y "pre @ wire x" "wire z @ post"] dec_wire [of z "pre @ wire x @ wire y" post] assms
  by (simp add: add.assoc)

end

context poplar1_leaf
begin

lemma dec_sketch:
  assumes "codec (field_encode F) (field_decode F) (\<lambda>_. True) (to_bytes F)" "st \<noteq> RoundTwo"
    "length (pre @ to_bytes F x @ to_bytes F y @ to_bytes F z @ post) < usize_bound"
  shows "decode_sketch F st (Cursor (pre @ to_bytes F x @ to_bytes F y @ to_bytes F z @ post) (length pre)) =
    Ok (Some (x, y, z), Cursor (pre @ to_bytes F x @ to_bytes F y @ to_bytes F z @ post)
      (length pre + length (to_bytes F x) + length (to_bytes F y) + length (to_bytes F z)))"
  using codec.dec_three [OF assms(1) _ _ _ assms(3)] assms(2) by (cases st) (simp_all add: decode_sketch_def)

end

sublocale poplar1_leaf \<subseteq> share: codec "field_vec_encode V" "sketch_vec_decode V st" "share_matches st" "vec_wire V" for st
proof unfold_locales
  fix v bs
  assume m: "share_matches st v"
  show "field_vec_encode V v bs = Ok (bs @ vec_wire V v)"
    by (cases v) (simp_all add: field_vec_encode_def for_each_enc Field64.for_each_enc)
  fix pre post
  assume b: "length (pre @ vec_wire V v @ post) < usize_bound"
  show "sketch_vec_decode V st (Cursor (pre @ vec_wire V v @ post) (length pre)) =
      Ok (v, Cursor (pre @ vec_wire V v @ post) (length pre + length (vec_wire V v)))"
  proof (cases v)
    case (InnerVec xs)
    with m obtain s where "st = InnerState s" "length xs = round_size (sketch s)" by (cases st) auto
    with InnerVec b Field64.decode_count_wire [of xs pre post] show ?thesis
      by (simp add: sketch_vec_decode_def decode_sketch_share_count)
  next
    case (LeafVec xs)
    with m obtain s where "st = LeafState s" "length xs = round_size (sketch s)" by (cases st) auto
    with LeafVec b decode_count_wire [of xs pre post] show ?thesis
      by (simp add: sketch_vec_decode_def decode_sketch_share_count)
  qed
qed

sublocale poplar1_leaf \<subseteq> message: codec "poplar1_message_encode V" "poplar1_message_decode V st" "message_matches st" "message_wire V" for st
proof unfold_locales
  fix m bs
  assume m: "message_matches st m"
  show "poplar1_message_encode V m bs = Ok (bs @ message_wire V m)"
    by (cases m) (auto simp: poplar1_message_encode_def field_encode_def)
  fix pre post
  assume b: "length (pre @ message_wire V m @ post) < usize_bound"
  show "poplar1_message_decode V st (Cursor (pre @ message_wire V m @ post) (length pre)) =
      Ok (m, Cursor (pre @ message_wire V m @ post) (length pre + length (message_wire V m)))"
  proof (cases m)
    case (SketchInner t)
    then obtain x y z where t: "m = SketchInner (x, y, z)" by (cases t) auto
    with m obtain s where "st = InnerState s" "sketch s \<noteq> RoundTwo" by (cases st) auto
    with t b dec_sketch [OF Field64.codec_axioms, of "sketch s" pre x y z post] show ?thesis
      by (simp add: poplar1_message_decode_def message_of_def add.assoc)
  next
    case (SketchLeaf t)
    then obtain x y z where t: "m = SketchLeaf (x, y, z)" by (cases t) auto
    with m obtain s where "st = LeafState s" "sketch s \<noteq> RoundTwo" by (cases st) auto
    with t b dec_sketch [OF codec_axioms, of "sketch s" pre x y z post] show ?thesis
      by (simp add: poplar1_message_decode_def message_of_def add.assoc)
  next
    case SketchDone
    with m show ?thesis by (cases st) (simp_all add: poplar1_message_decode_def decode_sketch_def message_of_def)
  qed
qed

section \<open>The exchange of messages\<close>

text \<open>The invariant of the two aggregators: they are in the same round and hold shares of its size.\<close>

fun in_step :: "('g prepare_state_variant, 'g poplar1_field_vec, 'g poplar1_field_vec) plain \<Rightarrow> bool" where
  "in_step (Preparing l sl h sh) \<longleftrightarrow> states_match l h \<and> share_matches l sl \<and> share_matches h sh"
| "in_step (Prepared lo ho) \<longleftrightarrow> True"

lemma next_message_size:
  assumes "next_message v w = Ok r" "length v = round_size st" "length w = round_size st"
  shows "r = None \<longleftrightarrow> st = RoundTwo"
  using assms(1) assms(2,3) [unfolded round_size_if]
  by (cases "st = RoundTwo") (auto simp: next_message_def merge_vector_def split: if_splits)

lemma combined_matches:
  assumes "share_matches st sl" "share_matches st sh" "poplar1_prepare_shares_to_prepare_message [sl, sh] = Ok m"
  shows "message_matches st m"
proof (cases st)
  case (InnerState s)
  with assms(1,2) obtain v w where vw: "sl = InnerVec v" "sh = InnerVec w" "length v = round_size (sketch s)" "length w = round_size (sketch s)"
    by (cases sl; cases sh) auto
  with assms(3) obtain r where "next_message v w = Ok r" "m = message_of SketchInner r"
    by (auto simp: poplar1_prepare_shares_to_prepare_message_def)
  with next_message_size [OF _ vw(3,4)] InnerState show ?thesis by (cases r) (auto simp: message_of_def)
next
  case (LeafState s)
  with assms(1,2) obtain v w where vw: "sl = LeafVec v" "sh = LeafVec w" "length v = round_size (sketch s)" "length w = round_size (sketch s)"
    by (cases sl; cases sh) auto
  with assms(3) obtain r where "next_message v w = Ok r" "m = message_of SketchLeaf r"
    by (auto simp: poplar1_prepare_shares_to_prepare_message_def)
  with next_message_size [OF _ vw(3,4)] LeafState show ?thesis by (cases r) (auto simp: message_of_def)
qed

lemma next_state:
  assumes "poplar1_prepare_next st m = Ok (Continue st' sh')"
  shows "share_matches st' sh' \<and> (case st of InnerState s \<Rightarrow> st' = InnerState (s\<lparr>sketch := RoundTwo\<rparr>) | LeafState s \<Rightarrow> st' = LeafState (s\<lparr>sketch := RoundTwo\<rparr>))"
  using assms
  by (auto simp: poplar1_prepare_next_def finish_sketch_def case_prod_unfold Let_def round_size_def
      split: prepare_state_variant.splits prepare_message_variant.splits sketch_state.splits)

lemma in_step_preserved:
  assumes "plain_step (poplar1_aggregator V) ap c d" and "in_step c"
  shows "in_step d"
  using assms
proof (cases rule: plain_step.cases)
  case (plain_next sl sh m l l' sl' h h' sh')
  then have n: "poplar1_prepare_next l m = Ok (Continue l' sl')" "poplar1_prepare_next h m = Ok (Continue h' sh')"
    by (simp_all add: poplar1_aggregator_def)
  have "states_match l h" using plain_next assms(2) by simp
  with next_state [OF n(1)] next_state [OF n(2)] have "states_match l' h'" by (cases l; cases h) auto
  with next_state [OF n(1)] next_state [OF n(2)] plain_next show ?thesis by simp
qed simp

lemma in_step_run: "(plain_step (poplar1_aggregator V) ap)\<^sup>*\<^sup>* c d \<Longrightarrow> in_step c \<Longrightarrow> in_step d"
  by (induction rule: rtranclp_induct) (auto intro: in_step_preserved)

context poplar1_leaf
begin

lemma vec_wire_small:
  assumes "share_matches st v"
  shows "length (vec_wire V v) < usize_bound"
proof -
  have "length (concat (map (to_bytes (leaf_field V)) xs)) = length xs * ENCODED_SIZE (leaf_field V)" for xs
    by (induction xs) (simp_all add: leaf_length)
  moreover have "length (concat (map (to_bytes Field64) xs)) = length xs * 8" for xs by (induction xs) simp_all
  ultimately show ?thesis using assms leaf_size by (cases st; cases v) (auto simp: usize_bound_def round_size_if split: if_splits)
qed

lemma message_wire_small: "length (message_wire V m) < usize_bound"
  using leaf_size by (cases m) (auto simp: usize_bound_def leaf_length)

lemma lossless:
  assumes "in_step (Preparing l sl h sh)"
  shows "lossless_preparation (poplar1_aggregator V) ap (Preparing l sl h sh)"
proof
  fix l' sl' h' sh'
  assume "(plain_step (poplar1_aggregator V) ap)\<^sup>*\<^sup>* (Preparing l sl h sh) (Preparing l' sl' h' sh')"
  from in_step_run [OF this assms] have st: "states_match l' h'" "share_matches l' sl'" "share_matches h' sh'" by simp_all
  note cross = states_match_share [OF st(1,2)] states_match_share [OF states_match_sym [OF st(1)] st(3)]
  show "\<exists>b. get_encoded_with_param (prep_share_encode (poplar1_aggregator V)) sl' = Ok b \<and>
      get_decoded_with_param (prep_share_decode (poplar1_aggregator V) h') b = Ok sl'"
    using share.get_roundtrip [OF cross(1) vec_wire_small [OF cross(1)]] by (simp add: poplar1_aggregator_def)
  show "\<exists>b. get_encoded_with_param (prep_share_encode (poplar1_aggregator V)) sh' = Ok b \<and>
      get_decoded_with_param (prep_share_decode (poplar1_aggregator V) l') b = Ok sh'"
    using share.get_roundtrip [OF cross(2) vec_wire_small [OF cross(2)]] by (simp add: poplar1_aggregator_def)
  fix m
  assume "prepare_shares_to_prepare_message (poplar1_aggregator V) ap [sl', sh'] = Ok m"
  then have m: "poplar1_prepare_shares_to_prepare_message [sl', sh'] = Ok m" by (simp add: poplar1_aggregator_def)
  note ml = combined_matches [OF st(2) cross(2) m] and mh = combined_matches [OF cross(1) st(3) m]
  show "\<exists>b. get_encoded_with_param (prep_msg_encode (poplar1_aggregator V)) m = Ok b \<and>
      get_decoded_with_param (prep_msg_decode (poplar1_aggregator V) l') b = Ok m \<and>
      get_decoded_with_param (prep_msg_decode (poplar1_aggregator V) h') b = Ok m"
    using message.get_roundtrip [OF ml message_wire_small] message.get_roundtrip [OF mh message_wire_small]
    by (auto simp: poplar1_aggregator_def)
qed

end

lemma poplar1_init_shape:
  assumes "poplar1_prepare_init V vk i ap nonce pub share = Ok (st, sh)"
  shows "share_matches st sh" "case st of InnerState s \<Rightarrow> unat (agg_level ap) < poplar1_bits V - 1 \<and> sketch s \<noteq> RoundTwo
    | LeafState s \<Rightarrow> \<not> unat (agg_level ap) < poplar1_bits V - 1 \<and> sketch s \<noteq> RoundTwo"
  using assms by (auto simp: poplar1_prepare_init_def eval_and_sketch_def Let_def round_size_def split: if_splits)

lemma prepare_init_in_step:
  assumes "poplar1_prepare_init V vk 0 ap nonce pub share0 = Ok (st0, sh0)" "poplar1_prepare_init V vk 1 ap nonce pub share1 = Ok (st1, sh1)"
  shows "in_step (Preparing st0 sh0 st1 sh1)"
  using poplar1_init_shape [OF assms(1)] poplar1_init_shape [OF assms(2)]
  by (cases st0; cases st1) auto

context poplar1_leaf
begin

theorem exchange:
  assumes shard: "poplar1_shard_with_random V inp nonce idpf_random poplar_random = Ok (pub, [share0, share1])" and ap: "fitting_param V ap"
    and leader: "is_Ok (poplar1_prepare_init V vk 0 ap nonce pub share0)"
  shows "\<exists>ls msg out0 out1. leader_initialized (poplar1_aggregator V) vk ap nonce pub share0 = Ok (ls, msg) \<and>
    (pp_step (poplar1_aggregator V) vk ap nonce pub share1)\<^sup>*\<^sup>* (Opening ls msg) (Stopped (Finished out0) (Finished out1)) \<and>
    field_vec_merge out0 out1 = Ok (prefix_counts V ap inp)"
proof -
  let ?A = "poplar1_aggregator V"
  obtain auths auth_leaf where honest: "poplar1_report V inp nonce pub share0 share1 auths auth_leaf"
    by (rule shard_honest [OF shard]) (auto intro: that)
  from leader obtain st0 sh0 where l: "poplar1_prepare_init V vk 0 ap nonce pub share0 = Ok (st0, sh0)"
    by (cases "poplar1_prepare_init V vk 0 ap nonce pub share0") auto
  from preparation_succeeds [OF honest ap leaf_two l] obtain st1 sh1 out0 out1 where
    h: "poplar1_prepare_init V vk 1 ap nonce pub share1 = Ok (st1, sh1)"
    and run: "(plain_step ?A ap)\<^sup>*\<^sup>* (Preparing st0 sh0 st1 sh1) (Prepared out0 out1)"
    and merge: "field_vec_merge out0 out1 = Ok (prefix_counts V ap inp)" by blast
  note loss = lossless [OF prepare_init_in_step [OF l h], of ap]
  have init: "prepare_init ?A = poplar1_prepare_init V" by (simp add: poplar1_aggregator_def)
  obtain b where "get_encoded_with_param (prep_share_encode ?A) sh0 = Ok b"
    using lossless_preparation.leader_share [OF loss, of st0 sh0 st1 sh1] by auto
  then obtain ls msg where li: "leader_initialized ?A vk ap nonce pub share0 = Ok (ls, msg)"
    using l by (auto simp: leader_initialized_def init)
  have "(pp_step ?A vk ap nonce pub share1)\<^sup>*\<^sup>* (Opening ls msg) (Stopped (Finished out0) (Finished out1))"
    using lossless_preparation.exchange_outputs(1) [OF loss _ _ refl li] l h run by (simp add: init)
  with li merge show ?thesis by blast
qed

end

end
