(* ===== verification/IdpfCodec.thy ===== *)
theory IdpfCodec
  imports IdpfCorrect Vdaf
begin

text \<open>
  The wire format of the public share of \<^verbatim>\<open>src/idpf.rs\<close>: the packed control bits of all levels, followed by the seeds and
  values of the correction words.  The encodings of the values are those of the instance.
\<close>

section \<open>Packed bits\<close>

lemma unpack_byte:
  assumes "length xs \<le> 8"
  shows "map (bit (horner_sum of_bool 2 xs :: byte)) [0..<8] = xs @ replicate (8 - length xs) False"
  using assms by (intro nth_equalityI) (auto simp: bit_horner_sum_bit_iff nth_append)

lemma length_pack: "length (pack_lsb0 bs) = (length bs + 7) div 8"
proof (induction bs rule: length_induct)
  case (1 bs)
  show ?case
  proof (cases "bs = []")
    case False
    then have "pack_lsb0 bs = horner_sum of_bool 2 (take 8 bs) # pack_lsb0 (drop 8 bs)"
      by (subst pack_lsb0_def, subst chunks_step) (simp_all add: pack_lsb0_def)
    moreover have "length (pack_lsb0 (drop 8 bs)) = (length (drop 8 bs) + 7) div 8" using 1 False by (cases bs) simp_all
    moreover have "(length bs + 7) div 8 = Suc ((length bs - 8 + 7) div 8)"
    proof (cases "8 \<le> length bs")
      case True
      then have "length bs + 7 = (length bs - 8 + 7) + 8" by simp
      then show ?thesis by (metis div_add_self2 Suc_eq_plus1 zero_neq_numeral)
    next
      case short: False
      with False have "(length bs + 7) div 8 = 1" by (intro div_nat_eqI) (auto simp: Suc_le_eq)
      with short show ?thesis by simp
    qed
    ultimately show ?thesis by simp
  qed (simp add: pack_lsb0_def)
qed

lemma unpack_pack: "unpack_lsb0 (pack_lsb0 bs) = bs @ replicate (8 * length (pack_lsb0 bs) - length bs) False"
proof (induction bs rule: length_induct)
  case (1 bs)
  show ?case
  proof (cases "bs = []")
    case False
    then have p: "pack_lsb0 bs = horner_sum of_bool 2 (take 8 bs) # pack_lsb0 (drop 8 bs)"
      by (subst pack_lsb0_def, subst chunks_step) (simp_all add: pack_lsb0_def)
    have IH: "unpack_lsb0 (pack_lsb0 (drop 8 bs)) = drop 8 bs @ replicate (8 * length (pack_lsb0 (drop 8 bs)) - length (drop 8 bs)) False"
      using 1 False by (cases bs) simp_all
    have "unpack_lsb0 (pack_lsb0 bs) = take 8 bs @ replicate (8 - length (take 8 bs)) False @ unpack_lsb0 (pack_lsb0 (drop 8 bs))"
      using unpack_byte [of "take 8 bs"] by (simp add: p unpack_lsb0_def)
    also have "\<dots> = bs @ replicate (8 * length (pack_lsb0 bs) - length bs) False"
    proof (cases "8 \<le> length bs")
      case True
      then show ?thesis unfolding IH by (simp add: p add.commute)
    next
      case short: False
      then show ?thesis using False by (simp add: p) (simp add: pack_lsb0_def unpack_lsb0_def)
    qed
    finally show ?thesis .
  qed (simp add: pack_lsb0_def unpack_lsb0_def)
qed

section \<open>Public shares\<close>

definition idpf_cw_fits :: "('v \<Rightarrow> bool) \<Rightarrow> 'v idpf_correction_word \<Rightarrow> bool" where
  "idpf_cw_fits valid cw \<longleftrightarrow> length (cw_seed cw) = 16 \<and> valid (cw_value cw)"

definition idpf_cw_wire :: "('v \<Rightarrow> bytes) \<Rightarrow> 'v idpf_correction_word \<Rightarrow> bytes" where
  "idpf_cw_wire wire cw = cw_seed cw @ wire (cw_value cw)"

definition idpf_share_fits :: "('vi \<Rightarrow> bool) \<Rightarrow> ('vl \<Rightarrow> bool) \<Rightarrow> nat \<Rightarrow> ('vi, 'vl) idpf_public_share \<Rightarrow> bool" where
  "idpf_share_fits valid_i valid_l bits p \<longleftrightarrow> bits = Suc (length (inner_correction_words p)) \<and>
     (\<forall>cw \<in> set (inner_correction_words p). idpf_cw_fits valid_i cw) \<and> idpf_cw_fits valid_l (leaf_correction_word p)"

definition idpf_share_wire :: "('vi \<Rightarrow> bytes) \<Rightarrow> ('vl \<Rightarrow> bytes) \<Rightarrow> ('vi, 'vl) idpf_public_share \<Rightarrow> bytes" where
  "idpf_share_wire wire_i wire_l p = pack_lsb0 (control_bits_list p) @
     concat (map (idpf_cw_wire wire_i) (inner_correction_words p)) @ idpf_cw_wire wire_l (leaf_correction_word p)"

lemma length_control_bits: "length (control_bits_list p) = 2 * Suc (length (inner_correction_words p))"
  by (simp add: control_bits_list_def length_concat comp_def sum_list_triv)

lemma length_pairs: "length (concat (map (\<lambda>x. [f x, g x]) xs)) = 2 * length xs"
  by (induction xs) simp_all

lemma chunks_of_pairs: "chunks 2 (concat (map (\<lambda>x. [f x, g x]) xs)) = map (\<lambda>x. [f x, g x]) xs"
  by (induction xs) (simp_all add: chunks_step)

lemma control_bits_chunks:
  "chunks 2 (take (2 * length (inner_correction_words p)) (control_bits_list p)) =
     map (\<lambda>cw. [fst (cw_control_bits cw), snd (cw_control_bits cw)]) (inner_correction_words p)"
  by (simp add: control_bits_list_def length_pairs chunks_of_pairs)

lemma control_bits_leaf:
  "control_bits_list p ! (2 * length (inner_correction_words p)) = fst (cw_control_bits (leaf_correction_word p))"
  "control_bits_list p ! Suc (2 * length (inner_correction_words p)) = snd (cw_control_bits (leaf_correction_word p))"
  by (simp_all add: control_bits_list_def nth_append length_pairs)

context codec
begin

lemma decode_cw:
  assumes "idpf_cw_fits valid cw" "length (pre @ idpf_cw_wire wire cw @ post) < usize_bound"
  shows "correction_word_decode dec (fst (cw_control_bits cw), snd (cw_control_bits cw)) (Cursor (pre @ idpf_cw_wire wire cw @ post) (length pre)) =
    Ok (cw, Cursor (pre @ idpf_cw_wire wire cw @ post) (length pre + length (idpf_cw_wire wire cw)))"
  using assms seed.dec_wire [of "cw_seed cw" 16 pre "wire (cw_value cw) @ post"] dec_wire [of "cw_value cw" "pre @ cw_seed cw" post]
  by (simp add: correction_word_decode_def idpf_cw_fits_def idpf_cw_wire_def add.assoc)

lemma encode_cws:
  assumes "\<forall>cw \<in> set cws. idpf_cw_fits valid cw"
  shows "for_each (\<lambda>cw bs. and_then (seed_encode (cw_seed cw) bs) (enc (cw_value cw))) cws bs = Ok (bs @ concat (map (idpf_cw_wire wire) cws))"
  using assms by (induction cws arbitrary: bs) (simp_all add: idpf_cw_fits_def idpf_cw_wire_def seed.enc_wire enc_wire)

lemma decode_cws:
  assumes "\<forall>cw \<in> set cws. idpf_cw_fits valid cw" "length (pre @ concat (map (idpf_cw_wire wire) cws) @ post) < usize_bound"
  shows "for_each (\<lambda>chunk (cws, c). and_then (correction_word_decode dec (chunk ! 0, chunk ! 1) c) (\<lambda>(cw, c). Ok (cws @ [cw], c)))
      (map (\<lambda>cw. [fst (cw_control_bits cw), snd (cw_control_bits cw)]) cws)
      (acc, Cursor (pre @ concat (map (idpf_cw_wire wire) cws) @ post) (length pre)) =
    Ok (acc @ cws, Cursor (pre @ concat (map (idpf_cw_wire wire) cws) @ post) (length pre + length (concat (map (idpf_cw_wire wire) cws))))"
  using assms
proof (induction cws arbitrary: pre acc)
  case (Cons cw cws)
  from Cons.prems decode_cw [of cw pre "concat (map (idpf_cw_wire wire) cws) @ post"] Cons.IH [of "pre @ idpf_cw_wire wire cw" "acc @ [cw]"]
  show ?case by (simp add: add.assoc)
qed simp

end

locale idpf_value_codecs = inner: codec enc_i dec_i valid_i wire_i + leaf: codec enc_l dec_l valid_l wire_l
  for enc_i dec_i valid_i wire_i and enc_l dec_l valid_l wire_l

sublocale idpf_value_codecs \<subseteq> codec "public_share_encode enc_i enc_l" "public_share_decode dec_i dec_l bits"
    "idpf_share_fits valid_i valid_l bits" "idpf_share_wire wire_i wire_l" for bits
proof unfold_locales
  fix p bs
  assume fits: "idpf_share_fits valid_i valid_l bits p"
  then show "public_share_encode enc_i enc_l p bs = Ok (bs @ idpf_share_wire wire_i wire_l p)"
    using inner.encode_cws [of "inner_correction_words p" "bs @ pack_lsb0 (control_bits_list p)"]
    by (auto simp: public_share_encode_def idpf_share_fits_def idpf_share_wire_def leaf.enc_wire seed.enc_wire
        idpf_cw_fits_def [of valid_l] idpf_cw_wire_def [of wire_l])
  fix pre post
  assume small: "length (pre @ idpf_share_wire wire_i wire_l p @ post) < usize_bound"
  let ?b = "pack_lsb0 (control_bits_list p)" and ?n = "length (inner_correction_words p)"
  let ?i = "concat (map (idpf_cw_wire wire_i) (inner_correction_words p))" and ?l = "idpf_cw_wire wire_l (leaf_correction_word p)"
  have bits: "bits = Suc ?n" and f: "\<forall>cw \<in> set (inner_correction_words p). idpf_cw_fits valid_i cw" "idpf_cw_fits valid_l (leaf_correction_word p)"
    using fits by (auto simp: idpf_share_fits_def)
  have len: "length ?b = (bits + 3) div 4" by (simp add: length_pack length_control_bits bits) 
  have pad: "unpack_lsb0 ?b = control_bits_list p @ replicate (8 * length ?b - 2 * bits) False"
    using unpack_pack [of "control_bits_list p"] by (simp add: length_control_bits bits)
  have first: "chunks 2 (take ((bits - 1) * 2) (unpack_lsb0 ?b)) =
      map (\<lambda>cw. [fst (cw_control_bits cw), snd (cw_control_bits cw)]) (inner_correction_words p)"
    using control_bits_chunks [of p] by (simp add: pad bits length_control_bits mult.commute)
  have leaf_bits: "unpack_lsb0 ?b ! ((bits - 1) * 2) = fst (cw_control_bits (leaf_correction_word p))"
    "unpack_lsb0 ?b ! (bits * 2 - 1) = snd (cw_control_bits (leaf_correction_word p))"
    using control_bits_leaf [of p] by (simp_all add: pad bits nth_append length_control_bits mult.commute)
  have rest: "True \<notin> set (drop (bits * 2) (unpack_lsb0 ?b))" by (simp add: pad length_control_bits bits)
  show "public_share_decode dec_i dec_l bits (Cursor (pre @ idpf_share_wire wire_i wire_l p @ post) (length pre)) =
      Ok (p, Cursor (pre @ idpf_share_wire wire_i wire_l p @ post) (length pre + length (idpf_share_wire wire_i wire_l p)))"
    using small inner.decode_cws [OF f(1), of "pre @ ?b" "?l @ post" "[]"] leaf.decode_cw [OF f(2), of "pre @ ?b @ ?i" post]
      first leaf_bits rest len bits
    by (simp add: public_share_decode_def idpf_share_wire_def read_exact_def Let_def add.assoc)
qed

end
