(* ===== verification/Poplar1Execution.thy ===== *)
theory Poplar1Execution
  imports Poplar1Report
begin

text \<open>
  A complete execution of Poplar1: every message is encoded by its sender and decoded by its receiver, and the collector
  obtains the number of measurements under each prefix.
\<close>

definition poplar1_vdaf ::
  "('g::comm_ring_1, 'x, 's) poplar1 \<Rightarrow>
   (poplar1_aggregation_param, 'g poplar1_public_share, 'g poplar1_input_share, 'g prepare_state_variant, 'g poplar1_field_vec,
    'g prepare_message_variant, 'g poplar1_field_vec, 'g poplar1_field_vec, nat list) vdaf" where
  "poplar1_vdaf V = \<lparr>
     prepare_init = prepare_init (poplar1_aggregator V),
     prepare_shares_to_prepare_message = prepare_shares_to_prepare_message (poplar1_aggregator V),
     prepare_next = prepare_next (poplar1_aggregator V),
     prep_share_encode = prep_share_encode (poplar1_aggregator V), prep_share_decode = prep_share_decode (poplar1_aggregator V),
     prep_msg_encode = prep_msg_encode (poplar1_aggregator V), prep_msg_decode = prep_msg_decode (poplar1_aggregator V),
     vdaf_num_aggregators = 2,
     pub_encode = poplar1_public_share_encode V, pub_decode = poplar1_public_share_decode V,
     inp_encode = poplar1_input_share_encode V, inp_decode = poplar1_input_share_decode V,
     out_encode = field_vec_encode V, out_decode = field_vec_decode V,
     agg_encode = field_vec_encode V, agg_decode = field_vec_decode V,
     agg_from = (\<lambda>out. out), agg_merge = field_vec_merge, unshard = poplar1_unshard V \<rparr>"

lemmas poplar1_methods = poplar1_vdaf_def poplar1_aggregator_def

section \<open>Aggregation parameters\<close>

lemma input_order: "input_less_eq p p" "input_less_eq p q \<or> input_less_eq q p" "input_less_eq p q \<Longrightarrow> input_less_eq q r \<Longrightarrow> input_less_eq p r"
proof -
  show "input_less_eq p p" for p by (induction p) simp_all
  show "input_less_eq p q \<or> input_less_eq q p" by (induction p q rule: input_less_eq.induct) auto
  show "input_less_eq p q \<Longrightarrow> input_less_eq q r \<Longrightarrow> input_less_eq p r"
  proof (induction p q arbitrary: r rule: input_less_eq.induct)
    case (3 x xs y ys)
    then show ?case by (cases r) (auto split: if_splits)
  qed auto
qed

abbreviation input_less :: "idpf_input \<Rightarrow> idpf_input \<Rightarrow> bool" where
  "input_less p q \<equiv> \<not> input_less_eq q p"

lemma input_less_trans: "input_less p q \<Longrightarrow> input_less q r \<Longrightarrow> input_less p r"
  using input_order(2,3) by blast

lemma prefixes_loop:
  "for_each (prefix_step len) pfxs lst = Ok r \<longleftrightarrow>
     (\<forall>p \<in> set pfxs. length p = len) \<and> sorted_wrt input_less (case lst of None \<Rightarrow> pfxs | Some prev \<Rightarrow> prev # pfxs) \<and>
     r = (if pfxs = [] then lst else Some (last pfxs))"
proof (induction pfxs arbitrary: lst)
  case Nil
  show ?case by (auto split: option.splits)
next
  case (Cons p pfxs)
  have step: "prefix_step len p lst = (if length p = len \<and> (case lst of None \<Rightarrow> True | Some prev \<Rightarrow> input_less prev p) then Ok (Some p) else Err Uncategorized)"
    by (simp add: prefix_step_def split: option.splits)
  have "sorted_wrt input_less (prev # p # pfxs) \<longleftrightarrow> input_less prev p \<and> sorted_wrt input_less (p # pfxs)" for prev
    using input_less_trans by auto
  then show ?case using Cons.IH [of "Some p"] by (auto simp: step split: option.splits)
qed

lemma sorted_distinct: "sorted_wrt input_less ps \<Longrightarrow> distinct ps"
  using input_order(1) by (induction ps) auto

text \<open>Exactly the non-empty, strictly ascending lists of prefixes of one length, within the bounds, are accepted.\<close>

lemma try_from_prefixes_Ok_iff:
  "try_from_prefixes pfxs = Ok ap \<longleftrightarrow>
     agg_prefixes ap = pfxs \<and> pfxs \<noteq> [] \<and> length pfxs < 2 ^ 32 \<and> sorted_wrt input_less pfxs \<and>
     (\<forall>p \<in> set pfxs. length p = Suc (unat (agg_level ap)))"
proof -
  define len where "len = length (pfxs ! 0)"
  have "try_from_prefixes pfxs = Ok ap \<longleftrightarrow> pfxs \<noteq> [] \<and> length pfxs < 2 ^ 32 \<and> (\<forall>p \<in> set pfxs. length p = len) \<and> sorted_wrt input_less pfxs \<and>
      1 \<le> len \<and> len - 1 < 2 ^ 16 \<and> ap = \<lparr>agg_level = of_nat (len - 1), agg_prefixes = pfxs\<rparr>"
    unfolding try_from_prefixes_def Let_def len_def [symmetric] by (auto simp: prefixes_loop not_le not_less Suc_le_eq simp del: One_nat_def)
  also have "\<dots> \<longleftrightarrow> agg_prefixes ap = pfxs \<and> pfxs \<noteq> [] \<and> length pfxs < 2 ^ 32 \<and> sorted_wrt input_less pfxs \<and>
     (\<forall>p \<in> set pfxs. length p = Suc (unat (agg_level ap)))" (is "?l \<longleftrightarrow> ?r")
  proof
    assume l: ?l
    then obtain n where "len = Suc n" by (cases len) auto
    with l show ?r by (auto simp: unsigned_of_nat take_bit_nat_eq_self)
  next
    assume r: ?r
    then have len: "len = Suc (unat (agg_level ap))" by (simp add: len_def)
    moreover have "unat (agg_level ap) < 2 ^ 16" using unsigned_less [of "agg_level ap", where 'a = nat] by simp
    ultimately show ?l using r by (cases ap) auto
  qed
  finally show ?thesis .
qed

section \<open>Preparation\<close>

lemma shard_seeds:
  assumes "poplar1_shard_with_random V inp nonce (k0, k1) (s0, s1, s) = Ok (pub, [share0, share1])"
  shows "idpf_key share0 = k0" "idpf_key share1 = k1" "corr_seed share0 = s0" "corr_seed share1 = s1"
proof -
  from assms obtain vs lv j0 j1 where gen: "gen_with_random (poplar1_prim V) (poplar1_idpf V) inp vs lv nonce (k0, k1) = Ok (pub, j0, j1)"
    and sh: "idpf_key share0 = j0" "idpf_key share1 = j1" "corr_seed share0 = s0" "corr_seed share1 = s1"
    unfolding poplar1_shard_with_random_def Let_def by (auto split: if_splits)
  from gen_with_random_keys [OF gen] sh show "idpf_key share0 = k0" "idpf_key share1 = k1" "corr_seed share0 = s0" "corr_seed share1 = s1"
    by simp_all
qed

lemma merged_fits:
  assumes "field_vec_merge out0 out1 = Ok (prefix_counts V ap inp)" "poplar1_bits V \<noteq> 0"
  shows "output_fits V ap out0" "output_fits V ap out1"
  using assms by (cases out0; cases out1; auto simp: prefix_counts_def merge_vector_def dest!: arg_cong [where f = length] split: if_splits)+

text \<open>The seeds that a client draws are arrays of fixed sizes.\<close>

definition sized_randomness :: "('g, 'x, 's) poplar1 \<Rightarrow> (seed \<times> seed) \<times> seed \<times> seed \<times> seed \<Rightarrow> bool" where
  "sized_randomness V = (\<lambda>((k0, k1), s0, s1, s). length k0 = 16 \<and> length k1 = 16 \<and>
     length s0 = SEED_SIZE (poplar1_xof V) \<and> length s1 = SEED_SIZE (poplar1_xof V))"

context poplar1_leaf
begin

text \<open>The rounds of the driver follow those of the two aggregators.\<close>

lemma driver_rounds:
  assumes "(plain_step (poplar1_aggregator V) ap)\<^sup>*\<^sup>* c (Prepared lo ho)" and "c = Preparing l sl h sh" and "in_step c"
  shows "\<exists>me. combine_messages (poplar1_vdaf V) ap [l, h] [vec_wire V sl, vec_wire V sh] = Ok me \<and>
    prepare_rounds (poplar1_vdaf V) ap me [l, h] [] = Some (Ok [lo, ho])"
  using assms
proof (induction arbitrary: l sl h sh rule: converse_rtranclp_induct)
  case (step c d)
  let ?P = "poplar1_vdaf V"
  have st: "states_match l h" "share_matches l sl" "share_matches h sh" using step.prems by simp_all
  note cross = states_match_share [OF st(1,2)] states_match_share [OF states_match_sym [OF st(1)] st(3)]
  note shares = share.get_roundtrip [OF st(2) vec_wire_small [OF st(2)]] share.get_roundtrip [OF cross(2) vec_wire_small [OF cross(2)]]
  have enc: "get_encoded_with_param (field_vec_encode V) v = Ok (vec_wire V v)" if "share_matches s v" for s v
    using share.enc_wire [OF that, of "[]"] by (simp add: get_encoded_with_param_def)
  have dec: "get_decoded_with_param (sketch_vec_decode V l) (vec_wire V sl) = Ok sl" "get_decoded_with_param (sketch_vec_decode V l) (vec_wire V sh) = Ok sh"
    using shares enc [OF st(2)] enc [OF cross(2)] by simp_all
  have message: "get_encoded_with_param (poplar1_message_encode V) m = Ok (message_wire V m) \<and>
      get_decoded_with_param (poplar1_message_decode V s) (message_wire V m) = Ok m" if "message_matches s m" for s m
    using message.get_roundtrip [OF that message_wire_small] message.enc_wire [OF that, of "[]"] by (simp add: get_encoded_with_param_def)
  from step.hyps(1) [unfolded step.prems(1)] show ?case
  proof (cases rule: plain_step_Preparing)
    case (more m l' sl' h' sh')
    have m: "poplar1_prepare_shares_to_prepare_message [sl, sh] = Ok m" using more(2) by (simp add: poplar1_aggregator_def)
    note ml = message [OF combined_matches [OF st(2) cross(2) m]] and mh = message [OF combined_matches [OF cross(1) st(3) m]]
    have "in_step d" using step.hyps(1) step.prems(2) by (rule in_step_preserved)
    then have d: "share_matches l' sl'" "share_matches h' sh'" using more(1) by simp_all
    from step.IH [OF more(1) \<open>in_step d\<close>] obtain me where
      me: "combine_messages ?P ap [l', h'] [vec_wire V sl', vec_wire V sh'] = Ok me" "prepare_rounds ?P ap me [l', h'] [] = Some (Ok [lo, ho])" by blast
    have comb: "combine_messages ?P ap [l, h] [vec_wire V sl, vec_wire V sh] = Ok (message_wire V m)"
      using m ml dec by (simp add: combine_messages_def poplar1_methods)
    have "prepare_round ?P (message_wire V m) [l, h] [] = Ok ([l', h'], [vec_wire V sl', vec_wire V sh'], [])"
      using more(3,4) ml mh enc [OF d(1)] enc [OF d(2)] by (simp add: prepare_round_def poplar1_methods)
    then have "prepare_rounds ?P ap (message_wire V m) [l, h] [] = Some (Ok [lo, ho])"
      using me by (subst prepare_rounds.simps) (simp add: poplar1_vdaf_def [where V = V])
    with comb show ?thesis by blast
  next
    case (last m lo' ho')
    have m: "poplar1_prepare_shares_to_prepare_message [sl, sh] = Ok m" using last(2) by (simp add: poplar1_aggregator_def)
    note ml = message [OF combined_matches [OF st(2) cross(2) m]] and mh = message [OF combined_matches [OF cross(1) st(3) m]]
    have same: "lo' = lo" "ho' = ho" using step.hyps(2) last(1) by (auto elim: converse_rtranclpE plain_step_PreparedE)
    have comb: "combine_messages ?P ap [l, h] [vec_wire V sl, vec_wire V sh] = Ok (message_wire V m)"
      using m ml dec by (simp add: combine_messages_def poplar1_methods)
    have "prepare_round ?P (message_wire V m) [l, h] [] = Ok ([l, h], [], [lo, ho])"
      using last(3,4) ml mh same by (simp add: prepare_round_def poplar1_methods)
    then have "prepare_rounds ?P ap (message_wire V m) [l, h] [] = Some (Ok [lo, ho])"
      by (subst prepare_rounds.simps) (simp add: poplar1_vdaf_def)
    with comb show ?thesis by blast
  qed
qed simp

lemma wire_lengths:
  assumes small: "poplar1_bits V \<le> 2 ^ 32" "SEED_SIZE (poplar1_xof V) \<le> 2 ^ 32"
  shows "idpf_share_fits (\<lambda>_. True) (\<lambda>_. True) (poplar1_bits V) p \<Longrightarrow>
      length (idpf_share_wire (pair_wire Field64) (pair_wire (leaf_field V)) p) < usize_bound"
    and "input_fits V share \<Longrightarrow> length (input_wire V share) < usize_bound"
    and "length (agg_prefixes ap) \<le> 2 ^ 32 \<Longrightarrow> output_fits V ap v \<Longrightarrow> length (vec_wire V v) < usize_bound"
proof -
  have pair: "length (pair_wire Field64 x) = 16" "length (pair_wire (leaf_field V) y) \<le> 128" for x y
    using leaf_size by (simp_all add: pair_wire_def leaf_length)
  have const: "length (concat (map f xs)) = k * length xs" if "\<forall>x \<in> set xs. length (f x) = k" for k :: nat and f :: "'z \<Rightarrow> bytes" and xs
    using that by (induction xs) simp_all
  show "length (idpf_share_wire (pair_wire Field64) (pair_wire (leaf_field V)) p) < usize_bound"
    if fits: "idpf_share_fits (\<lambda>_. True) (\<lambda>_. True) (poplar1_bits V) p"
  proof -
    let ?n = "length (inner_correction_words p)"
    have "length (concat (map (idpf_cw_wire (pair_wire Field64)) (inner_correction_words p))) = 32 * ?n"
      using fits by (intro const) (simp add: idpf_share_fits_def idpf_cw_fits_def idpf_cw_wire_def pair)
    moreover have "length (idpf_cw_wire (pair_wire (leaf_field V)) (leaf_correction_word p)) \<le> 144"
      using fits pair(2) [of "cw_value (leaf_correction_word p)"] by (simp add: idpf_share_fits_def idpf_cw_fits_def idpf_cw_wire_def)
    moreover have "length (pack_lsb0 (control_bits_list p)) \<le> 2 * Suc ?n + 7"
      unfolding length_pack length_control_bits by (rule div_le_dividend)
    ultimately have "length (idpf_share_wire (pair_wire Field64) (pair_wire (leaf_field V)) p) \<le> 34 * Suc ?n + 200" by (simp add: idpf_share_wire_def)
    also have "\<dots> < usize_bound" using fits small(1) by (simp add: idpf_share_fits_def usize_bound_def)
    finally show ?thesis .
  qed
  show "length (input_wire V share) < usize_bound" if fits: "input_fits V share"
  proof -
    have "length (concat (map (pair_wire Field64) (corr_inner share))) = 16 * length (corr_inner share)" by (intro const) (simp add: pair)
    then show ?thesis using fits small pair(2) [of "corr_leaf share"] by (simp add: input_wire_def input_fits_def usize_bound_def)
  qed
  show "length (vec_wire V v) < usize_bound" if "length (agg_prefixes ap) \<le> 2 ^ 32" and fits: "output_fits V ap v"
  proof (cases v)
    case (InnerVec xs)
    have "length (concat (map (to_bytes Field64) xs)) = 8 * length xs" by (intro const) simp
    with that InnerVec show ?thesis by (simp add: usize_bound_def)
  next
    case (LeafVec xs)
    have "length (concat (map (to_bytes (leaf_field V)) xs)) = ENCODED_SIZE (leaf_field V) * length xs" by (intro const) (simp add: leaf_length)
    moreover have "ENCODED_SIZE (leaf_field V) * length xs \<le> 64 * 2 ^ 32" using that LeafVec leaf_size by (intro mult_le_mono) simp_all
    ultimately show ?thesis using LeafVec by (simp add: usize_bound_def)
  qed
qed

lemma report_prepared:
  assumes small: "poplar1_bits V \<le> 2 ^ 32" "SEED_SIZE (poplar1_xof V) \<le> 2 ^ 32" "length (agg_prefixes ap) \<le> 2 ^ 32" and ap: "fitting_param V ap"
    and rnd: "sized_randomness V (idpf_random, poplar_random)"
    and shard: "poplar1_shard_with_random V inp nonce idpf_random poplar_random = Ok (pub, shares)"
    and leader: "is_Ok (poplar1_prepare_init V vk 0 ap nonce pub (shares ! 0))"
  shows "\<exists>out0 out1. run_vdaf_prepare (poplar1_vdaf V) vk ap nonce pub shares = Ok [out0, out1] \<and>
    field_vec_merge out0 out1 = Ok (prefix_counts V ap inp) \<and> output_fits V ap out0 \<and> output_fits V ap out1"
proof -
  let ?P = "poplar1_vdaf V"
  obtain k0 k1 s0 s1 s where r: "idpf_random = (k0, k1)" "poplar_random = (s0, s1, s)" by (metis prod.exhaust)
  obtain share0 share1 auths auth_leaf where sh: "shares = [share0, share1]" and honest: "poplar1_report V inp nonce pub share0 share1 auths auth_leaf"
    by (rule shard_honest [OF shard])
  from leader sh obtain st0 sh0 where l: "poplar1_prepare_init V vk 0 ap nonce pub share0 = Ok (st0, sh0)"
    by (cases "poplar1_prepare_init V vk 0 ap nonce pub share0") auto
  from preparation_succeeds [OF honest ap leaf_two l] obtain st1 sh1 out0 out1 where
    h: "poplar1_prepare_init V vk 1 ap nonce pub share1 = Ok (st1, sh1)"
    and run: "(plain_step (poplar1_aggregator V) ap)\<^sup>*\<^sup>* (Preparing st0 sh0 st1 sh1) (Prepared out0 out1)"
    and merge: "field_vec_merge out0 out1 = Ok (prefix_counts V ap inp)" by blast
  have bits: "poplar1_bits V \<noteq> 0" using ap by (auto simp: fitting_param_def)
  note seeds = shard_seeds [OF shard [unfolded r sh]]
  have fits: "input_fits V share0" "input_fits V share1"
    using rnd honest seeds r bits by (auto simp: input_fits_def sized_randomness_def poplar1_report_def)
  note pub = report_public_share [OF honest]
  have p: "and_then (get_encoded_with_param (poplar1_public_share_encode V) pub) (get_decoded_with_param (poplar1_public_share_decode V)) = Ok pub"
    using pub.get_roundtrip [OF pub wire_lengths(1) [OF small(1,2) pub]]
    by (simp add: poplar1_public_share_encode_def poplar1_public_share_decode_def get_decoded_with_param_def)
  note i = inp.get_roundtrip [OF fits(1) wire_lengths(2) [OF small(1,2) fits(1)], of 0] inp.get_roundtrip [OF fits(2) wire_lengths(2) [OF small(1,2) fits(2)], of 1]
  have enc: "get_encoded_with_param (field_vec_encode V) v = Ok (vec_wire V v)" if "share_matches s v" for s v
    using share.enc_wire [OF that, of "[]"] by (simp add: get_encoded_with_param_def)
  from driver_rounds [OF run refl prepare_init_in_step [OF l h]] obtain me where
    me: "combine_messages ?P ap [st0, st1] [vec_wire V sh0, vec_wire V sh1] = Ok me" "prepare_rounds ?P ap me [st0, st1] [] = Some (Ok [out0, out1])" by blast
  have "run_vdaf_prepare ?P vk ap nonce pub shares = Ok [out0, out1]"
    using p i l h enc [OF poplar1_init_shape(1) [OF l]] enc [OF poplar1_init_shape(1) [OF h]] me
    by (auto simp: run_vdaf_prepare_def sh poplar1_vdaf_def [where V = V] poplar1_aggregator_def numeral_2_eq_2)
  with merge merged_fits [OF merge bits] show ?thesis by blast
qed

end

section \<open>Aggregation\<close>

definition prefix_total :: "idpf_input list \<Rightarrow> idpf_input \<Rightarrow> nat" where
  "prefix_total inps p = length (filter (prefix p) inps)"

definition total_counts :: "('g::comm_ring_1, 'x, 's) poplar1 \<Rightarrow> poplar1_aggregation_param \<Rightarrow> idpf_input list \<Rightarrow> 'g poplar1_field_vec" where
  "total_counts V ap inps =
     (if unat (agg_level ap) = poplar1_bits V - 1 then LeafVec (map (of_nat \<circ> prefix_total inps) (agg_prefixes ap))
      else InnerVec (map (of_nat \<circ> prefix_total inps) (agg_prefixes ap)))"

lemma total_single: "total_counts V ap [inp] = prefix_counts V ap inp"
  by (simp add: total_counts_def prefix_counts_def prefix_total_def of_bool_def)

lemma map2_exchange:
  fixes a b c d :: "'f::comm_ring_1 list"
  assumes "length a = n" "length b = n" "length c = n" "length d = n"
  shows "map2 (+) (map2 (+) a c) (map2 (+) b d) = map2 (+) (map2 (+) a b) (map2 (+) c d)"
  using assms by (intro nth_equalityI) simp_all

lemma map2_totals:
  "map2 (+) (map (of_nat \<circ> prefix_total inps) ps) (map (of_nat \<circ> prefix_total js) ps) =
     (map (of_nat \<circ> prefix_total (inps @ js)) ps :: 'f::comm_ring_1 list)"
  by (induction ps) (simp_all add: prefix_total_def)

lemma merge_totals:
  assumes fits: "output_fits V ap a0" "output_fits V ap a1" "output_fits V ap o0" "output_fits V ap o1"
    and agg: "field_vec_merge a0 a1 = Ok (total_counts V ap inps)" and out: "field_vec_merge o0 o1 = Ok (total_counts V ap js)"
  shows "\<exists>b0 b1. field_vec_merge a0 o0 = Ok b0 \<and> field_vec_merge a1 o1 = Ok b1 \<and> output_fits V ap b0 \<and> output_fits V ap b1 \<and>
    field_vec_merge b0 b1 = Ok (total_counts V ap (inps @ js))"
proof (cases "unat (agg_level ap) = poplar1_bits V - 1")
  case True
  with fits obtain x0 x1 y0 y1 where v: "a0 = LeafVec x0" "a1 = LeafVec x1" "o0 = LeafVec y0" "o1 = LeafVec y1"
    by (cases a0; cases a1; cases o0; cases o1) auto
  with fits map2_exchange [of x0 "length (agg_prefixes ap)" x1 y0 y1] agg out True map2_totals [of inps "agg_prefixes ap" js] show ?thesis
    by (simp add: merge_vector_def total_counts_def)
next
  case False
  with fits obtain x0 x1 y0 y1 where v: "a0 = InnerVec x0" "a1 = InnerVec x1" "o0 = InnerVec y0" "o1 = InnerVec y1"
    by (cases a0; cases a1; cases o0; cases o1) auto
  with fits map2_exchange [of x0 "length (agg_prefixes ap)" x1 y0 y1] agg out False map2_totals [of inps "agg_prefixes ap" js] show ?thesis
    by (simp add: merge_vector_def total_counts_def)
qed

text \<open>The aggregate shares after a number of reports.\<close>

definition poplar1_aggregated :: "('g::comm_ring_1, 'x, 's) poplar1 \<Rightarrow> poplar1_aggregation_param \<Rightarrow> idpf_input list \<Rightarrow> 'g poplar1_field_vec option list \<Rightarrow> bool" where
  "poplar1_aggregated V ap inps aggs \<longleftrightarrow>
     (if inps = [] then aggs = [None, None]
      else \<exists>a0 a1. aggs = [Some a0, Some a1] \<and> output_fits V ap a0 \<and> output_fits V ap a1 \<and> field_vec_merge a0 a1 = Ok (total_counts V ap inps))"

lemma map2_zero: "length v = n \<Longrightarrow> map2 (+) (replicate n 0) v = (v :: 'f::comm_ring_1 list)"
  by (intro nth_equalityI) simp_all

lemma unshard_totals:
  assumes fits: "output_fits V ap a0" "output_fits V ap a1" and agg: "field_vec_merge a0 a1 = Ok (total_counts V ap inps)"
  shows "poplar1_unshard V ap [a0, a1] n =
    (case total_counts V ap inps of
       InnerVec v \<Rightarrow> Ok (map (to_integer Field64) v)
     | LeafVec v \<Rightarrow> for_each (\<lambda>x acc. and_then (map_err VdafField (leaf_to_u64 V x)) (\<lambda>n. Ok (acc @ [n]))) v [])"
proof -
  have acc: "field_vec_accumulate a b = field_vec_merge a b" for a b :: "'a poplar1_field_vec"
    by (cases a; cases b) simp_all
  have zero: "field_vec_merge (field_vec_zero (unat (agg_level ap) = poplar1_bits V - 1) (length (agg_prefixes ap))) a0 = Ok a0"
    using fits(1) by (cases a0) (auto simp: field_vec_zero_def merge_vector_def map2_zero)
  have "poplar1_bits V \<noteq> 0" using fits(1) by (cases a0) simp_all
  with zero agg show ?thesis by (simp add: poplar1_unshard_def poplar1_aggregate_shares_def acc)
qed

context poplar1_leaf
begin

lemma aggregated_step:
  assumes small: "length (agg_prefixes ap) \<le> 2 ^ 32" "poplar1_bits V \<le> 2 ^ 32" "SEED_SIZE (poplar1_xof V) \<le> 2 ^ 32"
    and agg: "poplar1_aggregated V ap inps aggs"
    and out: "output_fits V ap o0" "output_fits V ap o1" "field_vec_merge o0 o1 = Ok (prefix_counts V ap inp)"
  shows "\<exists>aggs'. add_out_shares (poplar1_vdaf V) ap [o0, o1] aggs = Ok aggs' \<and> poplar1_aggregated V ap (inps @ [inp]) aggs'"
proof -
  have rt: "assert_round_trip (field_vec_encode V) (field_vec_decode V ap) v = Ok ()" if "output_fits V ap v" for v
    using out.get_roundtrip [OF that wire_lengths(3) [OF small(2,3,1) that]] by (rule assert_round_trip_Ok)
  note single = out(3) [folded total_single]
  show ?thesis
  proof (cases "inps = []")
    case True
    with agg out single rt show ?thesis by (simp add: poplar1_aggregated_def add_out_shares_def poplar1_vdaf_def)
  next
    case False
    with agg obtain a0 a1 where a: "aggs = [Some a0, Some a1]" "output_fits V ap a0" "output_fits V ap a1" "field_vec_merge a0 a1 = Ok (total_counts V ap inps)"
      by (auto simp: poplar1_aggregated_def)
    from merge_totals [OF a(2,3) out(1,2) a(4) single] obtain b0 b1 where "field_vec_merge a0 o0 = Ok b0" "field_vec_merge a1 o1 = Ok b1"
      "output_fits V ap b0" "output_fits V ap b1" "field_vec_merge b0 b1 = Ok (total_counts V ap (inps @ [inp]))" by blast
    with a(1) out rt show ?thesis by (simp add: poplar1_aggregated_def add_out_shares_def poplar1_vdaf_def)
  qed
qed

lemma sharded_totals:
  assumes small: "length (agg_prefixes ap) \<le> 2 ^ 32" "poplar1_bits V \<le> 2 ^ 32" "SEED_SIZE (poplar1_xof V) \<le> 2 ^ 32"
    and ne: "sharded \<noteq> []" and len: "length inps = length sharded"
    and prepared: "\<And>k pub nonce shares. k < length sharded \<Longrightarrow> sharded ! k = (pub, nonce, shares) \<Longrightarrow> \<exists>o0 o1. run_vdaf_prepare (poplar1_vdaf V) vk ap nonce pub shares = Ok [o0, o1] \<and>
      output_fits V ap o0 \<and> output_fits V ap o1 \<and> field_vec_merge o0 o1 = Ok (prefix_counts V ap (inps ! k))"
  shows "\<exists>a0 a1. run_vdaf_sharded (poplar1_vdaf V) vk ap sharded = poplar1_unshard V ap [a0, a1] (length sharded) \<and>
    output_fits V ap a0 \<and> output_fits V ap a1 \<and> field_vec_merge a0 a1 = Ok (total_counts V ap inps)"
proof -
  let ?P = "poplar1_vdaf V"
  let ?step = "\<lambda>(public_share, nonce, input_shares) (agg_shares, num_measurements).
         and_then (run_vdaf_prepare ?P vk ap nonce public_share input_shares) (\<lambda>out_shares.
         and_then (add_out_shares ?P ap out_shares agg_shares) (\<lambda>agg_shares.
           Ok (agg_shares, num_measurements + 1)))"
  have all: "\<exists>aggs. for_each ?step (take k sharded) ([None, None], 0) = Ok (aggs, k) \<and> poplar1_aggregated V ap (take k inps) aggs"
    if "k \<le> length sharded" for k
    using that
  proof (induction k)
    case 0
    show ?case by (simp add: poplar1_aggregated_def)
  next
    case (Suc k)
    then obtain aggs where aggs: "for_each ?step (take k sharded) ([None, None], 0) = Ok (aggs, k)" "poplar1_aggregated V ap (take k inps) aggs" by auto
    obtain pub nonce shares where r: "sharded ! k = (pub, nonce, shares)" by (metis prod.exhaust)
    from prepared [OF _ r] Suc.prems obtain o0 o1 where o: "run_vdaf_prepare ?P vk ap nonce pub shares = Ok [o0, o1]" "output_fits V ap o0" "output_fits V ap o1"
      "field_vec_merge o0 o1 = Ok (prefix_counts V ap (inps ! k))" by auto
    obtain aggs' where "add_out_shares ?P ap [o0, o1] aggs = Ok aggs'" "poplar1_aggregated V ap (take k inps @ [inps ! k]) aggs'"
      using aggregated_step [OF small aggs(2) o(2-4)] by blast
    with aggs(1) o(1) Suc.prems r len show ?case by (simp add: take_Suc_conv_app_nth for_each_snoc)
  qed
  have "inps \<noteq> []" using ne len by auto
  with all [of "length sharded"] len obtain a0 a1 where loop: "for_each ?step sharded ([None, None], 0) = Ok ([Some a0, Some a1], length sharded)"
    and a: "output_fits V ap a0" "output_fits V ap a1" "field_vec_merge a0 a1 = Ok (total_counts V ap inps)"
    by (auto simp: poplar1_aggregated_def)
  have rt: "assert_round_trip (field_vec_encode V) (field_vec_decode V ap) v = Ok ()" if "output_fits V ap v" for v
    using out.get_roundtrip [OF that wire_lengths(3) [OF small(2,3,1) that]] by (rule assert_round_trip_Ok)
  have methods: "vdaf_num_aggregators ?P = 2" "agg_encode ?P = field_vec_encode V" "agg_decode ?P = field_vec_decode V" "unshard ?P = poplar1_unshard V"
    by (simp_all add: poplar1_vdaf_def)
  have "run_vdaf_sharded ?P vk ap sharded = poplar1_unshard V ap [a0, a1] (length sharded)"
    using loop rt [OF a(1)] rt [OF a(2)] by (simp add: run_vdaf_sharded_def methods numeral_2_eq_2)
  with a show ?thesis by blast
qed

lemma unshard_result:
  assumes few: "length inps < modulus Field64" and fits: "output_fits V ap a0" "output_fits V ap a1"
    and agg: "field_vec_merge a0 a1 = Ok (total_counts V ap inps)"
  shows "poplar1_unshard V ap [a0, a1] n = Ok (map (prefix_total inps) (agg_prefixes ap))"
proof -
  have bound: "prefix_total inps p < modulus Field64" for p
    using le_less_trans [OF length_filter_le few] by (simp add: prefix_total_def)
  then have "prefix_total inps p < 2 ^ 64" for p using less_trans [OF bound Field64.modulus_bits(2), of p] by simp
  then have "for_each (\<lambda>x acc. and_then (map_err VdafField (leaf_to_u64 V x)) (\<lambda>n. Ok (acc @ [n]))) (map (of_nat \<circ> prefix_total inps) ps) acc =
      Ok (acc @ map (prefix_total inps) ps)" for ps acc
    by (induction ps arbitrary: acc) (simp_all add: leaf_u64)
  with bound show ?thesis
    by (simp add: unshard_totals [OF fits agg] total_counts_def Field64.to_integer_of_nat)
qed

theorem execution:
  assumes small: "poplar1_bits V \<le> 2 ^ 32" "SEED_SIZE (poplar1_xof V) \<le> 2 ^ 32"
    and ap: "try_from_prefixes pfxs = Ok ap" "unat (agg_level ap) < poplar1_bits V" and ne: "reports \<noteq> []" and few: "length reports < modulus Field64"
    and reports: "\<And>inp idpf_random poplar_random nonce. ((inp, idpf_random, poplar_random), nonce) \<in> set reports \<Longrightarrow>
      sized_randomness V (idpf_random, poplar_random) \<and>
      (\<exists>pub shares. poplar1_shard_with_random V inp nonce idpf_random poplar_random = Ok (pub, shares) \<and>
        is_Ok (poplar1_prepare_init V vk 0 ap nonce pub (shares ! 0)))"
  shows "run_vdaf (\<lambda>(inp, idpf_random, poplar_random) nonce. poplar1_shard_with_random V inp nonce idpf_random poplar_random) (poplar1_vdaf V) vk ap reports =
    Ok (map (prefix_total (map (fst \<circ> fst) reports)) pfxs)"
proof -
  let ?shard = "\<lambda>(inp, idpf_random, poplar_random) nonce. poplar1_shard_with_random V inp nonce idpf_random poplar_random"
  have param: "agg_prefixes ap = pfxs" "length (agg_prefixes ap) \<le> 2 ^ 32" "fitting_param V ap"
    using ap(1) [unfolded try_from_prefixes_Ok_iff] ap(2) sorted_distinct [of pfxs] by (auto simp: fitting_param_def)
  have "is_Ok (?shard m nonce)" if "(m, nonce) \<in> set reports" for m nonce
    using that reports [of "fst m" "fst (snd m)" "snd (snd m)" nonce] by (cases m) auto
  then obtain shs where shs: "map (\<lambda>(m, nonce). ?shard m nonce) reports = map Ok shs"
    "run_vdaf ?shard (poplar1_vdaf V) vk ap reports =
      run_vdaf_sharded (poplar1_vdaf V) vk ap (map (\<lambda>((m, nonce), (pub, inps)). (pub, nonce, inps)) (zip reports shs))"
    by (rule shard_all)
  let ?sharded = "map (\<lambda>((m, nonce), (pub, inps)). (pub, nonce, inps)) (zip reports shs)"
  have len: "length shs = length reports" using shs(1) by (metis length_map)
  let ?inps = "map (fst \<circ> fst) reports"
  have "\<exists>a0 a1. run_vdaf_sharded (poplar1_vdaf V) vk ap ?sharded = poplar1_unshard V ap [a0, a1] (length ?sharded) \<and>
    output_fits V ap a0 \<and> output_fits V ap a1 \<and> field_vec_merge a0 a1 = Ok (total_counts V ap ?inps)"
  proof (rule sharded_totals [OF param(2) small])
    fix k pub nonce shares
    assume k: "k < length ?sharded" and at: "?sharded ! k = (pub, nonce, shares)"
    obtain inp ir pr nonce' where r: "reports ! k = ((inp, ir, pr), nonce')" by (metis prod.exhaust)
    have "k < length reports" using k len by simp
    with r have mem: "((inp, ir, pr), nonce') \<in> set reports" by (metis nth_mem)
    have "?shard (inp, ir, pr) nonce' = Ok (shs ! k)" using arg_cong [OF shs(1), of "\<lambda>l. l ! k"] k len r by simp
    then have shard: "poplar1_shard_with_random V inp nonce ir pr = Ok (pub, shares)" using at k len r by (cases "shs ! k") simp
    have nonce: "nonce' = nonce" using at k len r by (cases "shs ! k") simp
    from reports [OF mem] shard nonce have "sized_randomness V (ir, pr)" "is_Ok (poplar1_prepare_init V vk 0 ap nonce pub (shares ! 0))" by auto
    from report_prepared [OF small param(2,3) this(1) shard this(2)] r k len
    show "\<exists>o0 o1. run_vdaf_prepare (poplar1_vdaf V) vk ap nonce pub shares = Ok [o0, o1] \<and> output_fits V ap o0 \<and> output_fits V ap o1 \<and>
        field_vec_merge o0 o1 = Ok (prefix_counts V ap (?inps ! k))" by auto
  qed (use ne len in auto)
  then obtain a0 a1 where a: "run_vdaf_sharded (poplar1_vdaf V) vk ap ?sharded = poplar1_unshard V ap [a0, a1] (length ?sharded)"
    "output_fits V ap a0" "output_fits V ap a1" "field_vec_merge a0 a1 = Ok (total_counts V ap ?inps)" by blast
  have "poplar1_unshard V ap [a0, a1] (length ?sharded) = Ok (map (prefix_total ?inps) (agg_prefixes ap))"
    using few by (intro unshard_result [OF _ a(2-4)]) simp
  then show ?thesis unfolding shs(2) a(1) param(1) .
qed

end

text \<open>The sizes of the instances.\<close>

lemma new_turboshake128_sizes:
  "poplar1_bits (new_turboshake128 prim C bits) = bits" "SEED_SIZE (poplar1_xof (new_turboshake128 prim C bits)) = 16"
  by (simp_all add: new_turboshake128_def XofTurboShake128_def)

context fiat_25519
begin

lemmas poplar_execution = poplar.execution and poplar_exchange = poplar.exchange

end

end
