(* ===== verification/Poplar1Params.thy ===== *)
theory Poplar1Params
  imports Poplar1Execution
begin

text \<open>
  The wire format of Poplar1's aggregation parameters, and what the 16-bit arithmetic on their levels does.
\<close>

section \<open>Packed prefixes\<close>

lemma nth_unpack: "i < 8 * length bs \<Longrightarrow> unpack_lsb0 bs ! i = bit (bs ! (i div 8)) (i mod 8)"
proof (induction bs arbitrary: i)
  case (Cons b bs)
  show ?case
  proof (cases "i < 8")
    case True
    then show ?thesis by (simp add: unpack_lsb0_def nth_append)
  next
    case False
    then obtain j where j: "i = 8 + j" by (metis le_Suc_ex not_less)
    with Cons have "unpack_lsb0 bs ! j = bit (bs ! (j div 8)) (j mod 8)" by simp
    moreover have "(8 + j) div 8 = Suc (j div 8)" by simp
    ultimately show ?thesis by (simp add: unpack_lsb0_def nth_append j)
  qed
qed simp

text \<open>The bits of the last byte that are not used are zero.\<close>

lemma pack_unused:
  assumes "length bs mod 8 \<noteq> 0"
  shows "drop_bit (length bs mod 8) (rev (pack_lsb0 bs) ! 0) = 0"
proof -
  let ?p = "pack_lsb0 bs" and ?m = "length bs mod 8" and ?q = "length bs div 8"
  have "(n + 7) div 8 = Suc q" if "n = 8 * q + m" "0 < m" "m < 8" for n q m :: nat
    using that by (intro div_nat_eqI) simp_all
  from this [of "length bs" ?q ?m] have len: "length ?p = Suc ?q" using assms unfolding length_pack by simp
  then have last: "rev ?p ! 0 = ?p ! ?q" by (simp add: rev_nth)
  have "\<not> bit (?p ! ?q) (?m + i)" for i
  proof (cases "?m + i < 8")
    case True
    define j where "j = 8 * ?q + (?m + i)"
    have "8 * q + r < 8 * Suc q" "(8 * q + r) div 8 = q" "(8 * q + r) mod 8 = r" if "r < 8" for q r :: nat
      using that by simp_all
    note this [OF True, of ?q]
    then have j: "j < 8 * length ?p" "j div 8 = ?q" "j mod 8 = ?m + i" unfolding j_def len .
    have "length bs \<le> j" using mult_div_mod_eq [of 8 "length bs"] unfolding j_def by linarith
    with j unpack_pack [of bs] have "\<not> unpack_lsb0 ?p ! j" by (simp add: nth_append)
    with nth_unpack [OF j(1)] j show ?thesis by simp
  next
    case False
    then show ?thesis using bit_imp_le_length [of "?p ! ?q" "?m + i"] by auto
  qed
  then show ?thesis unfolding last by (intro bit_eqI) (simp add: bit_simps)
qed

lemma take_chunks_exact:
  assumes "\<forall>xs \<in> set xss. length xs = n" "0 < n"
  shows "take (length xss) (chunks_exact n (concat xss @ pad)) = xss"
  using assms(1)
proof (induction xss)
  case (Cons xs xss)
  then have "concat (xs # xss) @ pad \<noteq> []" "length xs = n" using assms(2) by auto
  then have "chunks_exact n (concat (xs # xss) @ pad) = xs # chunks_exact n (concat xss @ pad)"
    using assms(2) by (subst chunks_exact_def, subst chunks_step) (simp_all add: chunks_exact_def)
  with Cons show ?case by simp
qed simp

section \<open>The codec\<close>

definition param_fits :: "poplar1_aggregation_param \<Rightarrow> bool" where
  "param_fits p \<longleftrightarrow> try_from_prefixes (agg_prefixes p) = Ok p"

definition param_wire :: "poplar1_aggregation_param \<Rightarrow> bytes" where
  "param_wire p = be_bytes 2 (unat (agg_level p)) @ be_bytes 4 (length (agg_prefixes p)) @
     rev (pack_lsb0 (concat (map rev (agg_prefixes p))))"

lemma unat_of_nat_u32: "n < 2 ^ 32 \<Longrightarrow> unat (of_nat n :: u32) = n"
  by (simp add: unsigned_of_nat take_bit_nat_eq_self)

sublocale byteorder \<subseteq> agg_param: codec agg_param_encode "agg_param_decode rd" param_fits param_wire
proof unfold_locales
  fix p bs
  assume fits: "param_fits p"
  then have p: "length (agg_prefixes p) < 2 ^ 32" "\<forall>q \<in> set (agg_prefixes p). length q = Suc (unat (agg_level p))"
    by (auto simp: param_fits_def try_from_prefixes_Ok_iff)
  then show "agg_param_encode p bs = Ok (bs @ param_wire p)"
    by (simp add: agg_param_encode_def param_wire_def u16.enc_wire u32.enc_wire unat_of_nat_u32)
  fix pre post
  assume small: "length (pre @ param_wire p @ post) < usize_bound"
  let ?bits = "concat (map rev (agg_prefixes p))" and ?n = "Suc (unat (agg_level p)) * length (agg_prefixes p)"
  let ?packed = "rev (pack_lsb0 ?bits)" and ?l = "be_bytes 2 (unat (agg_level p))" and ?c = "be_bytes 4 (length (agg_prefixes p))"
  have "length (concat (map rev qs)) = Suc (unat (agg_level p)) * length qs" if "\<forall>q \<in> set qs. length q = Suc (unat (agg_level p))" for qs :: "idpf_input list"
    using that by (induction qs) simp_all
  then have len: "length ?bits = ?n" using p(2) by blast
  have level: "u16_decode rd (Cursor (pre @ ?l @ ?c @ ?packed @ post) (length pre)) =
      Ok (agg_level p, Cursor (pre @ ?l @ ?c @ ?packed @ post) (length pre + 2))"
    using u16.dec_wire [of pre "agg_level p" "?c @ ?packed @ post"] small by (simp add: param_wire_def)
  have count: "u32_decode rd (Cursor (pre @ ?l @ ?c @ ?packed @ post) (length pre + 2)) =
      Ok (of_nat (length (agg_prefixes p)), Cursor (pre @ ?l @ ?c @ ?packed @ post) (length pre + 6))"
    using u32.dec_wire [of "pre @ ?l" "of_nat (length (agg_prefixes p))" "?packed @ post"] small p(1) by (simp add: param_wire_def unat_of_nat_u32)
  have unused: "\<not> (?n mod 8 \<noteq> 0 \<and> drop_bit (?n mod 8) (?packed ! 0) \<noteq> 0)" using pack_unused [of ?bits] len by auto
  have "take (length (map rev (agg_prefixes p))) (chunks_exact (Suc (unat (agg_level p))) (?bits @ replicate (8 * length (pack_lsb0 ?bits) - length ?bits) False)) =
      map rev (agg_prefixes p)" using p(2) by (intro take_chunks_exact) auto
  then have prefixes: "map rev (take (length (agg_prefixes p)) (chunks_exact (Suc (unat (agg_level p))) (unpack_lsb0 (rev ?packed)))) = agg_prefixes p"
    using unpack_pack [of ?bits] by (simp add: comp_def)
  have read: "read_exact ((?n + 7) div 8) (Cursor (pre @ ?l @ ?c @ ?packed @ post) (length pre + 6)) =
      Ok (?packed, Cursor (pre @ ?l @ ?c @ ?packed @ post) (length pre + 6 + length ?packed))"
    using length_pack [of ?bits] len by (simp add: read_exact_def)
  show "agg_param_decode rd (Cursor (pre @ param_wire p @ post) (length pre)) =
      Ok (p, Cursor (pre @ param_wire p @ post) (length pre + length (param_wire p)))"
    using level count read unused prefixes fits [unfolded param_fits_def] p(1)
    by (simp add: agg_param_decode_def param_wire_def Let_def unat_of_nat_u32 add.assoc)
qed

context byteorder
begin

lemma param_wire_small:
  assumes "param_fits p"
  shows "length (param_wire p) < usize_bound"
proof -
  have p: "length (agg_prefixes p) < 2 ^ 32" "\<forall>q \<in> set (agg_prefixes p). length q = Suc (unat (agg_level p))"
    using assms by (auto simp: param_fits_def try_from_prefixes_Ok_iff)
  have "length (concat (map rev qs)) = Suc (unat (agg_level p)) * length qs" if "\<forall>q \<in> set qs. length q = Suc (unat (agg_level p))" for qs :: "idpf_input list"
    using that by (induction qs) simp_all
  then have "length (concat (map rev (agg_prefixes p))) = Suc (unat (agg_level p)) * length (agg_prefixes p)" using p(2) by blast
  also have "\<dots> \<le> 2 ^ 16 * 2 ^ 32"
    using p(1) unsigned_less [of "agg_level p", where 'a = nat] by (intro mult_le_mono) (simp_all add: Suc_le_eq)
  finally have "length (pack_lsb0 (concat (map rev (agg_prefixes p)))) \<le> 2 ^ 48 + 7"
    unfolding length_pack using div_le_dividend [of "length (concat (map rev (agg_prefixes p))) + 7" 8] by simp
  then show ?thesis by (simp add: param_wire_def usize_bound_def)
qed

lemma param_roundtrip:
  assumes "param_fits p"
  shows "and_then (get_encoded_with_param agg_param_encode p) (get_decoded_with_param (agg_param_decode rd)) = Ok p"
  using assms param_wire_small [OF assms] by (rule agg_param.get_roundtrip)

end

section \<open>Accepted prefixes\<close>

lemma try_from_prefixes_fitting:
  assumes "try_from_prefixes pfxs = Ok ap" and "unat (agg_level ap) < poplar1_bits V"
  shows "fitting_param V ap" "agg_prefixes ap = pfxs"
  using assms sorted_distinct [of pfxs] by (auto simp: fitting_param_def try_from_prefixes_Ok_iff)

lemma prefixes_accepted:
  assumes "sorted_wrt input_less pfxs" "\<forall>p \<in> set pfxs. length p = n" "pfxs \<noteq> []" "length pfxs < 2 ^ 32" "1 \<le> n" "n \<le> 2 ^ 16"
  shows "try_from_prefixes pfxs = Ok \<lparr>agg_level = of_nat (n - 1), agg_prefixes = pfxs\<rparr>"
proof -
  from assms(5) obtain m where m: "n = Suc m" by (cases n) auto
  with assms(6) have "unat (of_nat m :: u16) = m" by (simp add: unsigned_of_nat take_bit_nat_eq_self)
  with assms m show ?thesis by (simp add: try_from_prefixes_Ok_iff)
qed

end
