(* ===== verification/Poplar1Instance.thy ===== *)
theory Poplar1Instance
  imports Poplar1Execution Prio3Types
begin

text \<open>
  Poplar1 on the primitives whose every output is zero, and on the canonical limbs: all generators draw zero, key generation
  and evaluation succeed.
\<close>

section \<open>Generators of zeros\<close>

definition zero_prng :: "reader prng \<Rightarrow> bool" where
  "zero_prng g \<longleftrightarrow> (\<exists>k. prng_stream g = Reader (\<lambda>_. 0) k) \<and>
     (\<exists>n. prng_buffer g = replicate n 0 \<and> 64 \<le> n \<and> buffer_index g \<le> n)"

definition accepts_zero :: "'f::comm_ring_1 field_element \<Rightarrow> bool" where
  "accepts_zero F \<longleftrightarrow> 0 < ENCODED_SIZE F \<and> 2 \<le> ENCODED_SIZE F \<and> ENCODED_SIZE F \<le> 64 \<and> try_from_random F (replicate (ENCODED_SIZE F) 0) = Ok 0"

definition zero_fill :: "(reader, 'e) rng \<Rightarrow> bool" where
  "zero_fill fill \<longleftrightarrow> (\<forall>n k. fill n (Reader (\<lambda>_. 0) k) = Ok (replicate n 0, Reader (\<lambda>_. 0) (k + n)))"

lemma null_zero_fill: "zero_fill (fill_bytes (XofTurboShake128 null_primitives))"
  by (simp add: zero_fill_def XofTurboShake128_def SeedStreamTurboShake128_fill_bytes_def reader_read_def map_replicate_const)

abbreviation null_reader :: "(reader, vdaf_error) rng" where
  "null_reader \<equiv> fill_bytes (XofTurboShake128 null_primitives)"

lemma null_reader_zero: "zero_fill null_reader"
  by (rule null_zero_fill)

lemma zero_scan:
  assumes "accepts_zero F"
  shows "prng_scan F (replicate n 0) i = (if i + ENCODED_SIZE F \<le> n then Ok (Some 0, i + ENCODED_SIZE F) else Ok (None, i))"
  using assms by (subst prng_scan.simps) (simp add: accepts_zero_def Let_def slice_def from_random_rejection_def)

lemma zero_get:
  assumes F: "accepts_zero F" and fill: "zero_fill fill" and g: "zero_prng g"
  shows "\<exists>g'. prng_get F fill g = Some (Ok (0, g')) \<and> zero_prng g'"
proof -
  from g obtain k n where s: "prng_stream g = Reader (\<lambda>_. 0) k" and b: "prng_buffer g = replicate n 0" "64 \<le> n" "buffer_index g \<le> n"
    by (auto simp: zero_prng_def)
  have size: "ENCODED_SIZE F \<le> n" using F b(2) by (simp add: accepts_zero_def)
  show ?thesis
  proof (cases "buffer_index g + ENCODED_SIZE F \<le> n")
    case True
    then show ?thesis using s b by (subst prng_get.simps) (auto simp: zero_scan [OF F] zero_prng_def)
  next
    case False
    let ?g = "\<lparr>prng_stream = Reader (\<lambda>_. 0) (k + buffer_index g), prng_buffer = replicate n 0, buffer_index = 0\<rparr>"
    have "drop (buffer_index g) (replicate n 0) @ replicate (buffer_index g) 0 = (replicate n 0 :: bytes)"
      using b(3) by (simp add: replicate_add [symmetric])
    then have "prng_get F fill g = prng_get F fill ?g"
      using False b s fill by (subst prng_get.simps) (simp add: zero_scan [OF F] zero_fill_def)
    also have "\<dots> = Some (Ok (0, ?g\<lparr>buffer_index := ENCODED_SIZE F\<rparr>))"
      using size by (subst prng_get.simps) (simp add: zero_scan [OF F])
    finally show ?thesis using b size by (auto simp: zero_prng_def)
  qed
qed

lemma zero_gets:
  assumes F: "accepts_zero F" and fill: "zero_fill fill" and g: "zero_prng g"
  shows "\<exists>g'. prng_gets F fill n g = Ok (replicate n 0, g') \<and> zero_prng g'"
  using g
proof (induction n arbitrary: g)
  case (Suc n)
  from zero_get [OF F fill Suc.prems] obtain g1 where g1: "prng_get F fill g = Some (Ok (0, g1))" "zero_prng g1" by blast
  from Suc.IH [OF g1(2)] g1(1) show ?case by auto
qed simp

lemma zero_from_stream:
  assumes "zero_fill fill" "accepts_zero F"
  shows "\<exists>g. from_seed_stream F fill (Reader (\<lambda>_. 0) k) = Ok g \<and> zero_prng g"
  using assms by (auto simp: from_seed_stream_def zero_fill_def zero_prng_def accepts_zero_def BUFFER_SIZE_IN_ELEMENTS_def)

lemma accepts_zero_64: "accepts_zero Field64" and accepts_zero_255: "accepts_zero (Field255 canonical_routines)"
  using Field64.try_from_random [of "replicate 8 0"] canonical.try_from_random_255 [of "replicate 32 0"] Field64.modulus_gt_1 p255_bounds(1)
  by (simp_all add: accepts_zero_def decode_residue_def)

section \<open>The instance\<close>

definition null_poplar1 :: "nat \<Rightarrow> (field255, turboshake128_state, reader) poplar1" where
  "null_poplar1 bits = new_turboshake128 null_primitives canonical_routines bits"

lemma null_poplar1_simps [simp]:
  "poplar1_bits (null_poplar1 bits) = bits" "poplar1_xof (null_poplar1 bits) = XofTurboShake128 null_primitives"
  "poplar1_prim (null_poplar1 bits) = null_primitives" "leaf_field (null_poplar1 bits) = Field255 canonical_routines"
  by (simp_all add: null_poplar1_def new_turboshake128_def)

lemma null_init_prng:
  assumes "accepts_zero F"
  shows "\<exists>g. init_prng (null_poplar1 bits) F s usage binders = Ok g \<and> zero_prng g"
proof -
  have "length (poplar1_dst usage) < 256" by (simp add: poplar1_dst_def domain_separation_tag_def)
  then show ?thesis using zero_from_stream [OF null_zero_fill assms] by (simp add: init_prng_def null_init null_into_stream)
qed

lemma null_generate:
  assumes F: "accepts_zero F" and s: "unat (length_consumed s) + ENCODED_SIZE F + 15 < 2 ^ 64"
  shows "generate_random F (SeedStreamFixedKeyAes128_fill null_primitives) s =
    Ok (0, s\<lparr>length_consumed := of_nat (unat (length_consumed s) + ENCODED_SIZE F)\<rparr>)"
  using assms
  by (subst generate_random_def, subst generate_random_loop.simps)
     (simp add: null_fill fixed_key_avail_def accepts_zero_def from_random_rejection_def)

lemma null_poplar1_yields:
  assumes F: "accepts_zero F"
  shows "yields (poplar1_value F (SeedStreamFixedKeyAes128_fill null_primitives)) () (0, 0)"
  unfolding yields_def
proof (intro allI impI)
  fix s :: fixed_key_stream
  assume s: "unat (length_consumed s) = 16"
  let ?t = "s\<lparr>length_consumed := of_nat (16 + ENCODED_SIZE F)\<rparr>"
  have size: "ENCODED_SIZE F \<le> 64" using F by (simp add: accepts_zero_def)
  have "unat (length_consumed ?t) = 16 + ENCODED_SIZE F" using size unat_of_nat_u64 [of "16 + ENCODED_SIZE F"] by simp
  with s size show "\<exists>s'. generate (poplar1_value F (SeedStreamFixedKeyAes128_fill null_primitives)) () s = Ok ((0, 0), s')"
    by (simp add: poplar1_value_def null_generate [OF F])
qed

abbreviation null_value :: "'f::comm_ring_1 field_element \<Rightarrow> (unit, 'f \<times> 'f, fixed_key_stream, idpf_error) idpf_value" where
  "null_value F \<equiv> poplar1_value F (SeedStreamFixedKeyAes128_fill null_primitives)"

lemma null_poplar1_word:
  assumes F: "accepts_zero F"
  shows "\<exists>cw keys ts. generate_correction_word null_primitives (null_value F) b v () ks ts0 ek ck = Ok (cw, keys, ts)"
proof -
  let ?V = "null_value F"
  have "value_sub ?V v (0, 0) = Ok v" "value_add ?V v (0, 0) = Ok v" by (simp_all add: poplar1_value_def)
  from null_correction_word [OF null_poplar1_yields [OF F] this, of b ks ts0 ek ck] show ?thesis
    by (cases "generate_correction_word null_primitives ?V b v () ks ts0 ek ck") auto
qed

lemma null_poplar1_step:
  assumes F: "accepts_zero F"
  shows "\<exists>r. idpf_eval_next null_primitives (null_value F) L () key t cw b ek ck = Ok r"
  by (simp add: idpf_eval_next_def null_extend null_convert [OF null_poplar1_yields [OF F]] Let_def) (simp add: poplar1_value_def)

lemma null_poplar1_trace:
  assumes F: "accepts_zero F"
  shows "\<exists>tr. eval_trace null_primitives (null_value F) L () ek ck st steps = Ok tr \<and> length tr = length steps"
proof (induction steps arbitrary: st)
  case (Cons cx steps)
  obtain cw x where cx: "cx = (cw, x)" by fastforce
  obtain r where r: "idpf_eval_next null_primitives (null_value F) L () (fst st) (snd st) cw x ek ck = Ok r"
    using null_poplar1_step [OF F] by blast
  from Cons.IH [of "snd r"] r cx show ?case by auto
qed simp

lemma null_node_share:
  assumes "p \<noteq> []" "length p \<le> Suc (length (inner_correction_words pub))" "agg_id \<le> 1"
  shows "length p \<le> length (inner_correction_words pub) \<Longrightarrow> \<exists>v. node_share (null_poplar1 bits) from_inner_share agg_id pub ek ck key p = Ok v"
    and "length p = Suc (length (inner_correction_words pub)) \<Longrightarrow> \<exists>v. node_share (null_poplar1 bits) from_leaf_share agg_id pub ek ck key p = Ok v"
proof -
  let ?V = "null_value Field64"
  obtain tr where tr: "eval_trace null_primitives ?V (agg_id = 0) () ek ck (key, agg_id \<noteq> 0) (zip (inner_correction_words pub) p) = Ok tr"
    "length tr = length (zip (inner_correction_words pub) p)" using null_poplar1_trace [OF accepts_zero_64] by blast
  show "\<exists>v. node_share (null_poplar1 bits) from_inner_share agg_id pub ek ck key p = Ok v" if "length p \<le> length (inner_correction_words pub)"
    using that assms tr by (auto simp: node_share_eval eval_node_def poplar1_idpf_def Let_def)
  obtain r where "idpf_eval_next null_primitives (null_value (Field255 canonical_routines)) (agg_id = 0) ()
      (fst (state_after (key, agg_id \<noteq> 0) tr)) (snd (state_after (key, agg_id \<noteq> 0) tr)) (leaf_correction_word pub) (last p) ek ck = (Ok r :: (_, idpf_error) outcome)"
    using null_poplar1_step [OF accepts_zero_255] by blast
  then show "\<exists>v. node_share (null_poplar1 bits) from_leaf_share agg_id pub ek ck key p = Ok v" if "length p = Suc (length (inner_correction_words pub))"
    using that assms tr by (cases r) (auto simp: node_share_eval eval_node_def poplar1_idpf_def Let_def)
qed

lemma zero_corr:
  assumes F: "accepts_zero F" and fill: "zero_fill fill" and g: "zero_prng g" "zero_prng g0" "zero_prng g1"
  shows "\<exists>r g' g0' g1'. compute_next_corr_shares F fill g g0 g1 auth = Ok (r, g', g0', g1') \<and> zero_prng g'"
proof -
  have get: "\<exists>h'. returned (prng_get F fill h) = Ok (0, h') \<and> zero_prng h'" if "zero_prng h" for h
    using zero_get [OF F fill that] by auto
  from get [OF g(2)] obtain a where a: "returned (prng_get F fill g0) = Ok (0, a)" "zero_prng a" by blast
  from get [OF a(2)] obtain b where b: "returned (prng_get F fill a) = Ok (0, b)" "zero_prng b" by blast
  from get [OF b(2)] obtain c where c: "returned (prng_get F fill b) = Ok (0, c)" "zero_prng c" by blast
  from get [OF g(3)] obtain a' where a': "returned (prng_get F fill g1) = Ok (0, a')" "zero_prng a'" by blast
  from get [OF a'(2)] obtain b' where b': "returned (prng_get F fill a') = Ok (0, b')" "zero_prng b'" by blast
  from get [OF b'(2)] obtain c' where c': "returned (prng_get F fill b') = Ok (0, c')" "zero_prng c'" by blast
  from get [OF g(1)] obtain x where x: "returned (prng_get F fill g) = Ok (0, x)" "zero_prng x" by blast
  from get [OF x(2)] obtain y where y: "returned (prng_get F fill x) = Ok (0, y)" "zero_prng y" by blast
  from a b c a' b' c' x y show ?thesis by (simp add: compute_next_corr_shares_def Let_def)
qed

lemma null_poplar1_gen:
  "\<exists>pub ks. gen_with_random null_primitives (poplar1_idpf (null_poplar1 2)) [x, y] [v] l nonce ks0 = Ok (pub, ks)"
proof -
  obtain ek ck where keys: "XofFixedKeyAes128Key_new null_primitives extend_dst nonce = (Ok ek :: (bytes, idpf_error) outcome)"
    "XofFixedKeyAes128Key_new null_primitives convert_dst nonce = (Ok ck :: (bytes, idpf_error) outcome)" by (rule idpf_keys)
  from null_poplar1_word [OF accepts_zero_64] obtain cw ks ts where
    c: "generate_correction_word null_primitives (null_value Field64) x v () ks0 (False, True) ek ck = Ok (cw, ks, ts)" by blast
  from null_poplar1_word [OF accepts_zero_255] obtain lw ks' ts' where
    l: "generate_correction_word null_primitives (null_value (Field255 canonical_routines)) y l () ks ts ek ck = Ok (lw, ks', ts')" by blast
  from keys c l show ?thesis by (simp add: gen_with_random_def poplar1_idpf_def)
qed

lemma null_poplar1_shard:
  "\<exists>pub shares. poplar1_shard_with_random (null_poplar1 2) [x, y] nonce ks (s0, s1, s) = Ok (pub, shares)"
proof -
  let ?V = "null_poplar1 2" and ?fill = null_reader and ?FL = "Field255 canonical_routines"
  have new: "into_new_field g = g" for g :: "reader prng" by (simp add: into_new_field_def)
  note init = null_init_prng [OF accepts_zero_64, of 2] null_init_prng [OF accepts_zero_255, of 2]
  from init(1) obtain g where g: "init_prng ?V Field64 s DST_SHARD_RANDOMNESS [nonce] = Ok g" "zero_prng g" by blast
  from zero_gets [OF accepts_zero_64 null_reader_zero g(2), of 1] obtain g1 where g1: "prng_gets Field64 ?fill 1 g = Ok ([0], g1)" "zero_prng g1" by auto
  from zero_get [OF accepts_zero_255 null_reader_zero g1(2)] obtain g2 where g2: "returned (prng_get ?FL ?fill g1) = Ok (0, g2)" "zero_prng g2" by auto
  from null_poplar1_gen [of x y "(1, 0)" "(1, 0)" nonce ks] obtain pub k0 k1 where
    gen: "gen_with_random null_primitives (poplar1_idpf ?V) [x, y] [(1, 0)] (1, 0) nonce ks = Ok (pub, k0, k1)" by auto
  from init(1) obtain c0 where c0: "init_prng ?V Field64 s0 DST_CORR_INNER [[0], nonce] = Ok c0" "zero_prng c0" by blast
  from init(1) obtain c1 where c1: "init_prng ?V Field64 s1 DST_CORR_INNER [[1], nonce] = Ok c1" "zero_prng c1" by blast
  from zero_corr [OF accepts_zero_64 null_reader_zero g2(2) c0(2) c1(2), of 0] obtain x0 x1 g3 d0 d1 where
    g3: "compute_next_corr_shares Field64 ?fill g2 c0 c1 0 = Ok ((x0, x1), g3, d0, d1)" "zero_prng g3" by (metis prod.exhaust)
  from init(2) obtain e0 where e0: "init_prng ?V ?FL s0 DST_CORR_LEAF [[0], nonce] = Ok e0" "zero_prng e0" by blast
  from init(2) obtain e1 where e1: "init_prng ?V ?FL s1 DST_CORR_LEAF [[1], nonce] = Ok e1" "zero_prng e1" by blast
  from zero_corr [OF accepts_zero_255 null_reader_zero g3(2) e0(2) e1(2), of 0] obtain l0 l1 g4 f0 f1 where
    g4: "compute_next_corr_shares ?FL ?fill g3 e0 e1 0 = Ok ((l0, l1), g4, f0, f1)" by (metis prod.exhaust)
  from g g1 g2 gen c0 c1 g3 e0 e1 g4 show ?thesis
    by (simp add: poplar1_shard_with_random_def Let_def new corr_step_eq)
qed

lemma all_Ok:
  assumes "\<forall>x \<in> set xs. \<exists>y. f x = Ok y"
  shows "\<exists>ys. map f xs = map Ok ys"
  using assms
proof (induction xs)
  case (Cons x xs)
  then obtain y ys where "f x = Ok y" "map f xs = map Ok ys" by auto
  then show ?case by (intro exI [of _ "y # ys"]) simp
qed simp

lemma null_sketch:
  assumes F: "accepts_zero F" and nodes: "\<And>ek ck p. p \<in> set (agg_prefixes ap) \<Longrightarrow> \<exists>v. node_share (null_poplar1 bits) from_share agg_id pub ek ck key p = Ok v"
    and g: "zero_prng g"
  shows "\<exists>r. eval_and_sketch (null_poplar1 bits) F from_share vk agg_id nonce ap pub key g = Ok r"
proof -
  obtain ek ck where keys: "XofFixedKeyAes128Key_new (poplar1_prim (null_poplar1 bits)) extend_dst nonce = (Ok ek :: (bytes, idpf_error) outcome)"
    "XofFixedKeyAes128Key_new (poplar1_prim (null_poplar1 bits)) convert_dst nonce = (Ok ck :: (bytes, idpf_error) outcome)" by (rule idpf_keys)
  from null_init_prng [OF F] obtain vg where
    vg: "init_prng (null_poplar1 bits) F vk DST_VERIFY_RANDOMNESS [nonce, be_bytes 2 (unat (agg_level ap))] = Ok vg" "zero_prng vg" by blast
  from zero_gets [OF F null_reader_zero g, of 3] obtain g' where g': "prng_gets F null_reader 3 g = Ok ([0, 0, 0], g')"
    by (auto simp: numeral_3_eq_3)
  from zero_gets [OF F null_reader_zero vg(2)] obtain h where h: "prng_gets F null_reader (length (agg_prefixes ap)) vg = Ok (replicate (length (agg_prefixes ap)) 0, h)"
    by blast
  from all_Ok [of "agg_prefixes ap"] nodes obtain shares where "map (node_share (null_poplar1 bits) from_share agg_id pub ek ck key) (agg_prefixes ap) = map Ok shares"
    by meson
  with vg(1) g' h have "\<exists>out sk. eval_and_sketch (null_poplar1 bits) F from_share vk agg_id nonce ap pub key g = Ok (out, sk)"
    unfolding eval_and_sketch_iff [OF keys] null_poplar1_simps by blast
  then show ?thesis by blast
qed

lemma null_poplar1_prepare:
  assumes shard: "poplar1_shard_with_random (null_poplar1 2) inp nonce ks seeds = Ok (pub, shares)" and ap: "fitting_param (null_poplar1 2) ap"
  shows "is_Ok (poplar1_prepare_init (null_poplar1 2) vk 0 ap nonce pub (shares ! 0))"
proof -
  let ?V = "null_poplar1 2"
  obtain share0 share1 auths auth_leaf where sh: "shares = [share0, share1]" and honest: "poplar1_report ?V inp nonce pub share0 share1 auths auth_leaf"
    by (rule shard_honest [OF shard])
  have n: "length (inner_correction_words pub) = 1" using report_public_share [OF honest] by (simp add: idpf_share_fits_def)
  have new: "into_new_field g = g" for g :: "reader prng" by (simp add: into_new_field_def)
  have corr: "length (corr_inner share0) = 1" using honest by (auto simp: poplar1_report_def)
  have len: "\<forall>p \<in> set (agg_prefixes ap). p \<noteq> [] \<and> length p = Suc (unat (agg_level ap))" using ap by (auto simp: fitting_param_def)
  consider "unat (agg_level ap) = 0" | "unat (agg_level ap) = 1" using ap by (auto simp: fitting_param_def less_2_cases_iff)
  then show ?thesis
  proof cases
    case 1
    from null_init_prng [OF accepts_zero_64] obtain g where g: "init_prng ?V Field64 (corr_seed share0) DST_CORR_INNER [[0], nonce] = Ok g" "zero_prng g" by blast
    have "\<exists>v. node_share ?V from_inner_share 0 pub ek ck (idpf_key share0) p = Ok v" if "p \<in> set (agg_prefixes ap)" for ek ck p
      using that len n 1 by (intro null_node_share(1)) auto
    from null_sketch [OF accepts_zero_64 this g(2)] obtain out sk where
      "eval_and_sketch ?V Field64 from_inner_share vk 0 nonce ap pub (idpf_key share0) g = Ok (out, sk)" by fastforce
    with g 1 sh corr show ?thesis by (simp add: poplar1_prepare_init_def Let_def)
  next
    case 2
    from null_init_prng [OF accepts_zero_255] obtain g where
      g: "init_prng ?V (Field255 canonical_routines) (corr_seed share0) DST_CORR_LEAF [[0], nonce] = Ok g" "zero_prng g" by blast
    have "\<exists>v. node_share ?V from_leaf_share 0 pub ek ck (idpf_key share0) p = Ok v" if "p \<in> set (agg_prefixes ap)" for ek ck p
      using that len n 2 by (intro null_node_share(2)) auto
    from null_sketch [OF accepts_zero_255 this g(2)] obtain out sk where
      "eval_and_sketch ?V (Field255 canonical_routines) from_leaf_share vk 0 nonce ap pub (idpf_key share0) g = Ok (out, sk)" by fastforce
    with g 2 sh new show ?thesis by (simp add: poplar1_prepare_init_def Let_def)
  qed
qed

section \<open>Reports\<close>

abbreviation null_seeds :: "(seed \<times> seed) \<times> seed \<times> seed \<times> seed" where
  "null_seeds \<equiv> ((replicate 16 1, replicate 16 2), replicate 16 3, replicate 16 4, replicate 16 5)"

lemma null_poplar1_report:
  assumes "(idpf_random, poplar_random) = null_seeds" and "fitting_param (null_poplar1 2) ap"
  shows "sized_randomness (null_poplar1 2) (idpf_random, poplar_random) \<and>
    (\<exists>pub shares. poplar1_shard_with_random (null_poplar1 2) [x, y] nonce idpf_random poplar_random = Ok (pub, shares) \<and>
      is_Ok (poplar1_prepare_init (null_poplar1 2) vk 0 ap nonce pub (shares ! 0)))"
proof -
  obtain s0 s1 s where seeds: "poplar_random = (s0, s1, s)" by (cases poplar_random)
  obtain pub shares where "poplar1_shard_with_random (null_poplar1 2) [x, y] nonce idpf_random poplar_random = Ok (pub, shares)"
    using null_poplar1_shard seeds by blast
  moreover note null_poplar1_prepare [OF this assms(2), of vk]
  moreover have "sized_randomness (null_poplar1 2) (idpf_random, poplar_random)"
    unfolding assms(1) by (simp add: sized_randomness_def XofTurboShake128_def)
  ultimately show ?thesis by blast
qed

end
