(* ===== verification/Spec2Isabelle.thy ===== *)
theory Spec2Isabelle
  imports Prio3Sum ChunkLength Poplar1Params Poplar1Instance
begin

text \<open>
  A verification library for the crate in \<^verbatim>\<open>src/\<close>, an implementation of verifiable distributed aggregation functions.  Clients
  split a measurement into shares; aggregators check, by exchanging short messages, that the shares stand for a valid
  measurement and add up what they hold; a collector adds the aggregate shares and learns the aggregate only.

  \<^bold>\<open>The parts of the program and the theories that model them.\<close>

  \<^item> Conventions.  \<open>Prelude\<close>: Rust's \<open>Result\<close> is the datatype \<open>outcome\<close> with constructors \<open>Ok\<close>, \<open>Err\<close> and, for what makes the program
    abort, \<open>Panic\<close>; \<open>and_then\<close> is the question mark, \<open>for_each\<close> a loop that may leave early.  Machine integers are words.
    A mutable argument is returned; a trait is a record of its methods, a type that implements it a value of the record.
  \<^item> Wire format.  \<open>Codec\<close> (\<^verbatim>\<open>codec.rs\<close>): cursors, integers and the four formats of length-prefixed vectors.
  \<^item> Finite fields.  \<open>Modular\<close> and \<open>Montgomery\<close> hold the number theory; \<open>Fp\<close> and \<open>Fp64\<close> (\<^verbatim>\<open>fp.rs\<close>, \<^verbatim>\<open>fp64.rs\<close>) the arithmetic on 128- and
    64-bit words with its carries; \<open>MakeField\<close>, \<open>Field\<close>, \<open>FieldVec\<close> (\<^verbatim>\<open>field.rs\<close>) the three field types, the dictionary
    \<open>field_element\<close> of their methods, vectors and additive shares; \<open>Field255\<close> (\<^verbatim>\<open>field/field255.rs\<close>) the fourth field.
  \<^item> Polynomials.  \<open>Fft\<close> (\<^verbatim>\<open>fft.rs\<close>) the in-place transform, \<open>Polynomial\<close> (\<^verbatim>\<open>polynomial.rs\<close>) evaluation, products, interpolation.
  \<^item> Proofs.  \<open>Gadgets\<close> (\<^verbatim>\<open>flp/gadgets.rs\<close>), \<open>Flp\<close> (\<^verbatim>\<open>flp.rs\<close>: \<open>prove\<close>, \<open>query\<close>, \<open>decide\<close>), \<open>Types\<close> (\<^verbatim>\<open>flp/types.rs\<close>) and \<open>Szk\<close>
    (\<^verbatim>\<open>flp/szk.rs\<close>); \<open>Circuits\<close>, \<open>Soundness\<close> and \<open>Aggregation\<close> hold the laws of the five circuits.
  \<^item> Randomness.  \<open>Xof\<close> (\<^verbatim>\<open>vdaf/xof.rs\<close>) and \<open>Prng\<close> (\<^verbatim>\<open>prng.rs\<close>, \<open>generate_random\<close>): seeds, streams and rejection sampling.
  \<^item> Trees.  \<open>Bt\<close> (\<^verbatim>\<open>bt.rs\<close>), \<open>Idpf\<close>, \<open>IdpfCorrect\<close>, \<open>IdpfCodec\<close> (\<^verbatim>\<open>idpf.rs\<close>), \<open>Vidpf\<close>, \<open>VidpfCorrect\<close> (\<^verbatim>\<open>vidpf.rs\<close>): the binary tree,
    the incremental point function with its caches and wire format, and the verifiable one.
  \<^item> The interfaces of a VDAF.  \<open>VdafError\<close>, \<open>Vdaf\<close>, \<open>VdafRun\<close> (\<^verbatim>\<open>vdaf.rs\<close>) and \<open>PingPong\<close> (\<^verbatim>\<open>topology/ping_pong.rs\<close>): roles as
    dictionaries, the end-to-end execution of the test utilities, and the two-party exchange as a step relation.
  \<^item> VDAFs.  \<open>Dummy\<close> (\<^verbatim>\<open>vdaf/dummy.rs\<close>); \<open>Prio3\<close> (\<^verbatim>\<open>vdaf/prio3.rs\<close>) with \<open>Prio3Correct\<close>, \<open>Prio3Wire\<close>, \<open>Prio3Run\<close>, \<open>Prio3Types\<close>,
    \<open>Prio3PingPong\<close>, \<open>Prio3Sum\<close> and \<open>ChunkLength\<close>; \<open>Poplar1\<close> (\<^verbatim>\<open>vdaf/poplar1.rs\<close>) with \<open>Poplar1Correct\<close>, \<open>Poplar1Run\<close>, \<open>Poplar1Wire\<close>,
    \<open>Poplar1Report\<close>, \<open>Poplar1Execution\<close> and \<open>Poplar1Params\<close>.  \<open>Instances\<close> and \<open>Poplar1Instance\<close> run them on primitives whose
    every output is zero, to show that the hypotheses of the theorems can hold.

  \<^bold>\<open>The interfaces.\<close>  The contracts between the parts are locales, interpreted on the definitions of the model: \<open>codec\<close> (an encoder
  writes bytes that its decoder reads back), \<open>prime_field\<close> (what the rest of the crate needs of a field; for the three
  fields of the macro), \<open>montgomery\<close> and its extensions (for the words of both widths), \<open>circuit\<close> with \<open>complete_circuit\<close>,
  \<open>linear_circuit\<close>, \<open>aggregating_circuit\<close> (for the five types), \<open>seed_stream\<close> and \<open>sampler\<close> (for the streams), \<open>idpf_values\<close>,
  \<open>lawful_cache\<close>, \<open>idpf_scheme\<close> and \<open>vidpf_scheme\<close> (for field elements, weights and the pairs of Poplar1, and the three caches),
  \<open>lossless_preparation\<close> (for the three VDAFs), \<open>poplar1_leaf\<close>.

  \<^bold>\<open>Packages outside \<open>src/\<close>.\<close>  They are parameters: the readers of \<open>byteorder\<close> (locale \<open>byteorder\<close>), the block cipher and hash functions
  (record \<open>primitives\<close>, with no assumption on what they compute), and the field arithmetic of \<open>fiat-crypto\<close>
  (record \<open>fiat_25519_routines\<close>, locale \<open>fiat_25519\<close>).  Cryptographic security is not a subject of the library.

  \<^bold>\<open>What is shown.\<close>  End to end: with any primitives, an execution of Prio3 or Poplar1 in which every message is encoded and
  decoded gives the collector the sum, the histogram, or the number of measurements under each prefix; both run to the
  end over the ping-pong topology; Prio3 accepts what its circuit accepts and binds joint randomness to the shares.  Below: the
  point functions evaluate to the programmed values whatever cache is used; completeness, soundness and linearity of the
  proof system; transforms and gadgets agree with their reference definitions; the word arithmetic of every field computes
  in the residues modulo its prime; the encodings of reports, messages, parameters, trees and vectors lose nothing; errors and
  refusals as the code has them.  Two theorems exhibit defects: \<open>parallel_sum_stale\<close> and \<open>poplar1_level_overflow\<close>.

  \<^bold>\<open>Loops and bounds.\<close>  Every loop of the source is a structural recursion or has a termination proof, apart from rejection sampling,
  the loops that decode trees and vectors, and the rounds of preparation, which are \<open>partial_function (option)\<close>: not to
  return is the value \<open>None\<close>, and that they return is proved (\<open>sampling_returns\<close>, \<open>tree_decode_terminates\<close>,
  \<open>decode_items_loop_returns\<close>; the executions end with a result).  Where a length is converted to a narrower integer, the
  conversion and its failure are in the model; \<open>usize\<close> has 64 bits.

  \<^bold>\<open>Not modelled.\<close>  Formatting, serde, benchmarks, the thread pools (they build the same values), the size hints \<open>encoded_len\<close>; the
  fixed-point vector type, whose measurements are numbers of a third-party package; the samplers of \<^verbatim>\<open>dp/\<close>, which compute with big
  rationals of third-party packages; Prio version 2.
\<close>

section \<open>Properties\<close>

text \<open>
  C1. A complete execution of Prio3 for sums, with any number of aggregators and any primitives, in which every message is
  encoded by its sender and decoded by its receiver: when the client shards every measurement and no query point is a root of
  unity of the order of the wire polynomials, the collector obtains the sum of the measurements modulo the order of the field.
\<close>

theorem prio3_sum_run:
  assumes "new_sum prim n bits = Ok V" and "reports \<noteq> []"
    and "\<And>m random nonce. ((m, random), nonce) \<in> set reports \<Longrightarrow> m < 2 ^ bits \<and> is_Ok (shard_with_random V m nonce random) \<and>
      (\<exists>r. derive_query_rands V verify_key nonce = Ok [r] \<and> r ^ wire_poly_len bits \<noteq> 1)"
  shows "run_vdaf (\<lambda>(m, random) nonce. shard_with_random V m nonce random) (prio3_vdaf V) verify_key () reports =
    Ok ((\<Sum>((m, random), nonce)\<leftarrow>reports. m) mod modulus Field128)"
  using assms by (rule sum_execution)


theorem prio3_sum_run_witness:
  "new_sum null_primitives 2 1 = Ok null_prio3 \<and>
   run_vdaf (\<lambda>(m, random) nonce. shard_with_random null_prio3 m nonce random) (prio3_vdaf null_prio3) (replicate 16 3) ()
     [((1, concat (replicate 5 (replicate 16 7))), replicate 16 1), ((1, concat (replicate 5 (replicate 16 7))), replicate 16 2)] = Ok 2"
proof
  show "new_sum null_primitives 2 1 = Ok null_prio3" by (rule null_prio3_new)
  let ?reports = "[((1, concat (replicate 5 (replicate 16 7))), replicate 16 1), ((1, concat (replicate 5 (replicate 16 7))), replicate 16 2)] :: ((nat \<times> bytes) \<times> bytes) list"
  have "run_vdaf (sharding null_prio3) (prio3_vdaf null_prio3) (replicate 16 3) () ?reports =
    Ok ((\<Sum>((m, random), nonce)\<leftarrow>?reports. m) mod modulus Field128)"
  proof (rule prio3_sum_run [OF null_prio3_new])
    fix m random nonce
    assume "((m, random), nonce) \<in> set ?reports"
    then have "m = 1" "random = concat (replicate 5 (replicate 16 7))" by auto
    then show "m < 2 ^ 1 \<and> is_Ok (shard_with_random null_prio3 m nonce random) \<and>
        (\<exists>r. derive_query_rands null_prio3 (replicate 16 3) nonce = Ok [r] \<and> r ^ wire_poly_len 1 \<noteq> 1)"
      using null_prio3_shard [of 1 nonce] null_prio3_query zero_not_root by fastforce
  qed simp
  then show "run_vdaf (sharding null_prio3) (prio3_vdaf null_prio3) (replicate 16 3) () ?reports = Ok 2" by (simp add: modulus_128)
qed



















text \<open>
  C9. What a client sends arrives: the public share and every input share that sharding of a summand makes can be encoded, and
  decoding the bytes with the identifier of the receiving aggregator gives them back.
\<close>

theorem prio3_report_roundtrip:
  assumes "new_sum prim n bits = Ok V" and "shard_with_random V m nonce random = Ok (pub, inps)" and "i < num_aggregators V"
  shows "and_then (get_encoded_with_param prio3_public_share_encode pub) (get_decoded_with_param (prio3_public_share_decode V)) = Ok pub \<and>
    and_then (get_encoded_with_param (input_share_encode Field128) (inps ! i)) (get_decoded_with_param (input_share_decode V i)) = Ok (inps ! i)"
  using assms by (rule sum_report_roundtrip)


theorem prio3_report_roundtrip_witness:
  "\<exists>pub inps. shard_with_random null_prio3 1 [] (concat (replicate 5 (replicate 16 7))) = Ok (pub, inps) \<and>
    and_then (get_encoded_with_param (input_share_encode Field128) (inps ! 1)) (get_decoded_with_param (input_share_decode null_prio3 1)) = Ok (inps ! 1)"
proof -
  obtain pub l h where s: "shard_with_random null_prio3 1 [] (concat (replicate 5 (replicate 16 7))) = Ok (pub, [l, h])"
    by (rule null_prio3_shares)
  have "1 < num_aggregators null_prio3" by (simp add: num_aggregators_def)
  from prio3_report_roundtrip [OF null_prio3_new s this] s show ?thesis by blast
qed

text \<open>
  C10. The aggregation parameters of Poplar1: every non-empty, strictly ascending list of fewer than \<open>2\<^sup>3\<^sup>2\<close> prefixes that all
  have one length between \<open>1\<close> and \<open>2\<^sup>1\<^sup>6\<close> is accepted, and the parameter survives a round trip through the packed
  encoding, for readers that do what the byteorder package documents.
\<close>

theorem poplar1_param_roundtrip:
  assumes "byteorder rd" and "sorted_wrt (\<lambda>p q. \<not> input_less_eq q p) candidates" and "\<forall>p \<in> set candidates. length p = n"
    and "candidates \<noteq> []" and "length candidates < 2 ^ 32" and "1 \<le> n" and "n \<le> 2 ^ 16"
  shows "try_from_prefixes candidates = Ok \<lparr>agg_level = of_nat (n - 1), agg_prefixes = candidates\<rparr> \<and>
    and_then (get_encoded_with_param agg_param_encode \<lparr>agg_level = of_nat (n - 1), agg_prefixes = candidates\<rparr>)
      (get_decoded_with_param (agg_param_decode rd)) = Ok \<lparr>agg_level = of_nat (n - 1), agg_prefixes = candidates\<rparr>"
proof -
  let ?ap = "\<lparr>agg_level = of_nat (n - 1), agg_prefixes = candidates\<rparr> :: poplar1_aggregation_param"
  have ok: "try_from_prefixes candidates = Ok ?ap" by (rule prefixes_accepted [OF assms(2-)])
  moreover have "and_then (get_encoded_with_param agg_param_encode ?ap) (get_decoded_with_param (agg_param_decode rd)) = Ok ?ap"
    by (rule byteorder.param_roundtrip [OF assms(1)]) (simp add: param_fits_def ok)
  ultimately show ?thesis by blast
qed


theorem poplar1_param_roundtrip_witness:
  "and_then (get_encoded_with_param agg_param_encode \<lparr>agg_level = 1, agg_prefixes = [[False, True], [True, False], [True, True]]\<rparr>)
     (get_decoded_with_param (agg_param_decode read_be)) = Ok \<lparr>agg_level = 1, agg_prefixes = [[False, True], [True, False], [True, True]]\<rparr>"
  using poplar1_param_roundtrip [OF be.byteorder_axioms, of "[[False, True], [True, False], [True, True]]" 2] by simp

text \<open>
  C12. The chunk length that \<open>optimal_chunk_length\<close> returns is positive and optimal: for no other chunk length is the proof of a
  histogram, or of a vector of sums with encodings of that length, shorter.
\<close>

theorem optimal_chunk_length_optimal:
  assumes "len < 2 ^ 62"
  shows "\<exists>c. optimal_chunk_length len = Ok c \<and> 0 < c \<and>
    (\<forall>c' > 0. proof_len (Histogram F len c (ceil_div len c)) \<le> proof_len (Histogram F len c' (ceil_div len c')) \<and>
      proof_len (SumVec F k bits len v c (ceil_div len c)) \<le> proof_len (SumVec F k bits len v c' (ceil_div len c')))"
  using optimal_chunk [OF assms] by (auto simp: Histogram_def SumVec_def chunk_cost_def)


theorem optimal_chunk_length_optimal_witness:
  "\<exists>c. optimal_chunk_length 1000 = Ok c \<and>
    proof_len (Histogram Field128 1000 c (ceil_div 1000 c)) \<le> proof_len (Histogram Field128 1000 7 (ceil_div 1000 7))"
proof -
  have "(1000 :: nat) < 2 ^ 62" by simp
  from optimal_chunk_length_optimal [OF this, of Field128] obtain c where "optimal_chunk_length 1000 = Ok c"
    "\<forall>c' > 0. proof_len (Histogram Field128 1000 c (ceil_div 1000 c)) \<le> proof_len (Histogram Field128 1000 c' (ceil_div 1000 c'))" by blast
  moreover have "(0 :: nat) < 7" by simp
  ultimately show ?thesis by blast
qed

text \<open>
  C13. A defect of the code: the loop that skips the correlated randomness of the levels above computes three times the level in
  16 bits.  For candidate prefixes of more than \<open>21846\<close> bits, which \<open>try_from_prefixes\<close> accepts, and trees that are
  deeper still, preparation panics for every report, whatever the shares are.
\<close>

theorem poplar1_level_overflow:
  assumes "21846 \<le> unat (agg_level ap)" and "unat (agg_level ap) < bits - 1" and "agg_id \<le> 1"
    and "is_Ok (init_prng (new_turboshake128 prim C bits) Field64 (corr_seed share) DST_CORR_INNER [[of_nat agg_id], nonce])"
  shows "poplar1_prepare_init (new_turboshake128 prim C bits) verify_key agg_id ap nonce pub share = Panic"
proof -
  from assms(4) obtain g where "init_prng (new_turboshake128 prim C bits) Field64 (corr_seed share) DST_CORR_INNER [[of_nat agg_id], nonce] = Ok g"
    by (cases "init_prng (new_turboshake128 prim C bits) Field64 (corr_seed share) DST_CORR_INNER [[of_nat agg_id], nonce]") auto
  with assms(1-3) show ?thesis by (simp add: poplar1_prepare_init_def new_turboshake128_sizes)
qed


theorem poplar1_level_overflow_witness:
  "try_from_prefixes [replicate 21847 False] = Ok \<lparr>agg_level = 21846, agg_prefixes = [replicate 21847 False]\<rparr> \<and>
   poplar1_prepare_init (null_poplar1 21848) [] 0 \<lparr>agg_level = 21846, agg_prefixes = [replicate 21847 False]\<rparr> []
     \<lparr>inner_correction_words = [], leaf_correction_word = \<lparr>cw_seed = [], cw_control_bits = (False, False), cw_value = (0, 0)\<rparr>\<rparr>
     \<lparr>idpf_key = [], corr_seed = [], corr_inner = [], corr_leaf = (0, 0)\<rparr> = Panic"
proof
  show "try_from_prefixes [replicate 21847 False] = Ok \<lparr>agg_level = 21846, agg_prefixes = [replicate 21847 False]\<rparr>"
    by (simp add: try_from_prefixes_def prefix_step_def)
  have "is_Ok (init_prng (null_poplar1 21848) Field64 [] DST_CORR_INNER [[of_nat 0], []])"
    using null_init_prng [OF accepts_zero_64, of 21848 "[]" DST_CORR_INNER "[[of_nat 0], []]"] by auto
  with poplar1_level_overflow [where ap = "\<lparr>agg_level = 21846, agg_prefixes = [replicate 21847 False]\<rparr>" and agg_id = 0 and nonce = "[]"
      and share = "\<lparr>idpf_key = [], corr_seed = [], corr_inner = [], corr_leaf = (0, 0)\<rparr>" and bits = 21848
      and prim = null_primitives and C = canonical_routines and verify_key = "[]"]
  show "poplar1_prepare_init (null_poplar1 21848) [] 0 \<lparr>agg_level = 21846, agg_prefixes = [replicate 21847 False]\<rparr> []
     \<lparr>inner_correction_words = [], leaf_correction_word = \<lparr>cw_seed = [], cw_control_bits = (False, False), cw_value = (0, 0)\<rparr>\<rparr>
     \<lparr>idpf_key = [], corr_seed = [], corr_inner = [], corr_leaf = (0, 0)\<rparr> = Panic"
    unfolding null_poplar1_def by simp
qed

text \<open>
  C14. Correctness of the verifiable incremental point function, for weights that are vectors over any of the fields and for
  any primitives: when the keys were generated for an input and a weight, the evaluations of the two servers at a non-empty
  bit string no longer than the input succeed together, their weight shares add up to the weight if the string is a prefix
  of the input and to zero otherwise, and their proofs are equal.
\<close>

theorem vidpf_correct:
  assumes "gen_with_keys prim (weight_vidpf prim F len) (k0, k1) inp weight nonce = Ok public"
    and "length weight = len" and "key_id k0 = S0" and "key_id k1 = S1" and "x \<noteq> []" and "length x \<le> length inp"
    and "vidpf_eval prim (weight_vidpf prim F len) k0 public x nonce = Ok r0"
  shows "\<exists>r1. vidpf_eval prim (weight_vidpf prim F len) k1 public x nonce = Ok r1 \<and> share_proof r0 = share_proof r1 \<and>
    length (weight_share r0) = len \<and> length (weight_share r1) = len \<and>
    map2 (+) (weight_share r0) (weight_share r1) = (if prefix x inp then weight else replicate len 0)"
proof -
  from weight_scheme.shares_and_proofs [OF assms] obtain r1 where
    r1: "vidpf_eval prim (weight_vidpf prim F len) k1 public x nonce = Ok r1" "share_proof r0 = share_proof r1"
    "value_add (weight_methods (weight_vidpf prim F len)) (weight_share r0) (weight_share r1) =
      Ok (if prefix x inp then weight else value_zero (weight_methods (weight_vidpf prim F len)) (weight_parameter (weight_vidpf prim F len)))"
    by blast
  then have "map2 (+) (weight_share r0) (weight_share r1) = (if prefix x inp then weight else replicate len 0)"
    and "length (weight_share r0) = length (weight_share r1)"
    by (auto simp: weight_vidpf_def weight_value_def map_replicate_const split: if_splits)
  moreover from this have "min (length (weight_share r0)) (length (weight_share r1)) = len"
    using assms(2) by (metis length_map length_replicate length_zip)
  ultimately show ?thesis using r1 by auto
qed


theorem vidpf_correct_witness:
  "\<exists>public r0 r1. gen_with_keys null_primitives (weight_vidpf null_primitives Field64 2)
      (\<lparr>key_id = S0, key_value = replicate 16 1\<rparr>, \<lparr>key_id = S1, key_value = replicate 16 2\<rparr>) [True, False] [5, 7] [] = Ok public \<and>
    vidpf_eval null_primitives (weight_vidpf null_primitives Field64 2) \<lparr>key_id = S0, key_value = replicate 16 1\<rparr> public [True] [] = Ok r0 \<and>
    vidpf_eval null_primitives (weight_vidpf null_primitives Field64 2) \<lparr>key_id = S1, key_value = replicate 16 2\<rparr> public [True] [] = Ok r1 \<and>
    map2 (+) (weight_share r0) (weight_share r1) = [5, 7]"
proof -
  let ?I = "weight_vidpf null_primitives Field64 2"
  let ?k0 = "\<lparr>key_id = S0, key_value = replicate 16 1\<rparr>" and ?k1 = "\<lparr>key_id = S1, key_value = replicate 16 2\<rparr>"
  obtain public where g: "gen_with_keys null_primitives ?I (?k0, ?k1) [True, False] [5, 7] [] = Ok public"
    using null_vidpf_gen by blast
  obtain r0 where r0: "vidpf_eval null_primitives ?I ?k0 public [True] [] = Ok r0"
    using weight_scheme.on_path_total [OF g, of "[True]"] by auto
  from vidpf_correct [OF g _ _ _ _ _ r0] g r0 show ?thesis by auto
qed

text \<open>
  C15. Evaluation on the path returns: once the keys of the verifiable point function have been generated, both servers
  evaluate every non-empty prefix of the input without an error, and the values they reconstruct together are the weight.
\<close>

theorem vidpf_prefixes_return:
  assumes gen: "gen_with_keys prim (weight_vidpf prim F len) (k0, k1) inp weight nonce = Ok public"
    and w: "length weight = len" and ids: "key_id k0 = S0" "key_id k1 = S1" and x: "x \<noteq> []" "prefix x inp"
  shows "\<exists>r0 r1. vidpf_eval prim (weight_vidpf prim F len) k0 public x nonce = Ok r0 \<and>
    vidpf_eval prim (weight_vidpf prim F len) k1 public x nonce = Ok r1 \<and>
    value_add (weight_value F (SeedStreamFixedKeyAes128_fill prim)) (weight_share r0) (weight_share r1) = (Ok weight :: (_, vidpf_error) outcome)"
proof -
  obtain r0 where r0: "vidpf_eval prim (weight_vidpf prim F len) k0 public x nonce = Ok r0"
    using weight_scheme.on_path_total [OF gen w ids x(2)] by blast
  from weight_scheme.shares_and_proofs [OF gen w ids x(1) _ r0] x(2) r0 show ?thesis
    by (auto simp: prefix_length_le weight_vidpf_def)
qed


theorem vidpf_prefixes_return_witness:
  "\<exists>public r0. gen_with_keys null_primitives (weight_vidpf null_primitives Field64 2)
      (\<lparr>key_id = S0, key_value = replicate 16 1\<rparr>, \<lparr>key_id = S1, key_value = replicate 16 2\<rparr>) [True, False] [5, 7] [] = Ok public \<and>
    vidpf_eval null_primitives (weight_vidpf null_primitives Field64 2) \<lparr>key_id = S0, key_value = replicate 16 1\<rparr> public [True, False] [] = Ok r0"
proof -
  obtain public where g: "gen_with_keys null_primitives (weight_vidpf null_primitives Field64 2)
      (\<lparr>key_id = S0, key_value = replicate 16 1\<rparr>, \<lparr>key_id = S1, key_value = replicate 16 2\<rparr>) [True, False] [5, 7] [] = Ok public"
    using null_vidpf_gen by blast
  from vidpf_prefixes_return [OF g, of "[True, False]"] g show ?thesis by auto
qed

text \<open>
  C16. Correctness of the incremental point function with field elements as values at the inner levels and at the leaves, for
  any primitives: after key generation the two evaluations at a non-empty prefix no longer than the input succeed together
  and their shares merge to the value programmed at that level if the prefix is one of the input, and to zero otherwise.
\<close>

theorem idpf_correct:
  assumes "gen_with_random prim (field_idpf prim FI FL) inp vs lv bindr (k0, k1) = Ok (pub, keys)"
    and "pfx \<noteq> []" and "length pfx \<le> length inp"
    and "idpf_eval prim (field_idpf prim FI FL) 0 pub k0 pfx bindr NoCache () = Ok (o0, ())"
  shows "\<exists>o1. idpf_eval prim (field_idpf prim FI FL) 1 pub k1 pfx bindr NoCache () = Ok (o1, ()) \<and>
    output_share_merge (inner_values (field_idpf prim FI FL)) (leaf_values (field_idpf prim FI FL)) o0 o1 =
      Ok (if length pfx = length inp then LeafShare (if pfx = inp then lv else 0)
          else InnerShare (if prefix pfx inp then vs ! (length pfx - 1) else 0))"
proof -
  have z: "value_zero (inner_values (field_idpf prim FI FL)) x = 0" "value_zero (leaf_values (field_idpf prim FI FL)) x = 0" for x
    by (simp_all add: field_idpf_def field_value_def)
  from field_idpf_shares [OF assms] show ?thesis unfolding programmed_def z .
qed


theorem idpf_correct_witness:
  "\<exists>pub o0 o1. gen_with_random null_primitives (field_idpf null_primitives Field64 Field64) [True, False] [5] 7 []
      (replicate 16 1, replicate 16 2) = Ok (pub, replicate 16 1, replicate 16 2) \<and>
    idpf_eval null_primitives (field_idpf null_primitives Field64 Field64) 0 pub (replicate 16 1) [True] [] NoCache () = Ok (o0, ()) \<and>
    idpf_eval null_primitives (field_idpf null_primitives Field64 Field64) 1 pub (replicate 16 2) [True] [] NoCache () = Ok (o1, ()) \<and>
    output_share_merge (inner_values (field_idpf null_primitives Field64 Field64)) (leaf_values (field_idpf null_primitives Field64 Field64)) o0 o1 =
      Ok (InnerShare 5)"
proof -
  let ?I = "field_idpf null_primitives Field64 Field64"
  obtain pub where g: "gen_with_random null_primitives ?I [True, False] [5] 7 [] (replicate 16 1, replicate 16 2) =
      Ok (pub, replicate 16 1, replicate 16 2)" using null_idpf_gen by blast
  obtain o0 where o0: "idpf_eval null_primitives ?I 0 pub (replicate 16 1) [True] [] NoCache () = Ok (o0, ())"
    using field_idpf_total [OF g, of "[True]"] by auto
  from idpf_correct [OF g _ _ o0] g o0 show ?thesis by auto
qed

text \<open>
  C17. The caches of the incremental point function change no result: evaluating any sequence of prefixes with the unbounded
  cache, or with a ring buffer of any capacity, gives the outputs and errors that evaluation without a cache gives.
\<close>

theorem caches_transparent:
  "eval_all prim I agg_id pub key bindr HashMapCache Map.empty pfxs = eval_all prim I agg_id pub key bindr NoCache () pfxs \<and>
   eval_all prim I agg_id pub key bindr RingBufferCache (RingBufferCache_new capacity) pfxs =
     eval_all prim I agg_id pub key bindr NoCache () pfxs"
  using cache_independent [OF HashMapCache.lawful_cache_axioms NoCache.lawful_cache_axioms]
    cache_independent [OF RingBufferCache.lawful_cache_axioms NoCache.lawful_cache_axioms] by blast







text \<open>
  C20. The ping-pong exchange implements preparation: for every VDAF whose preparation messages survive their encoding, the
  exchange of serialized messages between a leader and a helper stops with two outputs if and only if preparation with both
  parties in lock step, without any messages, ends with these outputs, and whenever it stops both parties have finished.
\<close>

theorem exchange_refines_preparation:
  assumes "lossless_preparation A ap (Preparing l sl h sh)"
    and "prepare_init A vk 0 ap nonce pub linp = Ok (l, sl)" and "prepare_init A vk 1 ap nonce pub hinp = Ok (h, sh)"
    and "leader_initialized A vk ap nonce pub linp = Ok (ls, msg)"
  shows "((pp_step A vk ap nonce pub hinp)\<^sup>*\<^sup>* (Opening ls msg) (Stopped (Finished lo) (Finished ho)) \<longleftrightarrow>
      (plain_step A ap)\<^sup>*\<^sup>* (Preparing l sl h sh) (Prepared lo ho)) \<and>
    ((pp_step A vk ap nonce pub hinp)\<^sup>*\<^sup>* (Opening ls msg) (Stopped ls' hs') \<longrightarrow> (\<exists>lo ho. ls' = Finished lo \<and> hs' = Finished ho))"
  using lossless_preparation.exchange_outputs [OF assms(1-3) refl assms(4)] by blast


theorem exchange_refines_preparation_witness:
  "\<exists>ls msg. leader_initialized (dummy_aggregator (Dummy_new 3)) [] 0 [] () 4 = Ok (ls, msg) \<and>
    (pp_step (dummy_aggregator (Dummy_new 3)) [] 0 [] () 9)\<^sup>*\<^sup>* (Opening ls msg) (Stopped (Finished 4) (Finished 9))"
proof -
  let ?A = "dummy_aggregator (Dummy_new 3)"
  let ?l = "\<lparr>dummy_input_share = 4, current_round = 0\<rparr>" and ?h = "\<lparr>dummy_input_share = 9, current_round = 0\<rparr>"
  have init: "prepare_init ?A [] 0 0 [] () 4 = Ok (?l, ())" "prepare_init ?A [] 1 0 [] () 9 = Ok (?h, ())"
    by (simp_all add: dummy_aggregator_def Dummy_new_def)
  obtain ls msg where m: "leader_initialized ?A [] 0 [] () 4 = Ok (ls, msg)"
    using init(1) unit_roundtrip by (auto simp: leader_initialized_def dummy_aggregator_def)
  have "(plain_step ?A 0)\<^sup>*\<^sup>* (Preparing ?l () ?h ()) (Prepared 4 9)"
    using dummy_plain_run [of 0 3 0 4 9] by simp
  with exchange_refines_preparation [OF dummy.lossless_preparation_axioms init m, of 4 9] m show ?thesis by blast
qed

lemma mod_sum_step:
  assumes "(x + d) mod 256 = m" and "(a + b) mod 256 = s mod 256"
  shows "(x + a + (d + b)) mod 256 = (m + s) mod (256 :: nat)"
proof -
  have "(x + a + (d + b)) mod 256 = ((x + d) mod 256 + (a + b) mod 256) mod 256" by (simp add: mod_add_eq ac_simps)
  then show ?thesis by (simp add: assms mod_add_right_eq)
qed

lemma dummy_shard_sum: "(unat r + unat (m - r :: byte)) mod 256 = unat m"
  using unat_word_ariths(1) [of r "m - r"] by simp

text \<open>
  C21. A whole run of the test VDAF: for any number of rounds but zero, the ping-pong exchange on the shares of a measurement
  ends with the shares as outputs, and aggregating the outputs of any number of reports on each side and collecting the two
  aggregate shares gives the sum of the measurements modulo 256, plus the aggregation parameter.
\<close>

theorem dummy_run:
  fixes reports :: "(byte \<times> byte) list"
  assumes "rounds \<noteq> 0"
  defines "A \<equiv> dummy_aggregator (Dummy_new rounds)"
  shows "(\<forall>(r, m) \<in> set reports. \<exists>x y ls msg. dummy_shard r m = ((), [x, y]) \<and> leader_initialized A vk ap nonce () x = Ok (ls, msg) \<and>
      (pp_step A vk ap nonce () y)\<^sup>*\<^sup>* (Opening ls msg) (Stopped (Finished (ucast x)) (Finished (ucast y)))) \<and>
    (\<exists>a b. dummy_aggregate ap (map (\<lambda>(r, m). ucast (snd (dummy_shard r m) ! 0)) reports) = Ok a \<and>
      dummy_aggregate ap (map (\<lambda>(r, m). ucast (snd (dummy_shard r m) ! 1)) reports) = Ok b \<and>
      dummy_unshard ap [a, b] (length reports) = Ok (of_nat ((\<Sum>(r, m)\<leftarrow>reports. unat m) mod 256 + unat ap)))"
proof (intro conjI)
  have exch: "\<exists>ls msg. leader_initialized A vk ap nonce () x = Ok (ls, msg) \<and>
      (pp_step A vk ap nonce () y)\<^sup>*\<^sup>* (Opening ls msg) (Stopped (Finished (ucast x)) (Finished (ucast y)))" for x y
  proof -
    let ?l = "\<lparr>dummy_input_share = x, current_round = 0\<rparr>" and ?h = "\<lparr>dummy_input_share = y, current_round = 0\<rparr>"
    have init: "prepare_init A vk 0 ap nonce () x = Ok (?l, ())" "prepare_init A vk 1 ap nonce () y = Ok (?h, ())"
      by (simp_all add: A_def dummy_aggregator_def Dummy_new_def)
    obtain ls msg where m: "leader_initialized A vk ap nonce () x = Ok (ls, msg)"
      using init(1) unit_roundtrip by (auto simp: leader_initialized_def A_def dummy_aggregator_def)
    have "0 < unat rounds" using assms(1) by (simp add: unat_gt_0)
    from dummy_plain_run [OF this, of ap x y] have "(plain_step A ap)\<^sup>*\<^sup>* (Preparing ?l () ?h ()) (Prepared (ucast x) (ucast y))"
      by (simp add: A_def)
    then show ?thesis
      using dummy.exchange_outputs(1) [OF init [unfolded A_def] refl m [unfolded A_def], of "ucast x" "ucast y"] m by (auto simp: A_def)
  qed
  show "\<forall>(r, m) \<in> set reports. \<exists>x y ls msg. dummy_shard r m = ((), [x, y]) \<and> leader_initialized A vk ap nonce () x = Ok (ls, msg) \<and>
      (pp_step A vk ap nonce () y)\<^sup>*\<^sup>* (Opening ls msg) (Stopped (Finished (ucast x)) (Finished (ucast y)))"
    using exch by (simp add: dummy_shard_def overflowing_sub_def split_beta)
  let ?a = "map (\<lambda>(r, m). ucast (snd (dummy_shard r m) ! 0)) reports :: u64 list"
  let ?b = "map (\<lambda>(r, m). ucast (snd (dummy_shard r m) ! 1)) reports :: u64 list"
  have small: "unat (ucast (x :: byte) :: u64) = unat x" "unat x < 256" for x :: byte
    using unsigned_less [of x, where 'a = nat] by (simp_all add: unsigned_ucast_eq take_bit_nat_eq_self)
  have sums: "(sum_list (map unat ?a) + sum_list (map unat ?b)) mod 256 = (\<Sum>(r, m)\<leftarrow>reports. unat m) mod 256"
  proof (induction reports)
    case (Cons rm reports)
    obtain r m where rm: "rm = (r, m)" by fastforce
    show ?case using mod_sum_step [OF dummy_shard_sum [of r m] Cons]
      by (simp add: rm dummy_shard_def overflowing_sub_def small)
  qed simp
  have "dummy_aggregate ap ?a = Ok (of_nat (sum_list (map unat ?a) mod 256))" "dummy_aggregate ap ?b = Ok (of_nat (sum_list (map unat ?b) mod 256))"
    by (intro dummy_aggregate_value; auto simp: small)+
  moreover have "dummy_unshard ap [of_nat (sum_list (map unat ?a) mod 256), of_nat (sum_list (map unat ?b) mod 256)] (length reports) =
      Ok (of_nat ((\<Sum>(r, m)\<leftarrow>reports. unat m) mod 256 + unat ap))"
    using dummy_unshard_value [of "[of_nat (sum_list (map unat ?a) mod 256), of_nat (sum_list (map unat ?b) mod 256)]" ap "length reports"] sums
    by (simp add: unat_of_byte_sum mod_add_eq)
  ultimately show "\<exists>a b. dummy_aggregate ap ?a = Ok a \<and> dummy_aggregate ap ?b = Ok b \<and>
      dummy_unshard ap [a, b] (length reports) = Ok (of_nat ((\<Sum>(r, m)\<leftarrow>reports. unat m) mod 256 + unat ap))" by blast
qed


theorem dummy_run_witness:
  "\<exists>a b. dummy_aggregate 1 (map (\<lambda>(r, m). ucast (snd (dummy_shard r m) ! 0)) [(200, 5), (3, 254)]) = Ok a \<and>
    dummy_aggregate 1 (map (\<lambda>(r, m). ucast (snd (dummy_shard r m) ! 1)) [(200, 5), (3, 254)]) = Ok b \<and>
    dummy_unshard 1 [a, b] 2 = Ok 4"
proof -
  have l: "length [(200, 5), (3, 254) :: byte \<times> byte] = 2" by simp
  have s: "(\<Sum>(r, m)\<leftarrow>[(200, 5), (3, 254) :: byte \<times> byte]. unat m) mod 256 + unat (1 :: byte) = 4" by simp
  have "(1 :: u32) \<noteq> 0" by simp
  from conjunct2 [OF dummy_run [OF this, of "[(200, 5), (3, 254)]" "[]" 1 "[]"]] show ?thesis
    unfolding l s of_nat_numeral .
qed

end
